(* ===== verification/Prelude.thy ===== *)
theory Prelude
  imports Main "HOL-Library.Word" "HOL-Library.Multiset"
begin

unbundle bit_operations_syntax

text \<open>
  Shared vocabulary of the NetCore development: the machine types of
  \<^verbatim>\<open>src/MyNetworkLib/CoreTypes.h\<close>, the outcome of an operation that may crash the process,
  transition systems with their reachable states, the two locales every concurrent component is
  an instance of (an inductive invariant, a forward simulation), and the lemmas on lists, sums
  over threads and words that the component theories share.
\<close>

section \<open>Machine types\<close>

type_synonym ubyte = "8 word"
type_synonym uint16 = "16 word"
type_synonym int32 = "32 word"
type_synonym uint32 = "32 word"
type_synonym uint64 = "64 word"

text \<open>Fact collections: word arithmetic at the boundary to \<^typ>\<open>nat\<close>, and the unfolding rules of
  the loop bodies that are kept out of the simpset.\<close>

named_theorems word_nat
named_theorems loop_unfold

section \<open>Outcomes\<close>

text \<open>
  What stops a C++ operation before it returns. \<open>AssertCrash\<close> is the \<^verbatim>\<open>ASSERT_CRASH\<close> macro (a
  write through a null pointer) with the library's error code; the others are the undefined
  behaviours and exceptions the operations can run into.
\<close>

datatype fault =
    AssertCrash uint32
  | NullDereference
  | UseAfterFree
  | UninitializedPointer
  | BufferOverrun
  | OverlappingCopy
  | OutOfRange
  | BadFunctionCall
  | Terminate

datatype 'a outcome = Fault fault | Ok 'a

fun is_ok :: "'a outcome \<Rightarrow> bool" where
  "is_ok (Ok _) = True"
| "is_ok (Fault _) = False"

fun and_then :: "'a outcome \<Rightarrow> ('a \<Rightarrow> 'b outcome) \<Rightarrow> 'b outcome" where
  "and_then (Ok x) f = f x"
| "and_then (Fault e) f = Fault e"

lemma and_then_assoc: "and_then (and_then x f) g = and_then x (\<lambda>y. and_then (f y) g)"
  by (cases x) auto

lemma and_then_Ok_iff [simp]: "and_then x f = Ok y \<longleftrightarrow> (\<exists>z. x = Ok z \<and> f z = Ok y)"
  by (cases x) auto

lemma and_then_Fault_iff:
  "and_then x f = Fault e \<longleftrightarrow> x = Fault e \<or> (\<exists>z. x = Ok z \<and> f z = Fault e)"
  by (cases x) auto

lemma is_ok_iff: "is_ok x \<longleftrightarrow> (\<exists>y. x = Ok y)"
  by (cases x) auto

text \<open>A loop over a list whose body may stop it.\<close>

fun fold_ok :: "('x \<Rightarrow> 's \<Rightarrow> 's outcome) \<Rightarrow> 'x list \<Rightarrow> 's \<Rightarrow> 's outcome" where
  "fold_ok f [] s = Ok s"
| "fold_ok f (x # xs) s = and_then (f x s) (fold_ok f xs)"

lemma fold_ok_append: "fold_ok f (xs @ ys) s = and_then (fold_ok f xs s) (fold_ok f ys)"
proof (induction xs arbitrary: s)
  case (Cons x xs)
  then show ?case by (cases "f x s") simp_all
qed simp

lemma fold_ok_inv:
  assumes "\<And>x s s'. f x s = Ok s' \<Longrightarrow> g s' = g s" and "fold_ok f xs s = Ok s'"
  shows "g s' = g s"
  using assms(2)
proof (induction xs arbitrary: s)
  case (Cons x xs)
  then obtain t where t: "f x s = Ok t" "fold_ok f xs t = Ok s'" by auto
  from Cons.IH [OF t(2)] assms(1) [OF t(1)] show ?case by simp
qed simp

section \<open>Transition systems\<close>

inductive reach :: "('s \<Rightarrow> bool) \<Rightarrow> ('s \<Rightarrow> 's \<Rightarrow> bool) \<Rightarrow> 's \<Rightarrow> bool"
  for init :: "'s \<Rightarrow> bool" and step :: "'s \<Rightarrow> 's \<Rightarrow> bool" where
  reach_init: "init s \<Longrightarrow> reach init step s"
| reach_step: "reach init step s \<Longrightarrow> step s t \<Longrightarrow> reach init step t"

text \<open>What is reached from one state of a system.\<close>

lemma reach_from:
  assumes "reach (\<lambda>m. m = s) step s'" and "reach init step s"
  shows "reach init step s'"
  using assms by (induction rule: reach.induct) (auto intro: reach_step)

lemma reach_starts:
  assumes "reach (\<lambda>m. m = s) step s'" and "P s"
  shows "reach P step s'"
  using assms by (induction rule: reach.induct) (auto intro: reach.intros)

fun run_steps :: "('s \<Rightarrow> 'e \<Rightarrow> 's) \<Rightarrow> 's \<Rightarrow> 'e list \<Rightarrow> 's" where
  "run_steps f s [] = s"
| "run_steps f s (e # es) = run_steps f (f s e) es"

lemma run_steps_append: "run_steps f s (xs @ ys) = run_steps f (run_steps f s xs) ys"
  by (induction xs arbitrary: s) auto

text \<open>An inductive invariant holds in every reachable state.\<close>

locale invariant_system =
  fixes init :: "'s \<Rightarrow> bool"
    and step :: "'s \<Rightarrow> 's \<Rightarrow> bool"
    and inv :: "'s \<Rightarrow> bool"
  assumes inv_init: "init s \<Longrightarrow> inv s"
    and inv_step: "inv s \<Longrightarrow> step s t \<Longrightarrow> inv t"
begin

lemma reach_inv: "reach init step s \<Longrightarrow> inv s"
  by (induction rule: reach.induct) (auto intro: inv_init inv_step)

end

text \<open>
  A forward simulation under an invariant: each concrete step is a step of the specification or
  leaves the abstract state alone, so the abstract image of a reachable state is reachable.
\<close>

locale simulation = invariant_system cinit cstep inv
  for cinit :: "'c \<Rightarrow> bool" and cstep :: "'c \<Rightarrow> 'c \<Rightarrow> bool" and inv :: "'c \<Rightarrow> bool" +
  fixes ainit :: "'a \<Rightarrow> bool"
    and astep :: "'a \<Rightarrow> 'a \<Rightarrow> bool"
    and abs :: "'c \<Rightarrow> 'a"
  assumes sim_init: "cinit s \<Longrightarrow> ainit (abs s)"
    and sim_step: "inv s \<Longrightarrow> cstep s t \<Longrightarrow> abs t = abs s \<or> astep (abs s) (abs t)"
begin

lemma reach_abs: "reach cinit cstep s \<Longrightarrow> reach ainit astep (abs s)"
proof (induction rule: reach.induct)
  case (reach_init s)
  then show ?case by (auto intro: reach.reach_init sim_init)
next
  case (reach_step s t)
  from reach_step.hyps(1) have "inv s" by (rule reach_inv)
  with reach_step.hyps(2) have "abs t = abs s \<or> astep (abs s) (abs t)"
    by (rule sim_step [rotated])
  with reach_step.IH show ?case by (auto intro: reach.reach_step)
qed

end

section \<open>Lists, sums and words\<close>

text \<open>Updating one thread's state changes a sum over the threads in that summand only.\<close>

lemma sum_fun_upd:
  fixes f :: "'b \<Rightarrow> 'c :: comm_monoid_add"
  assumes "finite T" and "t \<in> T"
  shows "(\<Sum>u\<in>T. f ((g(t := x)) u)) + f (g t) = (\<Sum>u\<in>T. f (g u)) + f x"
proof -
  have "(\<Sum>u\<in>T. f ((g(t := x)) u)) = f x + (\<Sum>u\<in>T - {t}. f ((g(t := x)) u))"
    using assms by (simp add: sum.remove)
  also have "(\<Sum>u\<in>T - {t}. f ((g(t := x)) u)) = (\<Sum>u\<in>T - {t}. f (g u))"
    by (rule sum.cong) auto
  finally show ?thesis
    using assms by (simp add: sum.remove ac_simps)
qed

lemma member_le_sum_nat:
  fixes f :: "'b \<Rightarrow> nat"
  assumes "finite T" and "t \<in> T"
  shows "f t \<le> (\<Sum>u\<in>T. f u)"
  using assms by (simp add: member_le_sum)

lemma unat_of_nat_small [word_nat]:
  "n < 2 ^ LENGTH('a) \<Longrightarrow> unat (of_nat n :: 'a::len word) = n"
  by (simp add: unat_of_nat)

lemma unat_add_small [word_nat]:
  "unat a + unat b < 2 ^ LENGTH('a) \<Longrightarrow> unat (a + b :: 'a::len word) = unat a + unat b"
  by (simp add: unat_add_lem [THEN iffD1])

lemma unat_sub_small [word_nat]:
  "b \<le> a \<Longrightarrow> unat (a - b :: 'a::len word) = unat a - unat b"
  by (simp add: unat_sub)

lemma unat_uint32_bound: "unat (w :: uint32) < 2 ^ 32"
proof -
  have "unat w < 2 ^ LENGTH(32)" by (rule unsigned_less)
  then show ?thesis by simp
qed

lemma of_nat_word_inj:
  "m < 2 ^ LENGTH('a) \<Longrightarrow> n < 2 ^ LENGTH('a) \<Longrightarrow>
     (of_nat m :: 'a::len word) = of_nat n \<longleftrightarrow> m = n"
  by (metis unat_of_nat_small)

text \<open>Signed 32-bit counters: \<^verbatim>\<open>Atomic<int>\<close> and its comparison with a \<^verbatim>\<open>size_t\<close>.\<close>

lemma sint_range32: "- (2 ^ 31) \<le> sint (c :: int32)" "sint c < 2 ^ 31"
  using sint_greater_eq [of c] sint_lt [of c] by simp_all

lemma sint_of_int32:
  assumes "- (2 ^ 31) \<le> i" "i < 2 ^ 31"
  shows "sint (word_of_int i :: int32) = i"
  using assms by (simp add: sint_sbintrunc' signed_take_bit_int_eq_self)

lemma sint_inj32: "sint (c :: int32) = sint d \<longleftrightarrow> c = d"
  by (rule signed_word_eqI [THEN iffI]) simp_all

lemma int32_eq_0_iff: "(c :: int32) = 0 \<longleftrightarrow> sint c = 0"
  using sint_inj32 [of c 0] by simp

lemma sint_int32_inc:
  assumes "(c :: int32) \<noteq> 0x7FFFFFFF"
  shows "sint (c + 1) = sint c + 1"
proof -
  have "sint c \<noteq> 2 ^ 31 - 1" using assms sint_inj32 [of c "0x7FFFFFFF"] by simp
  then have "sint (word_of_int (sint c + 1) :: int32) = sint c + 1" using sint_range32 [of c] by (intro sint_of_int32) auto
  then show ?thesis by simp
qed

lemma sint_int32_sub:
  assumes "int n \<le> sint (c :: int32)"
  shows "sint (c - of_nat n) = sint c - int n"
proof -
  have "sint (word_of_int (sint c - int n) :: int32) = sint c - int n" using sint_range32 [of c] assms by (intro sint_of_int32) auto
  then show ?thesis by simp
qed

lemma scast_eq_of_nat_iff:
  assumes "int n \<le> sint (c :: int32)"
  shows "(scast c :: uint64) = of_nat n \<longleftrightarrow> sint c = int n"
proof -
  have "0 \<le> sint c" "sint c < 2 ^ 64" "int n < 2 ^ 64" using sint_range32 [of c] assms by auto
  moreover have "(word_of_int (sint c) :: uint64) = word_of_int (int n) \<longleftrightarrow> take_bit 64 (sint c) = take_bit 64 (int n)"
    by (subst word_of_int_eq_iff) simp
  ultimately show ?thesis by (simp add: take_bit_int_eq_self)
qed

end
