(* ===== verification/Error_Handler.thy ===== *)
theory Error_Handler
  imports Prelude
begin

text \<open>
  The error handler, \<^verbatim>\<open>src/MyNetworkLib/ErrorHandler.h\<close>, with the crash macros of
  \<^verbatim>\<open>CoreMacroDef.h\<close>. The enumeration \<^verbatim>\<open>Errors\<close> is a datatype with its codes, the process-wide
  \<^verbatim>\<open>_app_last_error\<close> is the record \<open>err_state\<close>, and each checker is a function of that state. What
  \<^verbatim>\<open>WSAGetLastError()\<close> returns is an argument. Logging has no effect on the modelled state. The two
  free function templates \<^verbatim>\<open>CheckError\<close> and \<^verbatim>\<open>WSACheckError\<close> at the end of the header are never
  instantiated and are left out.
\<close>

section \<open>Definitions\<close>

datatype Errors =
    NONE
  | WSASTARTUP_FAILED
  | WSAIOCTL_CONNECTEX_FAILED
  | WSAIOCTL_ACCEPTEX_FAILED
  | WSAClEANUP_FAILED
  | WSASOCKETW_FAILED
  | WSA_SET_LINGER_FAILED
  | WSA_SET_REUSEADDR_FAILED
  | WSA_SET_RCVBUF_FAILED
  | WSA_SET_SNDBUF_FAILED
  | WSA_SET_TCP_NODELAY_FAILED
  | WSA_SET_UPDATE_ACCEPT_CONTEXT_FAILED
  | WSA_BIND_FAILED
  | WSA_BIND_ANYADDRESS_FAILED
  | WSA_LISTEN_FAILED
  | WSA_CLOSE_SOCKET_FAILED
  | WSA_GET_PEER_NAME_FAILED
  | WSA_SEND_FAILED
  | WSA_RECV_FAILED
  | WSA_CONNECTEX_FAILED
  | WSA_ACCEPTEX_FAILED
  | WSAIOCTL_DISCONNECTEX_FAILED
  | WSA_DISCONNECTEX_FAILED
  | WSA_SETSOCKOPT_UPDATE_CONNECT_CONTEXT_FAILED
  | THREAD_LOCK_TIMEOUT
  | THREAD_LOCK_INVALID_WRITE_UNLOCK_ORDER
  | THREAD_LOCK_MULTIPLE_READ_UNLOCK
  | APP_REGISTER_HANDLE_FAILED_IOCP_CORE
  | APP_SERVICE_IOCPCORE_NULLPTR
  | APP_SERVICE_SESSIONFACTORY_NULLPTR
  | APP_SERVICE_SOCKADDR_INVALID
  | APP_SERVICE_IS_ALREADY_STARTED
  | APP_CLIENTSERVICE_CONNECT_FAILED
  | APP_SERVERSERVICE_LISTEN_FAILED
  | APP_CONNECTOR_SERVICE_WAS_NOT_CLIENT
  | APP_LISTENER_SERVICE_WAS_NOT_SERVER
  | APP_SESSION_SET_SOCKET_ALLOWED_ONLY_IN_CONNECTOR
  | APP_SENDBUFFER_SIZE_OVERFLOW
  | APP_RECVBUFFER_INVALID_DATA
  | APP_RECVBUFFER_OVERFLOW

fun error_code :: "Errors \<Rightarrow> uint32" where
  "error_code NONE = 0"
| "error_code WSASTARTUP_FAILED = 101"
| "error_code WSAIOCTL_CONNECTEX_FAILED = 102"
| "error_code WSAIOCTL_ACCEPTEX_FAILED = 103"
| "error_code WSAClEANUP_FAILED = 104"
| "error_code WSASOCKETW_FAILED = 105"
| "error_code WSA_SET_LINGER_FAILED = 106"
| "error_code WSA_SET_REUSEADDR_FAILED = 107"
| "error_code WSA_SET_RCVBUF_FAILED = 108"
| "error_code WSA_SET_SNDBUF_FAILED = 109"
| "error_code WSA_SET_TCP_NODELAY_FAILED = 110"
| "error_code WSA_SET_UPDATE_ACCEPT_CONTEXT_FAILED = 111"
| "error_code WSA_BIND_FAILED = 112"
| "error_code WSA_BIND_ANYADDRESS_FAILED = 113"
| "error_code WSA_LISTEN_FAILED = 114"
| "error_code WSA_CLOSE_SOCKET_FAILED = 115"
| "error_code WSA_GET_PEER_NAME_FAILED = 116"
| "error_code WSA_SEND_FAILED = 117"
| "error_code WSA_RECV_FAILED = 118"
| "error_code WSA_CONNECTEX_FAILED = 119"
| "error_code WSA_ACCEPTEX_FAILED = 120"
| "error_code WSAIOCTL_DISCONNECTEX_FAILED = 121"
| "error_code WSA_DISCONNECTEX_FAILED = 122"
| "error_code WSA_SETSOCKOPT_UPDATE_CONNECT_CONTEXT_FAILED = 123"
| "error_code THREAD_LOCK_TIMEOUT = 501"
| "error_code THREAD_LOCK_INVALID_WRITE_UNLOCK_ORDER = 502"
| "error_code THREAD_LOCK_MULTIPLE_READ_UNLOCK = 503"
| "error_code APP_REGISTER_HANDLE_FAILED_IOCP_CORE = 1001"
| "error_code APP_SERVICE_IOCPCORE_NULLPTR = 2001"
| "error_code APP_SERVICE_SESSIONFACTORY_NULLPTR = 2002"
| "error_code APP_SERVICE_SOCKADDR_INVALID = 2003"
| "error_code APP_SERVICE_IS_ALREADY_STARTED = 2004"
| "error_code APP_CLIENTSERVICE_CONNECT_FAILED = 2005"
| "error_code APP_SERVERSERVICE_LISTEN_FAILED = 2006"
| "error_code APP_CONNECTOR_SERVICE_WAS_NOT_CLIENT = 3001"
| "error_code APP_LISTENER_SERVICE_WAS_NOT_SERVER = 4001"
| "error_code APP_SESSION_SET_SOCKET_ALLOWED_ONLY_IN_CONNECTOR = 5001"
| "error_code APP_SENDBUFFER_SIZE_OVERFLOW = 6001"
| "error_code APP_RECVBUFFER_INVALID_DATA = 6002"
| "error_code APP_RECVBUFFER_OVERFLOW = 6003"

text \<open>The enumerators in the order of the header, and their spelling.\<close>

definition all_errors :: "Errors list" where
  "all_errors = [NONE,
     WSASTARTUP_FAILED,
     WSAIOCTL_CONNECTEX_FAILED,
     WSAIOCTL_ACCEPTEX_FAILED,
     WSAClEANUP_FAILED,
     WSASOCKETW_FAILED,
     WSA_SET_LINGER_FAILED,
     WSA_SET_REUSEADDR_FAILED,
     WSA_SET_RCVBUF_FAILED,
     WSA_SET_SNDBUF_FAILED,
     WSA_SET_TCP_NODELAY_FAILED,
     WSA_SET_UPDATE_ACCEPT_CONTEXT_FAILED,
     WSA_BIND_FAILED,
     WSA_BIND_ANYADDRESS_FAILED,
     WSA_LISTEN_FAILED,
     WSA_CLOSE_SOCKET_FAILED,
     WSA_GET_PEER_NAME_FAILED,
     WSA_SEND_FAILED,
     WSA_RECV_FAILED,
     WSA_CONNECTEX_FAILED,
     WSA_ACCEPTEX_FAILED,
     WSAIOCTL_DISCONNECTEX_FAILED,
     WSA_DISCONNECTEX_FAILED,
     WSA_SETSOCKOPT_UPDATE_CONNECT_CONTEXT_FAILED,
     THREAD_LOCK_TIMEOUT,
     THREAD_LOCK_INVALID_WRITE_UNLOCK_ORDER,
     THREAD_LOCK_MULTIPLE_READ_UNLOCK,
     APP_REGISTER_HANDLE_FAILED_IOCP_CORE,
     APP_SERVICE_IOCPCORE_NULLPTR,
     APP_SERVICE_SESSIONFACTORY_NULLPTR,
     APP_SERVICE_SOCKADDR_INVALID,
     APP_SERVICE_IS_ALREADY_STARTED,
     APP_CLIENTSERVICE_CONNECT_FAILED,
     APP_SERVERSERVICE_LISTEN_FAILED,
     APP_CONNECTOR_SERVICE_WAS_NOT_CLIENT,
     APP_LISTENER_SERVICE_WAS_NOT_SERVER,
     APP_SESSION_SET_SOCKET_ALLOWED_ONLY_IN_CONNECTOR,
     APP_SENDBUFFER_SIZE_OVERFLOW,
     APP_RECVBUFFER_INVALID_DATA,
     APP_RECVBUFFER_OVERFLOW]"

fun error_name :: "Errors \<Rightarrow> string" where
  "error_name NONE = ''NONE''"
| "error_name WSASTARTUP_FAILED = ''WSASTARTUP_FAILED''"
| "error_name WSAIOCTL_CONNECTEX_FAILED = ''WSAIOCTL_CONNECTEX_FAILED''"
| "error_name WSAIOCTL_ACCEPTEX_FAILED = ''WSAIOCTL_ACCEPTEX_FAILED''"
| "error_name WSAClEANUP_FAILED = ''WSAClEANUP_FAILED''"
| "error_name WSASOCKETW_FAILED = ''WSASOCKETW_FAILED''"
| "error_name WSA_SET_LINGER_FAILED = ''WSA_SET_LINGER_FAILED''"
| "error_name WSA_SET_REUSEADDR_FAILED = ''WSA_SET_REUSEADDR_FAILED''"
| "error_name WSA_SET_RCVBUF_FAILED = ''WSA_SET_RCVBUF_FAILED''"
| "error_name WSA_SET_SNDBUF_FAILED = ''WSA_SET_SNDBUF_FAILED''"
| "error_name WSA_SET_TCP_NODELAY_FAILED = ''WSA_SET_TCP_NODELAY_FAILED''"
| "error_name WSA_SET_UPDATE_ACCEPT_CONTEXT_FAILED = ''WSA_SET_UPDATE_ACCEPT_CONTEXT_FAILED''"
| "error_name WSA_BIND_FAILED = ''WSA_BIND_FAILED''"
| "error_name WSA_BIND_ANYADDRESS_FAILED = ''WSA_BIND_ANYADDRESS_FAILED''"
| "error_name WSA_LISTEN_FAILED = ''WSA_LISTEN_FAILED''"
| "error_name WSA_CLOSE_SOCKET_FAILED = ''WSA_CLOSE_SOCKET_FAILED''"
| "error_name WSA_GET_PEER_NAME_FAILED = ''WSA_GET_PEER_NAME_FAILED''"
| "error_name WSA_SEND_FAILED = ''WSA_SEND_FAILED''"
| "error_name WSA_RECV_FAILED = ''WSA_RECV_FAILED''"
| "error_name WSA_CONNECTEX_FAILED = ''WSA_CONNECTEX_FAILED''"
| "error_name WSA_ACCEPTEX_FAILED = ''WSA_ACCEPTEX_FAILED''"
| "error_name WSAIOCTL_DISCONNECTEX_FAILED = ''WSAIOCTL_DISCONNECTEX_FAILED''"
| "error_name WSA_DISCONNECTEX_FAILED = ''WSA_DISCONNECTEX_FAILED''"
| "error_name WSA_SETSOCKOPT_UPDATE_CONNECT_CONTEXT_FAILED = ''WSA_SETSOCKOPT_UPDATE_CONNECT_CONTEXT_FAILED''"
| "error_name THREAD_LOCK_TIMEOUT = ''THREAD_LOCK_TIMEOUT''"
| "error_name THREAD_LOCK_INVALID_WRITE_UNLOCK_ORDER = ''THREAD_LOCK_INVALID_WRITE_UNLOCK_ORDER''"
| "error_name THREAD_LOCK_MULTIPLE_READ_UNLOCK = ''THREAD_LOCK_MULTIPLE_READ_UNLOCK''"
| "error_name APP_REGISTER_HANDLE_FAILED_IOCP_CORE = ''APP_REGISTER_HANDLE_FAILED_IOCP_CORE''"
| "error_name APP_SERVICE_IOCPCORE_NULLPTR = ''APP_SERVICE_IOCPCORE_NULLPTR''"
| "error_name APP_SERVICE_SESSIONFACTORY_NULLPTR = ''APP_SERVICE_SESSIONFACTORY_NULLPTR''"
| "error_name APP_SERVICE_SOCKADDR_INVALID = ''APP_SERVICE_SOCKADDR_INVALID''"
| "error_name APP_SERVICE_IS_ALREADY_STARTED = ''APP_SERVICE_IS_ALREADY_STARTED''"
| "error_name APP_CLIENTSERVICE_CONNECT_FAILED = ''APP_CLIENTSERVICE_CONNECT_FAILED''"
| "error_name APP_SERVERSERVICE_LISTEN_FAILED = ''APP_SERVERSERVICE_LISTEN_FAILED''"
| "error_name APP_CONNECTOR_SERVICE_WAS_NOT_CLIENT = ''APP_CONNECTOR_SERVICE_WAS_NOT_CLIENT''"
| "error_name APP_LISTENER_SERVICE_WAS_NOT_SERVER = ''APP_LISTENER_SERVICE_WAS_NOT_SERVER''"
| "error_name APP_SESSION_SET_SOCKET_ALLOWED_ONLY_IN_CONNECTOR = ''APP_SESSION_SET_SOCKET_ALLOWED_ONLY_IN_CONNECTOR''"
| "error_name APP_SENDBUFFER_SIZE_OVERFLOW = ''APP_SENDBUFFER_SIZE_OVERFLOW''"
| "error_name APP_RECVBUFFER_INVALID_DATA = ''APP_RECVBUFFER_INVALID_DATA''"
| "error_name APP_RECVBUFFER_OVERFLOW = ''APP_RECVBUFFER_OVERFLOW''"

text \<open>\<^verbatim>\<open>std::map::insert\<close> keeps an existing binding.\<close>

definition map_insert :: "('k \<rightharpoonup> 'v) \<Rightarrow> 'k \<times> 'v \<Rightarrow> ('k \<rightharpoonup> 'v)" where
  "map_insert m kv = (case m (fst kv) of None \<Rightarrow> m(fst kv \<mapsto> snd kv) | Some _ \<Rightarrow> m)"

definition InitErrorMap :: "(uint32 \<rightharpoonup> string) \<Rightarrow> (uint32 \<rightharpoonup> string)" where
  "InitErrorMap m = foldl map_insert m [
     (0, ''NONE''),
     (101, ''WSASTARTUP_FAILED''),
     (102, ''WSAIOCTL_CONNECTEX_FAILED''),
     (103, ''WSAIOCTL_ACCEPTEX_FAILED''),
     (104, ''WSAClEANUP_FAILED''),
     (105, ''WSASOCKETW_FAILED''),
     (106, ''WSA_SET_LINGER_FAILED''),
     (107, ''WSA_SET_REUSEADDR_FAILED''),
     (108, ''WSA_SET_RCVBUF_FAILED''),
     (109, ''WSA_SET_SNDBUF_FAILED''),
     (110, ''WSA_SET_TCP_NODELAY_FAILED''),
     (111, ''WSA_SET_UPDATE_ACCEPT_CONTEXT_FAILED''),
     (112, ''WSA_BIND_FAILED''),
     (113, ''WSA_BIND_ANYADDRESS_FAILED''),
     (114, ''WSA_LISTEN_FAILED''),
     (115, ''WSA_CLOSE_SOCKET_FAILED''),
     (116, ''WSA_GET_PEER_NAME_FAILED''),
     (117, ''WSA_SEND_FAILED''),
     (118, ''WSA_RECV_FAILED''),
     (119, ''WSA_CONNECTEX_FAILED''),
     (120, ''WSA_ACCEPTEX_FAILED''),
     (121, ''WSAIOCTL_DISCONNECTEX_FAILED''),
     (122, ''WSA_DISCONNECTEX_FAILED''),
     (123, ''WSA_SETSOCKOPT_UPDATE_CONNECT_CONTEXT_FAILED''),
     (501, ''THREAD_LOCK_TIMEOUT''),
     (502, ''THREAD_LOCK_INVALID_WRITE_UNLOCK_ORDER''),
     (503, ''THREAD_LOCK_MULTIPLE_READ_UNLOCK''),
     (1001, ''APP_REGISTER_HANDLE_FAILED_IOCP_CORE''),
     (2001, ''APP_SERVICE_IOCPCORE_NULLPTR''),
     (2002, ''APP_SERVICE_SESSIONFACTORY_NULLPTR''),
     (2003, ''APP_SERVICE_SOCKADDR_INVALID''),
     (2004, ''APP_SERVICE_IS_ALREADY_STARTED''),
     (2005, ''APP_CLIENTSERVICE_CONNECT_FAILED''),
     (2006, ''APP_SERVERSERVICE_LISTEN_FAILED''),
     (3001, ''APP_CONNECTOR_SERVICE_WAS_NOT_CLIENT''),
     (4001, ''APP_LISTENER_SERVICE_WAS_NOT_SERVER''),
     (5001, ''APP_SESSION_SET_SOCKET_ALLOWED_ONLY_IN_CONNECTOR''),
     (6001, ''APP_SENDBUFFER_SIZE_OVERFLOW''),
     (6002, ''APP_RECVBUFFER_INVALID_DATA''),
     (6003, ''APP_RECVBUFFER_OVERFLOW'')]"

definition GetErrorName :: "(uint32 \<rightharpoonup> string) \<Rightarrow> uint32 \<Rightarrow> string" where
  "GetErrorName errors code = (case errors code of Some name \<Rightarrow> name | None \<Rightarrow> ''Undefined Error'')"

record err_state =
  app_last_error :: uint32

definition GetLastError :: "err_state \<Rightarrow> uint32" where
  "GetLastError s = app_last_error s"

definition SetLastError :: "Errors \<Rightarrow> err_state \<Rightarrow> err_state" where
  "SetLastError error s = s\<lparr>app_last_error := error_code error\<rparr>"

text \<open>
  \<^verbatim>\<open>ASSERT_CRASH(condition)\<close>: a null-pointer write unless the condition holds. Several call sites
  pass a string literal as the condition; a literal converts to a pointer that is never null, so
  as a C++ condition it is true whatever it spells.
\<close>

definition ASSERT_CRASH :: "bool \<Rightarrow> err_state \<Rightarrow> err_state outcome" where
  "ASSERT_CRASH condition s = (if \<not> condition then Fault (AssertCrash (app_last_error s)) else Ok s)"

definition string_literal_condition :: "string \<Rightarrow> bool" where
  "string_literal_condition text = True"

definition AssertCrash_if :: "bool \<Rightarrow> Errors \<Rightarrow> err_state \<Rightarrow> err_state outcome" where
  "AssertCrash_if condition errCode s =
     (if \<not> condition then ASSERT_CRASH False (SetLastError errCode s) else Ok s)"

definition AssertCrash_always :: "Errors \<Rightarrow> err_state \<Rightarrow> err_state outcome" where
  "AssertCrash_always errCode s = ASSERT_CRASH False (SetLastError errCode s)"

definition CheckError :: "bool \<Rightarrow> Errors \<Rightarrow> err_state \<Rightarrow> uint32 \<times> err_state" where
  "CheckError condition errCode s =
     (if \<not> condition then (error_code errCode, SetLastError errCode s) else (error_code NONE, s))"

definition SOCKET_ERROR :: int32 where "SOCKET_ERROR = -1"
definition INVALID_SOCKET :: uint64 where "INVALID_SOCKET = -1"
definition WSA_IO_PENDING :: int32 where "WSA_IO_PENDING = 997"

definition WSACheckSocketError ::
    "int32 \<Rightarrow> Errors \<Rightarrow> bool \<Rightarrow> err_state \<Rightarrow> (bool \<times> err_state) outcome" where
  "WSACheckSocketError val errCode crash s =
     (if val = SOCKET_ERROR
      then let s1 = SetLastError errCode s
           in and_then
                (if crash
                 then ASSERT_CRASH (string_literal_condition ''WSALastError was SOCKET_ERROR'') s1
                 else Ok s1)
                (\<lambda>s2. Ok (False, s2))
      else Ok (True, s))"

definition CheckSocketValid ::
    "uint64 \<Rightarrow> Errors \<Rightarrow> bool \<Rightarrow> err_state \<Rightarrow> (bool \<times> err_state) outcome" where
  "CheckSocketValid socket errCode crash s =
     (if socket = INVALID_SOCKET
      then let s1 = SetLastError errCode s
           in and_then
                (if crash
                 then ASSERT_CRASH (string_literal_condition ''WSALastError was INVALID_SOCKET'') s1
                 else Ok s1)
                (\<lambda>s2. Ok (False, s2))
      else Ok (True, s))"

text \<open>\<open>wsaErr\<close> is what \<^verbatim>\<open>WSAGetLastError()\<close> returns. The first component of the result is the
  returned flag, the second the output parameter \<^verbatim>\<open>wsaLastError\<close>.\<close>

definition WSACheckErrorExceptPending2 :: "bool \<Rightarrow> int32 \<Rightarrow> int32 \<Rightarrow> bool \<times> int32" where
  "WSACheckErrorExceptPending2 condition wsaErr wsaLastError =
     (if condition = False
      then (if wsaErr \<noteq> WSA_IO_PENDING then (False, wsaErr) else (True, wsaErr))
      else (True, wsaLastError))"

definition WSACheckErrorExceptPending ::
    "bool \<Rightarrow> int32 \<Rightarrow> Errors \<Rightarrow> err_state \<Rightarrow> int32 \<times> err_state" where
  "WSACheckErrorExceptPending condition wsaErr errorCode s =
     (if condition = False
      then (if wsaErr = WSA_IO_PENDING then (0, s) else (wsaErr, SetLastError errorCode s))
      else (0, s))"

section \<open>The code table\<close>

lemma set_all_errors: "set all_errors = UNIV"
proof -
  have "e \<in> set all_errors" for e
    by (cases e) (simp_all add: all_errors_def)
  then show ?thesis by auto
qed

lemma distinct_error_codes: "distinct (map error_code all_errors)"
  by (simp add: all_errors_def)

lemma inj_error_code: "inj error_code"
  using distinct_error_codes by (simp add: distinct_map set_all_errors)

lemma error_code_eq_iff [simp]: "error_code e = error_code f \<longleftrightarrow> e = f"
  using inj_error_code by (simp add: inj_eq)

lemma error_code_0_iff [simp]: "error_code e = 0 \<longleftrightarrow> e = NONE"
  by (metis error_code.simps(1) error_code_eq_iff)

text \<open>The enumeration is ordered by code, the key order of the \<^verbatim>\<open>std::map\<close> of error names.\<close>

instantiation Errors :: linorder
begin

definition less_eq_Errors_def: "e \<le> f \<longleftrightarrow> error_code e \<le> error_code f"
definition less_Errors_def: "e < f \<longleftrightarrow> error_code e < error_code f"

instance
  by standard (auto simp: less_eq_Errors_def less_Errors_def order.strict_iff_order)

end

lemma sorted_all_errors: "sorted_wrt (<) all_errors"
  by (simp add: all_errors_def less_Errors_def)

lemma map_insert_map_of:
  "foldl map_insert m kvs k = (case m k of Some v \<Rightarrow> Some v | None \<Rightarrow> map_of kvs k)"
proof (induction kvs arbitrary: m)
  case Nil
  then show ?case by (simp split: option.splits)
next
  case (Cons kv kvs)
  then show ?case by (cases kv) (auto simp: map_insert_def split: option.splits)
qed

lemma InitErrorMap_empty:
  "InitErrorMap Map.empty k = map_of (map (\<lambda>e. (error_code e, error_name e)) all_errors) k"
  unfolding InitErrorMap_def map_insert_map_of all_errors_def by simp

lemma map_of_error_names:
  "map_of (map (\<lambda>e. (error_code e, error_name e)) es) (error_code e) =
     (if e \<in> set es then Some (error_name e) else None)"
  by (induction es) auto

section \<open>Checkers\<close>

lemma literal_never_crashes [simp]: "ASSERT_CRASH (string_literal_condition t) s = Ok s"
  by (simp add: ASSERT_CRASH_def string_literal_condition_def)

lemma CheckError_eq_NONE [simp]: "fst (CheckError c e s) = 0 \<longleftrightarrow> c \<or> e = NONE"
  by (auto simp: CheckError_def)

lemma CheckError_state: "snd (CheckError c e s) = (if c then s else SetLastError e s)"
  by (simp add: CheckError_def)

lemma WSACheckSocketError_result:
  "WSACheckSocketError v e crash s =
     Ok (v \<noteq> SOCKET_ERROR, if v = SOCKET_ERROR then SetLastError e s else s)"
  by (simp add: WSACheckSocketError_def Let_def)

lemma CheckSocketValid_result:
  "CheckSocketValid v e crash s =
     Ok (v \<noteq> INVALID_SOCKET, if v = INVALID_SOCKET then SetLastError e s else s)"
  by (simp add: CheckSocketValid_def Let_def)

lemmas socket_check_results = WSACheckSocketError_result CheckSocketValid_result

section \<open>Properties of the error handler\<close>

lemma distinct_error_names: "distinct (map error_name all_errors)"
  by (simp add: all_errors_def)

lemma error_name_eq_iff: "error_name e = error_name f \<longleftrightarrow> e = f"
  using distinct_error_names by (auto simp: distinct_map set_all_errors inj_eq)

lemma error_name_defined: "error_name e \<noteq> ''Undefined Error''"
  by (cases e) simp_all

lemma GetErrorName_code: "GetErrorName (InitErrorMap Map.empty) (error_code e) = error_name e"
  by (simp add: GetErrorName_def InitErrorMap_empty map_of_error_names set_all_errors)

text \<open>After \<^verbatim>\<open>InitErrorMap\<close> on an empty table, \<^verbatim>\<open>GetErrorName\<close> names every error code by its enumerator,
  two codes of the enumeration share a name only if they are the same code, and exactly the codes
  outside the enumeration are undefined.\<close>

theorem GetErrorName_roundtrip:
  "GetErrorName (InitErrorMap Map.empty) (error_code e) = error_name e \<and>
   (GetErrorName (InitErrorMap Map.empty) (error_code e) =
      GetErrorName (InitErrorMap Map.empty) (error_code f) \<longleftrightarrow> e = f) \<and>
   (GetErrorName (InitErrorMap Map.empty) c = ''Undefined Error'' \<longleftrightarrow> c \<notin> range error_code)"
proof -
  have "GetErrorName (InitErrorMap Map.empty) c = ''Undefined Error'' \<longleftrightarrow> c \<notin> range error_code"
  proof (cases "c \<in> range error_code")
    case True
    then show ?thesis using GetErrorName_code error_name_defined by auto
  next
    case False
    then have "InitErrorMap Map.empty c = None"
      by (auto simp: InitErrorMap_empty map_of_eq_None_iff)
    with False show ?thesis by (simp add: GetErrorName_def)
  qed
  then show ?thesis by (simp add: GetErrorName_code error_name_eq_iff)
qed

text \<open>\<^verbatim>\<open>WSACheckSocketError\<close> and \<^verbatim>\<open>CheckSocketValid\<close> always return: whatever the \<^verbatim>\<open>crash\<close> argument, a bad
  value makes them record the error code and answer false. The string literal they hand to
  \<^verbatim>\<open>ASSERT_CRASH\<close> is a true condition, so the documented crash never happens. \<^verbatim>\<open>AssertCrash\<close>, which passes
  a constant false, does crash with the code it recorded.\<close>

theorem socket_checks_never_crash:
  "WSACheckSocketError v e crash s =
     Ok (v \<noteq> SOCKET_ERROR, if v = SOCKET_ERROR then SetLastError e s else s) \<and>
   CheckSocketValid sock e crash s =
     Ok (sock \<noteq> INVALID_SOCKET, if sock = INVALID_SOCKET then SetLastError e s else s) \<and>
   AssertCrash_always e s = Fault (AssertCrash (error_code e))"
  by (simp add: socket_check_results AssertCrash_always_def ASSERT_CRASH_def SetLastError_def)

end
