(* ===== verification/RW_Lock.thy ===== *)
theory RW_Lock
  imports Error_Handler
begin

text \<open>
  The read-write lock, \<^verbatim>\<open>src/MyNetworkLib/RWLock.h\<close> and \<^verbatim>\<open>RWLock.cpp\<close>, with the scoped guards of
  \<^verbatim>\<open>Lock.h\<close>. First each operation as one call: what the call reads from the shared lock while other
  threads run is the sequence \<open>obs\<close> of lock states it meets, what \<^verbatim>\<open>GetTickCount64()\<close> returns is the
  sequence \<open>clock\<close>; the spin loop is a \<^theory_text>\<open>partial_function\<close> because nothing bounds it when the
  clock stands still. Then all threads at once: a step relation in which every load, store,
  compare-exchange and fetch-add is one step, its invariant, mutual exclusion, and a simulation
  onto an abstract read-write lock.
\<close>

section \<open>The lock word\<close>

abbreviation (input) FLAG_SIZE :: nat where "FLAG_SIZE \<equiv> 16"
abbreviation (input) TIMEOUT_TICK :: uint64 where "TIMEOUT_TICK \<equiv> 10000"
abbreviation (input) MAX_SPIN_COUNT :: nat where "MAX_SPIN_COUNT \<equiv> 10000"
abbreviation (input) WRITE_THREAD_MASK :: uint32 where "WRITE_THREAD_MASK \<equiv> 0xFFFF0000"
abbreviation (input) READ_COUNT_MASK :: uint32 where "READ_COUNT_MASK \<equiv> 0x0000FFFF"
abbreviation (input) EMPTY :: uint32 where "EMPTY \<equiv> 0"

record rw_lock =
  lockFlag :: uint32
  writeCount :: uint16

definition RWLock_new :: rw_lock where
  "RWLock_new = \<lparr>lockFlag = EMPTY, writeCount = 0\<rparr>"

definition get_lock_thread_id :: "rw_lock \<Rightarrow> uint32" where
  "get_lock_thread_id l = drop_bit FLAG_SIZE (lockFlag l AND WRITE_THREAD_MASK)"

definition get_write_desired_flag :: "uint32 \<Rightarrow> uint32" where
  "get_write_desired_flag TLS_Id = push_bit FLAG_SIZE TLS_Id AND WRITE_THREAD_MASK"

definition get_read_lock_count :: "rw_lock \<Rightarrow> uint32" where
  "get_read_lock_count l = lockFlag l AND READ_COUNT_MASK"

section \<open>The operations as single calls\<close>

text \<open>The inner \<^verbatim>\<open>for\<close> loop of \<^verbatim>\<open>WriteLock\<close>: at most \<open>n\<close> compare-exchanges against \<^verbatim>\<open>EMPTY\<close>, the first
  of them at observation \<open>k\<close>; the index of the one that succeeds.\<close>

fun WriteLock_spin :: "(nat \<Rightarrow> rw_lock) \<Rightarrow> nat \<Rightarrow> nat \<Rightarrow> nat option" where
  "WriteLock_spin obs 0 k = None"
| "WriteLock_spin obs (Suc n) k =
     (if lockFlag (obs k) = EMPTY then Some k else WriteLock_spin obs n (Suc k))"

partial_function (option) WriteLock_loop ::
    "(nat \<Rightarrow> rw_lock) \<Rightarrow> (nat \<Rightarrow> uint64) \<Rightarrow> uint64 \<Rightarrow> nat \<Rightarrow> nat \<Rightarrow> nat outcome option" where
  "WriteLock_loop obs clock beginTick k i =
     (case WriteLock_spin obs MAX_SPIN_COUNT k of
        Some j \<Rightarrow> Some (Ok j)
      | None \<Rightarrow>
          (if clock i - beginTick \<ge> TIMEOUT_TICK
           then Some (Fault (AssertCrash (error_code THREAD_LOCK_TIMEOUT)))
           else WriteLock_loop obs clock beginTick (k + MAX_SPIN_COUNT) (Suc i)))"

definition WriteLock ::
    "uint32 \<Rightarrow> (nat \<Rightarrow> rw_lock) \<Rightarrow> (nat \<Rightarrow> uint64) \<Rightarrow> rw_lock outcome option" where
  "WriteLock TLS_Id obs clock =
     (let l = obs 0; lockThreadId = get_lock_thread_id l
      in if TLS_Id = lockThreadId
         then Some (Ok (l\<lparr>writeCount := writeCount l + 1\<rparr>))
         else
           (let beginTick = clock 0; desired = get_write_desired_flag TLS_Id
            in map_option
                 (\<lambda>r. and_then r
                    (\<lambda>j. Ok ((obs j)\<lparr>lockFlag := desired, writeCount := writeCount (obs j) + 1\<rparr>)))
                 (WriteLock_loop obs clock beginTick 1 1)))"

definition WriteUnlock :: "rw_lock \<Rightarrow> rw_lock outcome" where
  "WriteUnlock l =
     (if get_read_lock_count l \<noteq> 0
      then Fault (AssertCrash (error_code THREAD_LOCK_INVALID_WRITE_UNLOCK_ORDER))
      else
        (let lockCount = writeCount l - 1; l1 = l\<lparr>writeCount := lockCount\<rparr>
         in if lockCount = 0 then Ok (l1\<lparr>lockFlag := EMPTY\<rparr>) else Ok l1))"

text \<open>One iteration of the inner loop of \<^verbatim>\<open>ReadLock\<close> reads the lock twice: the load of the read count
  at observation \<open>k\<close> and the compare-exchange at observation \<open>k + 1\<close>.\<close>

fun ReadLock_spin :: "(nat \<Rightarrow> rw_lock) \<Rightarrow> nat \<Rightarrow> nat \<Rightarrow> nat option" where
  "ReadLock_spin obs 0 k = None"
| "ReadLock_spin obs (Suc n) k =
     (let expected = get_read_lock_count (obs k)
      in if lockFlag (obs (Suc k)) = expected then Some (Suc k)
         else ReadLock_spin obs n (Suc (Suc k)))"

partial_function (option) ReadLock_loop ::
    "(nat \<Rightarrow> rw_lock) \<Rightarrow> (nat \<Rightarrow> uint64) \<Rightarrow> uint64 \<Rightarrow> nat \<Rightarrow> nat \<Rightarrow> nat outcome option" where
  "ReadLock_loop obs clock beginTick k i =
     (case ReadLock_spin obs MAX_SPIN_COUNT k of
        Some j \<Rightarrow> Some (Ok j)
      | None \<Rightarrow>
          (if clock i - beginTick \<ge> TIMEOUT_TICK
           then Some (Fault (AssertCrash (error_code THREAD_LOCK_TIMEOUT)))
           else ReadLock_loop obs clock beginTick (k + 2 * MAX_SPIN_COUNT) (Suc i)))"

definition ReadLock ::
    "uint32 \<Rightarrow> (nat \<Rightarrow> rw_lock) \<Rightarrow> (nat \<Rightarrow> uint64) \<Rightarrow> rw_lock outcome option" where
  "ReadLock TLS_Id obs clock =
     (let l = obs 0; lockThreadId = get_lock_thread_id l
      in if TLS_Id = lockThreadId
         then Some (Ok (l\<lparr>lockFlag := lockFlag l + 1\<rparr>))
         else
           map_option
             (\<lambda>r. and_then r (\<lambda>j. Ok ((obs j)\<lparr>lockFlag := lockFlag (obs j) + 1\<rparr>)))
             (ReadLock_loop obs clock (clock 0) 1 1))"

definition ReadUnlock :: "rw_lock \<Rightarrow> rw_lock outcome" where
  "ReadUnlock l =
     (let prevReadCount = lockFlag l AND READ_COUNT_MASK; l1 = l\<lparr>lockFlag := lockFlag l - 1\<rparr>
      in if prevReadCount = 0
         then Fault (AssertCrash (error_code THREAD_LOCK_MULTIPLE_READ_UNLOCK))
         else Ok l1)"

section \<open>All threads: one atomic access per step\<close>

text \<open>
  Where a thread is between two accesses to the lock: outside (\<open>RW_Idle\<close>), in the retry loop of
  \<^verbatim>\<open>WriteLock\<close>, before its \<^verbatim>\<open>_writeCount++\<close>, before the \<^verbatim>\<open>--_writeCount\<close> and before the final store of
  \<^verbatim>\<open>WriteUnlock\<close>, before the \<^verbatim>\<open>fetch_add\<close> and in the retry loop of \<^verbatim>\<open>ReadLock\<close>, the last with the
  expected count already loaded.
\<close>

datatype rw_pc =
    RW_Idle
  | RW_WSpin
  | RW_WInc
  | RW_WUDec
  | RW_WUStore
  | RW_RAdd
  | RW_RSpin
  | RW_RCas uint32

text \<open>The shared lock, where each thread is, and the guards it holds: the write guards of a thread
  and the multiset of threads with a read guard are history, no step reads them but the
  unlock steps, which only a thread with a guard takes (\<^verbatim>\<open>WriteLock\<close> and \<^verbatim>\<open>ReadLock\<close> of \<^verbatim>\<open>Lock.h\<close>
  unlock in their destructors).\<close>

record rw_sys =
  rw_lk :: rw_lock
  rw_pcs :: "uint32 \<Rightarrow> rw_pc"
  wheld :: "uint32 \<Rightarrow> nat"
  readers :: "uint32 multiset"
  rw_crashed :: "Errors option"

definition rw_init :: "rw_sys \<Rightarrow> bool" where
  "rw_init s \<longleftrightarrow> rw_lk s = RWLock_new \<and> rw_pcs s = (\<lambda>_. RW_Idle) \<and> wheld s = (\<lambda>_. 0) \<and>
     readers s = {#} \<and> rw_crashed s = None"

definition valid_tid :: "uint32 \<Rightarrow> bool" where
  "valid_tid t \<longleftrightarrow> 0 < unat t \<and> unat t < 2 ^ 16"

abbreviation rw_goto :: "uint32 \<Rightarrow> rw_pc \<Rightarrow> rw_sys \<Rightarrow> rw_sys" where
  "rw_goto t p s \<equiv> s\<lparr>rw_pcs := (rw_pcs s)(t := p)\<rparr>"

text \<open>
  The steps of a thread \<open>t\<close>. The code has no check of its 16-bit counters. The steps that take another guard
  (\<open>w_inc\<close>, \<open>r_add\<close>, \<open>r_cas\<close>) are there only while the write guards of a thread and the read guards of all threads
  stay below \<open>2 ^ 16\<close>: what the runs of this system show is shown of runs within these limits. What happens at
  the limit is \<open>ReadLock_count_overflow\<close> below. A thread that spins may run into the timeout at any moment.
\<close>

inductive rw_thread_step :: "uint32 \<Rightarrow> rw_sys \<Rightarrow> rw_sys \<Rightarrow> bool" where
  w_enter_owner: "rw_pcs s t = RW_Idle \<Longrightarrow> get_lock_thread_id (rw_lk s) = t \<Longrightarrow>
     rw_thread_step t s (rw_goto t RW_WInc s)"
| w_enter_spin: "rw_pcs s t = RW_Idle \<Longrightarrow> get_lock_thread_id (rw_lk s) \<noteq> t \<Longrightarrow>
     rw_thread_step t s (rw_goto t RW_WSpin s)"
| w_cas: "rw_pcs s t = RW_WSpin \<Longrightarrow> lockFlag (rw_lk s) = EMPTY \<Longrightarrow>
     rw_thread_step t s
       ((rw_goto t RW_WInc s)\<lparr>rw_lk := (rw_lk s)\<lparr>lockFlag := get_write_desired_flag t\<rparr>\<rparr>)"
| w_timeout: "rw_pcs s t = RW_WSpin \<Longrightarrow>
     rw_thread_step t s (s\<lparr>rw_crashed := Some THREAD_LOCK_TIMEOUT\<rparr>)"
| w_inc: "rw_pcs s t = RW_WInc \<Longrightarrow> Suc (wheld s t) < 2 ^ 16 \<Longrightarrow>
     rw_thread_step t s
       ((rw_goto t RW_Idle s)\<lparr>rw_lk := (rw_lk s)\<lparr>writeCount := writeCount (rw_lk s) + 1\<rparr>,
          wheld := (wheld s)(t := Suc (wheld s t))\<rparr>)"
| wu_check: "rw_pcs s t = RW_Idle \<Longrightarrow> 0 < wheld s t \<Longrightarrow> get_read_lock_count (rw_lk s) = 0 \<Longrightarrow>
     rw_thread_step t s (rw_goto t RW_WUDec s)"
| wu_crash: "rw_pcs s t = RW_Idle \<Longrightarrow> 0 < wheld s t \<Longrightarrow> get_read_lock_count (rw_lk s) \<noteq> 0 \<Longrightarrow>
     rw_thread_step t s (s\<lparr>rw_crashed := Some THREAD_LOCK_INVALID_WRITE_UNLOCK_ORDER\<rparr>)"
| wu_dec_more: "rw_pcs s t = RW_WUDec \<Longrightarrow> writeCount (rw_lk s) - 1 \<noteq> 0 \<Longrightarrow>
     rw_thread_step t s
       ((rw_goto t RW_Idle s)\<lparr>rw_lk := (rw_lk s)\<lparr>writeCount := writeCount (rw_lk s) - 1\<rparr>,
          wheld := (wheld s)(t := wheld s t - 1)\<rparr>)"
| wu_dec_last: "rw_pcs s t = RW_WUDec \<Longrightarrow> writeCount (rw_lk s) - 1 = 0 \<Longrightarrow>
     rw_thread_step t s
       ((rw_goto t RW_WUStore s)\<lparr>rw_lk := (rw_lk s)\<lparr>writeCount := writeCount (rw_lk s) - 1\<rparr>,
          wheld := (wheld s)(t := wheld s t - 1)\<rparr>)"
| wu_store: "rw_pcs s t = RW_WUStore \<Longrightarrow>
     rw_thread_step t s ((rw_goto t RW_Idle s)\<lparr>rw_lk := (rw_lk s)\<lparr>lockFlag := EMPTY\<rparr>\<rparr>)"
| r_enter_owner: "rw_pcs s t = RW_Idle \<Longrightarrow> get_lock_thread_id (rw_lk s) = t \<Longrightarrow>
     rw_thread_step t s (rw_goto t RW_RAdd s)"
| r_enter_spin: "rw_pcs s t = RW_Idle \<Longrightarrow> get_lock_thread_id (rw_lk s) \<noteq> t \<Longrightarrow>
     rw_thread_step t s (rw_goto t RW_RSpin s)"
| r_add: "rw_pcs s t = RW_RAdd \<Longrightarrow> Suc (size (readers s)) < 2 ^ 16 \<Longrightarrow>
     rw_thread_step t s
       ((rw_goto t RW_Idle s)\<lparr>rw_lk := (rw_lk s)\<lparr>lockFlag := lockFlag (rw_lk s) + 1\<rparr>,
          readers := add_mset t (readers s)\<rparr>)"
| r_load: "rw_pcs s t = RW_RSpin \<Longrightarrow>
     rw_thread_step t s (rw_goto t (RW_RCas (get_read_lock_count (rw_lk s))) s)"
| r_cas: "rw_pcs s t = RW_RCas expected \<Longrightarrow> lockFlag (rw_lk s) = expected \<Longrightarrow>
     Suc (size (readers s)) < 2 ^ 16 \<Longrightarrow>
     rw_thread_step t s
       ((rw_goto t RW_Idle s)\<lparr>rw_lk := (rw_lk s)\<lparr>lockFlag := expected + 1\<rparr>,
          readers := add_mset t (readers s)\<rparr>)"
| r_cas_fail: "rw_pcs s t = RW_RCas expected \<Longrightarrow> lockFlag (rw_lk s) \<noteq> expected \<Longrightarrow>
     rw_thread_step t s (rw_goto t RW_RSpin s)"
| r_timeout: "rw_pcs s t = RW_RSpin \<Longrightarrow>
     rw_thread_step t s (s\<lparr>rw_crashed := Some THREAD_LOCK_TIMEOUT\<rparr>)"
| r_unlock: "rw_pcs s t = RW_Idle \<Longrightarrow> t \<in># readers s \<Longrightarrow> get_read_lock_count (rw_lk s) \<noteq> 0 \<Longrightarrow>
     rw_thread_step t s
       (s\<lparr>rw_lk := (rw_lk s)\<lparr>lockFlag := lockFlag (rw_lk s) - 1\<rparr>, readers := readers s - {#t#}\<rparr>)"
| r_unlock_crash: "rw_pcs s t = RW_Idle \<Longrightarrow> t \<in># readers s \<Longrightarrow> get_read_lock_count (rw_lk s) = 0 \<Longrightarrow>
     rw_thread_step t s (s\<lparr>rw_crashed := Some THREAD_LOCK_MULTIPLE_READ_UNLOCK\<rparr>)"

definition rw_step :: "rw_sys \<Rightarrow> rw_sys \<Rightarrow> bool" where
  "rw_step s s' \<longleftrightarrow> rw_crashed s = None \<and> (\<exists>t. valid_tid t \<and> rw_thread_step t s s')"

section \<open>The two halves of the lock word\<close>

lemma write_mask: "WRITE_THREAD_MASK = push_bit 16 (mask 16)"
  by (simp add: mask_numeral)

lemma read_mask: "READ_COUNT_MASK = mask 16"
  by (simp add: mask_numeral)

lemma unat_thread_id [word_nat]: "unat (get_lock_thread_id l) = unat (lockFlag l) div 2 ^ 16"
proof -
  have "get_lock_thread_id l = drop_bit 16 (lockFlag l)"
    unfolding get_lock_thread_id_def write_mask
    by (rule bit_word_eqI) (auto simp: bit_simps dest: bit_imp_le_length)
  then show ?thesis
    by (simp only: unat_drop_bit_eq) (simp only: drop_bit_eq_div)
qed

lemma unat_read_count [word_nat]: "unat (get_read_lock_count l) = unat (lockFlag l) mod 2 ^ 16"
proof -
  have "get_read_lock_count l = take_bit 16 (lockFlag l)"
    unfolding get_read_lock_count_def read_mask by (simp only: take_bit_eq_mask)
  then show ?thesis
    by (simp only: unsigned_take_bit_eq) (simp only: take_bit_eq_mod)
qed

lemma unat_desired [word_nat]: "unat (get_write_desired_flag t) = (unat t mod 2 ^ 16) * 2 ^ 16"
proof -
  have "get_write_desired_flag t = push_bit 16 (take_bit 16 t)"
    unfolding get_write_desired_flag_def write_mask
    by (rule bit_word_eqI) (auto simp: bit_simps)
  then have "unat (get_write_desired_flag t) = take_bit 32 (take_bit 16 (unat t) * 2 ^ 16)"
    by (simp only: unsigned_push_bit_eq unsigned_take_bit_eq) (simp add: push_bit_eq_mult)
  also have "\<dots> = take_bit 16 (unat t) * 2 ^ 16"
  proof (rule take_bit_nat_eq_self)
    have "take_bit 16 (unat t) < 2 ^ 16" by (rule take_bit_nat_less_exp)
    then show "take_bit 16 (unat t) * 2 ^ 16 < 2 ^ 32" by simp
  qed
  finally show ?thesis by (simp add: take_bit_eq_mod)
qed

text \<open>A step of one in the low half leaves the high half alone.\<close>

abbreviation hi :: "uint32 \<Rightarrow> nat" where "hi f \<equiv> unat f div 2 ^ 16"
abbreviation lo :: "uint32 \<Rightarrow> nat" where "lo f \<equiv> unat f mod 2 ^ 16"

lemma flag_inc:
  fixes f :: uint32
  assumes "Suc (lo f) < 2 ^ 16"
  shows "hi (f + 1) = hi f" and "lo (f + 1) = Suc (lo f)"
proof -
  have div: "Suc (unat f) div 2 ^ 16 = hi f" and mod: "Suc (unat f) mod 2 ^ 16 = Suc (lo f)"
    using assms by (simp_all add: div_Suc mod_Suc)
  have "unat f + 1 < 2 ^ 32"
  proof (rule ccontr)
    assume "\<not> unat f + 1 < 2 ^ 32"
    moreover have "unat f < 2 ^ 32" by (rule unat_uint32_bound)
    ultimately have "Suc (unat f) = 2 ^ 32" by simp
    with mod show False by simp
  qed
  then have "unat (f + 1) = Suc (unat f)"
    by (subst unat_add_small) simp_all
  with div mod show "hi (f + 1) = hi f" and "lo (f + 1) = Suc (lo f)"
    by simp_all
qed

lemma flag_dec:
  fixes f :: uint32
  assumes "lo f \<noteq> 0"
  shows "hi (f - 1) = hi f" and "lo (f - 1) = lo f - 1"
proof -
  from assms have "unat f \<noteq> 0" by auto
  then obtain n where n: "unat f = Suc n" by (cases "unat f") auto
  then have "1 \<le> f" by (simp add: word_le_nat_alt)
  then have "unat (f - 1) = n"
    by (subst unat_sub_small) (simp_all add: n)
  with assms show "hi (f - 1) = hi f" and "lo (f - 1) = lo f - 1"
    by (auto simp: n div_Suc mod_Suc split: if_splits)
qed

lemma hi_bound: "hi (f :: uint32) < 2 ^ 16"
  using unat_uint32_bound [of f] by (simp add: less_mult_imp_div_less)

section \<open>The invariant of the lock\<close>

fun owner_pc :: "rw_pc \<Rightarrow> bool" where
  "owner_pc RW_WInc = True"
| "owner_pc RW_WUDec = True"
| "owner_pc RW_WUStore = True"
| "owner_pc RW_RAdd = True"
| "owner_pc _ = False"

fun spinning_pc :: "rw_pc \<Rightarrow> bool" where
  "spinning_pc RW_WSpin = True"
| "spinning_pc RW_RSpin = True"
| "spinning_pc (RW_RCas _) = True"
| "spinning_pc _ = False"

text \<open>What the owner's position says about its guards.\<close>

fun owner_at :: "rw_pc \<Rightarrow> nat \<Rightarrow> uint32 multiset \<Rightarrow> bool" where
  "owner_at RW_WInc n R = True"
| "owner_at RW_WUStore n R = (n = 0 \<and> R = {#})"
| "owner_at RW_WUDec n R = (0 < n \<and> R = {#})"
| "owner_at _ n R = (0 < n)"

abbreviation rw_flag :: "rw_sys \<Rightarrow> uint32" where "rw_flag s \<equiv> lockFlag (rw_lk s)"

text \<open>
  The high half of the lock word is the thread that owns the lock, the low half the number of read
  guards. Every thread but the owner holds no write guard and is at no point only an owner reaches;
  while there is an owner, all read guards are its own.
\<close>

definition rw_inv :: "rw_sys \<Rightarrow> bool" where
  "rw_inv s \<longleftrightarrow>
     lo (rw_flag s) = size (readers s) \<and>
     (\<forall>t. \<not> valid_tid t \<longrightarrow> wheld s t = 0 \<and> rw_pcs s t = RW_Idle) \<and>
     (\<forall>t e. rw_pcs s t = RW_RCas e \<longrightarrow> unat e < 2 ^ 16) \<and>
     (\<forall>t. unat t \<noteq> hi (rw_flag s) \<longrightarrow> wheld s t = 0 \<and> \<not> owner_pc (rw_pcs s t)) \<and>
     (\<forall>t. unat t = hi (rw_flag s) \<longrightarrow>
        writeCount (rw_lk s) = of_nat (wheld s t) \<and> wheld s t < 2 ^ 16 \<and>
        (valid_tid t \<longrightarrow> \<not> spinning_pc (rw_pcs s t) \<and>
           owner_at (rw_pcs s t) (wheld s t) (readers s) \<and>
           (\<forall>u \<in># readers s. u = t)))"

lemma rw_inv_init: "rw_init s \<Longrightarrow> rw_inv s"
  by (auto simp: rw_init_def rw_inv_def RWLock_new_def valid_tid_def)

lemma rw_invD:
  assumes "rw_inv s"
  shows "lo (rw_flag s) = size (readers s)"
    and "owner_pc (rw_pcs s t) \<Longrightarrow> unat t = hi (rw_flag s)"
    and "0 < wheld s t \<Longrightarrow> unat t = hi (rw_flag s)"
    and "spinning_pc (rw_pcs s t) \<Longrightarrow> unat t \<noteq> hi (rw_flag s)"
    and "rw_pcs s t = RW_RCas e \<Longrightarrow> unat e < 2 ^ 16"
  using assms
  by (auto simp: rw_inv_def)

lemma rw_inv_crashed [simp]: "rw_inv (s\<lparr>rw_crashed := c\<rparr>) = rw_inv s"
  by (simp add: rw_inv_def)

text \<open>Steps that only move a thread to another point.\<close>

lemma rw_inv_goto:
  assumes "rw_inv s" and "valid_tid t"
    and "\<And>e. p = RW_RCas e \<Longrightarrow> unat e < 2 ^ 16"
    and "unat t \<noteq> hi (rw_flag s) \<Longrightarrow> \<not> owner_pc p"
    and "unat t = hi (rw_flag s) \<Longrightarrow> \<not> spinning_pc p \<and> owner_at p (wheld s t) (readers s)"
  shows "rw_inv (rw_goto t p s)"
  using assms unfolding rw_inv_def by (auto simp: fun_upd_apply)

text \<open>The invariant when a given thread owns the lock, and when no thread does.\<close>

lemma rw_inv_owned:
  assumes "valid_tid t" and "hi (rw_flag s) = unat t"
  shows "rw_inv s \<longleftrightarrow>
     lo (rw_flag s) = size (readers s) \<and>
     (\<forall>u. \<not> valid_tid u \<longrightarrow> wheld s u = 0 \<and> rw_pcs s u = RW_Idle) \<and>
     (\<forall>u e. rw_pcs s u = RW_RCas e \<longrightarrow> unat e < 2 ^ 16) \<and>
     (\<forall>u. u \<noteq> t \<longrightarrow> wheld s u = 0 \<and> \<not> owner_pc (rw_pcs s u)) \<and>
     writeCount (rw_lk s) = of_nat (wheld s t) \<and> wheld s t < 2 ^ 16 \<and>
     \<not> spinning_pc (rw_pcs s t) \<and> owner_at (rw_pcs s t) (wheld s t) (readers s) \<and>
     (\<forall>u \<in># readers s. u = t)"
  using assms unfolding rw_inv_def assms(2) word_unat_eq_iff [symmetric] by blast

lemma rw_inv_free:
  assumes "hi (rw_flag s) = 0"
  shows "rw_inv s \<longleftrightarrow>
     lo (rw_flag s) = size (readers s) \<and>
     (\<forall>u. \<not> valid_tid u \<longrightarrow> wheld s u = 0 \<and> rw_pcs s u = RW_Idle) \<and>
     (\<forall>u e. rw_pcs s u = RW_RCas e \<longrightarrow> unat e < 2 ^ 16) \<and>
     (\<forall>u. wheld s u = 0 \<and> \<not> owner_pc (rw_pcs s u)) \<and> writeCount (rw_lk s) = 0"
    (is "_ \<longleftrightarrow> ?R")
proof
  have z: "\<not> valid_tid 0" by (simp add: valid_tid_def)
  show ?R if i: "rw_inv s"
  proof -
    have "wheld s u = 0 \<and> \<not> owner_pc (rw_pcs s u)" for u
      using i z unfolding rw_inv_def assms unat_eq_0 by (cases "u = 0") auto
    moreover have "writeCount (rw_lk s) = of_nat (wheld s 0)"
      using i unfolding rw_inv_def assms unat_eq_0 by simp
    ultimately show ?thesis using i unfolding rw_inv_def by simp
  qed
  show "rw_inv s" if ?R
    using that z unfolding rw_inv_def assms unat_eq_0 by simp
qed

text \<open>Who can be the owner: a thread past its compare-exchange, or with a write guard.\<close>

lemma rw_pc_owner:
  "rw_inv s \<Longrightarrow> owner_pc (rw_pcs s t) \<Longrightarrow> hi (rw_flag s) = unat t"
  "rw_inv s \<Longrightarrow> 0 < wheld s t \<Longrightarrow> hi (rw_flag s) = unat t"
  by (auto dest: rw_invD)

lemma rw_owner_cases:
  obtains (free) "hi (rw_flag s) = 0" | (owned) t where "valid_tid t" "hi (rw_flag s) = unat t"
proof (cases "hi (rw_flag s) = 0")
  case True
  then show ?thesis by (rule free)
next
  case False
  let ?t = "word_of_nat (hi (rw_flag s)) :: uint32"
  have "hi (rw_flag s) < 2 ^ 16" by (rule hi_bound)
  then have "unat ?t = hi (rw_flag s)" by (intro unat_of_nat_small) simp
  with False show ?thesis
    using hi_bound [of "rw_flag s"] by (intro owned [of ?t]) (auto simp: valid_tid_def)
qed

lemma thread_id_eq_iff: "get_lock_thread_id l = t \<longleftrightarrow> hi (lockFlag l) = unat t"
  using unat_thread_id [of l] by (auto simp: word_unat_eq_iff)

lemma read_count_0_iff: "get_read_lock_count l = 0 \<longleftrightarrow> lo (lockFlag l) = 0"
  using unat_read_count [of l] by (auto simp: word_unat_eq_iff)

section \<open>Every step keeps the invariant\<close>

lemma rw_inv_cas:
  assumes i: "rw_inv s" and t: "valid_tid t" and f: "rw_flag s = EMPTY"
  shows "rw_inv ((rw_goto t RW_WInc s)\<lparr>rw_lk := (rw_lk s)\<lparr>lockFlag := get_write_desired_flag t\<rparr>\<rparr>)"
    (is "rw_inv ?s'")
proof -
  from t have d: "hi (rw_flag ?s') = unat t" "lo (rw_flag ?s') = 0"
    by (simp_all add: unat_desired valid_tid_def)
  from f have "hi (rw_flag s) = 0" by simp
  note free = i [unfolded rw_inv_free [OF this]]
  show ?thesis
    unfolding rw_inv_owned [OF t d(1)] using free f d t by auto
qed

lemma rw_inv_inc:
  assumes i: "rw_inv s" and t: "valid_tid t" and pc: "rw_pcs s t = RW_WInc"
    and room: "Suc (wheld s t) < 2 ^ 16"
  shows "rw_inv ((rw_goto t RW_Idle s)\<lparr>rw_lk := (rw_lk s)\<lparr>writeCount := writeCount (rw_lk s) + 1\<rparr>,
          wheld := (wheld s)(t := Suc (wheld s t))\<rparr>)" (is "rw_inv ?s'")
proof -
  have o: "hi (rw_flag s) = unat t" using rw_pc_owner(1) [OF i] pc by simp
  then have o': "hi (rw_flag ?s') = unat t" by simp
  note owned = i [unfolded rw_inv_owned [OF t o]]
  show ?thesis
    unfolding rw_inv_owned [OF t o'] using owned room by auto
qed

lemma rw_WUDec:
  assumes i: "rw_inv s" and t: "valid_tid t" and pc: "rw_pcs s t = RW_WUDec"
  shows "hi (rw_flag s) = unat t" and "0 < wheld s t" and "readers s = {#}"
    and "writeCount (rw_lk s) - 1 = of_nat (wheld s t - 1)"
    and "writeCount (rw_lk s) - 1 = 0 \<longleftrightarrow> wheld s t - 1 = 0"
proof -
  show o: "hi (rw_flag s) = unat t" using rw_pc_owner(1) [OF i] pc by simp
  note owned = i [unfolded rw_inv_owned [OF t o]]
  from owned pc show at: "0 < wheld s t" and "readers s = {#}" by simp_all
  from owned at show eq: "writeCount (rw_lk s) - 1 = of_nat (wheld s t - 1)"
    by (simp add: of_nat_diff)
  have "(of_nat (wheld s t - 1) :: uint16) = of_nat 0 \<longleftrightarrow> wheld s t - 1 = 0"
    using owned by (intro of_nat_word_inj) auto
  with eq show "writeCount (rw_lk s) - 1 = 0 \<longleftrightarrow> wheld s t - 1 = 0" by simp
qed

lemma rw_inv_dec:
  assumes i: "rw_inv s" and t: "valid_tid t" and pc: "rw_pcs s t = RW_WUDec"
    and p: "p = (if writeCount (rw_lk s) - 1 = 0 then RW_WUStore else RW_Idle)"
  shows "rw_inv ((rw_goto t p s)\<lparr>rw_lk := (rw_lk s)\<lparr>writeCount := writeCount (rw_lk s) - 1\<rparr>,
           wheld := (wheld s)(t := wheld s t - 1)\<rparr>)" (is "rw_inv ?s'")
proof -
  note dec = rw_WUDec [OF i t pc]
  then have o': "hi (rw_flag ?s') = unat t" by simp
  note owned = i [unfolded rw_inv_owned [OF t dec(1)]]
  show ?thesis
    unfolding rw_inv_owned [OF t o'] using owned dec(2-5) p by auto
qed

lemma rw_inv_store:
  assumes i: "rw_inv s" and t: "valid_tid t" and pc: "rw_pcs s t = RW_WUStore"
  shows "rw_inv ((rw_goto t RW_Idle s)\<lparr>rw_lk := (rw_lk s)\<lparr>lockFlag := EMPTY\<rparr>\<rparr>)" (is "rw_inv ?s'")
proof -
  have o: "hi (rw_flag s) = unat t" using rw_pc_owner(1) [OF i] pc by simp
  note owned = i [unfolded rw_inv_owned [OF t o]]
  have o': "hi (rw_flag ?s') = 0" by simp
  show ?thesis
    unfolding rw_inv_free [OF o'] using owned pc by auto
qed

lemma rw_inv_radd:
  assumes i: "rw_inv s" and t: "valid_tid t" and pc: "rw_pcs s t = RW_RAdd"
    and room: "Suc (size (readers s)) < 2 ^ 16"
  shows "rw_inv ((rw_goto t RW_Idle s)\<lparr>rw_lk := (rw_lk s)\<lparr>lockFlag := rw_flag s + 1\<rparr>,
          readers := add_mset t (readers s)\<rparr>)" (is "rw_inv ?s'")
proof -
  have o: "hi (rw_flag s) = unat t" using rw_pc_owner(1) [OF i] pc by simp
  note owned = i [unfolded rw_inv_owned [OF t o]]
  from owned room have inc: "Suc (lo (rw_flag s)) < 2 ^ 16" by simp
  have o': "hi (rw_flag ?s') = unat t" using flag_inc(1) [OF inc] o by simp
  show ?thesis
    unfolding rw_inv_owned [OF t o'] using owned pc flag_inc(2) [OF inc] by auto
qed

lemma rw_inv_rcas:
  assumes i: "rw_inv s" and t: "valid_tid t" and pc: "rw_pcs s t = RW_RCas (rw_flag s)"
    and room: "Suc (size (readers s)) < 2 ^ 16"
  shows "rw_inv ((rw_goto t RW_Idle s)\<lparr>rw_lk := (rw_lk s)\<lparr>lockFlag := rw_flag s + 1\<rparr>,
          readers := add_mset t (readers s)\<rparr>)" (is "rw_inv ?s'")
proof -
  have o: "hi (rw_flag s) = 0" using rw_invD(5) [OF i pc] by simp
  note free = i [unfolded rw_inv_free [OF o]]
  from free room have inc: "Suc (lo (rw_flag s)) < 2 ^ 16" by simp
  have o': "hi (rw_flag ?s') = 0" using flag_inc(1) [OF inc] o by simp
  show ?thesis
    unfolding rw_inv_free [OF o'] using free flag_inc(2) [OF inc] by auto
qed

lemma rw_inv_runlock:
  assumes i: "rw_inv s" and t: "valid_tid t" and pc: "rw_pcs s t = RW_Idle" and r: "t \<in># readers s"
  shows "rw_inv (s\<lparr>rw_lk := (rw_lk s)\<lparr>lockFlag := rw_flag s - 1\<rparr>, readers := readers s - {#t#}\<rparr>)"
    (is "rw_inv ?s'")
proof -
  from r have "size (readers s) \<noteq> 0" by auto
  with rw_invD(1) [OF i] have nz: "lo (rw_flag s) \<noteq> 0" by simp
  have sz: "lo (rw_flag s) - 1 = size (readers s - {#t#})"
    using rw_invD(1) [OF i] r by (simp add: size_Diff_singleton)
  show ?thesis
  proof (cases rule: rw_owner_cases [of s])
    case free
    with flag_dec(1) [OF nz] have o': "hi (rw_flag ?s') = 0" by simp
    show ?thesis
      unfolding rw_inv_free [OF o'] using i [unfolded rw_inv_free [OF free]] sz flag_dec(2) [OF nz]
      by simp
  next
    case (owned u)
    with flag_dec(1) [OF nz] have o': "hi (rw_flag ?s') = unat u" by simp
    note own = i [unfolded rw_inv_owned [OF owned]]
    from own r have "u = t" by auto
    then show ?thesis
      unfolding rw_inv_owned [OF owned(1) o'] using own sz flag_dec(2) [OF nz] pc
      by (auto dest: in_diffD)
  qed
qed

lemma rw_thread_step_inv:
  "rw_thread_step t s s' \<Longrightarrow> valid_tid t \<Longrightarrow> rw_inv s \<Longrightarrow> rw_inv s'"
proof (induction rule: rw_thread_step.induct)
  case (w_enter_owner s t)
  then show ?case
    by (intro rw_inv_goto) (auto simp: thread_id_eq_iff)
next
  case (w_enter_spin s t)
  then show ?case
    by (intro rw_inv_goto) (auto simp: thread_id_eq_iff)
next
  case (wu_check s t)
  then have o: "hi (rw_flag s) = unat t" by (intro rw_pc_owner)
  from wu_check have "readers s = {#}"
    using rw_invD(1) [of s] by (simp add: read_count_0_iff)
  with wu_check o show ?case by (intro rw_inv_goto) auto
next
  case (r_enter_owner s t)
  then have "owner_at (rw_pcs s t) (wheld s t) (readers s)"
    by (auto simp: rw_inv_owned [of t s] thread_id_eq_iff)
  with r_enter_owner show ?case
    by (intro rw_inv_goto) (auto simp: thread_id_eq_iff)
next
  case (r_enter_spin s t)
  then show ?case
    by (intro rw_inv_goto) (auto simp: thread_id_eq_iff)
next
  case (r_load s t)
  then have "unat t \<noteq> hi (rw_flag s)" by (intro rw_invD(4)) auto
  with r_load show ?case
    by (intro rw_inv_goto) (auto simp: unat_read_count)
next
  case (r_cas_fail s t expected)
  then have "unat t \<noteq> hi (rw_flag s)" by (intro rw_invD(4)) auto
  with r_cas_fail show ?case by (intro rw_inv_goto) auto
next
  case (wu_dec_more s t)
  then show ?case by (intro rw_inv_dec) auto
next
  case (wu_dec_last s t)
  then show ?case by (intro rw_inv_dec) auto
next
  case (r_cas s t expected)
  then show ?case using rw_inv_rcas [of s t] by simp
qed (auto intro: rw_inv_cas rw_inv_inc rw_inv_store rw_inv_radd rw_inv_runlock)

interpretation rw: invariant_system rw_init rw_step rw_inv
  by unfold_locales (auto simp: rw_step_def intro: rw_inv_init rw_thread_step_inv)

section \<open>The abstract read-write lock\<close>

text \<open>
  The specification: at most one writer with a nesting depth, and the multiset of read guards. A
  writer comes in when nobody is there; readers come in when there is no writer, or are the writer
  itself; the writer goes down and leaves only while no read guard is held.
\<close>

record abs_rw =
  abs_writer :: "uint32 option"
  abs_depth :: nat
  abs_readers :: "uint32 multiset"

definition abs_rw_init :: "abs_rw \<Rightarrow> bool" where
  "abs_rw_init a \<longleftrightarrow> a = \<lparr>abs_writer = None, abs_depth = 0, abs_readers = {#}\<rparr>"

inductive abs_rw_step :: "abs_rw \<Rightarrow> abs_rw \<Rightarrow> bool" where
  grab: "abs_writer a = None \<Longrightarrow> abs_readers a = {#} \<Longrightarrow> abs_rw_step a (a\<lparr>abs_writer := Some t\<rparr>)"
| deepen: "abs_writer a = Some t \<Longrightarrow> abs_rw_step a (a\<lparr>abs_depth := Suc (abs_depth a)\<rparr>)"
| shallow: "abs_writer a = Some t \<Longrightarrow> abs_depth a = Suc n \<Longrightarrow> abs_readers a = {#} \<Longrightarrow>
     abs_rw_step a (a\<lparr>abs_depth := n\<rparr>)"
| drop_writer: "abs_writer a = Some t \<Longrightarrow> abs_depth a = 0 \<Longrightarrow> abs_readers a = {#} \<Longrightarrow>
     abs_rw_step a (a\<lparr>abs_writer := None\<rparr>)"
| read_shared: "abs_writer a = None \<Longrightarrow> abs_rw_step a (a\<lparr>abs_readers := add_mset t (abs_readers a)\<rparr>)"
| read_own: "abs_writer a = Some t \<Longrightarrow> abs_rw_step a (a\<lparr>abs_readers := add_mset t (abs_readers a)\<rparr>)"
| read_drop: "t \<in># abs_readers a \<Longrightarrow> abs_rw_step a (a\<lparr>abs_readers := abs_readers a - {#t#}\<rparr>)"

definition rw_abs :: "rw_sys \<Rightarrow> abs_rw" where
  "rw_abs s =
     (let t = get_lock_thread_id (rw_lk s)
      in \<lparr>abs_writer = (if t = 0 then None else Some t), abs_depth = wheld s t, abs_readers = readers s\<rparr>)"

lemma rw_abs_same [simp]:
  "rw_abs (s\<lparr>rw_pcs := f\<rparr>) = rw_abs s"
  "rw_abs (s\<lparr>rw_crashed := c\<rparr>) = rw_abs s"
  by (simp_all add: rw_abs_def)

lemma rw_abs_free:
  assumes "rw_inv s" and "hi (rw_flag s) = 0"
  shows "rw_abs s = \<lparr>abs_writer = None, abs_depth = 0, abs_readers = readers s\<rparr>"
proof -
  have "get_lock_thread_id (rw_lk s) = 0" using assms by (simp add: thread_id_eq_iff)
  moreover have "wheld s 0 = 0" using assms by (simp add: rw_inv_free)
  ultimately show ?thesis by (simp add: rw_abs_def)
qed

lemma rw_abs_owned:
  assumes "valid_tid t" and "hi (rw_flag s) = unat t"
  shows "rw_abs s = \<lparr>abs_writer = Some t, abs_depth = wheld s t, abs_readers = readers s\<rparr>"
proof -
  have "get_lock_thread_id (rw_lk s) = t" using assms by (simp add: thread_id_eq_iff)
  moreover have "t \<noteq> 0" using assms by (auto simp: valid_tid_def)
  ultimately show ?thesis by (simp add: rw_abs_def)
qed

text \<open>The steps of the implementation that are steps of the specification, one lemma each.\<close>

lemma rw_sim_cas:
  assumes "rw_inv s" and "valid_tid t" and "rw_flag s = EMPTY"
  shows "abs_rw_step (rw_abs s)
           (rw_abs ((rw_goto t RW_WInc s)\<lparr>rw_lk := (rw_lk s)\<lparr>lockFlag := get_write_desired_flag t\<rparr>\<rparr>))"
    (is "abs_rw_step _ (rw_abs ?s')")
proof -
  have "hi (rw_flag ?s') = unat t" using assms by (simp add: unat_desired valid_tid_def)
  with assms have a': "rw_abs ?s' = \<lparr>abs_writer = Some t, abs_depth = wheld s t, abs_readers = readers s\<rparr>"
    by (subst rw_abs_owned [of t]) simp_all
  have "readers s = {#}" "wheld s t = 0" using assms by (auto simp: rw_inv_free)
  moreover have "rw_abs s = \<lparr>abs_writer = None, abs_depth = 0, abs_readers = readers s\<rparr>"
    using assms by (intro rw_abs_free) auto
  ultimately show ?thesis using grab [of "rw_abs s" t] a' by simp
qed

lemma rw_sim_inc:
  assumes "rw_inv s" and "valid_tid t" and "rw_pcs s t = RW_WInc"
  shows "abs_rw_step (rw_abs s)
           (rw_abs ((rw_goto t RW_Idle s)\<lparr>rw_lk := (rw_lk s)\<lparr>writeCount := writeCount (rw_lk s) + 1\<rparr>,
              wheld := (wheld s)(t := Suc (wheld s t))\<rparr>))"
    (is "abs_rw_step _ (rw_abs ?s')")
proof -
  have "hi (rw_flag s) = unat t" using assms by (intro rw_pc_owner) auto
  then show ?thesis
    using deepen [of "rw_abs s" t] rw_abs_owned [of t s] rw_abs_owned [of t ?s'] assms by simp
qed

lemma rw_sim_dec:
  assumes "rw_inv s" and "valid_tid t" and "rw_pcs s t = RW_WUDec"
  shows "abs_rw_step (rw_abs s)
           (rw_abs ((rw_goto t p s)\<lparr>rw_lk := (rw_lk s)\<lparr>writeCount := writeCount (rw_lk s) - 1\<rparr>,
              wheld := (wheld s)(t := wheld s t - 1)\<rparr>))"
    (is "abs_rw_step _ (rw_abs ?s')")
  using shallow [of "rw_abs s" t "wheld s t - 1"] rw_abs_owned [of t s] rw_abs_owned [of t ?s']
    assms rw_WUDec(1-3) [OF assms] by simp

lemma rw_sim_store:
  assumes "rw_inv s" and "valid_tid t" and "rw_pcs s t = RW_WUStore"
  shows "abs_rw_step (rw_abs s)
           (rw_abs ((rw_goto t RW_Idle s)\<lparr>rw_lk := (rw_lk s)\<lparr>lockFlag := EMPTY\<rparr>\<rparr>))"
    (is "abs_rw_step _ (rw_abs ?s')")
proof -
  have o: "hi (rw_flag s) = unat t" using assms by (intro rw_pc_owner) auto
  then have "wheld s t = 0" "readers s = {#}" using assms by (auto simp: rw_inv_owned [of t s])
  then show ?thesis
    using drop_writer [of "rw_abs s" t] rw_abs_owned [of t s] rw_abs_free [of ?s']
      rw_inv_store [OF assms] assms o by simp
qed

lemma rw_sim_radd:
  assumes "rw_inv s" and "valid_tid t" and "rw_pcs s t = RW_RAdd" and "Suc (size (readers s)) < 2 ^ 16"
  shows "abs_rw_step (rw_abs s)
           (rw_abs ((rw_goto t RW_Idle s)\<lparr>rw_lk := (rw_lk s)\<lparr>lockFlag := rw_flag s + 1\<rparr>,
              readers := add_mset t (readers s)\<rparr>))"
    (is "abs_rw_step _ (rw_abs ?s')")
proof -
  have o: "hi (rw_flag s) = unat t" using assms by (intro rw_pc_owner) auto
  then have "hi (rw_flag ?s') = unat t"
    using flag_inc(1) [of "rw_flag s"] assms rw_invD(1) [of s] by simp
  then show ?thesis
    using read_own [of "rw_abs s" t] rw_abs_owned [of t s] rw_abs_owned [of t ?s'] assms o by simp
qed

lemma rw_sim_rcas:
  assumes "rw_inv s" and "valid_tid t" and "rw_pcs s t = RW_RCas (rw_flag s)"
    and "Suc (size (readers s)) < 2 ^ 16"
  shows "abs_rw_step (rw_abs s)
           (rw_abs ((rw_goto t RW_Idle s)\<lparr>rw_lk := (rw_lk s)\<lparr>lockFlag := rw_flag s + 1\<rparr>,
              readers := add_mset t (readers s)\<rparr>))"
    (is "abs_rw_step _ (rw_abs ?s')")
proof -
  have o: "hi (rw_flag s) = 0" using rw_invD(5) [OF assms(1,3)] by simp
  then have "hi (rw_flag ?s') = 0"
    using flag_inc(1) [of "rw_flag s"] assms rw_invD(1) [of s] by simp
  then show ?thesis
    using read_shared [of "rw_abs s" t] rw_abs_free [of s] rw_abs_free [of ?s']
      rw_inv_rcas [OF assms] assms o by simp
qed

lemma rw_sim_runlock:
  assumes "t \<in># readers s" and "get_read_lock_count (rw_lk s) \<noteq> 0"
  shows "abs_rw_step (rw_abs s)
           (rw_abs (s\<lparr>rw_lk := (rw_lk s)\<lparr>lockFlag := rw_flag s - 1\<rparr>, readers := readers s - {#t#}\<rparr>))"
    (is "abs_rw_step _ (rw_abs ?s')")
proof -
  have "hi (rw_flag ?s') = hi (rw_flag s)"
    using flag_dec(1) [of "rw_flag s"] assms by (simp add: read_count_0_iff)
  then have "get_lock_thread_id (rw_lk ?s') = get_lock_thread_id (rw_lk s)"
    by (simp add: thread_id_eq_iff unat_thread_id)
  then have "rw_abs ?s' = (rw_abs s)\<lparr>abs_readers := readers s - {#t#}\<rparr>"
    by (simp add: rw_abs_def Let_def)
  then show ?thesis
    using read_drop [of t "rw_abs s"] assms by (simp add: rw_abs_def Let_def)
qed

lemmas rw_sim_intros =
  rw_sim_cas rw_sim_inc rw_sim_dec rw_sim_store rw_sim_radd rw_sim_rcas rw_sim_runlock

lemma rw_sim_step:
  "rw_thread_step t s s' \<Longrightarrow> valid_tid t \<Longrightarrow> rw_inv s \<Longrightarrow>
     rw_abs s' = rw_abs s \<or> abs_rw_step (rw_abs s) (rw_abs s')"
proof (induction rule: rw_thread_step.induct)
  case (r_cas s t expected)
  then show ?case using rw_sim_rcas [of s t] by simp
qed ((simp; fail) | (rule disjI2, rule rw_sim_intros; assumption))+

interpretation rw_sim: simulation rw_init rw_step rw_inv abs_rw_init abs_rw_step rw_abs
proof unfold_locales
  show "abs_rw_init (rw_abs s)" if "rw_init s" for s
    using that rw_abs_free [of s] rw_inv_init [of s]
    by (simp add: abs_rw_init_def rw_init_def RWLock_new_def)
  show "rw_abs t = rw_abs s \<or> abs_rw_step (rw_abs s) (rw_abs t)" if "rw_inv s" "rw_step s t" for s t
    using that rw_sim_step by (auto simp: rw_step_def)
qed

section \<open>The call with its retry loop\<close>

definition held_from :: "(nat \<Rightarrow> rw_lock) \<Rightarrow> nat \<Rightarrow> nat \<Rightarrow> bool" where
  "held_from obs k n \<longleftrightarrow> (\<forall>m. k \<le> m \<and> m < k + n \<longrightarrow> lockFlag (obs m) \<noteq> EMPTY)"

lemma held_from_0 [simp]: "held_from obs k 0"
  by (auto simp: held_from_def)

lemma held_from_Suc: "held_from obs k (Suc n) \<longleftrightarrow> lockFlag (obs k) \<noteq> EMPTY \<and> held_from obs (Suc k) n"
proof -
  have "k \<le> m \<and> m < k + Suc n \<longleftrightarrow> m = k \<or> Suc k \<le> m \<and> m < Suc k + n" for m by arith
  then show ?thesis by (auto simp: held_from_def)
qed

lemma held_from_add: "held_from obs k (m + n) \<longleftrightarrow> held_from obs k m \<and> held_from obs (k + m) n"
  by (induction m arbitrary: k) (auto simp: held_from_Suc)

lemma WriteLock_spin_None: "WriteLock_spin obs n k = None \<longleftrightarrow> held_from obs k n"
  by (induction obs n k rule: WriteLock_spin.induct) (auto simp: held_from_Suc)

lemma WriteLock_spin_Some:
  "WriteLock_spin obs n k = Some j \<Longrightarrow>
     \<exists>d. j = k + d \<and> d < n \<and> lockFlag (obs j) = EMPTY \<and> held_from obs k d"
proof (induction obs n k rule: WriteLock_spin.induct)
  case (2 obs n k)
  show ?case
  proof (cases "lockFlag (obs k) = EMPTY")
    case True
    with 2(2) show ?thesis by auto
  next
    case False
    with 2 obtain d where "j = Suc k + d" "d < n" "lockFlag (obs j) = EMPTY" "held_from obs (Suc k) d"
      by auto
    with False show ?thesis by (intro exI [of _ "Suc d"]) (simp add: held_from_Suc)
  qed
qed simp

lemma WriteLock_loop_unfold [loop_unfold]:
  "WriteLock_spin obs MAX_SPIN_COUNT k = Some j \<Longrightarrow> WriteLock_loop obs clock b k i = Some (Ok j)"
  "WriteLock_spin obs MAX_SPIN_COUNT k = None \<Longrightarrow> TIMEOUT_TICK \<le> clock i - b \<Longrightarrow>
     WriteLock_loop obs clock b k i = Some (Fault (AssertCrash (error_code THREAD_LOCK_TIMEOUT)))"
  "WriteLock_spin obs MAX_SPIN_COUNT k = None \<Longrightarrow> \<not> TIMEOUT_TICK \<le> clock i - b \<Longrightarrow>
     WriteLock_loop obs clock b k i = WriteLock_loop obs clock b (k + MAX_SPIN_COUNT) (Suc i)"
  by (simp_all add: WriteLock_loop.simps [of obs clock b k i])

text \<open>What the loop may return: the compare-exchange at the first empty observation, or the timeout
  crash after at least one whole round of held observations.\<close>

fun spin_result :: "(nat \<Rightarrow> rw_lock) \<Rightarrow> nat \<Rightarrow> nat outcome \<Rightarrow> bool" where
  "spin_result obs k (Ok j) = (k \<le> j \<and> lockFlag (obs j) = EMPTY \<and> held_from obs k (j - k))"
| "spin_result obs k (Fault e) =
     (e = AssertCrash (error_code THREAD_LOCK_TIMEOUT) \<and> held_from obs k MAX_SPIN_COUNT)"

lemma spin_result_later:
  "spin_result obs (k + n) r \<Longrightarrow> held_from obs k n \<Longrightarrow> MAX_SPIN_COUNT \<le> n \<Longrightarrow> spin_result obs k r"
proof (cases r)
  case (Ok j)
  assume r: "spin_result obs (k + n) r" and h: "held_from obs k n"
  have "held_from obs k (n + (j - (k + n)))" unfolding held_from_add using r Ok h by simp
  with r Ok show ?thesis by simp
next
  case (Fault e)
  assume "spin_result obs (k + n) r" and "held_from obs k n" and "MAX_SPIN_COUNT \<le> n"
  with Fault held_from_add [of obs k MAX_SPIN_COUNT "n - MAX_SPIN_COUNT"] show ?thesis by simp
qed

lemma WriteLock_loop_returns:
  "TIMEOUT_TICK \<le> clock (i + d) - b \<Longrightarrow>
     \<exists>r. WriteLock_loop obs clock b k i = Some r \<and> spin_result obs k r"
proof (induction d arbitrary: k i)
  case 0
  then show ?case
    by (cases "WriteLock_spin obs MAX_SPIN_COUNT k")
      (auto simp: loop_unfold WriteLock_spin_None dest: WriteLock_spin_Some)
next
  case (Suc d)
  consider (hit) j where "WriteLock_spin obs MAX_SPIN_COUNT k = Some j"
    | (timeout) "WriteLock_spin obs MAX_SPIN_COUNT k = None" "TIMEOUT_TICK \<le> clock i - b"
    | (again) "WriteLock_spin obs MAX_SPIN_COUNT k = None" "\<not> TIMEOUT_TICK \<le> clock i - b"
    by (cases "WriteLock_spin obs MAX_SPIN_COUNT k") auto
  then show ?case
  proof cases
    case again
    from Suc.prems have "TIMEOUT_TICK \<le> clock (Suc i + d) - b" by simp
    from Suc.IH [OF this] obtain r where
      "WriteLock_loop obs clock b (k + MAX_SPIN_COUNT) (Suc i) = Some r"
      "spin_result obs (k + MAX_SPIN_COUNT) r" by blast
    with again show ?thesis
      by (auto simp: loop_unfold WriteLock_spin_None intro: spin_result_later)
  qed (auto simp: loop_unfold WriteLock_spin_None dest: WriteLock_spin_Some)
qed

lemma spin_within:
  assumes "k \<le> j" and "j < k + n" and "lockFlag (obs j) = EMPTY"
  shows "\<exists>m. WriteLock_spin obs n k = Some m"
proof (rule ccontr)
  assume "\<nexists>m. WriteLock_spin obs n k = Some m"
  then have "held_from obs k n" by (simp add: WriteLock_spin_None [symmetric])
  with assms show False by (auto simp: held_from_def)
qed

lemma thread_id_desired:
  "lockFlag l = get_write_desired_flag t \<Longrightarrow> valid_tid t \<Longrightarrow> get_lock_thread_id l = t"
  by (simp add: thread_id_eq_iff unat_desired valid_tid_def)

text \<open>The three ways a call succeeds at once.\<close>

lemma WriteLock_uncontended:
  assumes "lockFlag l = EMPTY" and "t \<noteq> 0"
  shows "WriteLock t (\<lambda>_. l) clock =
           Some (Ok (l\<lparr>lockFlag := get_write_desired_flag t, writeCount := writeCount l + 1\<rparr>))"
proof -
  have "WriteLock_spin (\<lambda>_. l) MAX_SPIN_COUNT 1 = Some 1"
    using assms by (simp add: numeral_eq_Suc)
  moreover have "get_lock_thread_id l = 0" using assms by (simp add: get_lock_thread_id_def)
  ultimately show ?thesis
    using assms by (simp add: WriteLock_def Let_def loop_unfold)
qed

lemma WriteLock_reentrant:
  "get_lock_thread_id (obs 0) = t \<Longrightarrow>
     WriteLock t obs clock = Some (Ok ((obs 0)\<lparr>writeCount := writeCount (obs 0) + 1\<rparr>))"
  by (simp add: WriteLock_def Let_def)

section \<open>Properties of the lock\<close>

lemma rw_exclusive:
  assumes i: "rw_inv s" and "0 < wheld s t" and "u \<noteq> t"
  shows "wheld s u = 0 \<and> u \<notin># readers s"
proof -
  from i assms(2) have v: "valid_tid t" by (auto simp: rw_inv_def)
  from i assms(2) have "hi (rw_flag s) = unat t" by (rule rw_pc_owner)
  with i v assms(3) show ?thesis by (auto simp: rw_inv_owned)
qed

text \<open>A step of one thread leaves the guards of the others alone.\<close>

lemma rw_thread_step_others:
  assumes "rw_thread_step u s s'" and "t \<noteq> u"
  shows "wheld s' t = wheld s t" "t \<in># readers s' \<longleftrightarrow> t \<in># readers s"
proof -
  have diff: "t \<in># M - {#u#} \<longleftrightarrow> t \<in># M" for M :: "uint32 multiset"
    using assms(2) by (simp add: count_greater_zero_iff [symmetric] del: count_greater_zero_iff)
  show "wheld s' t = wheld s t" using assms by cases simp_all
  show "t \<in># readers s' \<longleftrightarrow> t \<in># readers s" using assms by cases (simp_all add: diff)
qed

text \<open>A state after thread 1 took the write lock once, reached in three steps: the owner check, the
  compare-exchange and the increment of the count.\<close>

definition rw_demo :: "rw_pc \<Rightarrow> uint32 \<Rightarrow> uint16 \<Rightarrow> nat \<Rightarrow> rw_sys" where
  "rw_demo p f c n = \<lparr>rw_lk = \<lparr>lockFlag = f, writeCount = c\<rparr>, rw_pcs = (\<lambda>_. RW_Idle)(1 := p),
     wheld = (\<lambda>_. 0)(1 := n), readers = {#}, rw_crashed = None\<rparr>"

lemma reach_rw_demo: "reach rw_init rw_step (rw_demo RW_Idle 0x10000 1 1)"
proof -
  have v: "valid_tid 1" by (simp add: valid_tid_def)
  have 0: "reach rw_init rw_step (rw_demo RW_Idle 0 0 0)"
    by (rule reach_init) (auto simp: rw_init_def rw_demo_def RWLock_new_def)
  have 1: "rw_step (rw_demo RW_Idle 0 0 0) (rw_demo RW_WSpin 0 0 0)"
    using v w_enter_spin [of "rw_demo RW_Idle 0 0 0" 1]
    by (auto simp: rw_step_def rw_demo_def get_lock_thread_id_def)
  have 2: "rw_step (rw_demo RW_WSpin 0 0 0) (rw_demo RW_WInc 0x10000 0 0)"
    using v w_cas [of "rw_demo RW_WSpin 0 0 0" 1]
    by (auto simp: rw_step_def rw_demo_def get_write_desired_flag_def)
  have 3: "rw_step (rw_demo RW_WInc 0x10000 0 0) (rw_demo RW_Idle 0x10000 1 1)"
    using v w_inc [of "rw_demo RW_WInc 0x10000 0 0" 1]
    by (auto simp: rw_step_def rw_demo_def)
  from 0 1 2 3 show ?thesis by (metis reach.reach_step)
qed

text \<open>C1. Mutual exclusion. In every state the threads can reach, one atomic access at a time and in
  any interleaving, while a thread holds a write guard no other thread holds a write guard or a read
  guard. Threads have distinct ids below \<open>2 ^ 16\<close> and not 0, as \<^verbatim>\<open>TaskManager\<close> hands them out.\<close>

theorem rw_mutual_exclusion:
  assumes "reach rw_init rw_step s" and "0 < wheld s t" and "u \<noteq> t"
  shows "wheld s u = 0 \<and> u \<notin># readers s"
  using rw.reach_inv [OF assms(1)] assms(2,3) by (rule rw_exclusive)

theorem rw_mutual_exclusion_witness:
  "reach rw_init rw_step (rw_demo RW_Idle 0x10000 1 1) \<and> 0 < wheld (rw_demo RW_Idle 0x10000 1 1) 1 \<and>
   wheld (rw_demo RW_Idle 0x10000 1 1) 2 = 0 \<and> 2 \<notin># readers (rw_demo RW_Idle 0x10000 1 1)"
proof -
  have "0 < wheld (rw_demo RW_Idle 0x10000 1 1) 1" by (simp add: rw_demo_def)
  with rw_mutual_exclusion [OF reach_rw_demo this, of 2] reach_rw_demo show ?thesis by simp
qed

text \<open>C2. The lock word implements the abstract read-write lock: the image of every reachable state
  under \<open>rw_abs\<close> (the owner in the high half, its depth, the read guards) is reachable in the
  specification.\<close>

theorem rw_lock_refines:
  "reach rw_init rw_step s \<Longrightarrow> reach abs_rw_init abs_rw_step (rw_abs s)"
  by (rule rw_sim.reach_abs)

theorem rw_lock_refines_witness:
  "reach abs_rw_init abs_rw_step (rw_abs (rw_demo RW_Idle 0x10000 1 1))"
  by (rule rw_lock_refines [OF reach_rw_demo])

text \<open>No lock is leaked: when no thread is inside an operation and no guard is held, the lock word
  is \<^verbatim>\<open>EMPTY\<close> and the next \<^verbatim>\<open>WriteLock\<close> of any thread succeeds at its first compare-exchange.\<close>

theorem rw_quiescent_free:
  assumes "reach rw_init rw_step s" and "\<forall>u. rw_pcs s u = RW_Idle \<and> wheld s u = 0"
    and "readers s = {#}" and "valid_tid t"
  shows "lockFlag (rw_lk s) = EMPTY \<and>
    WriteLock t (\<lambda>_. rw_lk s) clock =
      Some (Ok \<lparr>lockFlag = get_write_desired_flag t, writeCount = 1\<rparr>)"
proof -
  from assms(1) have i: "rw_inv s" by (rule rw.reach_inv)
  have hi: "hi (rw_flag s) = 0"
  proof (cases rule: rw_owner_cases [of s])
    case (owned u)
    with i assms(2) show ?thesis by (auto simp: rw_inv_owned)
  qed
  with i assms(3) have z: "rw_flag s = 0" and c: "writeCount (rw_lk s) = 0"
    by (auto simp: rw_inv_free unat_eq_0 [symmetric] div_eq_0_iff)
  from assms(4) have "t \<noteq> 0" by (auto simp: valid_tid_def)
  with z c show ?thesis
    by (simp add: WriteLock_uncontended rw_lock.equality)
qed

theorem rw_quiescent_free_witness:
  "lockFlag RWLock_new = EMPTY \<and>
   WriteLock 7 (\<lambda>_. RWLock_new) (\<lambda>_. 0) = Some (Ok \<lparr>lockFlag = 0x70000, writeCount = 1\<rparr>)"
proof -
  let ?s = "rw_demo RW_Idle 0 0 0"
  have "reach rw_init rw_step ?s"
    by (rule reach_init) (auto simp: rw_init_def rw_demo_def RWLock_new_def)
  moreover have "\<forall>u. rw_pcs ?s u = RW_Idle \<and> wheld ?s u = 0" and "readers ?s = {#}" and "valid_tid 7"
    by (simp_all add: rw_demo_def valid_tid_def)
  ultimately show ?thesis
    using rw_quiescent_free [of ?s 7 "\<lambda>_. 0"]
    by (simp add: rw_demo_def RWLock_new_def get_write_desired_flag_def)
qed

text \<open>C22. \<^verbatim>\<open>WriteLock\<close> always returns to its caller or stops the process: once the clock has passed the
  timeout at some reading, the call has a result. It is the lock taken at the first observation with
  an empty word (or at once, when the thread owns the lock already), or the crash with
  \<^verbatim>\<open>THREAD_LOCK_TIMEOUT\<close> after a full round of held observations.\<close>

theorem WriteLock_returns:
  assumes "TIMEOUT_TICK \<le> clock (Suc d) - clock 0" and "valid_tid t"
  shows "\<exists>r. WriteLock t obs clock = Some r \<and>
    (case r of
       Ok l \<Rightarrow> get_lock_thread_id l = t \<and> (\<exists>j. writeCount l = writeCount (obs j) + 1 \<and>
                 (get_lock_thread_id (obs 0) = t \<and> j = 0 \<or> 0 < j \<and> lockFlag (obs j) = EMPTY))
     | Fault e \<Rightarrow> e = AssertCrash (error_code THREAD_LOCK_TIMEOUT) \<and>
                  (\<forall>m \<in> {1..MAX_SPIN_COUNT}. lockFlag (obs m) \<noteq> EMPTY))"
proof (cases "get_lock_thread_id (obs 0) = t")
  case True
  then show ?thesis by (simp add: WriteLock_reentrant get_lock_thread_id_def) blast
next
  case False
  have "TIMEOUT_TICK \<le> clock (1 + d) - clock 0" using assms(1) by simp
  then obtain r where r: "WriteLock_loop obs clock (clock 0) 1 1 = Some r" "spin_result obs 1 r"
    using WriteLock_loop_returns by blast
  show ?thesis
  proof (cases r)
    case (Ok j)
    with r False assms(2) show ?thesis
      by (auto simp: WriteLock_def Let_def intro!: exI [of _ j] thread_id_desired)
  next
    case (Fault e)
    with r False show ?thesis by (auto simp: WriteLock_def Let_def held_from_def)
  qed
qed

theorem WriteLock_returns_witness:
  "\<exists>r. WriteLock 2 (\<lambda>_. \<lparr>lockFlag = 0x10000, writeCount = 1\<rparr>) (\<lambda>n. if n = 0 then 5 else 20005) = Some r \<and>
     \<not> is_ok r"
proof -
  let ?obs = "\<lambda>_::nat. \<lparr>lockFlag = 0x10000, writeCount = 1\<rparr>"
  let ?clock = "\<lambda>n::nat. if n = 0 then 5 else 20005 :: uint64"
  have "TIMEOUT_TICK \<le> ?clock (Suc 0) - ?clock 0" and "valid_tid 2"
    by (simp_all add: valid_tid_def)
  note res = WriteLock_returns [OF this, of ?obs]
  have ok: "\<not> is_ok r"
    if "case r of Ok l \<Rightarrow> P l \<and> (\<exists>j. Q l j \<and>
            (get_lock_thread_id (?obs 0) = 2 \<and> j = 0 \<or> 0 < j \<and> lockFlag (?obs j) = EMPTY))
        | Fault e \<Rightarrow> F e" for r and P :: "rw_lock \<Rightarrow> bool" and Q F
    using that by (cases r) (auto simp: get_lock_thread_id_def)
  from res show ?thesis by (elim exE conjE) (intro exI conjI, assumption, erule ok)
qed

text \<open>Nesting. A thread that owns the lock, or finds it empty, takes it without waiting, and the
  matching \<^verbatim>\<open>WriteUnlock\<close> restores the lock exactly: the outermost one empties it, an inner one leaves
  it owned.\<close>

theorem WriteLock_WriteUnlock:
  assumes "valid_tid t" and "get_read_lock_count l = 0"
    and "lockFlag l = EMPTY \<and> writeCount l = 0 \<or> get_lock_thread_id l = t \<and> writeCount l \<noteq> 0"
  shows "\<exists>l'. WriteLock t (\<lambda>_. l) clock = Some (Ok l') \<and> get_lock_thread_id l' = t \<and>
    WriteUnlock l' = Ok l"
proof -
  from assms(1) have t: "t \<noteq> 0" by (auto simp: valid_tid_def)
  from assms(3) show ?thesis
  proof
    assume e: "lockFlag l = EMPTY \<and> writeCount l = 0"
    let ?l' = "l\<lparr>lockFlag := get_write_desired_flag t, writeCount := writeCount l + 1\<rparr>"
    have "get_read_lock_count ?l' = 0"
      by (simp add: read_count_0_iff unat_desired)
    then have "WriteUnlock ?l' = Ok l"
      using e by (simp add: WriteUnlock_def rw_lock.equality)
    moreover have "get_lock_thread_id ?l' = t"
      by (rule thread_id_desired) (simp_all add: assms(1))
    ultimately show ?thesis using e t by (auto simp: WriteLock_uncontended)
  next
    assume o: "get_lock_thread_id l = t \<and> writeCount l \<noteq> 0"
    let ?l' = "l\<lparr>writeCount := writeCount l + 1\<rparr>"
    have "get_read_lock_count ?l' = 0" "get_lock_thread_id ?l' = t"
      using assms(2) o by (simp_all add: get_read_lock_count_def get_lock_thread_id_def)
    with o show ?thesis
      by (auto simp: WriteLock_reentrant WriteUnlock_def)
  qed
qed

theorem WriteLock_WriteUnlock_witness:
  "\<exists>l'. WriteLock 3 (\<lambda>_. \<lparr>lockFlag = 0x30000, writeCount = 2\<rparr>) (\<lambda>_. 0) = Some (Ok l') \<and>
     get_lock_thread_id l' = 3 \<and> WriteUnlock l' = Ok \<lparr>lockFlag = 0x30000, writeCount = 2\<rparr>"
  by (rule WriteLock_WriteUnlock)
    (simp_all add: valid_tid_def get_read_lock_count_def get_lock_thread_id_def)

text \<open>C34. Only ids that fit the high half are safe. A thread whose id is a multiple of \<open>2 ^ 16\<close> (0, the
  value of \<^verbatim>\<open>TLS_Id\<close> in a thread no task manager started, is one) takes the lock and leaves the lock
  word \<^verbatim>\<open>EMPTY\<close>, so that any other thread takes it too.\<close>

theorem WriteLock_id_overflow:
  assumes "unat t mod 2 ^ 16 = 0" and "lockFlag l = EMPTY" and "u \<noteq> 0"
  shows "\<exists>l1 l2. WriteLock t (\<lambda>_. l) clock = Some (Ok l1) \<and> lockFlag l1 = EMPTY \<and>
    WriteLock u (\<lambda>_. l1) clock = Some (Ok l2)"
proof -
  have "\<exists>l1. WriteLock t (\<lambda>_. l) clock = Some (Ok l1) \<and> lockFlag l1 = EMPTY"
  proof (cases "t = 0")
    case True
    with assms(2) have "get_lock_thread_id l = t" by (simp add: get_lock_thread_id_def)
    with assms(2) show ?thesis by (simp add: WriteLock_reentrant)
  next
    case False
    from assms(1) have "unat (get_write_desired_flag t) = 0" by (simp only: unat_desired)
    then have "get_write_desired_flag t = 0" by (simp add: unat_eq_0)
    with False assms(2) show ?thesis by (simp add: WriteLock_uncontended)
  qed
  with assms(3) show ?thesis by (metis WriteLock_uncontended)
qed

theorem WriteLock_id_overflow_witness:
  "\<exists>l1 l2. WriteLock 0x10000 (\<lambda>_. RWLock_new) (\<lambda>_. 0) = Some (Ok l1) \<and> lockFlag l1 = EMPTY \<and>
     WriteLock 1 (\<lambda>_. l1) (\<lambda>_. 0) = Some (Ok l2)"
  by (rule WriteLock_id_overflow) (simp_all add: RWLock_new_def)

text \<open>The limit of the read count: when 65535 read guards are out, one more \<^verbatim>\<open>ReadLock\<close> carries into the high half of
  the lock word. The lock then has no readers and the thread with the id 1 as its writer, which takes the write lock
  at once.\<close>

theorem ReadLock_count_overflow:
  assumes "lockFlag l = 0xFFFF" and "u \<noteq> 0"
  shows "\<exists>l1 l2. ReadLock u (\<lambda>_. l) clock = Some (Ok l1) \<and> get_lock_thread_id l1 = 1 \<and> get_read_lock_count l1 = 0 \<and>
    WriteLock 1 (\<lambda>_. l1) clock = Some (Ok l2)"
proof -
  let ?l = "l\<lparr>lockFlag := 0x10000\<rparr>"
  have "get_lock_thread_id l = 0" "get_read_lock_count l = 0xFFFF"
    using assms(1) by (simp_all add: get_lock_thread_id_def get_read_lock_count_def)
  moreover have "ReadLock_spin (\<lambda>_. l) MAX_SPIN_COUNT 1 = Some 2"
    using assms(1) calculation by (simp add: numeral_eq_Suc)
  then have "ReadLock_loop (\<lambda>_. l) clock (clock 0) 1 1 = Some (Ok 2)" by (subst ReadLock_loop.simps) simp
  ultimately have "ReadLock u (\<lambda>_. l) clock = Some (Ok ?l)"
    using assms by (simp add: ReadLock_def Let_def)
  moreover have "get_lock_thread_id ?l = 1" "get_read_lock_count ?l = 0"
    by (simp_all add: get_lock_thread_id_def get_read_lock_count_def)
  ultimately show ?thesis using WriteLock_reentrant [of "\<lambda>_. ?l" 1] by blast
qed

end
