(* ===== verification/Lock_Containers.thy ===== *)
theory Lock_Containers
  imports Prelude
begin

text \<open>
  The containers that every thread shares: \<^verbatim>\<open>LockQueue.h\<close>, \<^verbatim>\<open>LockStack.h\<close>, \<^verbatim>\<open>LockPriorityQueue.h\<close>
  under \<^verbatim>\<open>src/MyNetworkLib/\<close>. Each operation runs under the container's \<^verbatim>\<open>RWLock\<close> from its first
  statement to its end (\<^verbatim>\<open>_WRITE_LOCK\<close>, \<^verbatim>\<open>_READ_LOCK\<close>), so it is one function on the contents; a
  nested operation of the same thread re-enters the lock. The element type is a parameter; where the
  templates return \<^verbatim>\<open>T()\<close> the default value is the argument \<open>dflt\<close>, where they use an element as a
  condition its conversion to \<^verbatim>\<open>bool\<close> is the argument \<open>truthy\<close>.

  Left out because the template bodies are ill-formed for every element type: \<^verbatim>\<open>LockStack::Pop\<close>
  and \<^verbatim>\<open>LockStack::Top\<close> (\<^verbatim>\<open>std::is_pointer_v(T)\<close>), \<^verbatim>\<open>LockStack::Clear(popped)\<close> (a reference bound to the
  value \<^verbatim>\<open>Pop()\<close> returns), \<^verbatim>\<open>LockPriorityQueue::TryPop(item)\<close> and \<^verbatim>\<open>Peek\<close> (\<^verbatim>\<open>std::priority_queue\<close> has
  no \<^verbatim>\<open>front\<close>).
\<close>

section \<open>LockQueue\<close>

record 'a lock_queue =
  lq_queue :: "'a list"

definition LockQueue_new :: "'a lock_queue" where
  "LockQueue_new = \<lparr>lq_queue = []\<rparr>"

definition LockQueue_Push :: "'a \<Rightarrow> 'a lock_queue \<Rightarrow> 'a lock_queue" where
  "LockQueue_Push item q = q\<lparr>lq_queue := lq_queue q @ [item]\<rparr>"

definition LockQueue_Pop :: "'a \<Rightarrow> 'a lock_queue \<Rightarrow> 'a \<times> 'a lock_queue" where
  "LockQueue_Pop dflt q =
     (case lq_queue q of [] \<Rightarrow> (dflt, q) | front # rest \<Rightarrow> (front, q\<lparr>lq_queue := rest\<rparr>))"

text \<open>\<^verbatim>\<open>TryPop\<close> and \<^verbatim>\<open>TryPeek\<close> leave the output parameter as it was when there is no element.\<close>

definition LockQueue_TryPop :: "'a \<Rightarrow> 'a lock_queue \<Rightarrow> bool \<times> 'a \<times> 'a lock_queue" where
  "LockQueue_TryPop item q =
     (case lq_queue q of [] \<Rightarrow> (False, item, q) | front # rest \<Rightarrow> (True, front, q\<lparr>lq_queue := rest\<rparr>))"

definition LockQueue_Front :: "'a \<Rightarrow> 'a lock_queue \<Rightarrow> 'a" where
  "LockQueue_Front dflt q = (case lq_queue q of [] \<Rightarrow> dflt | front # _ \<Rightarrow> front)"

definition LockQueue_TryPeek :: "'a \<Rightarrow> 'a lock_queue \<Rightarrow> bool \<times> 'a" where
  "LockQueue_TryPeek out q = (case lq_queue q of [] \<Rightarrow> (False, out) | front # _ \<Rightarrow> (True, front))"

fun pop_until_empty :: "'a list \<Rightarrow> 'a list" where
  "pop_until_empty [] = []"
| "pop_until_empty (x # xs) = pop_until_empty xs"

definition LockQueue_Clear :: "'a lock_queue \<Rightarrow> 'a lock_queue" where
  "LockQueue_Clear q = q\<lparr>lq_queue := pop_until_empty (lq_queue q)\<rparr>"

text \<open>\<^verbatim>\<open>while (T element = Pop()) popped.push_back(element);\<close> ends at the first element that converts to
  false; with a default that converts to true it never ends.\<close>

partial_function (option) LockQueue_Clear_into ::
    "('a \<Rightarrow> bool) \<Rightarrow> 'a \<Rightarrow> 'a list \<Rightarrow> 'a lock_queue \<Rightarrow> ('a list \<times> 'a lock_queue) option" where
  "LockQueue_Clear_into truthy dflt popped q =
     (let (element, q1) = LockQueue_Pop dflt q
      in if truthy element then LockQueue_Clear_into truthy dflt (popped @ [element]) q1
         else Some (popped, q1))"

definition LockQueue_SetNew :: "'a lock_queue \<Rightarrow> 'a lock_queue" where
  "LockQueue_SetNew q = q\<lparr>lq_queue := []\<rparr>"

section \<open>LockStack\<close>

text \<open>The top of the stack is the head of the list.\<close>

record 'a lock_stack =
  ls_stack :: "'a list"

definition LockStack_Push :: "'a \<Rightarrow> 'a lock_stack \<Rightarrow> 'a lock_stack" where
  "LockStack_Push item s = s\<lparr>ls_stack := item # ls_stack s\<rparr>"

definition LockStack_TryPop :: "'a \<Rightarrow> 'a lock_stack \<Rightarrow> bool \<times> 'a \<times> 'a lock_stack" where
  "LockStack_TryPop item s =
     (case ls_stack s of [] \<Rightarrow> (False, item, s) | tp # rest \<Rightarrow> (True, tp, s\<lparr>ls_stack := rest\<rparr>))"

definition LockStack_TryPeek :: "'a \<Rightarrow> 'a lock_stack \<Rightarrow> bool \<times> 'a" where
  "LockStack_TryPeek out s = (case ls_stack s of [] \<Rightarrow> (False, out) | tp # _ \<Rightarrow> (True, tp))"

definition LockStack_Clear :: "'a lock_stack \<Rightarrow> 'a lock_stack" where
  "LockStack_Clear s = s\<lparr>ls_stack := pop_until_empty (ls_stack s)\<rparr>"

definition LockStack_SetNew :: "'a lock_stack \<Rightarrow> 'a lock_stack" where
  "LockStack_SetNew s = s\<lparr>ls_stack := []\<rparr>"

section \<open>LockPriorityQueue\<close>

text \<open>
  \<^verbatim>\<open>std::priority_queue\<close> for a comparator \<open>lt\<close>: the elements best first. The standard fixes which
  element \<^verbatim>\<open>top\<close> returns up to equivalence only; here the older of two equivalent elements comes
  first, and what is proved below about the clients follows from the laws of the locale
  \<open>priority_queue\<close>, which any other choice satisfies too.
\<close>

fun pq_push :: "('a \<Rightarrow> 'a \<Rightarrow> bool) \<Rightarrow> 'a \<Rightarrow> 'a list \<Rightarrow> 'a list" where
  "pq_push lt x [] = [x]"
| "pq_push lt x (y # ys) = (if lt y x then x # y # ys else y # pq_push lt x ys)"

definition pq_top :: "'a list \<Rightarrow> 'a" where "pq_top q = hd q"
definition pq_pop :: "'a list \<Rightarrow> 'a list" where "pq_pop q = tl q"
definition pq_empty :: "'a list \<Rightarrow> bool" where "pq_empty q \<longleftrightarrow> q = []"

record 'a lock_pq =
  lp_pq :: "'a list"

definition LockPriorityQueue_new :: "'a lock_pq" where
  "LockPriorityQueue_new = \<lparr>lp_pq = []\<rparr>"

definition LockPriorityQueue_Push :: "('a \<Rightarrow> 'a \<Rightarrow> bool) \<Rightarrow> 'a \<Rightarrow> 'a lock_pq \<Rightarrow> 'a lock_pq" where
  "LockPriorityQueue_Push lt item p = p\<lparr>lp_pq := pq_push lt item (lp_pq p)\<rparr>"

definition LockPriorityQueue_Pop :: "'a \<Rightarrow> 'a lock_pq \<Rightarrow> 'a \<times> 'a lock_pq" where
  "LockPriorityQueue_Pop dflt p =
     (if pq_empty (lp_pq p) then (dflt, p)
      else let tp = pq_top (lp_pq p) in (tp, p\<lparr>lp_pq := pq_pop (lp_pq p)\<rparr>))"

definition LockPriorityQueue_TryPop_if ::
    "'a \<Rightarrow> ('a \<Rightarrow> bool) \<Rightarrow> 'a lock_pq \<Rightarrow> bool \<times> 'a \<times> 'a lock_pq" where
  "LockPriorityQueue_TryPop_if item condition p =
     (if pq_empty (lp_pq p) then (False, item, p)
      else let tp = pq_top (lp_pq p)
           in if condition tp then (True, tp, p\<lparr>lp_pq := pq_pop (lp_pq p)\<rparr>) else (False, item, p))"

text \<open>The loop that \<^verbatim>\<open>PopAll\<close> shares with \<^verbatim>\<open>GlobalJobWorker::CheckReservedJob\<close>: move the top out while it
  satisfies the condition.\<close>

function pq_pop_while :: "('a \<Rightarrow> bool) \<Rightarrow> 'a list \<Rightarrow> 'a list \<Rightarrow> 'a list \<times> 'a list" where
  "pq_pop_while condition items q =
     (if \<not> pq_empty q
      then let item = pq_top q
           in if condition item then pq_pop_while condition (items @ [item]) (pq_pop q)
              else (items, q)
      else (items, q))"
  by pat_completeness auto
termination
  by (relation "measure (\<lambda>(c, items, q). length q)") (auto simp: pq_empty_def pq_pop_def)

definition LockPriorityQueue_PopAll ::
    "'a list \<Rightarrow> ('a \<Rightarrow> bool) \<Rightarrow> 'a lock_pq \<Rightarrow> bool \<times> 'a list \<times> 'a lock_pq" where
  "LockPriorityQueue_PopAll items condition p =
     (let (items1, q1) = pq_pop_while condition items (lp_pq p)
      in (pq_empty q1, items1, p\<lparr>lp_pq := q1\<rparr>))"

definition LockPriorityQueue_TryPeek :: "'a \<Rightarrow> 'a lock_pq \<Rightarrow> bool \<times> 'a" where
  "LockPriorityQueue_TryPeek out p =
     (if pq_empty (lp_pq p) then (False, out) else (True, pq_top (lp_pq p)))"

definition LockPriorityQueue_Clear :: "'a lock_pq \<Rightarrow> 'a lock_pq" where
  "LockPriorityQueue_Clear p = p\<lparr>lp_pq := pop_until_empty (lp_pq p)\<rparr>"

partial_function (option) LockPriorityQueue_Clear_into ::
    "('a \<Rightarrow> bool) \<Rightarrow> 'a \<Rightarrow> 'a list \<Rightarrow> 'a lock_pq \<Rightarrow> ('a list \<times> 'a lock_pq) option" where
  "LockPriorityQueue_Clear_into truthy dflt elements p =
     (let (element, p1) = LockPriorityQueue_Pop dflt p
      in if truthy element then LockPriorityQueue_Clear_into truthy dflt (elements @ [element]) p1
         else Some (elements, p1))"

definition LockPriorityQueue_SetNew :: "'a lock_pq \<Rightarrow> 'a lock_pq" where
  "LockPriorityQueue_SetNew p = p\<lparr>lp_pq := []\<rparr>"

definition LockPriorityQueue_size :: "'a lock_pq \<Rightarrow> nat" where
  "LockPriorityQueue_size p = length (lp_pq p)"

section \<open>The queue interface\<close>

text \<open>A sequence of pushes and tries to pop, in the order the lock lets the threads in, and what the
  successful pops return.\<close>

datatype 'a queue_op = Op_Push 'a | Op_TryPop

fun pushes :: "'a queue_op list \<Rightarrow> 'a list" where
  "pushes [] = []"
| "pushes (Op_Push x # ops) = x # pushes ops"
| "pushes (Op_TryPop # ops) = pushes ops"

fun queue_run ::
    "('a \<Rightarrow> 'q \<Rightarrow> 'q) \<Rightarrow> ('a \<Rightarrow> 'q \<Rightarrow> bool \<times> 'a \<times> 'q) \<Rightarrow> 'a \<Rightarrow> 'q \<Rightarrow> 'a queue_op list \<Rightarrow> 'a list \<times> 'q" where
  "queue_run push try_pop v q [] = ([], q)"
| "queue_run push try_pop v q (Op_Push x # ops) = queue_run push try_pop v (push x q) ops"
| "queue_run push try_pop v q (Op_TryPop # ops) =
     (case try_pop v q of (ok, x, q1) \<Rightarrow>
        (case queue_run push try_pop v q1 ops of (out, q2) \<Rightarrow> (if ok then x # out else out, q2)))"

locale container =
  fixes items :: "'q \<Rightarrow> 'a list"
    and push :: "'a \<Rightarrow> 'q \<Rightarrow> 'q"
    and try_pop :: "'a \<Rightarrow> 'q \<Rightarrow> bool \<times> 'a \<times> 'q"
  assumes try_pop_empty: "items q = [] \<Longrightarrow> try_pop v q = (False, v, q)"
    and try_pop_ok: "items q = x # xs \<Longrightarrow> \<exists>q'. try_pop v q = (True, x, q') \<and> items q' = xs"
    and push_mset: "mset (items (push x q)) = add_mset x (mset (items q))"
begin

lemma try_pop_cases:
  obtains "items q = []" "try_pop v q = (False, v, q)"
  | x q' where "items q = x # items q'" "try_pop v q = (True, x, q')"
  using try_pop_empty [of q v] try_pop_ok [of q _ _ v] by (cases "items q") blast+

lemma run_mset:
  "queue_run push try_pop v q ops = (out, q') \<Longrightarrow>
     mset (items q) + mset (pushes ops) = mset out + mset (items q')"
proof (induction ops arbitrary: q out)
  case (Cons op ops)
  show ?case
  proof (cases op)
    case (Op_Push x)
    with Cons.IH [of "push x q" out] Cons.prems show ?thesis by (simp add: push_mset)
  next
    case Op_TryPop
    then show ?thesis
      using Cons Cons.IH [of q out]
      by (cases rule: try_pop_cases [of q v]) (auto split: prod.splits)
  qed
qed simp

end

text \<open>First in, first out: what was in the queue followed by what was pushed is what came out
  followed by what is still there.\<close>

locale fifo = container +
  assumes push_items: "items (push x q) = items q @ [x]"
begin

lemma run_fifo:
  "queue_run push try_pop v q ops = (out, q') \<Longrightarrow> items q @ pushes ops = out @ items q'"
proof (induction ops arbitrary: q out)
  case (Cons op ops)
  show ?case
  proof (cases op)
    case (Op_Push x)
    with Cons.IH [of "push x q" out] Cons.prems show ?thesis by (simp add: push_items)
  next
    case Op_TryPop
    then show ?thesis
      using Cons Cons.IH [of q out]
      by (cases rule: try_pop_cases [of q v]) (auto split: prod.splits)
  qed
qed simp

end

locale lifo = container +
  assumes push_top: "items (push x q) = x # items q"
begin

lemma pop_push: "\<exists>q'. try_pop v (push x q) = (True, x, q') \<and> items q' = items q"
  by (rule try_pop_ok) (rule push_top)

end

interpretation LockQueue: fifo lq_queue LockQueue_Push LockQueue_TryPop
  by unfold_locales (auto simp: LockQueue_Push_def LockQueue_TryPop_def)

interpretation LockStack: lifo ls_stack LockStack_Push LockStack_TryPop
  by unfold_locales (auto simp: LockStack_Push_def LockStack_TryPop_def)

section \<open>The priority queue interface\<close>

text \<open>A comparator must be a strict weak ordering, as \<^verbatim>\<open>std::priority_queue\<close> requires.\<close>

locale strict_weak_order =
  fixes lt :: "'a \<Rightarrow> 'a \<Rightarrow> bool"
  assumes lt_irrefl: "\<not> lt x x"
    and lt_trans: "lt x y \<Longrightarrow> lt y z \<Longrightarrow> lt x z"
    and lt_negtrans: "lt x z \<Longrightarrow> lt x y \<or> lt y z"
begin

lemma not_lt_trans: "\<not> lt x y \<Longrightarrow> \<not> lt y z \<Longrightarrow> \<not> lt x z"
  using lt_negtrans by blast

lemma lt_asym: "lt x y \<Longrightarrow> \<not> lt y x"
  using lt_irrefl lt_trans by blast

end

locale priority_queue =
  fixes lt :: "'a \<Rightarrow> 'a \<Rightarrow> bool"
    and empty_q :: 'q
    and is_empty :: "'q \<Rightarrow> bool"
    and push :: "'a \<Rightarrow> 'q \<Rightarrow> 'q"
    and best :: "'q \<Rightarrow> 'a"
    and pop :: "'q \<Rightarrow> 'q"
    and contents :: "'q \<Rightarrow> 'a multiset"
    and wf_q :: "'q \<Rightarrow> bool"
  assumes empty_contents: "contents empty_q = {#}"
    and wf_empty: "wf_q empty_q"
    and is_empty_iff: "is_empty q \<longleftrightarrow> contents q = {#}"
    and push_contents: "contents (push x q) = add_mset x (contents q)"
    and push_wf: "wf_q q \<Longrightarrow> wf_q (push x q)"
    and best_in: "contents q \<noteq> {#} \<Longrightarrow> best q \<in># contents q"
    and best_max: "wf_q q \<Longrightarrow> x \<in># contents q \<Longrightarrow> \<not> lt (best q) x"
    and pop_contents: "contents q \<noteq> {#} \<Longrightarrow> contents (pop q) = contents q - {#best q#}"
    and pop_wf: "wf_q q \<Longrightarrow> contents q \<noteq> {#} \<Longrightarrow> wf_q (pop q)"
begin

lemma split_best: "contents q \<noteq> {#} \<Longrightarrow> contents q = add_mset (best q) (contents (pop q))"
  by (simp add: pop_contents best_in)

text \<open>Taking the best element out never exposes a better one.\<close>

lemma best_pop:
  assumes "wf_q q" and "contents q \<noteq> {#}" and "contents (pop q) \<noteq> {#}"
  shows "\<not> lt (best q) (best (pop q))"
proof (rule best_max [OF assms(1)])
  show "best (pop q) \<in># contents q"
    using best_in [OF assms(3)] split_best [OF assms(2)] by simp
qed

end

definition pq_wf :: "('a \<Rightarrow> 'a \<Rightarrow> bool) \<Rightarrow> 'a list \<Rightarrow> bool" where
  "pq_wf lt q \<longleftrightarrow> sorted_wrt (\<lambda>x y. \<not> lt x y) q"

lemma mset_pq_push [simp]: "mset (pq_push lt x q) = add_mset x (mset q)"
  by (induction q) auto

lemma set_pq_push [simp]: "set (pq_push lt x q) = insert x (set q)"
  using mset_pq_push [of lt x q] by (metis set_mset_add_mset_insert set_mset_mset)

context strict_weak_order
begin

lemma pq_push_wf: "pq_wf lt q \<Longrightarrow> pq_wf lt (pq_push lt x q)"
proof (induction q)
  case Nil
  then show ?case by (simp add: pq_wf_def)
next
  case (Cons y ys)
  show ?case
  proof (cases "lt y x")
    case True
    with Cons.prems show ?thesis
      using lt_asym [OF True] not_lt_trans [of x y] by (auto simp: pq_wf_def)
  next
    case False
    with Cons show ?thesis by (auto simp: pq_wf_def)
  qed
qed

end

sublocale strict_weak_order \<subseteq> pq: priority_queue lt "[]" pq_empty "pq_push lt" pq_top pq_pop mset "pq_wf lt"
proof unfold_locales
  show "\<not> lt (pq_top q) x" if "pq_wf lt q" "x \<in># mset q" for q x
    using that lt_irrefl by (cases q) (auto simp: pq_wf_def pq_top_def)
qed (auto simp: pq_wf_def pq_empty_def pq_top_def pq_pop_def neq_Nil_conv
      intro: pq_push_wf [unfolded pq_wf_def])

section \<open>Draining loops\<close>

lemma pop_until_empty_Nil [simp]: "pop_until_empty xs = []"
  by (induction xs) auto

declare pq_pop_while.simps [simp del]

lemma pq_pop_while_eq: "pq_pop_while c xs q = (xs @ takeWhile c q, dropWhile c q)"
proof (induction c xs q rule: pq_pop_while.induct)
  case (1 c xs q)
  then show ?case
    by (subst pq_pop_while.simps, cases q) (simp_all add: pq_empty_def pq_top_def pq_pop_def)
qed

lemma LockQueue_Clear_into_eq:
  assumes "\<not> truthy dflt"
  shows "LockQueue_Clear_into truthy dflt popped q =
     Some (popped @ takeWhile truthy (lq_queue q),
           q\<lparr>lq_queue := tl (dropWhile truthy (lq_queue q))\<rparr>)"
proof (induction "lq_queue q" arbitrary: q popped)
  case Nil
  then have "q = q\<lparr>lq_queue := []\<rparr>" by simp
  with Nil assms show ?case
    by (simp add: LockQueue_Clear_into.simps [of truthy dflt popped q] LockQueue_Pop_def)
next
  case (Cons x xs)
  then have q: "lq_queue q = x # xs" by simp
  show ?case
    using Cons.hyps(1) [of "q\<lparr>lq_queue := xs\<rparr>" "popped @ [x]"]
    by (simp add: LockQueue_Clear_into.simps [of truthy dflt popped q] LockQueue_Pop_def q)
qed

context strict_weak_order
begin

text \<open>A condition that holds for everything at least as good as an element it holds for.\<close>

lemma takeWhile_eq_filter:
  assumes "\<forall>x y. c x \<and> \<not> lt y x \<longrightarrow> c y" and "pq_wf lt q"
  shows "takeWhile c q = filter c q" and "dropWhile c q = filter (\<lambda>x. \<not> c x) q"
proof -
  have "takeWhile c q = filter c q \<and> dropWhile c q = filter (\<lambda>x. \<not> c x) q"
    using assms(2)
  proof (induction q)
    case (Cons x xs)
    then have later: "\<forall>y \<in> set xs. \<not> c x \<longrightarrow> \<not> c y"
      using assms(1) by (auto simp: pq_wf_def)
    show ?case
    proof (cases "c x")
      case True
      with Cons show ?thesis by (simp add: pq_wf_def)
    next
      case False
      with later have "filter c xs = []" and "filter (\<lambda>x. \<not> c x) xs = xs"
        by (auto simp: filter_empty_conv filter_id_conv)
      with False show ?thesis by simp
    qed
  qed simp
  then show "takeWhile c q = filter c q" and "dropWhile c q = filter (\<lambda>x. \<not> c x) q"
    by simp_all
qed

lemma pq_pop_while_due:
  assumes c: "\<forall>x y. c x \<and> \<not> lt y x \<longrightarrow> c y" and wf: "pq_wf lt q"
    and res: "pq_pop_while c xs q = (ys, q')"
  shows "\<exists>out. ys = xs @ out \<and> mset out = filter_mset c (mset q) \<and> sorted_wrt (\<lambda>x y. \<not> lt x y) out \<and>
    mset q' = filter_mset (\<lambda>x. \<not> c x) (mset q) \<and> pq_wf lt q'"
proof -
  from res have "ys = xs @ filter c q" and q': "q' = filter (\<lambda>x. \<not> c x) q"
    by (simp_all add: pq_pop_while_eq takeWhile_eq_filter [OF c wf])
  with wf show ?thesis
    by (intro exI [of _ "filter c q"]) (simp add: pq_wf_def sorted_wrt_filter)
qed

end

section \<open>Properties of the containers\<close>

text \<open>\<^verbatim>\<open>LockQueue\<close> is first in, first out: over any sequence of \<^verbatim>\<open>Push\<close> and \<^verbatim>\<open>TryPop\<close> calls, in the
  order the lock admits them, what the queue held followed by what was pushed is what came out
  followed by what it still holds. Nothing is lost, duplicated or reordered.\<close>

lemma LockQueue_fifo:
  assumes "queue_run LockQueue_Push LockQueue_TryPop v q ops = (out, q')"
  shows "lq_queue q @ pushes ops = out @ lq_queue q'"
  using assms by (rule LockQueue.run_fifo)

text \<open>\<^verbatim>\<open>LockQueue::Clear(popped)\<close> ends whenever the default element converts to false, and appends to
  \<^verbatim>\<open>popped\<close> the elements before the first one that converts to false, in order. That element is
  removed and dropped and the ones behind it stay, so the queue is emptied, as documented, exactly
  when at most its last element converts to false.\<close>

theorem LockQueue_Clear_into_result:
  assumes "\<not> truthy dflt"
  shows "\<exists>q'. LockQueue_Clear_into truthy dflt popped q =
      Some (popped @ takeWhile truthy (lq_queue q), q') \<and>
    lq_queue q' = tl (dropWhile truthy (lq_queue q)) \<and>
    (lq_queue q' = [] \<longleftrightarrow> (\<forall>x \<in> set (butlast (lq_queue q)). truthy x))"
proof -
  have "tl (dropWhile truthy xs) = [] \<longleftrightarrow> (\<forall>x \<in> set (butlast xs). truthy x)" for xs
    by (induction xs) auto
  with assms show ?thesis by (simp add: LockQueue_Clear_into_eq)
qed

theorem LockQueue_Clear_into_result_witness:
  "\<exists>q'. LockQueue_Clear_into (\<lambda>x. x \<noteq> 0) 0 [] \<lparr>lq_queue = [5, 0, 7 :: int]\<rparr> = Some ([5], q') \<and>
     lq_queue q' = [7]"
proof -
  have "\<not> (0 :: int) \<noteq> 0" by simp
  from LockQueue_Clear_into_result [of "\<lambda>x. x \<noteq> 0" "0 :: int" "[]" "\<lparr>lq_queue = [5, 0, 7]\<rparr>", OF this]
  show ?thesis by auto
qed

text \<open>\<^verbatim>\<open>LockPriorityQueue::PopAll\<close> with a condition that holds for everything at least as urgent as
  an element it holds for: it returns exactly the elements that satisfy the condition, most urgent
  first, keeps the others in a well-formed queue, and reports whether none is left.\<close>

theorem LockPriorityQueue_PopAll_due:
  assumes "strict_weak_order lt" and "pq_wf lt (lp_pq p)" and "\<forall>x y. c x \<and> \<not> lt y x \<longrightarrow> c y"
    and "LockPriorityQueue_PopAll items c p = (none_left, items', p')"
  shows "\<exists>out. items' = items @ out \<and> mset out = filter_mset c (mset (lp_pq p)) \<and>
    sorted_wrt (\<lambda>x y. \<not> lt x y) out \<and> mset (lp_pq p') = filter_mset (\<lambda>x. \<not> c x) (mset (lp_pq p)) \<and>
    pq_wf lt (lp_pq p') \<and> (none_left \<longleftrightarrow> lp_pq p' = [])"
proof -
  from assms(4) have "pq_pop_while c items (lp_pq p) = (items', lp_pq p')"
    and "none_left \<longleftrightarrow> lp_pq p' = []"
    by (auto simp: LockPriorityQueue_PopAll_def pq_empty_def split: prod.splits)
  then show ?thesis
    using strict_weak_order.pq_pop_while_due [OF assms(1,3,2)] by metis
qed

lemma strict_weak_order_gt: "strict_weak_order (\<lambda>x y. (x :: 'a::linorder) > y)"
  by unfold_locales auto

theorem LockPriorityQueue_PopAll_due_witness:
  "\<exists>out. [30 :: nat, 10] = [30] @ out \<and> mset out = filter_mset (\<lambda>x. x \<le> 15) (mset [10, 20])"
proof -
  have c: "\<forall>x y :: nat. x \<le> 15 \<and> \<not> y > x \<longrightarrow> y \<le> 15" by auto
  have w: "pq_wf (\<lambda>x y. x > y) (lp_pq \<lparr>lp_pq = [10, 20 :: nat]\<rparr>)" by (simp add: pq_wf_def)
  have p: "LockPriorityQueue_PopAll [30] (\<lambda>x. x \<le> 15) \<lparr>lp_pq = [10, 20 :: nat]\<rparr> =
      (False, [30, 10], \<lparr>lp_pq = [20]\<rparr>)"
    by (simp add: LockPriorityQueue_PopAll_def pq_pop_while_eq pq_empty_def)
  show ?thesis
    using LockPriorityQueue_PopAll_due [OF strict_weak_order_gt w c p] by auto
qed

end
