(* ===== verification/Guarded_Objects.thy ===== *)
theory Guarded_Objects
  imports RW_Lock Lock_Containers
begin

text \<open>
  Why an operation of a container can be taken as one function. The scope guards of \<^verbatim>\<open>Lock.h\<close> take the lock
  of \<^verbatim>\<open>RWLock.cpp\<close> in their constructor and give it back in their destructor (\<^verbatim>\<open>_WRITE_LOCK\<close>, \<^verbatim>\<open>_READ_LOCK\<close>); between
  the two a thread runs the statements of an operation, one access to the shared container at a time, while
  all other threads move. A thread may take and release the lock again inside of an operation, as
  \<^verbatim>\<open>Clear(popped)\<close> does by calling \<^verbatim>\<open>Pop\<close>, but never gives up its guard before its end. \<open>guarded_step\<close> is this system, with the lock's own steps of \<open>RW_Lock\<close>; \<open>atomic_step\<close> is
  the specification, in which a call takes effect at once, some time between its start and its return.

  The locale \<open>guarded_object\<close> has the laws that the statements of the operations must obey: run to their end
  without interference they are the atomic function, and operations under the read guard do not write. The
  simulation is proved there once; \<^verbatim>\<open>LockQueue\<close> and \<^verbatim>\<open>LockPriorityQueue\<close> interpret it with the functions of
  \<open>Lock_Containers\<close> as the atomic ones.
\<close>

section \<open>Threads, lock and object\<close>

record ('v, 'x) guarded =
  g_rw :: rw_sys
  g_obj :: 'x
  g_at :: "uint32 \<Rightarrow> 'v option"
  g_results :: "(uint32 \<times> 'v) list"

definition guarded_init :: "'x \<Rightarrow> ('v, 'x) guarded \<Rightarrow> bool" where
  "guarded_init x g \<longleftrightarrow> rw_init (g_rw g) \<and> g_obj g = x \<and> g_at g = (\<lambda>_. None) \<and> g_results g = []"

text \<open>The guard an operation runs under.\<close>

definition has_guard :: "('v \<Rightarrow> bool) \<Rightarrow> rw_sys \<Rightarrow> uint32 \<Rightarrow> 'v \<Rightarrow> bool" where
  "has_guard writes s t v \<longleftrightarrow> (if writes v then 0 < wheld s t else t \<in># readers s)"

inductive guarded_step ::
    "('v \<Rightarrow> bool) \<Rightarrow> ('v \<Rightarrow> 'x \<Rightarrow> 'v \<times> 'x) \<Rightarrow> ('v \<Rightarrow> bool) \<Rightarrow> ('v \<Rightarrow> bool) \<Rightarrow>
     ('v, 'x) guarded \<Rightarrow> ('v, 'x) guarded \<Rightarrow> bool"
  for entry :: "'v \<Rightarrow> bool" and micro :: "'v \<Rightarrow> 'x \<Rightarrow> 'v \<times> 'x" and finished writes :: "'v \<Rightarrow> bool" where
  g_lock:
    "rw_crashed (g_rw g) = None \<Longrightarrow> valid_tid t \<Longrightarrow> rw_thread_step t (g_rw g) s \<Longrightarrow>
     (\<forall>v. g_at g t = Some v \<longrightarrow> has_guard writes s t v) \<Longrightarrow>
     guarded_step entry micro finished writes g (g\<lparr>g_rw := s\<rparr>)"
| g_begin:
    "g_at g t = None \<Longrightarrow> rw_pcs (g_rw g) t = RW_Idle \<Longrightarrow> entry v \<Longrightarrow>
     has_guard writes (g_rw g) t v \<Longrightarrow>
     guarded_step entry micro finished writes g (g\<lparr>g_at := (g_at g)(t \<mapsto> v)\<rparr>)"
| g_micro:
    "g_at g t = Some v \<Longrightarrow> rw_pcs (g_rw g) t = RW_Idle \<Longrightarrow> \<not> finished v \<Longrightarrow> micro v (g_obj g) = (v', x') \<Longrightarrow>
     guarded_step entry micro finished writes g (g\<lparr>g_at := (g_at g)(t \<mapsto> v'), g_obj := x'\<rparr>)"
| g_end:
    "g_at g t = Some v \<Longrightarrow> rw_pcs (g_rw g) t = RW_Idle \<Longrightarrow> finished v \<Longrightarrow>
     guarded_step entry micro finished writes g
       (g\<lparr>g_at := (g_at g)(t := None), g_results := g_results g @ [(t, v)]\<rparr>)"

text \<open>The specification: a call changes the object and has its result at once; it returns later, if that result
  is one of a finished operation.\<close>

record ('v, 'x) atomic_object =
  ao_obj :: 'x
  ao_out :: "uint32 \<Rightarrow> 'v option"
  ao_results :: "(uint32 \<times> 'v) list"

definition atomic_init :: "'x \<Rightarrow> ('v, 'x) atomic_object \<Rightarrow> bool" where
  "atomic_init x a \<longleftrightarrow> ao_obj a = x \<and> ao_out a = (\<lambda>_. None) \<and> ao_results a = []"

inductive atomic_step ::
    "('v \<Rightarrow> bool) \<Rightarrow> ('v \<Rightarrow> 'x \<Rightarrow> 'v \<times> 'x) \<Rightarrow> ('v \<Rightarrow> bool) \<Rightarrow>
     ('v, 'x) atomic_object \<Rightarrow> ('v, 'x) atomic_object \<Rightarrow> bool"
  for entry :: "'v \<Rightarrow> bool" and run :: "'v \<Rightarrow> 'x \<Rightarrow> 'v \<times> 'x" and finished :: "'v \<Rightarrow> bool" where
  ao_call:
    "ao_out a t = None \<Longrightarrow> entry v \<Longrightarrow> run v (ao_obj a) = (v', x') \<Longrightarrow>
     atomic_step entry run finished a (a\<lparr>ao_obj := x', ao_out := (ao_out a)(t \<mapsto> v')\<rparr>)"
| ao_return:
    "ao_out a t = Some v \<Longrightarrow> finished v \<Longrightarrow>
     atomic_step entry run finished a (a\<lparr>ao_out := (ao_out a)(t := None), ao_results := ao_results a @ [(t, v)]\<rparr>)"

text \<open>What a state of the threads stands for: the writer that is inside is taken to its end.\<close>

definition writers :: "('v \<Rightarrow> bool) \<Rightarrow> ('v, 'x) guarded \<Rightarrow> uint32 set" where
  "writers writes g = {t. \<exists>v. g_at g t = Some v \<and> writes v}"

definition guarded_abs ::
    "('v \<Rightarrow> 'x \<Rightarrow> 'v \<times> 'x) \<Rightarrow> ('v \<Rightarrow> bool) \<Rightarrow> ('v, 'x) guarded \<Rightarrow> ('v, 'x) atomic_object" where
  "guarded_abs run writes g =
     \<lparr>ao_obj = (if writers writes g = {} then g_obj g
                else snd (run (the (g_at g (the_elem (writers writes g)))) (g_obj g))),
      ao_out = (\<lambda>t. map_option (\<lambda>v. fst (run v (g_obj g))) (g_at g t)),
      ao_results = g_results g\<rparr>"

text \<open>A thread is inside only under the right guard.\<close>

definition guarded_inv :: "('v \<Rightarrow> bool) \<Rightarrow> ('v, 'x) guarded \<Rightarrow> bool" where
  "guarded_inv writes g \<longleftrightarrow> rw_inv (g_rw g) \<and> (\<forall>t v. g_at g t = Some v \<longrightarrow> has_guard writes (g_rw g) t v)"

lemma guarded_abs_simps [simp]:
  "ao_out (guarded_abs run writes g) t = map_option (\<lambda>v. fst (run v (g_obj g))) (g_at g t)"
  "ao_results (guarded_abs run writes g) = g_results g"
  "writers writes g = {} \<Longrightarrow> ao_obj (guarded_abs run writes g) = g_obj g"
  "writers writes g = {t} \<Longrightarrow> ao_obj (guarded_abs run writes g) = snd (run (the (g_at g t)) (g_obj g))"
  by (simp_all add: guarded_abs_def)

lemma guard_excludes:
  assumes "rw_inv s" "has_guard writes s t v" "writes v" "u \<noteq> t"
  shows "\<not> has_guard writes s u w"
  using rw_exclusive [OF assms(1), of t u] assms(2-4) by (auto simp: has_guard_def)

lemma writer_alone:
  assumes "guarded_inv writes g" "g_at g t = Some v" "writes v" "u \<noteq> t"
  shows "g_at g u = None"
  using assms guard_excludes [of "g_rw g" writes t v u] unfolding guarded_inv_def by (cases "g_at g u") blast+

lemma writers_one:
  assumes "guarded_inv writes g" "g_at g t = Some v" "writes v"
  shows "writers writes g = {t}"
proof -
  have "u = t" if "u \<in> writers writes g" for u
    using writer_alone [OF assms, of u] that by (cases "u = t") (auto simp: writers_def)
  moreover have "t \<in> writers writes g" using assms(2,3) by (simp add: writers_def)
  ultimately show ?thesis by blast
qed

lemma writers_none:
  assumes "guarded_inv writes g" "g_at g t = Some v" "\<not> writes v"
  shows "writers writes g = {}"
proof -
  have "u \<notin> writers writes g" for u
    using writer_alone [OF assms(1), of u _ t] assms(2,3) by (cases "u = t") (auto simp: writers_def)
  then show ?thesis by blast
qed

section \<open>The contract and its consequence\<close>

locale guarded_object =
  fixes entry :: "'v \<Rightarrow> bool"
    and micro :: "'v \<Rightarrow> 'x \<Rightarrow> 'v \<times> 'x"
    and finished :: "'v \<Rightarrow> bool"
    and writes :: "'v \<Rightarrow> bool"
    and run :: "'v \<Rightarrow> 'x \<Rightarrow> 'v \<times> 'x"
  assumes run_finished: "finished v \<Longrightarrow> run v x = (v, x)"
    and run_micro: "\<not> finished v \<Longrightarrow> micro v x = (v', x') \<Longrightarrow> run v x = run v' x'"
    and writes_micro: "micro v x = (v', x') \<Longrightarrow> writes v' \<longleftrightarrow> writes v"
    and reads: "\<not> writes v \<Longrightarrow> snd (run v x) = x" "\<not> writes v \<Longrightarrow> micro v x = (v', x') \<Longrightarrow> x' = x"
begin

lemma guarded_inv_step:
  assumes i: "guarded_inv writes g" and "guarded_step entry micro finished writes g g'"
  shows "guarded_inv writes g'"
  using assms(2)
proof cases
  case (g_lock t s)
  have "rw_step (g_rw g) s" using g_lock by (auto simp: rw_step_def)
  moreover have "rw_inv (g_rw g)" using i by (simp add: guarded_inv_def)
  ultimately have "rw_inv s" by (rule rw.inv_step [rotated])
  moreover have "has_guard writes s u v" if "g_at g u = Some v" for u v
  proof -
    have "has_guard writes (g_rw g) u v" using i that by (simp add: guarded_inv_def)
    then show ?thesis
      using rw_thread_step_others [OF g_lock(4), of u] g_lock(5) that by (cases "u = t") (simp_all add: has_guard_def)
  qed
  ultimately show ?thesis by (simp add: g_lock(1) guarded_inv_def)
next
  case (g_micro t v v' x')
  have "writes v' \<longleftrightarrow> writes v" using g_micro(5) by (rule writes_micro)
  moreover have "has_guard writes (g_rw g) t v" using i g_micro(2) by (simp add: guarded_inv_def)
  ultimately have "has_guard writes (g_rw g) t v'" by (simp add: has_guard_def)
  then show ?thesis using i g_micro(1) by (simp add: guarded_inv_def)
qed (use i in \<open>simp_all add: guarded_inv_def\<close>)

lemma sim_begin:
  assumes i: "guarded_inv writes g" and t: "g_at g t = None" "entry v" and held: "has_guard writes (g_rw g) t v"
  shows "atomic_step entry run finished (guarded_abs run writes g) (guarded_abs run writes (g\<lparr>g_at := (g_at g)(t \<mapsto> v)\<rparr>))"
proof -
  let ?g = "g\<lparr>g_at := (g_at g)(t \<mapsto> v)\<rparr>"
  let ?a = "(guarded_abs run writes g)\<lparr>ao_obj := snd (run v (g_obj g)),
    ao_out := (ao_out (guarded_abs run writes g))(t \<mapsto> fst (run v (g_obj g)))\<rparr>"
  have i': "guarded_inv writes ?g" using i held by (simp add: guarded_inv_def)
  have none: "writers writes g = {}"
  proof -
    have "\<not> writes w" if "g_at g u = Some w" for u w
      using guard_excludes [of "g_rw g" writes u w t v] i held that t(1) by (cases "u = t") (auto simp: guarded_inv_def)
    then show ?thesis by (auto simp: writers_def)
  qed
  have "ao_obj (guarded_abs run writes ?g) = snd (run v (g_obj g))"
    using writers_one [OF i', of t v] writers_none [OF i', of t v] reads(1) [of v "g_obj g"]
    by (cases "writes v") simp_all
  then have "guarded_abs run writes ?g = ?a" by (intro atomic_object.equality) (simp_all add: fun_eq_iff)
  moreover have "atomic_step entry run finished (guarded_abs run writes g) ?a"
    using t none by (intro ao_call [where v = v]) simp_all
  ultimately show ?thesis by simp
qed

lemma sim_micro:
  assumes i: "guarded_inv writes g" and m: "g_at g t = Some v" "\<not> finished v" "micro v (g_obj g) = (v', x')"
  shows "guarded_abs run writes (g\<lparr>g_at := (g_at g)(t \<mapsto> v'), g_obj := x'\<rparr>) = guarded_abs run writes g"
proof -
  let ?g = "g\<lparr>g_at := (g_at g)(t \<mapsto> v'), g_obj := x'\<rparr>"
  have run: "run v' x' = run v (g_obj g)" using run_micro [OF m(2,3)] by simp
  have w: "writes v' \<longleftrightarrow> writes v" using m(3) by (rule writes_micro)
  have i': "guarded_inv writes ?g" using i m(1) w by (auto simp: guarded_inv_def has_guard_def)
  have others: "g_at g u = None \<or> x' = g_obj g" if "u \<noteq> t" for u
    using writer_alone [OF i m(1) _ that] reads(2) [OF _ m(3)] by blast
  have out: "ao_out (guarded_abs run writes ?g) u = ao_out (guarded_abs run writes g) u" for u
    using run m(1) others [of u] by (cases "u = t") auto
  have "ao_obj (guarded_abs run writes ?g) = ao_obj (guarded_abs run writes g)"
  proof (cases "writes v")
    case True
    then show ?thesis using writers_one [OF i m(1)] writers_one [OF i', of t v'] w run m(1) by simp
  next
    case False
    then show ?thesis using writers_none [OF i m(1)] writers_none [OF i', of t v'] w reads(2) [OF _ m(3)] by simp
  qed
  with out show ?thesis by (intro atomic_object.equality) (simp_all add: fun_eq_iff)
qed

lemma sim_end:
  assumes i: "guarded_inv writes g" and e: "g_at g t = Some v" "finished v"
  shows "atomic_step entry run finished (guarded_abs run writes g)
    (guarded_abs run writes (g\<lparr>g_at := (g_at g)(t := None), g_results := g_results g @ [(t, v)]\<rparr>))"
proof -
  let ?g = "g\<lparr>g_at := (g_at g)(t := None), g_results := g_results g @ [(t, v)]\<rparr>"
  let ?a = "(guarded_abs run writes g)\<lparr>ao_out := (ao_out (guarded_abs run writes g))(t := None),
    ao_results := ao_results (guarded_abs run writes g) @ [(t, v)]\<rparr>"
  have run: "run v (g_obj g) = (v, g_obj g)" using e(2) by (rule run_finished)
  have "writers writes ?g \<subseteq> writers writes g - {t}" by (auto simp: writers_def split: if_splits)
  moreover have "writers writes g \<subseteq> {t}" using writers_one [OF i e(1)] writers_none [OF i e(1)] by blast
  ultimately have "writers writes ?g = {}" by blast
  moreover have "ao_obj (guarded_abs run writes g) = g_obj g"
    using writers_one [OF i e(1)] writers_none [OF i e(1)] e(1) run by (cases "writes v") simp_all
  ultimately have "guarded_abs run writes ?g = ?a" by (intro atomic_object.equality) (simp_all add: fun_eq_iff)
  moreover have "atomic_step entry run finished (guarded_abs run writes g) ?a" using e run by (intro ao_return) simp_all
  ultimately show ?thesis by simp
qed

lemma sim_lock: "guarded_abs run writes (g\<lparr>g_rw := s\<rparr>) = guarded_abs run writes g"
proof -
  have "writers writes (g\<lparr>g_rw := s\<rparr>) = writers writes g" by (simp add: writers_def)
  then show ?thesis by (simp add: guarded_abs_def)
qed

end

sublocale guarded_object \<subseteq> lin: simulation "guarded_init x" "guarded_step entry micro finished writes" "guarded_inv writes"
  "atomic_init x" "atomic_step entry run finished" "guarded_abs run writes" for x
proof unfold_locales
  fix g g'
  assume i: "guarded_inv writes g" and s: "guarded_step entry micro finished writes g g'"
  show "guarded_inv writes g'" using i s by (rule guarded_inv_step)
  from s show "guarded_abs run writes g' = guarded_abs run writes g \<or>
      atomic_step entry run finished (guarded_abs run writes g) (guarded_abs run writes g')"
    by cases (use sim_lock sim_begin [OF i] sim_micro [OF i] sim_end [OF i] in \<open>simp_all\<close>)
qed (auto simp: guarded_init_def guarded_inv_def atomic_init_def guarded_abs_def writers_def intro: rw.inv_init)

section \<open>LockQueue\<close>

text \<open>Where a thread is in an operation: before its first access, between two accesses, or with its result,
  which is under the guard it was made under. \<open>Q_Taken\<close> has the copy of the front element. The argument of an
  operation that returns an element is what it returns when there is none. \<open>Q_ClearInto\<close> to \<open>Q_IntoGot\<close> are the
  loop of \<^verbatim>\<open>Clear(popped)\<close>, whose \<^verbatim>\<open>Pop\<close> takes the lock again: its first argument is the conversion of an
  element to a condition, its second \<^verbatim>\<open>T()\<close>. \<open>Q_Never\<close> stands for the result of a loop that does not end.\<close>

datatype 'a queue_pc =
    Q_Push 'a
  | Q_Pop 'a
  | Q_TryPop 'a
  | Q_Take
  | Q_Taken 'a
  | Q_Front 'a
  | Q_TryPeek 'a
  | Q_Look
  | Q_Clear
  | Q_ClearInto "'a \<Rightarrow> bool" 'a "'a list"
  | Q_IntoTake "'a \<Rightarrow> bool" 'a "'a list"
  | Q_IntoTaken "'a \<Rightarrow> bool" 'a "'a list" 'a
  | Q_IntoGot "'a \<Rightarrow> bool" 'a "'a list" 'a
  | Q_SetNew
  | Q_Void
  | Q_Cleared "'a list"
  | Q_Never
  | Q_Popped bool 'a
  | Q_Seen bool 'a

fun queue_entry :: "'a queue_pc \<Rightarrow> bool" where
  "queue_entry (Q_Push _) = True"
| "queue_entry (Q_Pop _) = True"
| "queue_entry (Q_TryPop _) = True"
| "queue_entry (Q_Front _) = True"
| "queue_entry (Q_TryPeek _) = True"
| "queue_entry Q_Clear = True"
| "queue_entry (Q_ClearInto _ _ _) = True"
| "queue_entry Q_SetNew = True"
| "queue_entry _ = False"

fun queue_finished :: "'a queue_pc \<Rightarrow> bool" where
  "queue_finished Q_Void = True"
| "queue_finished (Q_Cleared _) = True"
| "queue_finished (Q_Popped _ _) = True"
| "queue_finished (Q_Seen _ _) = True"
| "queue_finished _ = False"

fun queue_writes :: "'a queue_pc \<Rightarrow> bool" where
  "queue_writes (Q_Front _) = False"
| "queue_writes (Q_TryPeek _) = False"
| "queue_writes Q_Look = False"
| "queue_writes (Q_Seen _ _) = False"
| "queue_writes _ = True"

fun queue_micro :: "'a queue_pc \<Rightarrow> 'a lock_queue \<Rightarrow> 'a queue_pc \<times> 'a lock_queue" where
  "queue_micro (Q_Push item) q = (Q_Void, q\<lparr>lq_queue := lq_queue q @ [item]\<rparr>)"
| "queue_micro (Q_Pop dflt) q = (if lq_queue q = [] then Q_Popped False dflt else Q_Take, q)"
| "queue_micro (Q_TryPop item) q = (if lq_queue q = [] then Q_Popped False item else Q_Take, q)"
| "queue_micro Q_Take q = (Q_Taken (hd (lq_queue q)), q)"
| "queue_micro (Q_Taken front) q = (Q_Popped True front, q\<lparr>lq_queue := tl (lq_queue q)\<rparr>)"
| "queue_micro (Q_Front dflt) q = (if lq_queue q = [] then Q_Seen False dflt else Q_Look, q)"
| "queue_micro (Q_TryPeek out) q = (if lq_queue q = [] then Q_Seen False out else Q_Look, q)"
| "queue_micro Q_Look q = (Q_Seen True (hd (lq_queue q)), q)"
| "queue_micro Q_Clear q = (if lq_queue q = [] then (Q_Void, q) else (Q_Clear, q\<lparr>lq_queue := tl (lq_queue q)\<rparr>))"
| "queue_micro (Q_ClearInto truthy dflt popped) q =
     (if lq_queue q = [] then Q_IntoGot truthy dflt popped dflt else Q_IntoTake truthy dflt popped, q)"
| "queue_micro (Q_IntoTake truthy dflt popped) q = (Q_IntoTaken truthy dflt popped (hd (lq_queue q)), q)"
| "queue_micro (Q_IntoTaken truthy dflt popped front) q =
     (Q_IntoGot truthy dflt popped front, q\<lparr>lq_queue := tl (lq_queue q)\<rparr>)"
| "queue_micro (Q_IntoGot truthy dflt popped element) q =
     (if truthy element then Q_ClearInto truthy dflt (popped @ [element]) else Q_Cleared popped, q)"
| "queue_micro Q_SetNew q = (Q_Void, q\<lparr>lq_queue := []\<rparr>)"
| "queue_micro pc q = (pc, q)"

text \<open>The operations at once are those of \<open>Lock_Containers\<close>. A \<^verbatim>\<open>Clear(popped)\<close> that does not end leaves nothing in the
  queue.\<close>

definition clear_into :: "('a \<Rightarrow> bool) \<Rightarrow> 'a \<Rightarrow> 'a list \<Rightarrow> 'a lock_queue \<Rightarrow> 'a queue_pc \<times> 'a lock_queue" where
  "clear_into truthy dflt popped q =
     (case LockQueue_Clear_into truthy dflt popped q of
        None \<Rightarrow> (Q_Never, q\<lparr>lq_queue := []\<rparr>) | Some (popped1, q1) \<Rightarrow> (Q_Cleared popped1, q1))"

definition clear_got :: "('a \<Rightarrow> bool) \<Rightarrow> 'a \<Rightarrow> 'a list \<Rightarrow> 'a \<Rightarrow> 'a lock_queue \<Rightarrow> 'a queue_pc \<times> 'a lock_queue" where
  "clear_got truthy dflt popped element q =
     (if truthy element then clear_into truthy dflt (popped @ [element]) q else (Q_Cleared popped, q))"

fun queue_atomic :: "'a queue_pc \<Rightarrow> 'a lock_queue \<Rightarrow> 'a queue_pc \<times> 'a lock_queue" where
  "queue_atomic (Q_Push item) q = (Q_Void, LockQueue_Push item q)"
| "queue_atomic (Q_Pop dflt) q = (case LockQueue_Pop dflt q of (x, q1) \<Rightarrow> (Q_Popped (lq_queue q \<noteq> []) x, q1))"
| "queue_atomic (Q_TryPop item) q = (case LockQueue_TryPop item q of (ok, x, q1) \<Rightarrow> (Q_Popped ok x, q1))"
| "queue_atomic (Q_Front dflt) q = (Q_Seen (lq_queue q \<noteq> []) (LockQueue_Front dflt q), q)"
| "queue_atomic (Q_TryPeek out) q = (case LockQueue_TryPeek out q of (ok, x) \<Rightarrow> (Q_Seen ok x, q))"
| "queue_atomic Q_Clear q = (Q_Void, LockQueue_Clear q)"
| "queue_atomic (Q_ClearInto truthy dflt popped) q = clear_into truthy dflt popped q"
| "queue_atomic (Q_IntoTake truthy dflt popped) q =
     clear_got truthy dflt popped (hd (lq_queue q)) (q\<lparr>lq_queue := tl (lq_queue q)\<rparr>)"
| "queue_atomic (Q_IntoTaken truthy dflt popped front) q =
     clear_got truthy dflt popped front (q\<lparr>lq_queue := tl (lq_queue q)\<rparr>)"
| "queue_atomic (Q_IntoGot truthy dflt popped element) q = clear_got truthy dflt popped element q"
| "queue_atomic Q_SetNew q = (Q_Void, LockQueue_SetNew q)"
| "queue_atomic Q_Take q = (Q_Popped True (hd (lq_queue q)), q\<lparr>lq_queue := tl (lq_queue q)\<rparr>)"
| "queue_atomic (Q_Taken front) q = (Q_Popped True front, q\<lparr>lq_queue := tl (lq_queue q)\<rparr>)"
| "queue_atomic Q_Look q = (Q_Seen True (hd (lq_queue q)), q)"
| "queue_atomic pc q = (pc, q)"

lemma clear_into_step:
  "clear_into truthy dflt popped q =
     (case lq_queue q of [] \<Rightarrow> clear_got truthy dflt popped dflt q
      | front # r \<Rightarrow> clear_got truthy dflt popped front (q\<lparr>lq_queue := r\<rparr>))"
  using LockQueue_Clear_into.simps [of truthy dflt popped q]
  by (cases q; cases "lq_queue q") (auto simp: clear_into_def clear_got_def LockQueue_Pop_def split: option.split)

lemma queue_run_micro:
  assumes "\<not> queue_finished v" "queue_micro v q = (v', q')"
  shows "queue_atomic v q = queue_atomic v' q'"
proof (cases v)
  case (Q_ClearInto truthy dflt popped)
  then show ?thesis
    using assms(2) clear_into_step [of truthy dflt popped q] by (cases "lq_queue q") auto
next
  case (Q_IntoGot truthy dflt popped element)
  then show ?thesis using assms(2) by (auto simp: clear_got_def split: if_splits)
qed (use assms in \<open>auto simp: LockQueue_Push_def LockQueue_Pop_def LockQueue_TryPop_def LockQueue_Front_def
      LockQueue_TryPeek_def LockQueue_Clear_def LockQueue_SetNew_def split: list.splits if_splits\<close>)

interpretation LockQueue_guarded: guarded_object queue_entry queue_micro queue_finished queue_writes queue_atomic
proof unfold_locales
  fix v v' :: "'a queue_pc" and q q'
  show "queue_finished v \<Longrightarrow> queue_atomic v q = (v, q)" by (cases v) simp_all
  show "queue_micro v q = (v', q') \<Longrightarrow> queue_writes v' = queue_writes v" by (cases v) (auto split: if_splits)
  show "\<not> queue_writes v \<Longrightarrow> snd (queue_atomic v q) = q" by (cases v) (auto split: prod.split)
  show "\<not> queue_writes v \<Longrightarrow> queue_micro v q = (v', q') \<Longrightarrow> q' = q" by (cases v) (auto split: if_splits)
qed (rule queue_run_micro)

section \<open>LockPriorityQueue\<close>

text \<open>The same for the priority queue. \<open>P_All\<close>, \<open>P_AllTop\<close>, \<open>P_AllPop\<close> are the loop of \<^verbatim>\<open>PopAll\<close> and \<open>P_AllEnd\<close> is before its last
  test for emptiness; \<open>P_Top\<close> is before the condition of \<^verbatim>\<open>TryPop\<close> is tried on the top.\<close>

datatype 'a pq_pc =
    P_Push 'a
  | P_Pop 'a
  | P_Take
  | P_TryPop 'a "'a \<Rightarrow> bool"
  | P_Top 'a "'a \<Rightarrow> bool"
  | P_Taken 'a
  | P_All "'a list" "'a \<Rightarrow> bool"
  | P_AllTop "'a list" "'a \<Rightarrow> bool"
  | P_AllPop "'a list" 'a "'a \<Rightarrow> bool"
  | P_AllEnd "'a list"
  | P_TryPeek 'a
  | P_Look
  | P_Clear
  | P_ClearInto "'a \<Rightarrow> bool" 'a "'a list"
  | P_IntoTake "'a \<Rightarrow> bool" 'a "'a list"
  | P_IntoTaken "'a \<Rightarrow> bool" 'a "'a list" 'a
  | P_IntoGot "'a \<Rightarrow> bool" 'a "'a list" 'a
  | P_SetNew
  | P_Size
  | P_Void
  | P_Cleared "'a list"
  | P_Never
  | P_Popped bool 'a
  | P_PoppedAll bool "'a list"
  | P_Seen bool 'a
  | P_Counted nat

fun pq_entry :: "'a pq_pc \<Rightarrow> bool" where
  "pq_entry (P_Push _) = True"
| "pq_entry (P_Pop _) = True"
| "pq_entry (P_TryPop _ _) = True"
| "pq_entry (P_All _ _) = True"
| "pq_entry (P_TryPeek _) = True"
| "pq_entry P_Clear = True"
| "pq_entry (P_ClearInto _ _ _) = True"
| "pq_entry P_SetNew = True"
| "pq_entry P_Size = True"
| "pq_entry _ = False"

fun pq_finished :: "'a pq_pc \<Rightarrow> bool" where
  "pq_finished P_Void = True"
| "pq_finished (P_Cleared _) = True"
| "pq_finished (P_Popped _ _) = True"
| "pq_finished (P_PoppedAll _ _) = True"
| "pq_finished (P_Seen _ _) = True"
| "pq_finished (P_Counted _) = True"
| "pq_finished _ = False"

fun pq_writes :: "'a pq_pc \<Rightarrow> bool" where
  "pq_writes (P_TryPeek _) = False"
| "pq_writes P_Look = False"
| "pq_writes P_Size = False"
| "pq_writes (P_Seen _ _) = False"
| "pq_writes (P_Counted _) = False"
| "pq_writes _ = True"

fun pq_micro :: "('a \<Rightarrow> 'a \<Rightarrow> bool) \<Rightarrow> 'a pq_pc \<Rightarrow> 'a lock_pq \<Rightarrow> 'a pq_pc \<times> 'a lock_pq" where
  "pq_micro lt (P_Push item) p = (P_Void, p\<lparr>lp_pq := pq_push lt item (lp_pq p)\<rparr>)"
| "pq_micro lt (P_Pop dflt) p = (if pq_empty (lp_pq p) then P_Popped False dflt else P_Take, p)"
| "pq_micro lt P_Take p = (P_Taken (pq_top (lp_pq p)), p)"
| "pq_micro lt (P_TryPop item c) p = (if pq_empty (lp_pq p) then P_Popped False item else P_Top item c, p)"
| "pq_micro lt (P_Top item c) p = (if c (pq_top (lp_pq p)) then P_Taken (pq_top (lp_pq p)) else P_Popped False item, p)"
| "pq_micro lt (P_Taken item) p = (P_Popped True item, p\<lparr>lp_pq := pq_pop (lp_pq p)\<rparr>)"
| "pq_micro lt (P_All items c) p = (if \<not> pq_empty (lp_pq p) then P_AllTop items c else P_AllEnd items, p)"
| "pq_micro lt (P_AllTop items c) p =
     (if c (pq_top (lp_pq p)) then P_AllPop items (pq_top (lp_pq p)) c else P_AllEnd items, p)"
| "pq_micro lt (P_AllPop items item c) p = (P_All (items @ [item]) c, p\<lparr>lp_pq := pq_pop (lp_pq p)\<rparr>)"
| "pq_micro lt (P_AllEnd items) p = (P_PoppedAll (pq_empty (lp_pq p)) items, p)"
| "pq_micro lt (P_TryPeek out) p = (if pq_empty (lp_pq p) then P_Seen False out else P_Look, p)"
| "pq_micro lt P_Look p = (P_Seen True (pq_top (lp_pq p)), p)"
| "pq_micro lt P_Clear p = (if pq_empty (lp_pq p) then (P_Void, p) else (P_Clear, p\<lparr>lp_pq := pq_pop (lp_pq p)\<rparr>))"
| "pq_micro lt (P_ClearInto truthy dflt elements) p =
     (if pq_empty (lp_pq p) then P_IntoGot truthy dflt elements dflt else P_IntoTake truthy dflt elements, p)"
| "pq_micro lt (P_IntoTake truthy dflt elements) p = (P_IntoTaken truthy dflt elements (pq_top (lp_pq p)), p)"
| "pq_micro lt (P_IntoTaken truthy dflt elements tp) p =
     (P_IntoGot truthy dflt elements tp, p\<lparr>lp_pq := pq_pop (lp_pq p)\<rparr>)"
| "pq_micro lt (P_IntoGot truthy dflt elements element) p =
     (if truthy element then P_ClearInto truthy dflt (elements @ [element]) else P_Cleared elements, p)"
| "pq_micro lt P_SetNew p = (P_Void, p\<lparr>lp_pq := []\<rparr>)"
| "pq_micro lt P_Size p = (P_Counted (length (lp_pq p)), p)"
| "pq_micro lt pc p = (pc, p)"

definition pop_all :: "'a list \<Rightarrow> ('a \<Rightarrow> bool) \<Rightarrow> 'a lock_pq \<Rightarrow> 'a pq_pc \<times> 'a lock_pq" where
  "pop_all items c p = (case LockPriorityQueue_PopAll items c p of (e, items1, p1) \<Rightarrow> (P_PoppedAll e items1, p1))"

definition pq_clear_into :: "('a \<Rightarrow> bool) \<Rightarrow> 'a \<Rightarrow> 'a list \<Rightarrow> 'a lock_pq \<Rightarrow> 'a pq_pc \<times> 'a lock_pq" where
  "pq_clear_into truthy dflt elements p =
     (case LockPriorityQueue_Clear_into truthy dflt elements p of
        None \<Rightarrow> (P_Never, p\<lparr>lp_pq := []\<rparr>) | Some (elements1, p1) \<Rightarrow> (P_Cleared elements1, p1))"

definition pq_clear_got :: "('a \<Rightarrow> bool) \<Rightarrow> 'a \<Rightarrow> 'a list \<Rightarrow> 'a \<Rightarrow> 'a lock_pq \<Rightarrow> 'a pq_pc \<times> 'a lock_pq" where
  "pq_clear_got truthy dflt elements element p =
     (if truthy element then pq_clear_into truthy dflt (elements @ [element]) p else (P_Cleared elements, p))"

fun pq_atomic :: "('a \<Rightarrow> 'a \<Rightarrow> bool) \<Rightarrow> 'a pq_pc \<Rightarrow> 'a lock_pq \<Rightarrow> 'a pq_pc \<times> 'a lock_pq" where
  "pq_atomic lt (P_Push item) p = (P_Void, LockPriorityQueue_Push lt item p)"
| "pq_atomic lt (P_Pop dflt) p =
     (case LockPriorityQueue_Pop dflt p of (x, p1) \<Rightarrow> (P_Popped (\<not> pq_empty (lp_pq p)) x, p1))"
| "pq_atomic lt (P_TryPop item c) p = (case LockPriorityQueue_TryPop_if item c p of (ok, x, p1) \<Rightarrow> (P_Popped ok x, p1))"
| "pq_atomic lt (P_All items c) p = pop_all items c p"
| "pq_atomic lt (P_TryPeek out) p = (case LockPriorityQueue_TryPeek out p of (ok, x) \<Rightarrow> (P_Seen ok x, p))"
| "pq_atomic lt P_Clear p = (P_Void, LockPriorityQueue_Clear p)"
| "pq_atomic lt (P_ClearInto truthy dflt elements) p = pq_clear_into truthy dflt elements p"
| "pq_atomic lt (P_IntoTake truthy dflt elements) p =
     pq_clear_got truthy dflt elements (pq_top (lp_pq p)) (p\<lparr>lp_pq := pq_pop (lp_pq p)\<rparr>)"
| "pq_atomic lt (P_IntoTaken truthy dflt elements tp) p =
     pq_clear_got truthy dflt elements tp (p\<lparr>lp_pq := pq_pop (lp_pq p)\<rparr>)"
| "pq_atomic lt (P_IntoGot truthy dflt elements element) p = pq_clear_got truthy dflt elements element p"
| "pq_atomic lt P_SetNew p = (P_Void, LockPriorityQueue_SetNew p)"
| "pq_atomic lt P_Size p = (P_Counted (LockPriorityQueue_size p), p)"
| "pq_atomic lt P_Take p = (P_Popped True (pq_top (lp_pq p)), p\<lparr>lp_pq := pq_pop (lp_pq p)\<rparr>)"
| "pq_atomic lt (P_Taken item) p = (P_Popped True item, p\<lparr>lp_pq := pq_pop (lp_pq p)\<rparr>)"
| "pq_atomic lt (P_Top item c) p =
     (if c (pq_top (lp_pq p)) then (P_Popped True (pq_top (lp_pq p)), p\<lparr>lp_pq := pq_pop (lp_pq p)\<rparr>)
      else (P_Popped False item, p))"
| "pq_atomic lt (P_AllPop items item c) p = pop_all (items @ [item]) c (p\<lparr>lp_pq := pq_pop (lp_pq p)\<rparr>)"
| "pq_atomic lt (P_AllTop items c) p =
     (if c (pq_top (lp_pq p)) then pop_all (items @ [pq_top (lp_pq p)]) c (p\<lparr>lp_pq := pq_pop (lp_pq p)\<rparr>)
      else (P_PoppedAll (pq_empty (lp_pq p)) items, p))"
| "pq_atomic lt (P_AllEnd items) p = (P_PoppedAll (pq_empty (lp_pq p)) items, p)"
| "pq_atomic lt P_Look p = (P_Seen True (pq_top (lp_pq p)), p)"
| "pq_atomic lt pc p = (pc, p)"

lemma pop_all_step:
  "pop_all items c p =
     (if pq_empty (lp_pq p) \<or> \<not> c (pq_top (lp_pq p)) then (P_PoppedAll (pq_empty (lp_pq p)) items, p)
      else pop_all (items @ [pq_top (lp_pq p)]) c (p\<lparr>lp_pq := pq_pop (lp_pq p)\<rparr>))"
  unfolding pop_all_def LockPriorityQueue_PopAll_def
  by (subst pq_pop_while.simps) (auto simp: Let_def split: prod.splits)

lemma pq_clear_into_step:
  "pq_clear_into truthy dflt elements p =
     (if pq_empty (lp_pq p) then pq_clear_got truthy dflt elements dflt p
      else pq_clear_got truthy dflt elements (pq_top (lp_pq p)) (p\<lparr>lp_pq := pq_pop (lp_pq p)\<rparr>))"
  using LockPriorityQueue_Clear_into.simps [of truthy dflt elements p]
  by (cases p) (auto simp: pq_clear_into_def pq_clear_got_def LockPriorityQueue_Pop_def pq_empty_def Let_def split: option.split)

lemma pq_run_micro:
  assumes "\<not> pq_finished v" "pq_micro lt v p = (v', p')"
  shows "pq_atomic lt v p = pq_atomic lt v' p'"
proof (cases v)
  case (P_All items c)
  then show ?thesis using assms(2) pop_all_step [of items c p] by (auto split: if_splits)
next
  case (P_ClearInto truthy dflt elements)
  then show ?thesis using assms(2) pq_clear_into_step [of truthy dflt elements p] by (auto split: if_splits)
next
  case (P_IntoGot truthy dflt elements element)
  then show ?thesis using assms(2) by (auto simp: pq_clear_got_def split: if_splits)
next
  case P_Clear
  then show ?thesis using assms(2) by (cases p) (auto simp: LockPriorityQueue_Clear_def pq_empty_def split: if_splits)
qed (use assms in \<open>auto simp: LockPriorityQueue_Push_def LockPriorityQueue_Pop_def LockPriorityQueue_TryPop_if_def
      LockPriorityQueue_TryPeek_def LockPriorityQueue_Clear_def LockPriorityQueue_SetNew_def LockPriorityQueue_size_def
      Let_def split: if_splits\<close>)

interpretation LockPriorityQueue_guarded:
  guarded_object pq_entry "pq_micro lt" pq_finished pq_writes "pq_atomic lt" for lt
proof unfold_locales
  fix v v' :: "'a pq_pc" and p p'
  show "pq_finished v \<Longrightarrow> pq_atomic lt v p = (v, p)" by (cases v) simp_all
  show "pq_micro lt v p = (v', p') \<Longrightarrow> pq_writes v' = pq_writes v" by (cases v) (auto split: if_splits)
  show "\<not> pq_writes v \<Longrightarrow> snd (pq_atomic lt v p) = p" by (cases v) (auto split: prod.split)
  show "\<not> pq_writes v \<Longrightarrow> pq_micro lt v p = (v', p') \<Longrightarrow> p' = p" by (cases v) (auto split: if_splits)
qed (rule pq_run_micro)

section \<open>Properties\<close>

lemma guarded_quiet: "\<forall>t. g_at g t = None \<Longrightarrow> ao_obj (guarded_abs run writes g) = g_obj g"
  by (simp add: writers_def)

text \<open>C3. \<^verbatim>\<open>LockQueue\<close> is an atomic queue for its threads. In every state that threads can reach which take and
  release the lock one atomic access at a time and run the statements of the queue's operations under their
  guards, in any interleaving: what has been returned, what the queue holds once the writer inside is done, and
  the result of every operation in progress are those of a run in which each operation takes effect at
  once between its call and its return, as the functions \<open>LockQueue_Push\<close>, \<open>LockQueue_TryPop\<close> and so on say. The
  operations are all those of the class, \<^verbatim>\<open>Clear(popped)\<close> with its nested \<^verbatim>\<open>Pop\<close> included; one that does not end has
  the result \<open>Q_Never\<close> and never returns. When no thread is inside, that queue is the actual one.\<close>

theorem LockQueue_linearizable:
  assumes "reach (guarded_init LockQueue_new) (guarded_step queue_entry queue_micro queue_finished queue_writes) g"
  shows "\<exists>a. reach (atomic_init LockQueue_new) (atomic_step queue_entry queue_atomic queue_finished) a \<and> ao_results a = g_results g \<and>
    (\<forall>t v. g_at g t = Some v \<longrightarrow> ao_out a t = Some (fst (queue_atomic v (g_obj g)))) \<and>
    (\<forall>t v. g_at g t = Some v \<and> queue_writes v \<longrightarrow> ao_obj a = snd (queue_atomic v (g_obj g))) \<and>
    ((\<forall>t v. g_at g t = Some v \<longrightarrow> \<not> queue_writes v) \<longrightarrow> ao_obj a = g_obj g)"
proof -
  let ?a = "guarded_abs queue_atomic queue_writes g"
  have i: "guarded_inv queue_writes g" using assms by (rule LockQueue_guarded.lin.reach_inv)
  have "reach (atomic_init LockQueue_new) (atomic_step queue_entry queue_atomic queue_finished) ?a"
    using assms by (rule LockQueue_guarded.lin.reach_abs)
  moreover have "ao_obj ?a = snd (queue_atomic v (g_obj g))" if "g_at g t = Some v" "queue_writes v" for t v
    using writers_one [OF i that] that(1) by simp
  moreover have "ao_obj ?a = g_obj g" if "\<forall>t v. g_at g t = Some v \<longrightarrow> \<not> queue_writes v"
    using that by (intro guarded_abs_simps) (auto simp: writers_def)
  ultimately show ?thesis by (intro exI [of _ ?a]) auto
qed

text \<open>Threads that only use the lock.\<close>

lemma lock_reach:
  assumes "reach rw_init rw_step s"
  shows "reach (guarded_init x) (guarded_step entry micro finished writes)
    \<lparr>g_rw = s, g_obj = x, g_at = (\<lambda>_. None), g_results = []\<rparr>"
  using assms
proof (induction rule: reach.induct)
  case (reach_step s s')
  from reach_step.hyps(2) obtain t where "rw_crashed s = None" "valid_tid t" "rw_thread_step t s s'" by (auto simp: rw_step_def)
  then have "guarded_step entry micro finished writes \<lparr>g_rw = s, g_obj = x, g_at = (\<lambda>_. None), g_results = []\<rparr>
      \<lparr>g_rw = s', g_obj = x, g_at = (\<lambda>_. None), g_results = []\<rparr>"
    using g_lock [of "\<lparr>g_rw = s, g_obj = x, g_at = (\<lambda>_. None), g_results = []\<rparr>" t s'] by simp
  with reach_step.IH show ?case by (rule reach.reach_step)
qed (rule reach_init, simp add: guarded_init_def)

text \<open>Thread 1 has the write guard and is inside \<^verbatim>\<open>Push\<close>, before its only access.\<close>

definition guarded_demo :: "(nat queue_pc, nat lock_queue) guarded" where
  "guarded_demo = \<lparr>g_rw = rw_demo RW_Idle 0x10000 1 1, g_obj = LockQueue_new, g_at = (\<lambda>_. None)(1 \<mapsto> Q_Push 7), g_results = []\<rparr>"

lemma guarded_demo_reach:
  "reach (guarded_init LockQueue_new) (guarded_step queue_entry queue_micro queue_finished queue_writes) guarded_demo"
proof (rule reach_step [OF lock_reach [OF reach_rw_demo]])
  let ?g = "\<lparr>g_rw = rw_demo RW_Idle 0x10000 1 1, g_obj = LockQueue_new, g_at = (\<lambda>_. None), g_results = []\<rparr>"
  show "guarded_step queue_entry queue_micro queue_finished queue_writes ?g guarded_demo"
    using g_begin [of ?g 1 queue_entry "Q_Push 7" queue_writes queue_micro queue_finished]
    by (simp add: guarded_demo_def has_guard_def rw_demo_def)
qed

theorem LockQueue_linearizable_witness:
  "\<exists>a. reach (atomic_init LockQueue_new) (atomic_step queue_entry queue_atomic queue_finished) a \<and> ao_results a = [] \<and>
     ao_obj a = \<lparr>lq_queue = [7 :: nat]\<rparr> \<and> ao_out a 1 = Some Q_Void"
proof -
  obtain a where a: "reach (atomic_init LockQueue_new) (atomic_step queue_entry queue_atomic queue_finished) a"
    "ao_results a = g_results guarded_demo"
    "\<forall>t v. g_at guarded_demo t = Some v \<longrightarrow> ao_out a t = Some (fst (queue_atomic v (g_obj guarded_demo)))"
    "\<forall>t v. g_at guarded_demo t = Some v \<and> queue_writes v \<longrightarrow> ao_obj a = snd (queue_atomic v (g_obj guarded_demo))"
    using LockQueue_linearizable [OF guarded_demo_reach] by (elim exE conjE)
  have "g_at guarded_demo 1 = Some (Q_Push 7)" "queue_atomic (Q_Push 7) (g_obj guarded_demo) = (Q_Void, \<lparr>lq_queue = [7]\<rparr>)"
    by (simp_all add: guarded_demo_def LockQueue_new_def LockQueue_Push_def)
  then have "ao_out a 1 = Some Q_Void" "ao_obj a = \<lparr>lq_queue = [7]\<rparr>"
    using a(3) [rule_format, of 1] a(4) [rule_format, of 1 "Q_Push 7"] by simp_all
  then show ?thesis using a(1,2) by (auto simp: guarded_demo_def)
qed

text \<open>The same holds of \<^verbatim>\<open>LockPriorityQueue\<close>.\<close>

theorem LockPriorityQueue_linearizable:
  assumes "reach (guarded_init LockPriorityQueue_new) (guarded_step pq_entry (pq_micro lt) pq_finished pq_writes) g"
  shows "\<exists>a. reach (atomic_init LockPriorityQueue_new) (atomic_step pq_entry (pq_atomic lt) pq_finished) a \<and>
    ao_results a = g_results g \<and> ((\<forall>t. g_at g t = None) \<longrightarrow> ao_obj a = g_obj g)"
  using LockPriorityQueue_guarded.lin.reach_abs [OF assms] guarded_quiet [of g "pq_atomic lt" pq_writes]
  by (intro exI [of _ "guarded_abs (pq_atomic lt) pq_writes g"]) simp

end
