(* ===== verification/Memory_Pool.thy ===== *)
theory Memory_Pool
  imports Error_Handler
begin

text \<open>
  The memory of the library: \<^verbatim>\<open>MemoryPool.h\<close>, \<^verbatim>\<open>MemoryPool.cpp\<close>, \<^verbatim>\<open>Memory.h\<close>, \<^verbatim>\<open>Memory.cpp\<close>,
  \<^verbatim>\<open>MemoryAllocator.h\<close>, \<^verbatim>\<open>MemoryAllocator.cpp\<close> and \<^verbatim>\<open>ObjectPool.h\<close> under \<^verbatim>\<open>src/MyNetworkLib/\<close>, in the
  configuration \<^verbatim>\<open>USE_BIG_MEMORY_BLOCK\<close> of \<^verbatim>\<open>CoreDef.h\<close>.

  Blocks obtained from \<^verbatim>\<open>_aligned_malloc\<close> live in a store; a \<^verbatim>\<open>MemoryHeader*\<close> is an index of it and a data
  pointer is the pair of a block and an offset. \<^verbatim>\<open>sizeof(MemoryHeader)\<close> depends on the layout of
  \<^verbatim>\<open>SLIST_ENTRY\<close>, so it is the argument \<open>hdr\<close>. Whether the system's allocation succeeds is the argument
  \<open>avail\<close>. \<^verbatim>\<open>InterlockedPushEntrySList\<close> and \<^verbatim>\<open>InterlockedPopEntrySList\<close> work on the front of the pool's list.
  Sums of sizes wrap at 32 bits; the values stored are the signed readings.
\<close>

section \<open>Blocks and headers\<close>

record mem_block =
  mb_size :: nat
  mb_allocSize :: int

type_synonym mem_heap = "mem_block option list"

definition aligned_malloc :: "bool \<Rightarrow> nat \<Rightarrow> mem_heap \<Rightarrow> nat option \<times> mem_heap" where
  "aligned_malloc avail n h =
     (if avail then (Some (length h), h @ [Some \<lparr>mb_size = n, mb_allocSize = 0\<rparr>]) else (None, h))"

definition aligned_free :: "nat \<Rightarrow> mem_heap \<Rightarrow> mem_heap" where
  "aligned_free i h = h[i := None]"

definition block_at :: "nat \<Rightarrow> mem_heap \<Rightarrow> mem_block outcome" where
  "block_at i h = (if i < length h then (case h ! i of None \<Rightarrow> Fault NullDereference | Some b \<Rightarrow> Ok b)
                   else Fault NullDereference)"

definition set_allocSize :: "nat \<Rightarrow> int \<Rightarrow> mem_heap \<Rightarrow> mem_heap outcome" where
  "set_allocSize i n h = and_then (block_at i h) (\<lambda>b. Ok (h[i := Some (b\<lparr>mb_allocSize := n\<rparr>)]))"

definition MemoryHeader_AttachHeader ::
    "int32 \<Rightarrow> nat \<Rightarrow> int \<Rightarrow> mem_heap \<Rightarrow> ((nat \<times> int) \<times> mem_heap) outcome" where
  "MemoryHeader_AttachHeader hdr i n h =
     and_then (set_allocSize i n h) (\<lambda>h1. Ok ((i, 0 + sint hdr), h1))"

definition MemoryHeader_DetachHeader :: "int32 \<Rightarrow> nat \<times> int \<Rightarrow> nat \<times> int" where
  "MemoryHeader_DetachHeader hdr p = (fst p, snd p - sint hdr)"

section \<open>MemoryPool\<close>

record memory_pool =
  mp_list :: "nat list"
  mp_allocSize :: nat
  mp_useCount :: uint32
  mp_poolCount :: uint32

definition MemoryPool_new :: "nat \<Rightarrow> memory_pool" where
  "MemoryPool_new n = \<lparr>mp_list = [], mp_allocSize = n, mp_useCount = 0, mp_poolCount = 0\<rparr>"

definition MemoryPool_Release :: "nat \<Rightarrow> memory_pool \<Rightarrow> mem_heap \<Rightarrow> (memory_pool \<times> mem_heap) outcome" where
  "MemoryPool_Release i p h =
     and_then (set_allocSize i 0 h)
       (\<lambda>h1. Ok (p\<lparr>mp_list := i # mp_list p, mp_poolCount := mp_poolCount p + 1,
                    mp_useCount := mp_useCount p - 1\<rparr>, h1))"

definition MemoryPool_Acquire ::
    "bool \<Rightarrow> memory_pool \<Rightarrow> mem_heap \<Rightarrow> err_state \<Rightarrow> (nat \<times> memory_pool \<times> mem_heap) outcome" where
  "MemoryPool_Acquire avail p h s =
     (case mp_list p of
        [] \<Rightarrow>
          (case aligned_malloc avail (mp_allocSize p) h of (header, h1) \<Rightarrow>
             and_then (ASSERT_CRASH (header \<noteq> None) s) (\<lambda>_.
             and_then (set_allocSize (the header) (int (mp_allocSize p)) h1) (\<lambda>h2.
               Ok (the header, p\<lparr>mp_useCount := mp_useCount p + 1\<rparr>, h2))))
      | entry # rest \<Rightarrow>
          Ok (entry, p\<lparr>mp_list := rest, mp_poolCount := mp_poolCount p - 1,
                       mp_useCount := mp_useCount p + 1\<rparr>, h))"

definition MemoryPool_destroy :: "memory_pool \<Rightarrow> mem_heap \<Rightarrow> mem_heap" where
  "MemoryPool_destroy p h = foldl (\<lambda>h i. aligned_free i h) h (mp_list p)"

section \<open>Memory\<close>

abbreviation (input) MAX_ALLOC_SIZE :: nat where "MAX_ALLOC_SIZE \<equiv> 0x2000"

record pool_table =
  pt_pools :: "nat list"
  pt_table :: "nat option list"
  pt_key :: nat
  pt_pos :: nat

text \<open>\<^verbatim>\<open>init_memory_pool\<close>: the loop over the positions makes one pool each, and the inner loop points the
  table entries up to the position to it. \<open>pt_pools\<close> are the block sizes of the pools in order. All
  four calls pass a positive block size.\<close>

function fill_table :: "nat \<Rightarrow> nat \<Rightarrow> nat \<Rightarrow> nat option list \<Rightarrow> nat \<times> nat option list" where
  "fill_table pool pos key tab =
     (if key \<le> pos then fill_table pool pos (key + 1) (tab[key := Some pool]) else (key, tab))"
  by pat_completeness auto
termination
  by (relation "measure (\<lambda>(pool, pos, key, tab). Suc pos - key)") auto

declare fill_table.simps [simp del]

definition add_pool :: "nat \<Rightarrow> pool_table \<Rightarrow> pool_table" where
  "add_pool block_size t =
     (let pool = length (pt_pools t);
          (key, tab) = fill_table pool (pt_pos t) (pt_key t) (pt_table t)
      in t\<lparr>pt_pools := pt_pools t @ [pt_pos t], pt_table := tab, pt_key := key,
           pt_pos := pt_pos t + block_size\<rparr>)"

function init_memory_pool :: "nat \<Rightarrow> nat \<Rightarrow> pool_table \<Rightarrow> pool_table" where
  "init_memory_pool end_pos block_size t =
     (if pt_pos t \<le> end_pos \<and> 0 < block_size
      then init_memory_pool end_pos block_size (add_pool block_size t)
      else t)"
  by pat_completeness auto
termination
  by (relation "measure (\<lambda>(e, b, t). Suc e - pt_pos t)") (auto simp: add_pool_def Let_def split: prod.splits)

record memory =
  mm_pools :: "memory_pool list"
  mm_table :: "nat option list"

definition build_pool_table :: pool_table where
  "build_pool_table =
     init_memory_pool MAX_ALLOC_SIZE 0x200
       (init_memory_pool 0x1000 0x100
         (init_memory_pool 0x800 0x80
           (init_memory_pool 0x400 0x20
             \<lparr>pt_pools = [], pt_table = replicate (MAX_ALLOC_SIZE + 1) None, pt_key = 0, pt_pos = 0x20\<rparr>)))"

definition Memory_new :: memory where
  "Memory_new = \<lparr>mm_pools = map MemoryPool_new (pt_pools build_pool_table), mm_table = pt_table build_pool_table\<rparr>"

definition Memory_pool_for :: "int \<Rightarrow> memory \<Rightarrow> nat outcome" where
  "Memory_pool_for n m =
     (if n < 0 \<or> int (length (mm_table m)) \<le> n then Fault OutOfRange
      else case mm_table m ! nat n of None \<Rightarrow> Fault UninitializedPointer | Some j \<Rightarrow> Ok j)"

definition Memory_alloc_big :: "bool \<Rightarrow> int \<Rightarrow> mem_heap \<Rightarrow> nat option \<times> mem_heap" where
  "Memory_alloc_big avail n h = aligned_malloc avail (nat n) h"

definition Memory_Allocate ::
    "int32 \<Rightarrow> bool \<Rightarrow> int32 \<Rightarrow> memory \<Rightarrow> mem_heap \<Rightarrow> err_state \<Rightarrow>
     ((nat \<times> int) \<times> memory \<times> mem_heap) outcome" where
  "Memory_Allocate hdr avail sz m h s =
     (let allocSize = sint (sz + hdr)
      in and_then
        (if allocSize > int MAX_ALLOC_SIZE
         then (case Memory_alloc_big avail allocSize h of
                 (None, h1) \<Rightarrow> Fault NullDereference
               | (Some header, h1) \<Rightarrow> Ok (header, m, h1))
         else and_then (Memory_pool_for allocSize m) (\<lambda>j.
              and_then (MemoryPool_Acquire avail (mm_pools m ! j) h s) (\<lambda>(header, p, h1).
                Ok (header, m\<lparr>mm_pools := (mm_pools m)[j := p]\<rparr>, h1))))
        (\<lambda>(header, m1, h1). and_then (MemoryHeader_AttachHeader hdr header allocSize h1)
        (\<lambda>(ptr, h2). Ok (ptr, m1, h2))))"

definition Memory_Release ::
    "int32 \<Rightarrow> nat \<times> int \<Rightarrow> memory \<Rightarrow> mem_heap \<Rightarrow> (memory \<times> mem_heap) outcome" where
  "Memory_Release hdr ptr m h =
     (let header = fst (MemoryHeader_DetachHeader hdr ptr)
      in and_then (block_at header h) (\<lambda>b.
           let allocSize = mb_allocSize b
           in if allocSize > int MAX_ALLOC_SIZE then Ok (m, aligned_free header h)
              else and_then (Memory_pool_for allocSize m) (\<lambda>j.
                   and_then (MemoryPool_Release header (mm_pools m ! j) h) (\<lambda>(p, h1).
                     Ok (m\<lparr>mm_pools := (mm_pools m)[j := p]\<rparr>, h1)))))"

text \<open>The destructor deletes the pools, and with each the blocks on its list; a block that is in use is
  not freed.\<close>

definition Memory_destroy :: "memory \<Rightarrow> mem_heap \<Rightarrow> mem_heap" where
  "Memory_destroy m h = foldl (\<lambda>h p. MemoryPool_destroy p h) h (mm_pools m)"

text \<open>The static allocator classes and \<^verbatim>\<open>STLAllocator\<close>, \<^verbatim>\<open>FBAllocator\<close> go to the global \<^verbatim>\<open>GMemory\<close>;
  \<^verbatim>\<open>xxnew\<close> and \<^verbatim>\<open>xxdelete\<close> add the constructor and destructor calls of the type.\<close>

definition PoolAllocator_Alloc where "PoolAllocator_Alloc = Memory_Allocate"
definition PoolAllocator_Release where "PoolAllocator_Release = Memory_Release"

definition STLAllocator_allocate ::
    "int32 \<Rightarrow> bool \<Rightarrow> uint64 \<Rightarrow> uint64 \<Rightarrow> memory \<Rightarrow> mem_heap \<Rightarrow> err_state \<Rightarrow>
     ((nat \<times> int) \<times> memory \<times> mem_heap) outcome" where
  "STLAllocator_allocate hdr avail cnt sizeof m h s =
     PoolAllocator_Alloc hdr avail (ucast (cnt * sizeof)) m h s"

section \<open>ObjectPool\<close>

definition ObjectPool_Acquire ::
    "int32 \<Rightarrow> bool \<Rightarrow> int \<Rightarrow> memory_pool \<Rightarrow> mem_heap \<Rightarrow> err_state \<Rightarrow>
     ((nat \<times> int) \<times> memory_pool \<times> mem_heap) outcome" where
  "ObjectPool_Acquire hdr avail allocSize pool h s =
     and_then (MemoryPool_Acquire avail pool h s) (\<lambda>(header, pool1, h1).
     and_then (MemoryHeader_AttachHeader hdr header allocSize h1) (\<lambda>(ptr, h2). Ok (ptr, pool1, h2)))"

definition ObjectPool_Release ::
    "int32 \<Rightarrow> nat \<times> int \<Rightarrow> memory_pool \<Rightarrow> mem_heap \<Rightarrow> (memory_pool \<times> mem_heap) outcome" where
  "ObjectPool_Release hdr ptr pool h = MemoryPool_Release (fst (MemoryHeader_DetachHeader hdr ptr)) pool h"

section \<open>The pool table\<close>

declare init_memory_pool.simps [simp del]

lemma fill_table_eq:
  "fill_table pool pos key tab =
     (max key (Suc pos), map (\<lambda>k. if key \<le> k \<and> k \<le> pos then Some pool else tab ! k) [0..<length tab])"
proof (induction pool pos key tab rule: fill_table.induct)
  case (1 pool pos key tab)
  show ?case
  proof (cases "key \<le> pos")
    case True
    with 1 show ?thesis
      by (subst fill_table.simps) (auto intro!: nth_equalityI simp: nth_list_update)
  next
    case False
    then show ?thesis by (subst fill_table.simps) (auto intro!: nth_equalityI)
  qed
qed

text \<open>The table maps every key below the current one to the first pool that is large enough.\<close>

definition pt_entry :: "nat list \<Rightarrow> nat option list \<Rightarrow> nat \<Rightarrow> bool" where
  "pt_entry sizes tab k \<longleftrightarrow>
     (\<exists>j < length sizes. tab ! k = Some j \<and> k \<le> sizes ! j \<and> (\<forall>i < j. sizes ! i < k))"

definition pt_ok :: "pool_table \<Rightarrow> bool" where
  "pt_ok t \<longleftrightarrow> sorted_wrt (<) (pt_pools t) \<and> (\<forall>n \<in> set (pt_pools t). n < pt_pos t) \<and>
     length (pt_table t) = 8193 \<and> pt_key t \<le> pt_pos t \<and> (\<forall>n \<in> set (pt_pools t). n < pt_key t) \<and>
     (pt_pools t \<noteq> [] \<longrightarrow> pt_key t = Suc (last (pt_pools t))) \<and>
     (\<forall>k < 8193. k < pt_key t \<longrightarrow> pt_entry (pt_pools t) (pt_table t) k) \<and>
     (\<forall>k < 8193. pt_key t \<le> k \<longrightarrow> pt_table t ! k = None)"

lemma pt_entry_append: "pt_entry sizes tab k \<Longrightarrow> tab' ! k = tab ! k \<Longrightarrow> pt_entry (sizes @ [n]) tab' k"
  unfolding pt_entry_def by (force simp: nth_append)

lemma pt_ok_add_pool:
  assumes ok: "pt_ok t" and b: "0 < b"
  shows "pt_ok (add_pool b t)"
proof -
  define tab where "tab = map (\<lambda>k. if pt_key t \<le> k \<and> k \<le> pt_pos t then Some (length (pt_pools t))
    else pt_table t ! k) [0..<length (pt_table t)]"
  have le: "pt_key t \<le> pt_pos t" and len: "length (pt_table t) = 8193"
    and sorted: "sorted_wrt (<) (pt_pools t @ [pt_pos t])"
    using ok by (auto simp: pt_ok_def sorted_wrt_append)
  have new: "add_pool b t = t\<lparr>pt_pools := pt_pools t @ [pt_pos t], pt_table := tab,
      pt_key := Suc (pt_pos t), pt_pos := pt_pos t + b\<rparr>"
    using le by (simp add: add_pool_def fill_table_eq tab_def max_def)
  have "pt_entry (pt_pools t @ [pt_pos t]) tab k" if k: "k < 8193" "k < Suc (pt_pos t)" for k
  proof (cases "k < pt_key t")
    case True
    with ok k(1) have "pt_entry (pt_pools t) (pt_table t) k" by (simp add: pt_ok_def)
    then show ?thesis by (rule pt_entry_append) (use True k(1) len in \<open>simp add: tab_def\<close>)
  next
    case False
    moreover have "\<forall>i < length (pt_pools t). pt_pools t ! i < pt_key t" using ok by (simp add: pt_ok_def)
    ultimately show ?thesis
      using k len by (auto simp: pt_entry_def tab_def nth_append intro!: exI [of _ "length (pt_pools t)"] intro: less_le_trans)
  qed
  moreover have "tab ! k = None" if "k < 8193" "Suc (pt_pos t) \<le> k" for k
    using that ok le len by (simp add: tab_def pt_ok_def)
  moreover have "\<forall>n \<in> set (pt_pools t). n < pt_pos t" using ok by (simp add: pt_ok_def)
  ultimately show ?thesis
    using sorted b len unfolding pt_ok_def new by (auto simp: tab_def intro: trans_less_add1 less_SucI)
qed

lemma init_memory_pool_ok: "pt_ok t \<Longrightarrow> pt_ok (init_memory_pool e b t)"
proof (induction e b t rule: init_memory_pool.induct)
  case (1 e b t)
  then show ?case
    by (subst init_memory_pool.simps) (auto intro: pt_ok_add_pool)
qed

lemma add_pool_fields [simp]:
  "pt_pools (add_pool b t) = pt_pools t @ [pt_pos t]" "pt_pos (add_pool b t) = pt_pos t + b"
  by (simp_all add: add_pool_def Let_def split: prod.splits)

definition steps_to :: "nat \<Rightarrow> nat \<Rightarrow> nat \<Rightarrow> nat" where
  "steps_to pos e b = (if pos \<le> e then Suc ((e - pos) div b) else 0)"

lemma steps_to_Suc:
  assumes "pos \<le> e" and "0 < b"
  shows "steps_to pos e b = Suc (steps_to (pos + b) e b)"
proof (cases "pos + b \<le> e")
  case True
  then have "e - pos = (e - (pos + b)) + b" by simp
  then have "(e - pos) div b = Suc ((e - (pos + b)) div b)"
    using assms(2) by (metis add_self_div_2 div_add_self2 not_gr_zero Suc_eq_plus1)
  with True assms show ?thesis by (simp add: steps_to_def)
next
  case False
  with assms show ?thesis by (simp add: steps_to_def)
qed

lemma init_memory_pool_sizes:
  assumes "0 < b"
  shows "pt_pools (init_memory_pool e b t) =
      pt_pools t @ map (\<lambda>i. pt_pos t + i * b) [0..<steps_to (pt_pos t) e b] \<and>
    pt_pos (init_memory_pool e b t) = pt_pos t + b * steps_to (pt_pos t) e b"
  using assms
proof (induction e b t rule: init_memory_pool.induct)
  case (1 e b t)
  show ?case
  proof (cases "pt_pos t \<le> e")
    case True
    have "map (\<lambda>i. pt_pos t + i * b) [0..<Suc n] = pt_pos t # map (\<lambda>i. pt_pos t + b + i * b) [0..<n]" for n
      by (simp add: upt_conv_Cons map_Suc_upt [symmetric] algebra_simps del: upt_Suc)
    with 1 True show ?thesis
      by (simp add: init_memory_pool.simps [of e b t] steps_to_Suc del: upt_Suc)
  next
    case False
    then show ?thesis by (simp add: init_memory_pool.simps [of e b t] steps_to_def)
  qed
qed

definition block_sizes :: "nat list" where
  "block_sizes = map (\<lambda>i. 32 + i * 32) [0..<32] @ map (\<lambda>i. 1056 + i * 128) [0..<8] @
     map (\<lambda>i. 2080 + i * 256) [0..<8] @ map (\<lambda>i. 4128 + i * 512) [0..<8]"

lemma build_pool_table_ok: "pt_ok build_pool_table"
  unfolding build_pool_table_def
  by (intro init_memory_pool_ok) (simp add: pt_ok_def)

lemma pt_pools_build: "pt_pools build_pool_table = block_sizes"
  by (simp add: build_pool_table_def init_memory_pool_sizes steps_to_def block_sizes_def)

lemma length_block_sizes: "length block_sizes = 56"
  by (simp add: block_sizes_def)

lemma pool_table_entries:
  shows "length (pt_table build_pool_table) = 8193"
    and "k \<le> 7712 \<Longrightarrow> pt_entry block_sizes (pt_table build_pool_table) k"
    and "7712 < k \<Longrightarrow> k < 8193 \<Longrightarrow> pt_table build_pool_table ! k = None"
proof -
  have "block_sizes \<noteq> []" "last block_sizes = 7712" by (simp_all add: block_sizes_def last_map)
  then have "pt_key build_pool_table = 7713" "length (pt_table build_pool_table) = 8193"
    using build_pool_table_ok by (auto simp: pt_ok_def pt_pools_build)
  then show "length (pt_table build_pool_table) = 8193"
    and "k \<le> 7712 \<Longrightarrow> pt_entry block_sizes (pt_table build_pool_table) k"
    and "7712 < k \<Longrightarrow> k < 8193 \<Longrightarrow> pt_table build_pool_table ! k = None"
    using build_pool_table_ok by (auto simp: pt_ok_def pt_pools_build)
qed

section \<open>One pool\<close>

definition pool_ok :: "nat \<Rightarrow> nat \<Rightarrow> memory_pool \<Rightarrow> mem_heap \<Rightarrow> bool" where
  "pool_ok n used p h \<longleftrightarrow> mp_allocSize p = n \<and> distinct (mp_list p) \<and>
     (\<forall>i \<in> set (mp_list p). i < length h \<and> (\<exists>b. h ! i = Some b \<and> mb_size b = n)) \<and>
     mp_poolCount p = of_nat (length (mp_list p)) \<and> mp_useCount p = of_nat used"

lemma pool_ok_frame:
  assumes "pool_ok n used p h" and "\<forall>i \<in> set (mp_list p). i < length h' \<and> h' ! i = h ! i"
  shows "pool_ok n used p h'"
  using assms by (auto simp: pool_ok_def)

lemma set_allocSize_ok:
  "i < length h \<Longrightarrow> h ! i = Some b \<Longrightarrow> set_allocSize i a h = Ok (h[i := Some (b\<lparr>mb_allocSize := a\<rparr>)])"
  by (simp add: set_allocSize_def block_at_def)

lemma MemoryPool_Acquire_ok:
  assumes ok: "pool_ok n used p h" and a: "MemoryPool_Acquire avail p h s = Ok (i, p', h')"
  shows "pool_ok n (Suc used) p' h'" and "i \<notin> set (mp_list p')" and "i \<in> set (mp_list p) \<or> i = length h"
    and "set (mp_list p') \<subseteq> set (mp_list p)" and "i < length h'" and "\<exists>b. h' ! i = Some b \<and> mb_size b = n"
    and "\<And>k. k < length h \<Longrightarrow> k < length h' \<and> h' ! k = h ! k"
proof -
  consider (fresh) "mp_list p = []" "avail" "i = length h"
      "h' = h @ [Some \<lparr>mb_size = n, mb_allocSize = int n\<rparr>]" "p' = p\<lparr>mp_useCount := mp_useCount p + 1\<rparr>"
    | (reuse) rest where "mp_list p = i # rest" "h' = h"
      "p' = p\<lparr>mp_list := rest, mp_poolCount := mp_poolCount p - 1, mp_useCount := mp_useCount p + 1\<rparr>"
    using ok a
    by (auto simp: MemoryPool_Acquire_def aligned_malloc_def ASSERT_CRASH_def set_allocSize_def block_at_def
        pool_ok_def split: list.splits if_splits)
  then show "pool_ok n (Suc used) p' h'" "i \<notin> set (mp_list p')" "i \<in> set (mp_list p) \<or> i = length h"
    "set (mp_list p') \<subseteq> set (mp_list p)" "i < length h'" "\<exists>b. h' ! i = Some b \<and> mb_size b = n"
    "\<And>k. k < length h \<Longrightarrow> k < length h' \<and> h' ! k = h ! k"
    using ok by (cases; auto simp: pool_ok_def nth_append)+
qed

lemma MemoryPool_Acquire_total:
  assumes "pool_ok n used p h"
  shows "\<exists>i p' h' b. MemoryPool_Acquire True p h s = Ok (i, p', h') \<and> i < length h' \<and> h' ! i = Some b"
proof (cases "mp_list p")
  case Nil
  then show ?thesis
    by (simp add: MemoryPool_Acquire_def aligned_malloc_def ASSERT_CRASH_def set_allocSize_def block_at_def)
next
  case (Cons i rest)
  with assms show ?thesis by (auto simp: MemoryPool_Acquire_def pool_ok_def)
qed

lemma MemoryPool_Release_ok:
  assumes ok: "pool_ok n (Suc used) p h" and i: "i < length h" "h ! i = Some b" "mb_size b = n"
    and free: "i \<notin> set (mp_list p)"
  shows "\<exists>p'. MemoryPool_Release i p h = Ok (p', h[i := Some (b\<lparr>mb_allocSize := 0\<rparr>)]) \<and>
    mp_list p' = i # mp_list p \<and> pool_ok n used p' (h[i := Some (b\<lparr>mb_allocSize := 0\<rparr>)])"
  using assms by (auto simp: MemoryPool_Release_def set_allocSize_ok pool_ok_def nth_list_update)

section \<open>The allocator interface\<close>

text \<open>Live allocations are pairs of the pointer and the requested size. A provider keeps an invariant
  between its state and the live allocations, in which no two of them share a block; releasing a live
  pointer always works.\<close>

datatype 'r alloc_op = Op_Alloc 'r | Op_Free nat

fun alloc_run ::
    "('r \<Rightarrow> 'm \<Rightarrow> ('p \<times> 'm) outcome) \<Rightarrow> ('p \<Rightarrow> 'm \<Rightarrow> 'm outcome) \<Rightarrow>
     'r alloc_op list \<Rightarrow> ('p \<times> 'r) list \<Rightarrow> 'm \<Rightarrow> (('p \<times> 'r) list \<times> 'm) outcome" where
  "alloc_run alloc free [] L m = Ok (L, m)"
| "alloc_run alloc free (Op_Alloc r # ops) L m =
     and_then (alloc r m) (\<lambda>(p, m1). alloc_run alloc free ops ((p, r) # L) m1)"
| "alloc_run alloc free (Op_Free k # ops) L m =
     (if k < length L
      then and_then (free (fst (L ! k)) m) (\<lambda>m1. alloc_run alloc free ops (take k L @ drop (Suc k) L) m1)
      else alloc_run alloc free ops L m)"

locale allocator =
  fixes inv :: "'m \<Rightarrow> ('p \<times> 'r) list \<Rightarrow> bool"
    and alloc :: "'r \<Rightarrow> 'm \<Rightarrow> ('p \<times> 'm) outcome"
    and free :: "'p \<Rightarrow> 'm \<Rightarrow> 'm outcome"
    and room :: "'p \<Rightarrow> 'r \<Rightarrow> 'm \<Rightarrow> bool"
    and apart :: "'p \<Rightarrow> 'p \<Rightarrow> bool"
  assumes inv_room: "inv m L \<Longrightarrow> (p, r) \<in> set L \<Longrightarrow> room p r m"
    and inv_apart: "inv m L \<Longrightarrow> sorted_wrt (\<lambda>x y. apart (fst x) (fst y)) L"
    and alloc_inv: "inv m L \<Longrightarrow> alloc r m = Ok (p, m') \<Longrightarrow> inv m' ((p, r) # L)"
    and free_inv: "inv m (xs @ (p, r) # ys) \<Longrightarrow> \<exists>m'. free p m = Ok m' \<and> inv m' (xs @ ys)"
begin

lemma run_inv: "inv m L \<Longrightarrow> alloc_run alloc free ops L m = Ok (L', m') \<Longrightarrow> inv m' L'"
proof (induction ops arbitrary: L m)
  case (Cons op ops)
  show ?case
  proof (cases op)
    case (Op_Alloc r)
    with Cons.prems obtain p m1 where "alloc r m = Ok (p, m1)" "alloc_run alloc free ops ((p, r) # L) m1 = Ok (L', m')"
      by auto
    with Cons.IH alloc_inv [OF Cons.prems(1)] show ?thesis by blast
  next
    case (Op_Free k)
    show ?thesis
    proof (cases "k < length L")
      case True
      then have "L = take k L @ (fst (L ! k), snd (L ! k)) # drop (Suc k) L" by (simp add: id_take_nth_drop [symmetric])
      then obtain m1 where "free (fst (L ! k)) m = Ok m1" "inv m1 (take k L @ drop (Suc k) L)"
        using free_inv [of m "take k L" "fst (L ! k)" "snd (L ! k)" "drop (Suc k) L"] Cons.prems(1) by auto
      with Cons True Op_Free show ?thesis by auto
    qed (use Cons Op_Free in auto)
  qed
qed simp

text \<open>A sequence that only releases live pointers never fails.\<close>

lemma run_frees:
  assumes "inv m L"
  shows "\<exists>m'. alloc_run alloc free (replicate (length L) (Op_Free 0)) L m = Ok ([], m') \<and> inv m' []"
  using assms
proof (induction L arbitrary: m)
  case (Cons x L)
  from free_inv [of m "[]" "fst x" "snd x" L] Cons.prems
  obtain m1 where "free (fst x) m = Ok m1" "inv m1 L" by auto
  with Cons.IH show ?case by simp
qed simp

end

section \<open>The pools of the library\<close>

abbreviation alloc_size :: "int32 \<Rightarrow> int32 \<Rightarrow> int" where
  "alloc_size hdr sz \<equiv> sint (sz + hdr)"

definition class_of :: "int \<Rightarrow> nat option" where
  "class_of a = (if 0 \<le> a \<and> a \<le> 8192 then pt_table build_pool_table ! nat a else None)"

definition uses :: "int32 \<Rightarrow> nat \<Rightarrow> ((nat \<times> int) \<times> int32) list \<Rightarrow> nat" where
  "uses hdr j L = length (filter (\<lambda>x. class_of (alloc_size hdr (snd x)) = Some j) L)"

definition live_block :: "int32 \<Rightarrow> mem_heap \<Rightarrow> nat \<Rightarrow> int32 \<Rightarrow> bool" where
  "live_block hdr h i sz \<longleftrightarrow> i < length h \<and> (\<exists>b. h ! i = Some b \<and> mb_allocSize b = alloc_size hdr sz \<and>
     (if alloc_size hdr sz > 8192 then mb_size b = nat (alloc_size hdr sz)
      else \<exists>j < 56. class_of (alloc_size hdr sz) = Some j \<and> mb_size b = block_sizes ! j))"

definition mem_inv :: "int32 \<Rightarrow> memory \<times> mem_heap \<Rightarrow> ((nat \<times> int) \<times> int32) list \<Rightarrow> bool" where
  "mem_inv hdr mh L \<longleftrightarrow> (case mh of (m, h) \<Rightarrow>
     mm_table m = pt_table build_pool_table \<and> length (mm_pools m) = 56 \<and>
     (\<forall>j < 56. pool_ok (block_sizes ! j) (uses hdr j L) (mm_pools m ! j) h) \<and>
     (\<forall>j < 56. \<forall>k < 56. j \<noteq> k \<longrightarrow>
        (\<forall>i \<in> set (mp_list (mm_pools m ! j)). i \<notin> set (mp_list (mm_pools m ! k)))) \<and>
     distinct (map (\<lambda>x. fst (fst x)) L) \<and>
     (\<forall>((i, off), sz) \<in> set L. off = sint hdr \<and> live_block hdr h i sz \<and>
        (\<forall>j < 56. i \<notin> set (mp_list (mm_pools m ! j)))))"

lemma Memory_pool_for_eq:
  assumes "mm_table m = pt_table build_pool_table"
  shows "Memory_pool_for a m = (if a < 0 \<or> 8193 \<le> a then Fault OutOfRange
    else if 7712 < a then Fault UninitializedPointer else Ok (the (class_of a)))"
    and "0 \<le> a \<Longrightarrow> a \<le> 7712 \<Longrightarrow> \<exists>j < 56. class_of a = Some j \<and> nat a \<le> block_sizes ! j"
proof -
  show entry: "\<exists>j < 56. class_of a = Some j \<and> nat a \<le> block_sizes ! j" if "0 \<le> a" "a \<le> 7712"
  proof -
    from that have "nat a \<le> 7712" by simp
    from pool_table_entries(2) [OF this] that show ?thesis
      by (auto simp: pt_entry_def class_of_def length_block_sizes)
  qed
  show "Memory_pool_for a m = (if a < 0 \<or> 8193 \<le> a then Fault OutOfRange
    else if 7712 < a then Fault UninitializedPointer else Ok (the (class_of a)))"
    using pool_table_entries(1) pool_table_entries(3) [of "nat a"] entry assms
    by (auto simp: Memory_pool_for_def class_of_def)
qed

lemma Memory_Allocate_cases:
  assumes inv: "mem_inv hdr (m, h) L" and a: "Memory_Allocate hdr avail sz m h s = Ok (ptr, m', h')"
  obtains (big) "alloc_size hdr sz > 8192" "ptr = (length h, sint hdr)" "m' = m"
      "h' = h @ [Some \<lparr>mb_size = nat (alloc_size hdr sz), mb_allocSize = alloc_size hdr sz\<rparr>]"
  | (pool) j i p h1 b where "j < 56" "class_of (alloc_size hdr sz) = Some j"
      "0 \<le> alloc_size hdr sz" "alloc_size hdr sz \<le> 7712"
      "MemoryPool_Acquire avail (mm_pools m ! j) h s = Ok (i, p, h1)" "ptr = (i, sint hdr)"
      "m' = m\<lparr>mm_pools := (mm_pools m)[j := p]\<rparr>" "i < length h1" "h1 ! i = Some b"
      "h' = h1[i := Some (b\<lparr>mb_allocSize := alloc_size hdr sz\<rparr>)]"
proof (cases "alloc_size hdr sz > 8192")
  case True
  with a show ?thesis
    by (intro big)
      (auto simp: Memory_Allocate_def Let_def Memory_alloc_big_def aligned_malloc_def
        MemoryHeader_AttachHeader_def set_allocSize_def block_at_def split: if_splits)
next
  case False
  have tab: "mm_table m = pt_table build_pool_table" using inv by (simp add: mem_inv_def)
  from a False obtain j i p h1 where j: "Memory_pool_for (alloc_size hdr sz) m = Ok j"
    and acq: "MemoryPool_Acquire avail (mm_pools m ! j) h s = Ok (i, p, h1)"
    and m': "m' = m\<lparr>mm_pools := (mm_pools m)[j := p]\<rparr>"
    and att: "MemoryHeader_AttachHeader hdr i (alloc_size hdr sz) h1 = Ok (ptr, h')"
    by (auto simp: Memory_Allocate_def Let_def)
  have range: "0 \<le> alloc_size hdr sz" "alloc_size hdr sz \<le> 7712"
    and j': "j = the (class_of (alloc_size hdr sz))"
    using j by (auto simp: Memory_pool_for_eq(1) [OF tab] split: if_splits)
  obtain b where "i < length h1" "h1 ! i = Some b" "ptr = (i, sint hdr)"
      "h' = h1[i := Some (b\<lparr>mb_allocSize := alloc_size hdr sz\<rparr>)]"
    using att by (auto simp: MemoryHeader_AttachHeader_def set_allocSize_def block_at_def split: if_splits option.splits)
  with pool acq m' range j' Memory_pool_for_eq(2) [OF tab range] show ?thesis by auto
qed

lemma live_block_frame:
  "live_block hdr h i sz \<Longrightarrow> i < length h' \<Longrightarrow> h' ! i = h ! i \<Longrightarrow> live_block hdr h' i sz"
  by (simp add: live_block_def)

lemma uses_Cons: "uses hdr j ((p, sz) # L) =
    (if class_of (alloc_size hdr sz) = Some j then Suc (uses hdr j L) else uses hdr j L)"
  by (simp add: uses_def)

lemma mem_invD:
  assumes "mem_inv hdr (m, h) L"
  shows "mm_table m = pt_table build_pool_table" and "length (mm_pools m) = 56"
    and "j < 56 \<Longrightarrow> pool_ok (block_sizes ! j) (uses hdr j L) (mm_pools m ! j) h"
    and "j < 56 \<Longrightarrow> k < 56 \<Longrightarrow> j \<noteq> k \<Longrightarrow> i \<in> set (mp_list (mm_pools m ! j)) \<Longrightarrow> i \<notin> set (mp_list (mm_pools m ! k))"
    and "distinct (map (\<lambda>x. fst (fst x)) L)"
    and "((i, off), sz) \<in> set L \<Longrightarrow> off = sint hdr \<and> live_block hdr h i sz"
    and "((i, off), sz) \<in> set L \<Longrightarrow> j < 56 \<Longrightarrow> i \<notin> set (mp_list (mm_pools m ! j))"
    and "j < 56 \<Longrightarrow> i \<in> set (mp_list (mm_pools m ! j)) \<Longrightarrow> i < length h"
  using assms by (auto simp: mem_inv_def pool_ok_def)

lemma mem_invI:
  assumes "mm_table m = pt_table build_pool_table" and "length (mm_pools m) = 56"
    and "\<And>j. j < 56 \<Longrightarrow> pool_ok (block_sizes ! j) (uses hdr j L) (mm_pools m ! j) h"
    and "\<And>j k i. j < 56 \<Longrightarrow> k < 56 \<Longrightarrow> j \<noteq> k \<Longrightarrow> i \<in> set (mp_list (mm_pools m ! j)) \<Longrightarrow>
      i \<notin> set (mp_list (mm_pools m ! k))"
    and "distinct (map (\<lambda>x. fst (fst x)) L)"
    and "\<And>i off sz. ((i, off), sz) \<in> set L \<Longrightarrow> off = sint hdr \<and> live_block hdr h i sz \<and>
      (\<forall>j < 56. i \<notin> set (mp_list (mm_pools m ! j)))"
  shows "mem_inv hdr (m, h) L"
  using assms unfolding mem_inv_def by blast

lemma mem_inv_alloc_big:
  assumes inv: "mem_inv hdr (m, h) L" and big: "alloc_size hdr sz > 8192"
    and h': "h' = h @ [Some \<lparr>mb_size = nat (alloc_size hdr sz), mb_allocSize = alloc_size hdr sz\<rparr>]"
  shows "mem_inv hdr (m, h') (((length h, sint hdr), sz) # L)"
proof (rule mem_invI)
  note D = mem_invD [OF inv]
  have old: "i < length h' \<and> h' ! i = h ! i" if "i < length h" for i
    using that by (simp add: h' nth_append)
  have "class_of (alloc_size hdr sz) = None" using big by (simp add: class_of_def)
  then show "pool_ok (block_sizes ! j) (uses hdr j (((length h, sint hdr), sz) # L)) (mm_pools m ! j) h'"
    if "j < 56" for j
    using D(3) [OF that] D(8) [OF that] old by (auto simp: uses_Cons intro: pool_ok_frame)
  have live: "i < length h" if "((i, off), sz') \<in> set L" for i off sz'
    using D(6) [OF that] by (simp add: live_block_def)
  then show "distinct (map (\<lambda>x. fst (fst x)) (((length h, sint hdr), sz) # L))"
    using D(5) by fastforce
  show "off = sint hdr \<and> live_block hdr h' i sz' \<and> (\<forall>j < 56. i \<notin> set (mp_list (mm_pools m ! j)))"
    if "((i, off), sz') \<in> set (((length h, sint hdr), sz) # L)" for i off sz'
  proof (cases "((i, off), sz') \<in> set L")
    case True
    from D(6) [OF this] D(7) [OF this] live [OF this] old [OF live [OF this]]
    show ?thesis by (auto intro: live_block_frame)
  next
    case False
    with that have "i = length h" "off = sint hdr" "sz' = sz" by auto
    then show ?thesis using big D(8) by (auto simp: live_block_def h')
  qed
qed (use mem_invD [OF inv] in auto)

lemma mem_inv_alloc_pool:
  assumes inv: "mem_inv hdr (m, h) L" and j: "j < 56" "class_of (alloc_size hdr sz) = Some j"
    and small: "alloc_size hdr sz \<le> 7712"
    and acq: "MemoryPool_Acquire avail (mm_pools m ! j) h s = Ok (i, p, h1)"
    and b: "h1 ! i = Some b" and h': "h' = h1[i := Some (b\<lparr>mb_allocSize := alloc_size hdr sz\<rparr>)]"
  shows "mem_inv hdr (m\<lparr>mm_pools := (mm_pools m)[j := p]\<rparr>, h') (((i, sint hdr), sz) # L)"
proof (rule mem_invI)
  note D = mem_invD [OF inv]
  note A = MemoryPool_Acquire_ok [OF D(3) [OF j(1)] acq]
  let ?pools = "(mm_pools m)[j := p]"
  have others: "i \<notin> set (mp_list (mm_pools m ! k))" if "k < 56" "k \<noteq> j" for k
    using A(3) D(4) [of j k i] D(8) [of k i] j(1) that by auto
  have live: "x < length h \<and> x \<noteq> i" if "((x, off), sz') \<in> set L" for x off sz'
    using D(6,7) [OF that] j(1) A(3) by (auto simp: live_block_def)
  have old: "x < length h' \<and> h' ! x = h ! x" if "x < length h" "x \<noteq> i" for x
    using A(7) [OF that(1)] that by (simp add: h')
  show "pool_ok (block_sizes ! k) (uses hdr k (((i, sint hdr), sz) # L))
      (mm_pools (m\<lparr>mm_pools := ?pools\<rparr>) ! k) h'" if k: "k < 56" for k
  proof (cases "k = j")
    case True
    have "\<forall>x \<in> set (mp_list p). i \<noteq> x" using A(2) by auto
    then have "pool_ok (block_sizes ! j) (Suc (uses hdr j L)) p h'"
      by (intro pool_ok_frame [OF A(1)]) (use A(1) in \<open>auto simp: h' pool_ok_def\<close>)
    then show ?thesis using True j D(2) by (simp add: uses_Cons)
  next
    case False
    then show ?thesis using k j D(2) D(3) [OF k] D(8) [OF k] others [OF k] old
      by (auto simp: uses_Cons intro!: pool_ok_frame [of _ _ _ h])
  qed
  show "distinct (map (\<lambda>x. fst (fst x)) (((i, sint hdr), sz) # L))"
    using D(5) live by fastforce
  show "x \<notin> set (mp_list (mm_pools (m\<lparr>mm_pools := ?pools\<rparr>) ! l))"
    if "k < 56" "l < 56" "k \<noteq> l" "x \<in> set (mp_list (mm_pools (m\<lparr>mm_pools := ?pools\<rparr>) ! k))" for k l x
    using that D(2) D(4) [of k l x] A(4) j(1) by (auto simp: nth_list_update split: if_splits)
  show "off = sint hdr \<and> live_block hdr h' x sz' \<and>
      (\<forall>k < 56. x \<notin> set (mp_list (mm_pools (m\<lparr>mm_pools := ?pools\<rparr>) ! k)))"
    if "((x, off), sz') \<in> set (((i, sint hdr), sz) # L)" for x off sz'
  proof (cases "((x, off), sz') \<in> set L")
    case True
    from D(6) [OF this] D(7) [OF this] live [OF this] old [of x] D(2) A(4) j(1)
    show ?thesis by (auto simp: nth_list_update intro: live_block_frame)
  next
    case False
    with that have [simp]: "x = i" "off = sint hdr" "sz' = sz" by auto
    have "live_block hdr h' i sz"
      using A(5,6) b j small by (auto simp: live_block_def h')
    then show ?thesis using A(2) others D(2) j(1) by (auto simp: nth_list_update)
  qed
qed (use mem_invD(1,2) [OF inv] in simp_all)

lemma mem_inv_free_frame:
  assumes inv: "mem_inv hdr (m, h) (xs @ ((i, off), sz) # ys)"
    and h': "length h' = length h" "\<forall>x. x \<noteq> i \<longrightarrow> h' ! x = h ! x"
  shows "distinct (map (\<lambda>x. fst (fst x)) (xs @ ys))"
    and "((x, off'), sz') \<in> set (xs @ ys) \<Longrightarrow> x \<noteq> i \<and> off' = sint hdr \<and> live_block hdr h' x sz' \<and>
      (\<forall>j < 56. x \<notin> set (mp_list (mm_pools m ! j)))"
    and "k < 56 \<Longrightarrow> pool_ok (block_sizes ! k) (uses hdr k (xs @ ((i, off), sz) # ys)) (mm_pools m ! k) h'"
proof -
  note D = mem_invD [OF inv]
  from D(5) show "distinct (map (\<lambda>x. fst (fst x)) (xs @ ys))" by simp
  show "x \<noteq> i \<and> off' = sint hdr \<and> live_block hdr h' x sz' \<and> (\<forall>j < 56. x \<notin> set (mp_list (mm_pools m ! j)))"
    if l: "((x, off'), sz') \<in> set (xs @ ys)"
  proof -
    have "x \<noteq> i" using D(5) l by (force simp: image_iff)
    moreover have "((x, off'), sz') \<in> set (xs @ ((i, off), sz) # ys)" using l by auto
    ultimately show ?thesis using D(6,7) h' by (auto simp: live_block_def)
  qed
  show "pool_ok (block_sizes ! k) (uses hdr k (xs @ ((i, off), sz) # ys)) (mm_pools m ! k) h'" if k: "k < 56"
  proof (rule pool_ok_frame [OF D(3) [OF k]])
    have "i \<notin> set (mp_list (mm_pools m ! k))" using D(7) [of i off sz k] k by simp
    then show "\<forall>x \<in> set (mp_list (mm_pools m ! k)). x < length h' \<and> h' ! x = h ! x"
      using D(8) [OF k] h' by metis
  qed
qed

lemma uses_remove: "uses hdr j (xs @ (p, sz) # ys) =
    (if class_of (alloc_size hdr sz) = Some j then Suc (uses hdr j (xs @ ys)) else uses hdr j (xs @ ys))"
  by (simp add: uses_def)

lemma Memory_Release_big:
  assumes inv: "mem_inv hdr (m, h) (xs @ ((i, off), sz) # ys)" and big: "alloc_size hdr sz > 8192"
    and b: "i < length h" "h ! i = Some b" "mb_allocSize b = alloc_size hdr sz" "off = sint hdr"
  shows "\<exists>m' h'. Memory_Release hdr (i, off) m h = Ok (m', h') \<and> mem_inv hdr (m', h') (xs @ ys)"
proof -
  note D = mem_invD [OF inv]
  have none: "class_of (alloc_size hdr sz) = None" using big by (simp add: class_of_def)
  have h': "length (h[i := None]) = length h" "\<forall>x. x \<noteq> i \<longrightarrow> h[i := None] ! x = h ! x" by simp_all
  note F = mem_inv_free_frame [OF inv h']
  have "mem_inv hdr (m, h[i := None]) (xs @ ys)"
  proof (rule mem_invI)
    show "pool_ok (block_sizes ! k) (uses hdr k (xs @ ys)) (mm_pools m ! k) (h[i := None])" if "k < 56" for k
      using F(3) [OF that] none by (simp add: uses_remove)
    show "off' = sint hdr \<and> live_block hdr (h[i := None]) x sz' \<and> (\<forall>k < 56. x \<notin> set (mp_list (mm_pools m ! k)))"
      if "((x, off'), sz') \<in> set (xs @ ys)" for x off' sz'
      using F(2) [OF that] by blast
  qed (use D(1,2,4) F(1) in blast)+
  with big b show ?thesis
    by (simp add: Memory_Release_def MemoryHeader_DetachHeader_def block_at_def aligned_free_def)
qed

lemma Memory_Release_pooled:
  assumes inv: "mem_inv hdr (m, h) (xs @ ((i, off), sz) # ys)" and small: "\<not> alloc_size hdr sz > 8192"
    and b: "i < length h" "h ! i = Some b" "mb_allocSize b = alloc_size hdr sz" "off = sint hdr"
    and j: "j < 56" "class_of (alloc_size hdr sz) = Some j" "mb_size b = block_sizes ! j"
  shows "\<exists>m' h'. Memory_Release hdr (i, off) m h = Ok (m', h') \<and> mem_inv hdr (m', h') (xs @ ys)"
proof -
  note D = mem_invD [OF inv]
  define h' where "h' = h[i := Some (b\<lparr>mb_allocSize := 0\<rparr>)]"
  have free: "i \<notin> set (mp_list (mm_pools m ! k))" if "k < 56" for k using D(7) [of i off sz k] that by simp
  from D(3) [OF j(1)] j(2) obtain p where p: "MemoryPool_Release i (mm_pools m ! j) h = Ok (p, h')"
    "mp_list p = i # mp_list (mm_pools m ! j)" "pool_ok (block_sizes ! j) (uses hdr j (xs @ ys)) p h'"
    using MemoryPool_Release_ok [OF _ b(1,2) j(3) free [OF j(1)]] by (auto simp: uses_remove h'_def)
  have h': "length h' = length h" "\<forall>x. x \<noteq> i \<longrightarrow> h' ! x = h ! x" by (simp_all add: h'_def)
  note F = mem_inv_free_frame [OF inv h']
  let ?m = "m\<lparr>mm_pools := (mm_pools m)[j := p]\<rparr>"
  have "mem_inv hdr (?m, h') (xs @ ys)"
  proof (rule mem_invI)
    show "pool_ok (block_sizes ! k) (uses hdr k (xs @ ys)) (mm_pools ?m ! k) h'" if "k < 56" for k
      using p(3) F(3) [OF that] D(2) that j(1,2) by (auto simp: nth_list_update uses_remove)
    show "x \<notin> set (mp_list (mm_pools ?m ! l))"
      if "k < 56" "l < 56" "k \<noteq> l" "x \<in> set (mp_list (mm_pools ?m ! k))" for k l x
      using that D(2) D(4) [of k l x] free p(2) j(1) by (auto simp: nth_list_update split: if_splits)
    show "off' = sint hdr \<and> live_block hdr h' x sz' \<and> (\<forall>k < 56. x \<notin> set (mp_list (mm_pools ?m ! k)))"
      if "((x, off'), sz') \<in> set (xs @ ys)" for x off' sz'
      using F(2) [OF that] D(2) p(2) j(1) by (auto simp: nth_list_update)
  qed (use D(1,2) F(1) in simp_all)
  moreover have "Memory_pool_for (alloc_size hdr sz) m = Ok j"
    using j(2) D(1) pool_table_entries(1) by (auto simp: Memory_pool_for_def class_of_def split: if_splits)
  ultimately show ?thesis
    using small b p(1) by (simp add: Memory_Release_def MemoryHeader_DetachHeader_def block_at_def)
qed

lemma Memory_Release_ok:
  assumes inv: "mem_inv hdr (m, h) (xs @ ((i, off), sz) # ys)"
  shows "\<exists>m' h'. Memory_Release hdr (i, off) m h = Ok (m', h') \<and> mem_inv hdr (m', h') (xs @ ys)"
proof -
  have i: "off = sint hdr" "live_block hdr h i sz" using mem_invD(6) [OF inv, of i off sz] by simp_all
  then obtain b where b: "i < length h" "h ! i = Some b" "mb_allocSize b = alloc_size hdr sz"
    and sz: "if alloc_size hdr sz > 8192 then mb_size b = nat (alloc_size hdr sz)
      else \<exists>j < 56. class_of (alloc_size hdr sz) = Some j \<and> mb_size b = block_sizes ! j"
    by (auto simp: live_block_def)
  show ?thesis
  proof (cases "alloc_size hdr sz > 8192")
    case True
    then show ?thesis by (rule Memory_Release_big [OF inv _ b i(1)])
  next
    case False
    with sz obtain j where "j < 56" "class_of (alloc_size hdr sz) = Some j" "mb_size b = block_sizes ! j"
      by auto
    with False show ?thesis by (intro Memory_Release_pooled [OF inv _ b i(1)])
  qed
qed

section \<open>Memory and ObjectPool as allocators\<close>

definition mem_alloc ::
    "int32 \<Rightarrow> bool \<Rightarrow> err_state \<Rightarrow> int32 \<Rightarrow> memory \<times> mem_heap \<Rightarrow> ((nat \<times> int) \<times> memory \<times> mem_heap) outcome" where
  "mem_alloc hdr avail s sz mh = (case mh of (m, h) \<Rightarrow> Memory_Allocate hdr avail sz m h s)"

definition mem_free :: "int32 \<Rightarrow> nat \<times> int \<Rightarrow> memory \<times> mem_heap \<Rightarrow> (memory \<times> mem_heap) outcome" where
  "mem_free hdr p mh = (case mh of (m, h) \<Rightarrow> Memory_Release hdr p m h)"

definition mem_room :: "int32 \<Rightarrow> nat \<times> int \<Rightarrow> int32 \<Rightarrow> memory \<times> mem_heap \<Rightarrow> bool" where
  "mem_room hdr p sz mh = (case (p, mh) of ((i, off), (m, h)) \<Rightarrow>
     off = sint hdr \<and> i < length h \<and> (\<exists>b. h ! i = Some b \<and> alloc_size hdr sz \<le> int (mb_size b)))"

lemma class_of_room: "class_of a = Some j \<Longrightarrow> a \<le> int (block_sizes ! j)"
proof -
  assume c: "class_of a = Some j"
  then have r: "0 \<le> a" "a \<le> 8192" by (auto simp: class_of_def split: if_splits)
  with c pool_table_entries(3) [of "nat a"] have "a \<le> 7712"
    by (cases "a \<le> 7712") (auto simp: class_of_def)
  with Memory_pool_for_eq(2) [of Memory_new a] r c show ?thesis by (auto simp: Memory_new_def)
qed

lemma mem_alloc_inv:
  assumes inv: "mem_inv hdr mh L" and a: "mem_alloc hdr avail s sz mh = Ok (p, mh')"
  shows "mem_inv hdr mh' ((p, sz) # L)"
proof -
  obtain m h m' h' where mh: "mh = (m, h)" "mh' = (m', h')" by (cases mh; cases mh')
  with a have al: "Memory_Allocate hdr avail sz m h s = Ok (p, m', h')" by (simp add: mem_alloc_def)
  have inv': "mem_inv hdr (m, h) L" using inv by (simp only: mh)
  have "mem_inv hdr (m', h') ((p, sz) # L)"
    using inv' al
  proof (cases rule: Memory_Allocate_cases)
    case big
    with mem_inv_alloc_big [OF inv' big(1,4)] show ?thesis by simp
  next
    case (pool j i p' h1 b)
    with mem_inv_alloc_pool [OF inv' pool(1,2,4,5,9,10)] show ?thesis by simp
  qed
  then show ?thesis by (simp only: mh)
qed

interpretation Memory: allocator "mem_inv hdr" "mem_alloc hdr avail s" "mem_free hdr" "mem_room hdr"
    "\<lambda>p q. fst p \<noteq> fst q"
proof
  fix mh :: "memory \<times> mem_heap" and L
  obtain m h where mh: "mh = (m, h)" by (cases mh)
  show "mem_room hdr p sz mh" if inv: "mem_inv hdr mh L" and p: "(p, sz) \<in> set L" for p sz
  proof -
    obtain i off where [simp]: "p = (i, off)" by (cases p)
    from mem_invD(6) [OF inv [unfolded mh]] p have "off = sint hdr" "live_block hdr h i sz" by auto
    then show ?thesis
      by (auto simp: mem_room_def mh live_block_def class_of_room split: if_splits)
  qed
  show "sorted_wrt (\<lambda>x y. fst (fst x) \<noteq> fst (fst y)) L" if "mem_inv hdr mh L"
    using mem_invD(5) [OF that [unfolded mh]] by (simp add: distinct_conv_nth sorted_wrt_iff_nth_less)
  show "mem_inv hdr mh' ((p, sz) # L)" if "mem_inv hdr mh L" "mem_alloc hdr avail s sz mh = Ok (p, mh')" for sz p mh'
    using that by (rule mem_alloc_inv)
  show "\<exists>mh'. mem_free hdr p mh = Ok mh' \<and> mem_inv hdr mh' (xs @ ys)" if "mem_inv hdr mh (xs @ (p, sz) # ys)" for xs p sz ys
    using Memory_Release_ok [of hdr m h xs "fst p" "snd p" sz ys] that by (auto simp: mem_free_def mh)
qed

definition obj_inv :: "int32 \<Rightarrow> nat \<Rightarrow> memory_pool \<times> mem_heap \<Rightarrow> ((nat \<times> int) \<times> unit) list \<Rightarrow> bool" where
  "obj_inv hdr n ph L \<longleftrightarrow> (case ph of (p, h) \<Rightarrow> pool_ok n (length L) p h \<and> distinct (map (\<lambda>x. fst (fst x)) L) \<and>
     (\<forall>((i, off), u) \<in> set L. off = sint hdr \<and> i < length h \<and> i \<notin> set (mp_list p) \<and>
        (\<exists>b. h ! i = Some b \<and> mb_size b = n)))"

definition obj_acquire ::
    "int32 \<Rightarrow> bool \<Rightarrow> err_state \<Rightarrow> int \<Rightarrow> unit \<Rightarrow> memory_pool \<times> mem_heap \<Rightarrow>
     ((nat \<times> int) \<times> memory_pool \<times> mem_heap) outcome" where
  "obj_acquire hdr avail s a u ph = (case ph of (p, h) \<Rightarrow> ObjectPool_Acquire hdr avail a p h s)"

definition obj_release ::
    "int32 \<Rightarrow> nat \<times> int \<Rightarrow> memory_pool \<times> mem_heap \<Rightarrow> (memory_pool \<times> mem_heap) outcome" where
  "obj_release hdr p ph = (case ph of (q, h) \<Rightarrow> ObjectPool_Release hdr p q h)"

lemma obj_acquire_inv:
  assumes inv: "obj_inv hdr n (p, h) L" and a: "ObjectPool_Acquire hdr avail a p h s = Ok (ptr, p', h')"
  shows "obj_inv hdr n (p', h') ((ptr, ()) # L)"
proof -
  have pok: "pool_ok n (length L) p h" using inv by (simp add: obj_inv_def)
  from a obtain i h1 b where acq: "MemoryPool_Acquire avail p h s = Ok (i, p', h1)" and ptr: "ptr = (i, sint hdr)"
    and h': "h' = h1[i := Some (b\<lparr>mb_allocSize := a\<rparr>)]" "i < length h1" "h1 ! i = Some b"
    by (auto simp: ObjectPool_Acquire_def MemoryHeader_AttachHeader_def set_allocSize_def block_at_def
        split: if_splits option.splits)
  note A = MemoryPool_Acquire_ok [OF pok acq]
  have ne: "\<forall>x \<in> set (mp_list p'). i \<noteq> x" using A(2) by auto
  have "pool_ok n (Suc (length L)) p' h'"
    by (rule pool_ok_frame [OF A(1)]) (use A(1) ne in \<open>auto simp: h'(1) pool_ok_def\<close>)
  moreover have "x \<noteq> i \<and> x < length h' \<and> h' ! x = h ! x \<and> x \<notin> set (mp_list p')" if "((x, off), u) \<in> set L" for x off u
  proof -
    have x: "x < length h" "x \<notin> set (mp_list p)" using inv that by (auto simp: obj_inv_def)
    with A(3) have "x \<noteq> i" by auto
    with x A(4) A(7) [of x] show ?thesis by (auto simp: h'(1))
  qed
  moreover have "i < length h'" "\<exists>b. h' ! i = Some b \<and> mb_size b = n" using A(5,6) h' by auto
  ultimately show ?thesis
    using inv A(2) unfolding obj_inv_def ptr by (fastforce simp: image_iff)
qed

lemma obj_invD:
  assumes "obj_inv hdr n (q, h) L" and "((x, off), u) \<in> set L"
  shows "off = sint hdr \<and> x < length h \<and> x \<notin> set (mp_list q) \<and> (\<exists>b. h ! x = Some b \<and> mb_size b = n)"
  using assms by (auto simp: obj_inv_def)

lemma obj_release_inv:
  assumes inv: "obj_inv hdr n (q, h) (xs @ ((i, off), u) # ys)"
  shows "\<exists>q' h'. ObjectPool_Release hdr (i, off) q h = Ok (q', h') \<and> obj_inv hdr n (q', h') (xs @ ys)"
proof -
  from inv obtain b where b: "i < length h" "h ! i = Some b" "mb_size b = n" "i \<notin> set (mp_list q)"
    and pok: "pool_ok n (Suc (length (xs @ ys))) q h"
    by (auto simp: obj_inv_def)
  define h' where "h' = h[i := Some (b\<lparr>mb_allocSize := 0\<rparr>)]"
  from MemoryPool_Release_ok [OF pok b] obtain q' where q': "MemoryPool_Release i q h = Ok (q', h')"
    "mp_list q' = i # mp_list q" "pool_ok n (length (xs @ ys)) q' h'" by (auto simp: h'_def)
  have "off' = sint hdr \<and> x < length h' \<and> x \<notin> set (mp_list q') \<and> (\<exists>b. h' ! x = Some b \<and> mb_size b = n)"
    if "((x, off'), u') \<in> set (xs @ ys)" for x off' u'
  proof -
    have "((x, off'), u') \<in> set (xs @ ((i, off), u) # ys)" using that by auto
    from obj_invD [OF inv this] have "off' = sint hdr" "x < length h" "x \<notin> set (mp_list q)"
      "\<exists>b. h ! x = Some b \<and> mb_size b = n" by simp_all
    moreover have "x \<noteq> i" using inv that by (force simp: obj_inv_def image_iff)
    ultimately show ?thesis by (simp add: q'(2) h'_def)
  qed
  then have "obj_inv hdr n (q', h') (xs @ ys)" using inv q'(3) unfolding obj_inv_def by fastforce
  then show ?thesis using q'(1) by (simp add: ObjectPool_Release_def MemoryHeader_DetachHeader_def)
qed

interpretation ObjectPool: allocator "obj_inv hdr n" "obj_acquire hdr avail s a" "obj_release hdr"
    "\<lambda>p u (q, h). \<exists>b. h ! fst p = Some b \<and> mb_size b = n" "\<lambda>p q. fst p \<noteq> fst q"
proof
  fix ph :: "memory_pool \<times> mem_heap" and L :: "((nat \<times> int) \<times> unit) list"
  obtain q h where ph: "ph = (q, h)" by (cases ph)
  show "case ph of (q, h) \<Rightarrow> \<exists>b. h ! fst p = Some b \<and> mb_size b = n" if "obj_inv hdr n ph L" "(p, u) \<in> set L" for p u
    using that by (cases p) (auto simp: obj_inv_def ph)
  show "sorted_wrt (\<lambda>x y. fst (fst x) \<noteq> fst (fst y)) L" if "obj_inv hdr n ph L"
    using that by (simp add: obj_inv_def ph distinct_conv_nth sorted_wrt_iff_nth_less)
  show "obj_inv hdr n ph' ((p, u) # L)" if "obj_inv hdr n ph L" "obj_acquire hdr avail s a u ph = Ok (p, ph')" for u p ph'
    using that obj_acquire_inv by (cases ph') (auto simp: obj_acquire_def ph)
  show "\<exists>ph'. obj_release hdr p ph = Ok ph' \<and> obj_inv hdr n ph' (xs @ ys)"
    if "obj_inv hdr n ph (xs @ (p, u) # ys)" for xs p u ys
    using obj_release_inv [of hdr n q h xs "fst p" "snd p" u ys] that by (auto simp: obj_release_def ph)
qed

section \<open>Properties of the memory\<close>

lemma Memory_new_inv: "mem_inv hdr (Memory_new, []) []"
  by (rule mem_invI)
    (simp_all add: Memory_new_def pt_pools_build length_block_sizes pool_ok_def MemoryPool_new_def uses_def)

text \<open>C13. Whatever sequence of \<^verbatim>\<open>Allocate\<close> and \<^verbatim>\<open>Release\<close> calls is made on a new \<^verbatim>\<open>Memory\<close>, as long as
  none faults, the live allocations are in pairwise different blocks, and each block has room for
  the header and the requested bytes.\<close>

theorem Memory_live_blocks:
  assumes "alloc_run (mem_alloc hdr avail s) (mem_free hdr) ops [] (Memory_new, []) = Ok (L, m, h)"
  shows "distinct (map (\<lambda>x. fst (fst x)) L) \<and> (\<forall>(p, sz) \<in> set L. mem_room hdr p sz (m, h))"
proof -
  from Memory.run_inv [OF Memory_new_inv assms] have inv: "mem_inv hdr (m, h) L" .
  have "mem_room hdr p sz (m, h)" if "(p, sz) \<in> set L" for p sz
    using inv that by (rule Memory.inv_room)
  then show ?thesis using mem_invD(5) [OF inv] by auto
qed

text \<open>A small size on a new memory: the entry of the table, and the first block of its pool.\<close>

lemma Memory_Allocate_fresh:
  assumes "alloc_size hdr sz > 8192"
  shows "Memory_Allocate hdr True sz m h s = Ok ((length h, sint hdr), m,
    h @ [Some \<lparr>mb_size = nat (alloc_size hdr sz), mb_allocSize = alloc_size hdr sz\<rparr>])"
  using assms
  by (simp add: Memory_Allocate_def Memory_alloc_big_def aligned_malloc_def MemoryHeader_AttachHeader_def
      set_allocSize_def block_at_def Let_def)

theorem Memory_live_blocks_witness:
  "\<exists>h. mem_room 16 (1, 16) 10000 (Memory_new, h)"
proof -
  have "alloc_run (mem_alloc 16 True \<lparr>app_last_error = 0\<rparr>) (mem_free 16) [Op_Alloc 9000, Op_Alloc 10000]
      [] (Memory_new, []) = Ok ([((1, 16), 10000), ((0, 16), 9000)], Memory_new,
      [Some \<lparr>mb_size = 9016, mb_allocSize = 9016\<rparr>, Some \<lparr>mb_size = 10016, mb_allocSize = 10016\<rparr>])"
    by (simp add: mem_alloc_def Memory_Allocate_fresh)
  from Memory_live_blocks [OF this] show ?thesis by auto
qed

lemma sorted_block_sizes: "sorted_wrt (<) block_sizes"
  using build_pool_table_ok by (simp add: pt_ok_def pt_pools_build)

lemma pt_entry_count:
  assumes "pt_entry block_sizes tab k"
  shows "tab ! k = Some (length (filter (\<lambda>n. n < k) block_sizes))"
proof -
  from assms obtain j where j: "j < length block_sizes" "tab ! k = Some j" "k \<le> block_sizes ! j"
    "\<forall>i < j. block_sizes ! i < k"
    by (auto simp: pt_entry_def)
  have "k \<le> block_sizes ! i" if "j \<le> i" "i < length block_sizes" for i
    using that j(3) sorted_wrt_nth_less [OF sorted_block_sizes, of j i] by (cases "i = j") auto
  then have "\<forall>n \<in> set (drop j block_sizes). \<not> n < k" by (auto simp: in_set_conv_nth not_less)
  moreover have "\<forall>n \<in> set (take j block_sizes). n < k" using j(4) by (auto simp: in_set_conv_nth)
  ultimately have "filter (\<lambda>n. n < k) (take j block_sizes @ drop j block_sizes) = take j block_sizes"
    by (simp only: filter_append) (simp add: filter_empty_conv filter_id_conv)
  with j show ?thesis by simp
qed

text \<open>The pools and the table built by the constructor of \<^verbatim>\<open>Memory\<close>: 56 pools, of block sizes 32 to
  1024 in steps of 32, 1056 to 1952 in steps of 128, 2080 to 3872 in steps of 256 and 4128 to 7712 in
  steps of 512; every key up to 7712 points to the smallest pool with at least that many bytes; and
  the keys from 7713 up to \<^verbatim>\<open>MAX_ALLOC_SIZE\<close> are never set.\<close>

theorem Memory_pool_table:
  "mm_pools Memory_new = map MemoryPool_new block_sizes \<and>
   mm_table Memory_new =
     map (\<lambda>k. if k \<le> 7712 then Some (length (filter (\<lambda>n. n < k) block_sizes)) else None) [0..<8193]"
proof -
  have "mm_table Memory_new =
      map (\<lambda>k. if k \<le> 7712 then Some (length (filter (\<lambda>n. n < k) block_sizes)) else None) [0..<8193]"
    by (rule nth_equalityI)
      (auto simp: Memory_new_def pool_table_entries pt_entry_count)
  then show ?thesis by (simp add: Memory_new_def pt_pools_build)
qed

lemma Memory_Allocate_pooled:
  assumes inv: "mem_inv hdr (m, h) L" and a: "0 \<le> alloc_size hdr sz" "alloc_size hdr sz \<le> 7712"
  shows "\<exists>ptr m' h'. Memory_Allocate hdr True sz m h s = Ok (ptr, m', h')"
proof -
  note tab = mem_invD(1) [OF inv]
  from Memory_pool_for_eq(2) [OF tab a] obtain j where j: "j < 56" "class_of (alloc_size hdr sz) = Some j" by blast
  with mem_invD(3) [OF inv] obtain i p h1 b where "MemoryPool_Acquire True (mm_pools m ! j) h s = Ok (i, p, h1)"
    "i < length h1" "h1 ! i = Some b"
    using MemoryPool_Acquire_total by blast
  with a j show ?thesis
    by (simp add: Memory_Allocate_def Let_def Memory_pool_for_eq(1) [OF tab] MemoryHeader_AttachHeader_def set_allocSize_ok)
qed

text \<open>\<^verbatim>\<open>Allocate\<close> on a well-formed memory, by the total size of header and request: above 8192 it is a
  block of its own; up to 7712 it comes from the pool of its size; from 7713 to 8192 the pool pointer
  is read from a table entry that was never written; and a negative total, from a negative request or
  from wrap-around near \<open>2\<^sup>31\<close>, indexes the table below its start.\<close>

theorem Memory_Allocate_by_size:
  assumes "mem_inv hdr (m, h) L"
  shows "(is_ok (Memory_Allocate hdr True sz m h s) \<longleftrightarrow>
      8192 < alloc_size hdr sz \<or> 0 \<le> alloc_size hdr sz \<and> alloc_size hdr sz \<le> 7712) \<and>
    (Memory_Allocate hdr True sz m h s = Fault UninitializedPointer \<longleftrightarrow>
      7712 < alloc_size hdr sz \<and> alloc_size hdr sz \<le> 8192) \<and>
    (Memory_Allocate hdr True sz m h s = Fault OutOfRange \<longleftrightarrow> alloc_size hdr sz < 0)"
proof -
  note tab = mem_invD(1) [OF assms]
  consider (big) "8192 < alloc_size hdr sz" | (gap) "7712 < alloc_size hdr sz" "alloc_size hdr sz \<le> 8192"
    | (neg) "alloc_size hdr sz < 0" | (pool) "0 \<le> alloc_size hdr sz" "alloc_size hdr sz \<le> 7712"
    by linarith
  then show ?thesis
  proof cases
    case big
    then show ?thesis by (simp add: Memory_Allocate_fresh)
  next
    case gap
    then show ?thesis by (simp add: Memory_Allocate_def Let_def Memory_pool_for_eq(1) [OF tab])
  next
    case neg
    then show ?thesis by (simp add: Memory_Allocate_def Let_def Memory_pool_for_eq(1) [OF tab])
  next
    case pool
    from Memory_Allocate_pooled [OF assms pool, of s] have "is_ok (Memory_Allocate hdr True sz m h s)"
      by (auto simp: is_ok_iff)
    with pool show ?thesis by (auto simp: is_ok_iff)
  qed
qed

theorem Memory_Allocate_by_size_witness:
  "Memory_Allocate 32 True 8000 Memory_new [] \<lparr>app_last_error = 0\<rparr> = Fault UninitializedPointer"
  using Memory_Allocate_by_size [OF Memory_new_inv [of 32], of 8000 "\<lparr>app_last_error = 0\<rparr>"] by simp

text \<open>A released block is reused: after \<^verbatim>\<open>Release\<close> of a pooled allocation, the next \<^verbatim>\<open>Allocate\<close> whose
  total size belongs to the same pool returns the same pointer, without asking the system for
  memory, even if the two requests differ in size.\<close>

theorem Memory_Release_reuse:
  assumes "mem_inv hdr (m, h) ((ptr, sz) # L)" and "alloc_size hdr sz \<le> 8192"
    and "class_of (alloc_size hdr sz') = class_of (alloc_size hdr sz)"
    and "Memory_Release hdr ptr m h = Ok (m1, h1)"
  shows "\<exists>m2 h2. Memory_Allocate hdr False sz' m1 h1 s = Ok (ptr, m2, h2) \<and> mem_inv hdr (m2, h2) ((ptr, sz') # L)"
proof -
  note D = mem_invD [OF assms(1)]
  obtain i where ptr: "ptr = (i, sint hdr)" and lb: "live_block hdr h i sz"
    using D(6) [of "fst ptr" "snd ptr" sz] by (cases ptr) auto
  from lb assms(2) obtain b j where b: "i < length h" "h ! i = Some b" "mb_allocSize b = alloc_size hdr sz"
    and j: "j < 56" "class_of (alloc_size hdr sz) = Some j"
    by (auto simp: live_block_def)
  have pf: "Memory_pool_for a m' = Ok j" if "class_of a = Some j" "mm_table m' = mm_table m" for a and m' :: memory
    using that D(1) pool_table_entries(1) by (auto simp: Memory_pool_for_def class_of_def split: if_splits)
  from assms(4) b pf [OF j(2)] assms(2) have m1: "mm_pools m1 ! j =
      (mm_pools m ! j)\<lparr>mp_list := i # mp_list (mm_pools m ! j), mp_poolCount := mp_poolCount (mm_pools m ! j) + 1,
        mp_useCount := mp_useCount (mm_pools m ! j) - 1\<rparr>"
    and h1: "h1 = h[i := Some (b\<lparr>mb_allocSize := 0\<rparr>)]" and t1: "mm_table m1 = mm_table m"
    using D(2) j(1)
    by (auto simp: Memory_Release_def ptr MemoryHeader_DetachHeader_def block_at_def MemoryPool_Release_def
        set_allocSize_ok Let_def)
  have "class_of (alloc_size hdr sz') = Some j" using assms(3) j(2) by simp
  then have "\<exists>m2 h2. Memory_Allocate hdr False sz' m1 h1 s = Ok (ptr, m2, h2)"
    using pf [OF _ t1] m1 h1 b
    by (auto simp: Memory_Allocate_def MemoryPool_Acquire_def MemoryHeader_AttachHeader_def set_allocSize_ok
        ptr class_of_def Let_def split: if_splits)
  moreover have "mem_inv hdr (m1, h1) L"
    using Memory.free_inv [of hdr "(m, h)" "[]" ptr sz L] assms(1,4) by (auto simp: mem_free_def)
  ultimately show ?thesis using mem_alloc_inv [of hdr "(m1, h1)" L False s sz' ptr] by (auto simp: mem_alloc_def)
qed

theorem Memory_Release_reuse_witness:
  "\<exists>ptr m1 h1 m2 h2. Memory_Allocate 16 False 100 m1 h1 \<lparr>app_last_error = 0\<rparr> = Ok (ptr, m2, h2)"
proof -
  obtain ptr m h where al: "Memory_Allocate 16 True 100 Memory_new [] \<lparr>app_last_error = 0\<rparr> = Ok (ptr, m, h)"
    using Memory_Allocate_pooled [OF Memory_new_inv [of 16], of 100 "\<lparr>app_last_error = 0\<rparr>"] by auto
  then have inv: "mem_inv 16 (m, h) [(ptr, 100)]"
    using mem_alloc_inv [OF Memory_new_inv [of 16], of True "\<lparr>app_last_error = 0\<rparr>" 100 ptr "(m, h)"]
    by (simp add: mem_alloc_def)
  obtain m1 h1 where "Memory_Release 16 ptr m h = Ok (m1, h1)"
    using Memory.free_inv [of 16 "(m, h)" "[]" ptr 100 "[]"] inv by (auto simp: mem_free_def)
  moreover have "alloc_size 16 100 \<le> 8192" by simp
  ultimately show ?thesis using Memory_Release_reuse [OF inv _ refl] by blast
qed

end
