(* ===== verification/Pooled_Objects.thy ===== *)
theory Pooled_Objects
  imports Memory_Pool
begin

text \<open>
  Objects in pooled memory: \<^verbatim>\<open>xxnew\<close>, \<^verbatim>\<open>xxdelete\<close>, \<^verbatim>\<open>make_shared\<close> and \<^verbatim>\<open>make_unique\<close> of \<^verbatim>\<open>Memory.h\<close>,
  \<^verbatim>\<open>ObjectPool::make_shared\<close> of \<^verbatim>\<open>ObjectPool.h\<close>, the allocators of \<^verbatim>\<open>MemoryAllocator.h\<close> and \<^verbatim>\<open>FBAllocator.h\<close>,
  under \<^verbatim>\<open>src/MyNetworkLib/\<close>.

  The state holds the memory, the objects that exist with the request their memory was made for, the
  shared pointers (each by the pointer it holds), and a log of constructor and destructor calls. A
  constructor or destructor is only recorded: what it does is a matter of the type. A unique pointer
  is a shared pointer that is never copied.
\<close>

section \<open>Objects\<close>

datatype 'p obj_event = Constructed 'p | Destructed 'p

record ('m, 'p, 'r) obj_sys =
  os_mem :: 'm
  os_live :: "('p \<times> 'r) list"
  os_ptrs :: "'p list"
  os_log :: "'p obj_event list"

definition obj_empty :: "'m \<Rightarrow> ('m, 'p, 'r) obj_sys" where
  "obj_empty m = \<lparr>os_mem = m, os_live = [], os_ptrs = [], os_log = []\<rparr>"

text \<open>\<open>alloc\<close> and \<open>free\<close> are \<^verbatim>\<open>PoolAllocator::Alloc\<close> and \<^verbatim>\<open>Release\<close>, or those of an \<^verbatim>\<open>ObjectPool\<close>.\<close>

definition xxnew ::
    "('r \<Rightarrow> 'm \<Rightarrow> ('p \<times> 'm) outcome) \<Rightarrow> 'r \<Rightarrow> ('m, 'p, 'r) obj_sys \<Rightarrow> ('p \<times> ('m, 'p, 'r) obj_sys) outcome" where
  "xxnew alloc sizeof s =
     and_then (alloc sizeof (os_mem s)) (\<lambda>(ptr, m).
       Ok (ptr, s\<lparr>os_mem := m, os_live := (ptr, sizeof) # os_live s, os_log := os_log s @ [Constructed ptr]\<rparr>))"

fun remove_object :: "'p \<Rightarrow> ('p \<times> 'r) list \<Rightarrow> ('p \<times> 'r) list" where
  "remove_object p [] = []"
| "remove_object p (x # xs) = (if fst x = p then xs else x # remove_object p xs)"

definition xxdelete ::
    "('p \<Rightarrow> 'm \<Rightarrow> 'm outcome) \<Rightarrow> 'p \<Rightarrow> ('m, 'p, 'r) obj_sys \<Rightarrow> ('m, 'p, 'r) obj_sys outcome" where
  "xxdelete free ptr s =
     and_then (free ptr (os_mem s)) (\<lambda>m.
       Ok (s\<lparr>os_mem := m, os_live := remove_object ptr (os_live s), os_log := os_log s @ [Destructed ptr]\<rparr>))"

definition make_shared ::
    "('r \<Rightarrow> 'm \<Rightarrow> ('p \<times> 'm) outcome) \<Rightarrow> 'r \<Rightarrow> ('m, 'p, 'r) obj_sys \<Rightarrow> ('p \<times> ('m, 'p, 'r) obj_sys) outcome" where
  "make_shared alloc sizeof s =
     and_then (xxnew alloc sizeof s) (\<lambda>(ptr, s1). Ok (ptr, s1\<lparr>os_ptrs := ptr # os_ptrs s1\<rparr>))"

text \<open>Copying a shared pointer, and destroying one: the deleter runs with the last.\<close>

definition copy_shared :: "'p \<Rightarrow> ('m, 'p, 'r) obj_sys \<Rightarrow> ('m, 'p, 'r) obj_sys" where
  "copy_shared p s = s\<lparr>os_ptrs := p # os_ptrs s\<rparr>"

definition drop_shared ::
    "('p \<Rightarrow> 'm \<Rightarrow> 'm outcome) \<Rightarrow> 'p \<Rightarrow> ('m, 'p, 'r) obj_sys \<Rightarrow> ('m, 'p, 'r) obj_sys outcome" where
  "drop_shared free p s =
     (let s1 = s\<lparr>os_ptrs := remove1 p (os_ptrs s)\<rparr>
      in if p \<in> set (os_ptrs s1) then Ok s1 else xxdelete free p s1)"

datatype 'r ptr_op = Op_Make 'r | Op_Copy nat | Op_Drop nat

fun ptr_run ::
    "('r \<Rightarrow> 'm \<Rightarrow> ('p \<times> 'm) outcome) \<Rightarrow> ('p \<Rightarrow> 'm \<Rightarrow> 'm outcome) \<Rightarrow>
     'r ptr_op list \<Rightarrow> ('m, 'p, 'r) obj_sys \<Rightarrow> ('m, 'p, 'r) obj_sys outcome" where
  "ptr_run alloc free [] s = Ok s"
| "ptr_run alloc free (Op_Make r # ops) s = and_then (make_shared alloc r s) (\<lambda>(_, s1). ptr_run alloc free ops s1)"
| "ptr_run alloc free (Op_Copy k # ops) s =
     (if k < length (os_ptrs s) then ptr_run alloc free ops (copy_shared (os_ptrs s ! k) s) else ptr_run alloc free ops s)"
| "ptr_run alloc free (Op_Drop k # ops) s =
     (if k < length (os_ptrs s)
      then and_then (drop_shared free (os_ptrs s ! k) s) (\<lambda>s1. ptr_run alloc free ops s1)
      else ptr_run alloc free ops s)"

section \<open>Other users of the pools\<close>

text \<open>\<^verbatim>\<open>Allocator\<close> is the C library's \<^verbatim>\<open>malloc\<close> and \<^verbatim>\<open>free\<close>; the byte count is converted to \<^verbatim>\<open>size_t\<close>.\<close>

definition Allocator_Alloc :: "bool \<Rightarrow> int32 \<Rightarrow> mem_heap \<Rightarrow> nat option \<times> mem_heap" where
  "Allocator_Alloc avail sz h = aligned_malloc avail (unat (scast sz :: uint64)) h"

definition Allocator_Release :: "nat option \<Rightarrow> mem_heap \<Rightarrow> mem_heap" where
  "Allocator_Release p h = (case p of None \<Rightarrow> h | Some i \<Rightarrow> aligned_free i h)"

definition STLAllocator_deallocate ::
    "int32 \<Rightarrow> nat \<times> int \<Rightarrow> uint64 \<Rightarrow> memory \<Rightarrow> mem_heap \<Rightarrow> (memory \<times> mem_heap) outcome" where
  "STLAllocator_deallocate hdr ptr cnt m h = PoolAllocator_Release hdr ptr m h"

text \<open>The FlatBuffers allocator; the size is cut to 32 bits.\<close>

definition FBAllocator_allocate ::
    "int32 \<Rightarrow> bool \<Rightarrow> uint64 \<Rightarrow> memory \<Rightarrow> mem_heap \<Rightarrow> err_state \<Rightarrow> ((nat \<times> int) \<times> memory \<times> mem_heap) outcome" where
  "FBAllocator_allocate hdr avail sz m h s = PoolAllocator_Alloc hdr avail (ucast sz) m h s"

definition FBAllocator_deallocate ::
    "int32 \<Rightarrow> nat \<times> int \<Rightarrow> uint64 \<Rightarrow> memory \<Rightarrow> mem_heap \<Rightarrow> (memory \<times> mem_heap) outcome" where
  "FBAllocator_deallocate hdr p sz m h = PoolAllocator_Release hdr p m h"

section \<open>Lifetimes\<close>

text \<open>An allocator whose live pointers are different.\<close>

locale object_allocator = allocator +
  assumes apart_irrefl: "\<not> apart p p"
begin

text \<open>An object exists exactly as long as a shared pointer to it, and it has been constructed once
  more than destructed.\<close>

definition obj_ok :: "('a, 'b, 'c) obj_sys \<Rightarrow> bool" where
  "obj_ok s \<longleftrightarrow> inv (os_mem s) (os_live s) \<and> set (os_ptrs s) = fst ` set (os_live s) \<and>
     (\<forall>p. count_list (os_log s) (Constructed p) =
        count_list (os_log s) (Destructed p) + (if p \<in> fst ` set (os_live s) then 1 else 0))"

lemma inv_distinct:
  assumes "inv m L"
  shows "distinct (map fst L)"
  unfolding distinct_conv_nth
proof (intro allI impI)
  have sorted: "sorted_wrt (\<lambda>x y. apart (fst x) (fst y)) L" using assms by (rule inv_apart)
  have ne: "fst (L ! i) \<noteq> fst (L ! j)" if "i < j" "j < length L" for i j
    using sorted_wrt_nth_less [OF sorted that] apart_irrefl by metis
  show "map fst L ! i \<noteq> map fst L ! j" if "i < length (map fst L)" "j < length (map fst L)" "i \<noteq> j" for i j
    using ne [of i j] ne [of j i] that by (cases "i < j") auto
qed

lemma make_shared_ok:
  assumes ok: "obj_ok s" and m: "make_shared alloc r s = Ok (p, s')"
  shows "obj_ok s'" and "p \<notin> set (os_ptrs s)"
proof -
  obtain m1 where a: "alloc r (os_mem s) = Ok (p, m1)"
    and s': "s' = s\<lparr>os_mem := m1, os_live := (p, r) # os_live s, os_log := os_log s @ [Constructed p], os_ptrs := p # os_ptrs s\<rparr>"
    using m by (auto simp: make_shared_def xxnew_def)
  have i: "inv m1 ((p, r) # os_live s)" using ok a by (auto simp: obj_ok_def intro: alloc_inv)
  then have new: "p \<notin> fst ` set (os_live s)" using inv_distinct [OF i] by simp
  then show "p \<notin> set (os_ptrs s)" using ok by (simp add: obj_ok_def)
  show "obj_ok s'" using ok i new by (auto simp: obj_ok_def s')
qed

lemma remove_object_split:
  "distinct (map fst (xs @ (p, r) # ys)) \<Longrightarrow> remove_object p (xs @ (p, r) # ys) = xs @ ys"
  by (induction xs) auto

lemma drop_shared_ok:
  assumes ok: "obj_ok s" and p: "p \<in> set (os_ptrs s)"
  shows "\<exists>s'. drop_shared free p s = Ok s' \<and> obj_ok s' \<and> os_ptrs s' = remove1 p (os_ptrs s)"
proof (cases "p \<in> set (remove1 p (os_ptrs s))")
  case True
  then have "x \<in> set (remove1 p (os_ptrs s)) \<longleftrightarrow> x \<in> set (os_ptrs s)" for x
    using p by (cases "x = p") simp_all
  then have "set (remove1 p (os_ptrs s)) = set (os_ptrs s)" by blast
  with True ok show ?thesis by (simp add: drop_shared_def obj_ok_def)
next
  case False
  have "p \<in> fst ` set (os_live s)" using ok p by (simp add: obj_ok_def)
  then obtain r where "(p, r) \<in> set (os_live s)" by auto
  then obtain xs ys where live: "os_live s = xs @ (p, r) # ys" by (auto dest: split_list)
  then obtain m' where m': "free p (os_mem s) = Ok m'" "inv m' (xs @ ys)"
    using free_inv [of "os_mem s" xs p r ys] ok by (auto simp: obj_ok_def)
  have d: "distinct (map fst (xs @ (p, r) # ys))" using ok inv_distinct live by (metis obj_ok_def)
  let ?s' = "s\<lparr>os_ptrs := remove1 p (os_ptrs s), os_mem := m', os_live := xs @ ys, os_log := os_log s @ [Destructed p]\<rparr>"
  have "drop_shared free p s = Ok ?s'"
    using False m'(1) remove_object_split [OF d] by (simp add: drop_shared_def xxdelete_def live)
  moreover have "x \<in> set (remove1 p (os_ptrs s)) \<longleftrightarrow> x \<in> set (os_ptrs s) - {p}" for x
    using False by (cases "x = p") simp_all
  then have "set (remove1 p (os_ptrs s)) = set (os_ptrs s) - {p}" by blast
  then have "obj_ok ?s'" using ok m'(2) d by (auto simp: obj_ok_def live)
  ultimately show ?thesis by simp
qed

lemma ptr_run_ok: "obj_ok s \<Longrightarrow> ptr_run alloc free ops s = Ok s' \<Longrightarrow> obj_ok s'"
proof (induction ops arbitrary: s)
  case (Cons op ops)
  show ?case
  proof (cases op)
    case (Op_Make r)
    then show ?thesis using Cons make_shared_ok(1) [OF Cons.prems(1)] by auto
  next
    case (Op_Copy k)
    have "obj_ok (copy_shared (os_ptrs s ! k) s)" if "k < length (os_ptrs s)"
      using Cons.prems(1) that by (auto simp: obj_ok_def copy_shared_def insert_absorb)
    then show ?thesis using Cons Op_Copy by (auto split: if_splits)
  next
    case (Op_Drop k)
    then show ?thesis
      using Cons drop_shared_ok [OF Cons.prems(1), of "os_ptrs s ! k"] by (auto split: if_splits)
  qed
qed simp

lemma ptr_drop_all:
  assumes "obj_ok s"
  shows "\<exists>s'. ptr_run alloc free (replicate (length (os_ptrs s)) (Op_Drop 0)) s = Ok s' \<and> os_live s' = [] \<and> inv (os_mem s') []"
  using assms
proof (induction "os_ptrs s" arbitrary: s)
  case Nil
  then show ?case by (auto simp: obj_ok_def)
next
  case (Cons p ps)
  have ptrs: "os_ptrs s = p # ps" using Cons.hyps(2) by simp
  obtain s1 where s1: "drop_shared free p s = Ok s1" "obj_ok s1" "os_ptrs s1 = ps"
    using drop_shared_ok [OF Cons.prems, of p] ptrs by auto
  show ?case using Cons.hyps(1) [of s1] s1 ptrs by simp
qed

lemma obj_ok_empty: "inv m [] \<Longrightarrow> obj_ok (obj_empty m)"
  by (simp add: obj_ok_def obj_empty_def)

end

interpretation Memory_objects: object_allocator "mem_inv hdr" "mem_alloc hdr avail s" "mem_free hdr" "mem_room hdr"
    "\<lambda>p q. fst p \<noteq> fst q"
  by unfold_locales simp

interpretation ObjectPool_objects: object_allocator "obj_inv hdr n" "obj_acquire hdr avail s a" "obj_release hdr"
    "\<lambda>p u (q, h). \<exists>b. h ! fst p = Some b \<and> mb_size b = n" "\<lambda>p q. fst p \<noteq> fst q"
  by unfold_locales simp

section \<open>Properties of pooled objects\<close>

text \<open>C15. Objects made by \<^verbatim>\<open>make_shared\<close> in a new \<^verbatim>\<open>Memory\<close>, with shared pointers copied and dropped in any order.
  As long as no allocation fails: an object exists exactly as long as a pointer to it; existing
  objects are in different blocks with room for them; each was constructed exactly once more than
  destructed, and what is gone as often. Dropping all remaining pointers never fails and leaves no
  object and every pool with use count zero.\<close>

theorem make_shared_lifetimes:
  assumes "ptr_run (mem_alloc hdr avail e) (mem_free hdr) ops (obj_empty (Memory_new, [])) = Ok s"
  shows "set (os_ptrs s) = fst ` set (os_live s) \<and> distinct (map (\<lambda>x. fst (fst x)) (os_live s)) \<and>
    (\<forall>(p, sz) \<in> set (os_live s). mem_room hdr p sz (os_mem s)) \<and>
    (\<forall>p. count_list (os_log s) (Constructed p) =
       count_list (os_log s) (Destructed p) + (if p \<in> set (os_ptrs s) then 1 else 0)) \<and>
    (\<exists>s'. ptr_run (mem_alloc hdr avail e) (mem_free hdr) (replicate (length (os_ptrs s)) (Op_Drop 0)) s = Ok s' \<and>
       os_live s' = [] \<and> (\<forall>j < 56. mp_useCount (mm_pools (fst (os_mem s')) ! j) = 0))"
proof -
  have ok: "Memory_objects.obj_ok hdr s"
    using Memory_objects.ptr_run_ok [OF Memory_objects.obj_ok_empty [OF Memory_new_inv] assms] .
  then have inv: "mem_inv hdr (os_mem s) (os_live s)" and ptrs: "set (os_ptrs s) = fst ` set (os_live s)"
    by (simp_all add: Memory_objects.obj_ok_def)
  obtain m h where mh: "os_mem s = (m, h)" by (cases "os_mem s")
  obtain s' where s': "ptr_run (mem_alloc hdr avail e) (mem_free hdr) (replicate (length (os_ptrs s)) (Op_Drop 0)) s = Ok s'"
    "os_live s' = []" "mem_inv hdr (os_mem s') []"
    using Memory_objects.ptr_drop_all [OF ok] by blast
  obtain m' h' where mh': "os_mem s' = (m', h')" by (cases "os_mem s'")
  have "mp_useCount (mm_pools m' ! j) = 0" if "j < 56" for j
    using mem_invD(3) [OF s'(3) [unfolded mh']] that by (simp add: pool_ok_def uses_def)
  moreover have "mem_room hdr p sz (os_mem s)" if "(p, sz) \<in> set (os_live s)" for p sz
    using inv that by (rule Memory.inv_room)
  ultimately show ?thesis
    using ok ptrs mem_invD(5) [OF inv [unfolded mh]] s'(1,2) mh' by (auto simp: Memory_objects.obj_ok_def)
qed

theorem make_shared_lifetimes_witness:
  "\<exists>s. ptr_run (mem_alloc 16 True \<lparr>app_last_error = 0\<rparr>) (mem_free 16) [Op_Make 9000, Op_Copy 0, Op_Drop 0]
       (obj_empty (Memory_new, [])) = Ok s \<and> os_ptrs s = [(0, 16)] \<and>
     count_list (os_log s) (Constructed (0, 16)) = count_list (os_log s) (Destructed (0, 16)) + 1 \<and>
     (\<exists>s'. ptr_run (mem_alloc 16 True \<lparr>app_last_error = 0\<rparr>) (mem_free 16) [Op_Drop 0] s = Ok s' \<and> os_live s' = [])"
proof -
  let ?run = "ptr_run (mem_alloc 16 True \<lparr>app_last_error = 0\<rparr>) (mem_free 16)"
  obtain s where s: "?run [Op_Make 9000, Op_Copy 0, Op_Drop 0] (obj_empty (Memory_new, [])) = Ok s" "os_ptrs s = [(0, 16)]"
    by (simp add: make_shared_def xxnew_def copy_shared_def drop_shared_def obj_empty_def mem_alloc_def Memory_Allocate_fresh)
  have "count_list (os_log s) (Constructed (0, 16)) = count_list (os_log s) (Destructed (0, 16)) + 1"
    "\<exists>s'. ?run [Op_Drop 0] s = Ok s' \<and> os_live s' = []"
    using make_shared_lifetimes [OF s(1)] s(2) by auto
  with s show ?thesis by (intro exI [of _ s]) (simp del: ptr_run.simps)
qed

end
