(* ===== verification/Jobs.thy ===== *)
theory Jobs
  imports Lock_Containers
begin

text \<open>
  Jobs: \<^verbatim>\<open>Job.h\<close>, \<^verbatim>\<open>JobSerializer.h\<close>, \<^verbatim>\<open>JobSerializer.cpp\<close>, \<^verbatim>\<open>JobWorker.h\<close>, \<^verbatim>\<open>JobWorker.cpp\<close>,
  \<^verbatim>\<open>ReservableJob.h\<close> and \<^verbatim>\<open>ReservableJob.cpp\<close> under \<^verbatim>\<open>src/MyNetworkLib/\<close>.

  The first part follows one serializer through any number of threads that push jobs to it and
  execute them, one atomic access per step. A thread is in two places at once: in \<^verbatim>\<open>ExecuteJobs\<close>
  (\<open>exec_pc\<close>) and, possibly inside one of the jobs it executes, in \<^verbatim>\<open>Push\<close> (\<open>push_pc\<close>). The atomic
  \<^verbatim>\<open>_queuedCount\<close> is an \<^verbatim>\<open>int\<close>, a word of 32 bits that wraps. A job pointer is \<open>None\<close> when it is null; the
  queue is taken with \<open>LockQueue_Clear_into\<close>, which swallows the first null pointer and stops there.
  \<open>js_global\<close> counts the entries of this serializer in the queue of \<^verbatim>\<open>GGlobalJobWorker\<close>. The clock
  decides freely whether the time of an execution is used up.

  Besides \<^verbatim>\<open>Push\<close> and the workers, the application can call the public \<^verbatim>\<open>ExecuteJobs\<close> itself and empty the
  global queue with \<^verbatim>\<open>ClearJobs\<close>. These are steps too. The last six fields of the state are its history:
  the pointers queued, the jobs executed, the null pointers swallowed, and whether the count has ever
  wrapped, \<^verbatim>\<open>ExecuteJobs\<close> was ever called by the application and \<^verbatim>\<open>ClearJobs\<close> ever dropped an entry.

  The second part is the reserved jobs, whose queue is the priority queue of \<open>Lock_Containers\<close>
  under \<^verbatim>\<open>ReservableJobCompare\<close>, and the loop \<^verbatim>\<open>DoJobs\<close> of the workers.
\<close>

section \<open>The job serializer among threads\<close>

text \<open>The first argument of a position in \<^verbatim>\<open>ExecuteJobs\<close> is where the thread goes on when the call returns:
  outside of the serializer, or in a job that made the call.\<close>

datatype 'j exec_pc =
    E_Idle
  | E_Loop "'j exec_pc"
  | E_Run "'j exec_pc" nat "'j list"
  | E_Job "'j exec_pc" nat "'j list"
  | E_Clock "'j exec_pc"

datatype 'j push_pc =
    P_Idle
  | P_Added int32 "'j option"
  | P_Pushed int32

record 'j js_sys =
  js_queuedCount :: int32
  js_jobs :: "'j option list"
  js_global :: nat
  js_exec :: "nat \<Rightarrow> 'j exec_pc"
  js_push :: "nat \<Rightarrow> 'j push_pc"
  js_pushed :: "'j option list"
  js_executed :: "'j list"
  js_nulls :: nat
  js_wrapped :: bool
  js_direct :: bool
  js_cleared :: bool

definition js_init :: "'j js_sys \<Rightarrow> bool" where
  "js_init s \<longleftrightarrow> js_queuedCount s = 0 \<and> js_jobs s = [] \<and> js_global s = 0 \<and>
     js_exec s = (\<lambda>_. E_Idle) \<and> js_push s = (\<lambda>_. P_Idle) \<and> js_pushed s = [] \<and> js_executed s = [] \<and>
     js_nulls s = 0 \<and> \<not> js_wrapped s \<and> \<not> js_direct s \<and> \<not> js_cleared s"

text \<open>A thread calls a method of the serializer from outside of it or from one of its jobs.\<close>

fun callable :: "'j exec_pc \<Rightarrow> bool" where
  "callable E_Idle = True"
| "callable (E_Job k n r) = True"
| "callable _ = False"

text \<open>\<^verbatim>\<open>Push\<close>: the count goes up before the pointer is in the queue. The thread that found the count at zero
  starts executing when its \<^verbatim>\<open>TLS_CurrentJobSerializer\<close> is null, and otherwise leaves the serializer to the
  workers. The variable is null outside of all jobs, is set in jobs of this and of other serializers, and
  is null again in a job after an \<^verbatim>\<open>ExecuteJobs\<close> inside of it has returned: both steps are open to a thread.\<close>

inductive push_step :: "nat \<Rightarrow> 'j js_sys \<Rightarrow> 'j js_sys \<Rightarrow> bool" where
  push_add:
    "js_push s t = P_Idle \<Longrightarrow> callable (js_exec s t) \<Longrightarrow>
     push_step t s (s\<lparr>js_push := (js_push s)(t := P_Added (js_queuedCount s) j),
                      js_queuedCount := js_queuedCount s + 1,
                      js_wrapped := (js_wrapped s \<or> js_queuedCount s = 0x7FFFFFFF)\<rparr>)"
| push_queue:
    "js_push s t = P_Added prev j \<Longrightarrow>
     push_step t s (s\<lparr>js_push := (js_push s)(t := P_Pushed prev), js_jobs := js_jobs s @ [j],
                      js_pushed := js_pushed s @ [j]\<rparr>)"
| push_return:
    "js_push s t = P_Pushed prev \<Longrightarrow> prev \<noteq> 0 \<Longrightarrow> push_step t s (s\<lparr>js_push := (js_push s)(t := P_Idle)\<rparr>)"
| push_execute:
    "js_push s t = P_Pushed 0 \<Longrightarrow>
     push_step t s (s\<lparr>js_push := (js_push s)(t := P_Idle), js_exec := (js_exec s)(t := E_Loop (js_exec s t))\<rparr>)"
| push_defer:
    "js_push s t = P_Pushed 0 \<Longrightarrow>
     push_step t s (s\<lparr>js_push := (js_push s)(t := P_Idle), js_global := js_global s + 1\<rparr>)"

fun real_jobs :: "'j option list \<Rightarrow> 'j list" where
  "real_jobs [] = []"
| "real_jobs (None # js) = real_jobs js"
| "real_jobs (Some j # js) = j # real_jobs js"

text \<open>\<^verbatim>\<open>ExecuteJobs\<close>: take the queued jobs, run them in order, subtract their number from the count, and
  end when no job was added meanwhile; otherwise go on, or hand the serializer to the workers when
  the time is over. The comparison is between the \<^verbatim>\<open>int\<close> that \<^verbatim>\<open>fetch_sub\<close> returns, sign-extended, and the
  \<^verbatim>\<open>size_t\<close>. The call is made by \<^verbatim>\<open>Push\<close>, by a worker, or (\<open>exec_direct\<close>) by the application.\<close>

inductive exec_step :: "nat \<Rightarrow> 'j js_sys \<Rightarrow> 'j js_sys \<Rightarrow> bool" where
  exec_direct:
    "callable (js_exec s t) \<Longrightarrow> js_push s t = P_Idle \<Longrightarrow>
     exec_step t s (s\<lparr>js_exec := (js_exec s)(t := E_Loop (js_exec s t)), js_direct := True\<rparr>)"
| exec_clear:
    "js_exec s t = E_Loop k \<Longrightarrow> js_push s t = P_Idle \<Longrightarrow>
     LockQueue_Clear_into (\<lambda>j. j \<noteq> None) None [] \<lparr>lq_queue = js_jobs s\<rparr> = Some (jobs, q) \<Longrightarrow>
     exec_step t s (s\<lparr>js_exec := (js_exec s)(t := E_Run k (length jobs) (real_jobs jobs)), js_jobs := lq_queue q,
                      js_nulls := js_nulls s + (length (js_jobs s) - length jobs - length (lq_queue q))\<rparr>)"
| exec_start:
    "js_exec s t = E_Run k n (j # r) \<Longrightarrow> js_push s t = P_Idle \<Longrightarrow>
     exec_step t s (s\<lparr>js_exec := (js_exec s)(t := E_Job k n r), js_executed := js_executed s @ [j]\<rparr>)"
| exec_finish:
    "js_exec s t = E_Job k n r \<Longrightarrow> js_push s t = P_Idle \<Longrightarrow>
     exec_step t s (s\<lparr>js_exec := (js_exec s)(t := E_Run k n r)\<rparr>)"
| exec_sub_last:
    "js_exec s t = E_Run k n [] \<Longrightarrow> js_push s t = P_Idle \<Longrightarrow> (scast (js_queuedCount s) :: uint64) = of_nat n \<Longrightarrow>
     exec_step t s (s\<lparr>js_exec := (js_exec s)(t := k), js_queuedCount := js_queuedCount s - of_nat n\<rparr>)"
| exec_sub_more:
    "js_exec s t = E_Run k n [] \<Longrightarrow> js_push s t = P_Idle \<Longrightarrow> (scast (js_queuedCount s) :: uint64) \<noteq> of_nat n \<Longrightarrow>
     exec_step t s (s\<lparr>js_exec := (js_exec s)(t := E_Clock k), js_queuedCount := js_queuedCount s - of_nat n\<rparr>)"
| exec_again:
    "js_exec s t = E_Clock k \<Longrightarrow> js_push s t = P_Idle \<Longrightarrow>
     exec_step t s (s\<lparr>js_exec := (js_exec s)(t := E_Loop k)\<rparr>)"
| exec_timeout:
    "js_exec s t = E_Clock k \<Longrightarrow> js_push s t = P_Idle \<Longrightarrow>
     exec_step t s (s\<lparr>js_exec := (js_exec s)(t := k), js_global := js_global s + 1\<rparr>)"

text \<open>A worker takes the serializer from the global queue and executes it; \<^verbatim>\<open>ClearJobs\<close> empties that queue.\<close>

inductive work_step :: "nat \<Rightarrow> 'j js_sys \<Rightarrow> 'j js_sys \<Rightarrow> bool" where
  work_pop:
    "callable (js_exec s t) \<Longrightarrow> js_push s t = P_Idle \<Longrightarrow> 0 < js_global s \<Longrightarrow>
     work_step t s (s\<lparr>js_exec := (js_exec s)(t := E_Loop (js_exec s t)), js_global := js_global s - 1\<rparr>)"
| work_clear:
    "callable (js_exec s t) \<Longrightarrow> js_push s t = P_Idle \<Longrightarrow>
     work_step t s (s\<lparr>js_global := 0, js_cleared := (js_cleared s \<or> 0 < js_global s)\<rparr>)"

definition js_step :: "nat \<Rightarrow> 'j js_sys \<Rightarrow> 'j js_sys \<Rightarrow> bool" where
  "js_step N s s' \<longleftrightarrow> (\<exists>t < N. push_step t s s' \<or> exec_step t s s' \<or> work_step t s s')"

section \<open>Reserved jobs and workers\<close>

text \<open>A reserved job with its execution tick, its owner (a serializer, by number) and the cancel flag.\<close>

record 'j reservable =
  rj_executionTick :: uint64
  rj_job :: 'j
  rj_owner :: nat
  rj_canceled :: bool

definition ReservableJob_new :: "uint64 \<Rightarrow> 'j \<Rightarrow> nat \<Rightarrow> 'j reservable" where
  "ReservableJob_new tick job owner =
     \<lparr>rj_executionTick = tick, rj_job = job, rj_owner = owner, rj_canceled = False\<rparr>"

definition ReservableJob_Cancel :: "'j reservable \<Rightarrow> 'j reservable" where
  "ReservableJob_Cancel r = r\<lparr>rj_canceled := True\<rparr>"

definition ReservableJobCompare :: "'j reservable \<Rightarrow> 'j reservable \<Rightarrow> bool" where
  "ReservableJobCompare l r \<longleftrightarrow> rj_executionTick l > rj_executionTick r"

text \<open>The calls \<^verbatim>\<open>owner->Push(job)\<close> that a due job leads to; \<open>alive\<close> tells which weak owners can be locked.\<close>

definition PushJobToSerializer :: "(nat \<Rightarrow> bool) \<Rightarrow> 'j reservable \<Rightarrow> (nat \<times> 'j) list" where
  "PushJobToSerializer alive r =
     (if rj_canceled r = False then (if alive (rj_owner r) then [(rj_owner r, rj_job r)] else []) else [])"

record 'j global_worker =
  gw_reservableQueue :: "'j reservable list"
  gw_executingReservables :: bool
  gw_jobQueue :: "nat lock_queue"

definition GlobalJobWorker_AddJobSerializer :: "nat \<Rightarrow> 'j global_worker \<Rightarrow> 'j global_worker" where
  "GlobalJobWorker_AddJobSerializer ser w = w\<lparr>gw_jobQueue := LockQueue_Push ser (gw_jobQueue w)\<rparr>"

definition GlobalJobWorker_ClearJobs :: "'j global_worker \<Rightarrow> 'j global_worker" where
  "GlobalJobWorker_ClearJobs w = w\<lparr>gw_jobQueue := LockQueue_Clear (gw_jobQueue w)\<rparr>"

definition GlobalJobWorker_AddReservableJob :: "'j reservable \<Rightarrow> 'j global_worker \<Rightarrow> 'j global_worker" where
  "GlobalJobWorker_AddReservableJob r w =
     w\<lparr>gw_reservableQueue := pq_push ReservableJobCompare r (gw_reservableQueue w)\<rparr>"

definition GlobalJobWorker_ClearReservedJobs :: "'j global_worker \<Rightarrow> 'j global_worker" where
  "GlobalJobWorker_ClearReservedJobs w = w\<lparr>gw_reservableQueue := pop_until_empty (gw_reservableQueue w)\<rparr>"

definition JobSerializer_PushReservableJob ::
    "uint64 \<Rightarrow> uint64 \<Rightarrow> 'j \<Rightarrow> nat \<Rightarrow> 'j global_worker \<Rightarrow> 'j reservable \<times> 'j global_worker" where
  "JobSerializer_PushReservableJob now tickAfter job self w =
     (let r = ReservableJob_new (tickAfter + now) job self
      in (r, GlobalJobWorker_AddReservableJob r w))"

definition GlobalJobWorker_CheckReservedJob ::
    "(nat \<Rightarrow> bool) \<Rightarrow> uint64 \<Rightarrow> 'j global_worker \<Rightarrow> (nat \<times> 'j) list \<times> 'j global_worker" where
  "GlobalJobWorker_CheckReservedJob alive nowTick w =
     (if gw_executingReservables w = True then ([], w)
      else (case pq_pop_while (\<lambda>job. \<not> rj_executionTick job > nowTick) [] (gw_reservableQueue w) of
              (jobs, q) \<Rightarrow> (concat (map (PushJobToSerializer alive) jobs),
                            w\<lparr>gw_reservableQueue := q, gw_executingReservables := False\<rparr>)))"

definition GlobalJobWorker_PopJobSerializer :: "nat lock_queue \<Rightarrow> nat option \<times> nat lock_queue" where
  "GlobalJobWorker_PopJobSerializer q =
     (case LockQueue_TryPop 0 q of (ok, ser, q1) \<Rightarrow> (if ok then Some ser else None, q1))"

text \<open>\<^verbatim>\<open>DoJobs\<close>: \<open>clock i\<close> is the reading of the clock in round \<open>i\<close>, \<open>run i ser\<close> what \<^verbatim>\<open>ser->ExecuteJobs()\<close> does to the
  global queue in round \<open>i\<close>: it may put serializers back.\<close>

partial_function (option) DoJobs_loop ::
    "(nat \<Rightarrow> uint64) \<Rightarrow> (nat \<Rightarrow> nat \<Rightarrow> nat lock_queue \<Rightarrow> nat lock_queue) \<Rightarrow> uint64 \<Rightarrow> uint64 \<Rightarrow>
     nat \<Rightarrow> nat list \<Rightarrow> nat lock_queue \<Rightarrow> (nat list \<times> nat lock_queue) option" where
  "DoJobs_loop clock run maxTick start i executed q =
     (if clock i - start > maxTick then Some (executed, q)
      else (case GlobalJobWorker_PopJobSerializer q of
              (None, q1) \<Rightarrow> Some (executed, q1)
            | (Some ser, q1) \<Rightarrow>
                DoJobs_loop clock run maxTick start (i + 1) (executed @ [ser]) (run i ser q1)))"

definition GlobalJobWorker_DoJobs ::
    "(nat \<Rightarrow> uint64) \<Rightarrow> (nat \<Rightarrow> nat \<Rightarrow> nat lock_queue \<Rightarrow> nat lock_queue) \<Rightarrow> uint64 \<Rightarrow> uint64 \<Rightarrow>
     nat lock_queue \<Rightarrow> (nat list \<times> nat lock_queue) option" where
  "GlobalJobWorker_DoJobs clock run maxTick start q = DoJobs_loop clock run maxTick start 0 [] q"

section \<open>Tokens, counts and history\<close>

text \<open>The right to execute is a token: it is with an executing thread, with a thread that pushed the
  first job, or in the global queue.\<close>

fun exec_token :: "'j exec_pc \<Rightarrow> nat" where
  "exec_token E_Idle = 0"
| "exec_token _ = 1"

fun push_token :: "'j push_pc \<Rightarrow> nat" where
  "push_token (P_Added prev j) = (if prev = 0 then 1 else 0)"
| "push_token (P_Pushed prev) = (if prev = 0 then 1 else 0)"
| "push_token P_Idle = 0"

fun push_pending :: "'j push_pc \<Rightarrow> nat" where
  "push_pending (P_Added prev j) = 1"
| "push_pending _ = 0"

fun exec_batch :: "'j exec_pc \<Rightarrow> nat" where
  "exec_batch (E_Run k n r) = n"
| "exec_batch (E_Job k n r) = n"
| "exec_batch _ = 0"

fun exec_rest :: "'j exec_pc \<Rightarrow> 'j list" where
  "exec_rest (E_Run k n r) = r"
| "exec_rest (E_Job k n r) = r"
| "exec_rest _ = []"

fun exec_ret :: "'j exec_pc \<Rightarrow> 'j exec_pc" where
  "exec_ret E_Idle = E_Idle"
| "exec_ret (E_Loop k) = k"
| "exec_ret (E_Run k n r) = k"
| "exec_ret (E_Job k n r) = k"
| "exec_ret (E_Clock k) = k"

text \<open>The jobs a thread has taken and not begun, with those of the calls it is nested in.\<close>

fun exec_held :: "'j exec_pc \<Rightarrow> 'j multiset" where
  "exec_held E_Idle = {#}"
| "exec_held (E_Loop k) = exec_held k"
| "exec_held (E_Run k n r) = mset r + exec_held k"
| "exec_held (E_Job k n r) = mset r + exec_held k"
| "exec_held (E_Clock k) = exec_held k"

definition tokens :: "nat \<Rightarrow> 'j js_sys \<Rightarrow> nat" where
  "tokens N s = (\<Sum>t<N. exec_token (js_exec s t)) + (\<Sum>t<N. push_token (js_push s t)) + js_global s"

text \<open>What the count stands for: jobs about to be queued, in execution and in the queue, and swallowed null
  pointers, which nothing ever subtracts.\<close>

definition queued :: "nat \<Rightarrow> 'j js_sys \<Rightarrow> nat" where
  "queued N s = (\<Sum>t<N. push_pending (js_push s t)) + (\<Sum>t<N. exec_batch (js_exec s t)) + length (js_jobs s) + js_nulls s"

text \<open>Moving one thread changes the sums in one summand.\<close>

lemma exec_sums:
  assumes "t < N"
  shows "(\<Sum>u<N. exec_token (((js_exec s)(t := x)) u)) + exec_token (js_exec s t) =
      (\<Sum>u<N. exec_token (js_exec s u)) + exec_token x"
    and "(\<Sum>u<N. exec_batch (((js_exec s)(t := x)) u)) + exec_batch (js_exec s t) =
      (\<Sum>u<N. exec_batch (js_exec s u)) + exec_batch x"
    and "(\<Sum>u<N. exec_held (((js_exec s)(t := x)) u)) + exec_held (js_exec s t) =
      (\<Sum>u<N. exec_held (js_exec s u)) + exec_held x"
  using sum_fun_upd [of "{..<N}" t exec_token "js_exec s" x] sum_fun_upd [of "{..<N}" t exec_batch "js_exec s" x]
    sum_fun_upd [of "{..<N}" t exec_held "js_exec s" x] assms by simp_all

lemma push_sums:
  assumes "t < N"
  shows "(\<Sum>u<N. push_token (((js_push s)(t := x)) u)) + push_token (js_push s t) =
      (\<Sum>u<N. push_token (js_push s u)) + push_token x"
    and "(\<Sum>u<N. push_pending (((js_push s)(t := x)) u)) + push_pending (js_push s t) =
      (\<Sum>u<N. push_pending (js_push s u)) + push_pending x"
  using sum_fun_upd [of "{..<N}" t push_token "js_push s" x] sum_fun_upd [of "{..<N}" t push_pending "js_push s" x]
    assms by simp_all

lemma count_image_Some: "count (image_mset Some M) (Some j) = count M j"
  by (induction M) auto

lemma replicate_mset_add: "replicate_mset (m + n) x = replicate_mset m x + replicate_mset n x"
  by (induction m) auto

text \<open>Taking the queue: the jobs up to the first null pointer, which is lost.\<close>

lemma real_jobs_append [simp]: "real_jobs (xs @ ys) = real_jobs xs @ real_jobs ys"
  by (induction xs rule: real_jobs.induct) auto

lemma map_Some_real_jobs: "None \<notin> set js \<Longrightarrow> map Some (real_jobs js) = js"
  by (induction js rule: real_jobs.induct) auto

lemma clear_jobs_cases:
  assumes "LockQueue_Clear_into (\<lambda>j. j \<noteq> None) None [] \<lparr>lq_queue = js\<rparr> = Some (jobs, q)"
  shows "jobs = map Some (real_jobs jobs) \<and> (js = jobs \<and> lq_queue q = [] \<or> js = jobs @ None # lq_queue q)"
proof -
  have j: "jobs = takeWhile (\<lambda>j. j \<noteq> None) js" and q: "lq_queue q = tl (dropWhile (\<lambda>j. j \<noteq> None) js)"
    using assms by (auto simp: LockQueue_Clear_into_eq)
  obtain rest where r: "rest = dropWhile (\<lambda>j. j \<noteq> None) js" "js = jobs @ rest" unfolding j by simp
  have "None \<notin> set jobs" unfolding j by (auto dest: set_takeWhileD)
  moreover have "rest = [] \<or> rest = None # lq_queue q"
  proof (cases rest)
    case (Cons x xs)
    then have "x = None" using r(1) [symmetric] unfolding Cons dropWhile_eq_Cons_conv by simp
    with Cons q r(1) show ?thesis by simp
  qed simp
  moreover have "lq_queue q = tl rest" using q r(1) by simp
  ultimately show ?thesis using r(2) by (simp add: map_Some_real_jobs) fastforce
qed

lemma clear_jobs_counts:
  assumes "LockQueue_Clear_into (\<lambda>j. j \<noteq> None) None [] \<lparr>lq_queue = js\<rparr> = Some (jobs, q)"
  shows "length jobs + length (lq_queue q) + (length js - length jobs - length (lq_queue q)) = length js"
    and "real_jobs js = real_jobs jobs @ real_jobs (lq_queue q)"
    and "mset js = image_mset Some (mset (real_jobs jobs)) + mset (lq_queue q) +
      replicate_mset (length js - length jobs - length (lq_queue q)) None"
proof -
  have c: "js = jobs \<and> lq_queue q = [] \<or> js = jobs @ None # lq_queue q" and m: "mset jobs = image_mset Some (mset (real_jobs jobs))"
    using clear_jobs_cases [OF assms] by (blast, metis mset_map)
  show "length jobs + length (lq_queue q) + (length js - length jobs - length (lq_queue q)) = length js"
    "real_jobs js = real_jobs jobs @ real_jobs (lq_queue q)" using c by auto
  show "mset js = image_mset Some (mset (real_jobs jobs)) + mset (lq_queue q) +
      replicate_mset (length js - length jobs - length (lq_queue q)) None"
    using c by (auto simp: m)
qed

text \<open>What holds whatever the application does: every pointer queued is executed, taken, in the queue or a
  swallowed null pointer, once.\<close>

definition js_books :: "nat \<Rightarrow> 'j js_sys \<Rightarrow> bool" where
  "js_books N s \<longleftrightarrow> mset (js_pushed s) =
     image_mset Some (mset (js_executed s) + (\<Sum>t<N. exec_held (js_exec s t))) + replicate_mset (js_nulls s) None + mset (js_jobs s)"

lemma js_books_executed:
  assumes "js_books N s"
  shows "count_list (js_executed s) j \<le> count_list (js_pushed s) (Some j)"
proof -
  have "count (mset (js_executed s)) j \<le> count (mset (js_pushed s)) (Some j)"
    using assms unfolding js_books_def by (simp add: count_image_Some)
  then show ?thesis by (simp add: count_mset)
qed

text \<open>What holds as long as the count has not wrapped and only \<^verbatim>\<open>Push\<close> and the workers call \<^verbatim>\<open>ExecuteJobs\<close>: the
  invariant on counts and tokens, that no call is nested in a job, and the invariant on the history.\<close>

definition js_orderly :: "'j js_sys \<Rightarrow> bool" where
  "js_orderly s \<longleftrightarrow> \<not> js_wrapped s \<and> \<not> js_direct s"

definition js_counts :: "nat \<Rightarrow> 'j js_sys \<Rightarrow> bool" where
  "js_counts N s \<longleftrightarrow> sint (js_queuedCount s) = int (queued N s) \<and> tokens N s \<le> (if queued N s = 0 then 0 else 1) \<and>
     (\<not> js_cleared s \<longrightarrow> tokens N s = (if queued N s = 0 then 0 else 1))"

definition js_flat :: "nat \<Rightarrow> 'j js_sys \<Rightarrow> bool" where
  "js_flat N s \<longleftrightarrow> (\<forall>t < N. exec_ret (js_exec s t) = E_Idle)"

definition js_history :: "nat \<Rightarrow> 'j js_sys \<Rightarrow> bool" where
  "js_history N s \<longleftrightarrow>
     (\<forall>t < N. exec_rest (js_exec s t) \<noteq> [] \<longrightarrow>
        real_jobs (js_pushed s) = js_executed s @ exec_rest (js_exec s t) @ real_jobs (js_jobs s)) \<and>
     ((\<forall>t < N. exec_rest (js_exec s t) = []) \<longrightarrow> real_jobs (js_pushed s) = js_executed s @ real_jobs (js_jobs s))"

definition js_order :: "nat \<Rightarrow> 'j js_sys \<Rightarrow> bool" where
  "js_order N s \<longleftrightarrow> js_counts N s \<and> js_flat N s \<and> js_history N s"

definition js_inv :: "nat \<Rightarrow> 'j js_sys \<Rightarrow> bool" where
  "js_inv N s \<longleftrightarrow> js_books N s \<and> (js_orderly s \<longrightarrow> js_order N s)"

lemma tokens_ge:
  assumes "t < N"
  shows "exec_token (js_exec s t) + push_token (js_push s t) + js_global s \<le> tokens N s"
  using member_le_sum_nat [of "{..<N}" t "\<lambda>t. exec_token (js_exec s t)"]
    member_le_sum_nat [of "{..<N}" t "\<lambda>t. push_token (js_push s t)"] assms
  by (simp add: tokens_def)

lemma batch_le_queued:
  assumes "t < N"
  shows "exec_batch (js_exec s t) \<le> queued N s"
  using member_le_sum_nat [of "{..<N}" t "\<lambda>t. exec_batch (js_exec s t)"] assms by (simp add: queued_def)

lemma exec_token_pos: "exec_token x = (if x = E_Idle then 0 else 1)"
  by (cases x) auto

lemma two_tokens:
  assumes "t < N" "u < N" "t \<noteq> u"
  shows "exec_token (js_exec s t) + exec_token (js_exec s u) \<le> tokens N s"
proof -
  have "(\<Sum>x\<in>{t, u}. exec_token (js_exec s x)) \<le> (\<Sum>x<N. exec_token (js_exec s x))"
    using assms by (intro sum_mono2) auto
  with assms show ?thesis by (simp add: tokens_def)
qed

lemma one_token: "js_counts N s \<Longrightarrow> tokens N s \<le> 1"
  by (simp add: js_counts_def split: if_splits)

text \<open>A thread with a token of its own in \<^verbatim>\<open>Push\<close>, or one that can take the token of the global queue, is not
  executing.\<close>

lemma token_idle:
  assumes "js_counts N s" "t < N" "0 < push_token (js_push s t) + js_global s"
  shows "js_exec s t = E_Idle"
  using one_token [OF assms(1)] tokens_ge [OF assms(2), of s] assms(3) by (simp add: exec_token_pos split: if_splits)

lemma js_order_single:
  assumes "js_order N s" "t < N" "u < N" "js_exec s t \<noteq> E_Idle" "js_exec s u \<noteq> E_Idle"
  shows "t = u"
proof (rule ccontr)
  assume "t \<noteq> u"
  moreover have "tokens N s \<le> 1" using assms(1) unfolding js_order_def by (elim conjE) (rule one_token)
  ultimately show False using two_tokens [OF assms(2,3), of s] assms(4,5) by (simp add: exec_token_pos)
qed

lemma js_order_history:
  assumes "js_order N s" "t < N" "js_exec s t \<noteq> E_Idle"
  shows "real_jobs (js_pushed s) = js_executed s @ exec_rest (js_exec s t) @ real_jobs (js_jobs s)"
proof (cases "exec_rest (js_exec s t) = []")
  case True
  have "\<forall>u < N. exec_rest (js_exec s u) = []"
    using js_order_single [OF assms(1)] True assms(2,3) by (metis exec_rest.simps(3))
  with assms(1) True show ?thesis by (simp add: js_order_def js_history_def)
next
  case False
  with assms show ?thesis by (simp add: js_order_def js_history_def)
qed

lemma js_order_prefix:
  assumes "js_order N s"
  shows "\<exists>rest. real_jobs (js_pushed s) = js_executed s @ rest"
proof (cases "\<exists>t < N. js_exec s t \<noteq> E_Idle")
  case True
  with js_order_history [OF assms] show ?thesis by blast
next
  case False
  with assms show ?thesis by (auto simp: js_order_def js_history_def)
qed

section \<open>The invariant\<close>

lemma js_inv_init: "js_init s \<Longrightarrow> js_inv N s"
  by (simp add: js_init_def js_inv_def js_books_def js_order_def js_counts_def js_flat_def js_history_def tokens_def queued_def)

text \<open>The books.\<close>

lemma js_books_push:
  assumes inv: "js_books N s" and t: "t < N" and st: "push_step t s s'"
  shows "js_books N s'"
  using st
proof cases
  case push_execute
  with inv exec_sums(3) [OF t, of s "E_Loop (js_exec s t)"] show ?thesis by (simp add: js_books_def)
qed (use inv in \<open>simp_all add: js_books_def\<close>)

lemma js_books_exec:
  assumes inv: "js_books N s" and t: "t < N" and st: "exec_step t s s'"
  shows "js_books N s'"
proof -
  have move: "js_books N s'" if "exec_held (js_exec s' t) = exec_held (js_exec s t)" "js_exec s' = (js_exec s)(t := x)"
    "js_pushed s' = js_pushed s" "js_executed s' = js_executed s" "js_nulls s' = js_nulls s" "js_jobs s' = js_jobs s" for x
    using inv exec_sums(3) [OF t, of s x] that by (simp add: js_books_def)
  from st show ?thesis
  proof cases
    case exec_direct
    then show ?thesis by (intro move) auto
  next
    case (exec_clear k jobs q)
    let ?x = "E_Run k (length jobs) (real_jobs jobs)"
    have "(\<Sum>u<N. exec_held (((js_exec s)(t := ?x)) u)) = (\<Sum>u<N. exec_held (js_exec s u)) + mset (real_jobs jobs)"
      using exec_sums(3) [OF t, of s ?x] exec_clear(2) by simp
    then show ?thesis
      using inv clear_jobs_counts(3) [OF exec_clear(4)] unfolding exec_clear(1) js_books_def
      by (simp add: replicate_mset_add ac_simps)
  next
    case (exec_start k n j r)
    let ?x = "E_Job k n r"
    have "(\<Sum>u<N. exec_held (js_exec s u)) = (\<Sum>u<N. exec_held (((js_exec s)(t := ?x)) u)) + {#j#}"
      using exec_sums(3) [OF t, of s ?x] exec_start(2) by simp
    then show ?thesis using inv unfolding exec_start(1) js_books_def by simp
  qed (rule move; simp)+
qed

lemma js_books_work:
  assumes inv: "js_books N s" and t: "t < N" and st: "work_step t s s'"
  shows "js_books N s'"
  using st
proof cases
  case work_pop
  with inv exec_sums(3) [OF t, of s "E_Loop (js_exec s t)"] show ?thesis by (simp add: js_books_def)
qed (use inv in \<open>simp_all add: js_books_def\<close>)

text \<open>The counts, while the order holds.\<close>

lemmas js_sum_defs = tokens_def queued_def

text \<open>Most steps move a token or a job from one place to another.\<close>

lemma js_counts_frame:
  assumes "js_counts N s" "queued N s' = queued N s" "tokens N s' = tokens N s"
    "js_queuedCount s' = js_queuedCount s" "js_cleared s' = js_cleared s"
  shows "js_counts N s'"
  using assms by (simp add: js_counts_def)

lemma js_counts_push:
  assumes inv: "js_counts N s" and t: "t < N" and st: "push_step t s s'" and w: "\<not> js_wrapped s'"
  shows "js_counts N s'"
  using st
proof cases
  case (push_add j)
  have z: "js_queuedCount s = 0 \<longleftrightarrow> queued N s = 0" using inv by (simp add: int32_eq_0_iff js_counts_def)
  have "sint (js_queuedCount s + 1) = sint (js_queuedCount s) + 1" using w push_add(1) by (intro sint_int32_inc) auto
  moreover have "queued N s' = queued N s + 1" "tokens N s' = tokens N s + (if queued N s = 0 then 1 else 0)"
    using push_sums [OF t, of s "P_Added (js_queuedCount s) j"] push_add z by (simp_all add: js_sum_defs)
  moreover have "js_queuedCount s' = js_queuedCount s + 1" "js_cleared s' = js_cleared s" using push_add(1) by simp_all
  ultimately show ?thesis using inv by (simp add: js_counts_def split: if_splits)
next
  case (push_queue prev j)
  show ?thesis
    by (rule js_counts_frame [OF inv]) (use push_queue push_sums [OF t, of s "P_Pushed prev"] in \<open>simp_all add: js_sum_defs\<close>)
next
  case (push_return prev)
  show ?thesis
    by (rule js_counts_frame [OF inv]) (use push_return push_sums [OF t, of s P_Idle] in \<open>simp_all add: js_sum_defs\<close>)
next
  case push_execute
  have i: "js_exec s t = E_Idle" by (rule token_idle [OF inv t]) (simp add: push_execute)
  show ?thesis
    by (rule js_counts_frame [OF inv])
       (use i push_execute push_sums [OF t, of s P_Idle] exec_sums [OF t, of s "E_Loop E_Idle"] in \<open>simp_all add: js_sum_defs\<close>)
next
  case push_defer
  show ?thesis
    by (rule js_counts_frame [OF inv]) (use push_defer push_sums [OF t, of s P_Idle] in \<open>simp_all add: js_sum_defs\<close>)
qed

lemma js_counts_exec:
  assumes inv: "js_counts N s" "js_flat N s" and t: "t < N" and st: "exec_step t s s'" and d: "\<not> js_direct s'"
  shows "js_counts N s'"
proof -
  have flat: "exec_ret (js_exec s t) = E_Idle" using inv(2) t by (simp add: js_flat_def)
  have sub: "sint (js_queuedCount s - of_nat n) = sint (js_queuedCount s) - int n"
    "(scast (js_queuedCount s) :: uint64) = of_nat n \<longleftrightarrow> sint (js_queuedCount s) = int n"
    "n \<le> queued N s" if "js_exec s t = E_Run k n r" for k n r
  proof -
    show le: "n \<le> queued N s" using batch_le_queued [OF t, of s] that by simp
    then have "int n \<le> sint (js_queuedCount s)" using inv(1) by (simp add: js_counts_def)
    then show "sint (js_queuedCount s - of_nat n) = sint (js_queuedCount s) - int n"
      "(scast (js_queuedCount s) :: uint64) = of_nat n \<longleftrightarrow> sint (js_queuedCount s) = int n"
      by (rule sint_int32_sub, rule scast_eq_of_nat_iff)
  qed
  from st show ?thesis
  proof cases
    case exec_direct
    with d show ?thesis by simp
  next
    case (exec_clear k jobs q)
    show ?thesis
      by (rule js_counts_frame [OF inv(1)])
         (use exec_clear exec_sums [OF t, of s "E_Run k (length jobs) (real_jobs jobs)"] clear_jobs_counts(1) [OF exec_clear(4)] in
          \<open>simp_all add: js_sum_defs\<close>)
  next
    case (exec_start k n j r)
    show ?thesis
      by (rule js_counts_frame [OF inv(1)]) (use exec_start exec_sums [OF t, of s "E_Job k n r"] in \<open>simp_all add: js_sum_defs\<close>)
  next
    case (exec_finish k n r)
    show ?thesis
      by (rule js_counts_frame [OF inv(1)]) (use exec_finish exec_sums [OF t, of s "E_Run k n r"] in \<open>simp_all add: js_sum_defs\<close>)
  next
    case (exec_sub_last k n)
    then have k: "k = E_Idle" using flat by simp
    have "queued N s' + n = queued N s" "tokens N s' + 1 = tokens N s"
      using exec_sums [OF t, of s E_Idle] exec_sub_last(2) unfolding exec_sub_last(1) k by (simp_all add: js_sum_defs)
    moreover have "queued N s = n" "sint (js_queuedCount s') = 0"
      using sub [OF exec_sub_last(2)] exec_sub_last(4) inv(1) by (simp_all add: exec_sub_last(1) js_counts_def)
    ultimately show ?thesis using one_token [OF inv(1)] by (simp add: js_counts_def)
  next
    case (exec_sub_more k n)
    have "queued N s' + n = queued N s" "tokens N s' = tokens N s" "js_cleared s' = js_cleared s"
      using exec_sums [OF t, of s "E_Clock k"] exec_sub_more(2) unfolding exec_sub_more(1) by (simp_all add: js_sum_defs)
    moreover have "n < queued N s" "sint (js_queuedCount s') = int (queued N s) - int n"
      using sub [OF exec_sub_more(2)] exec_sub_more(4) inv(1) by (simp_all add: exec_sub_more(1) js_counts_def)
    ultimately show ?thesis using inv(1) by (simp add: js_counts_def)
  next
    case (exec_again k)
    show ?thesis
      by (rule js_counts_frame [OF inv(1)]) (use exec_again exec_sums [OF t, of s "E_Loop k"] in \<open>simp_all add: js_sum_defs\<close>)
  next
    case (exec_timeout k)
    show ?thesis
      by (rule js_counts_frame [OF inv(1)]) (use flat exec_timeout exec_sums [OF t, of s E_Idle] in \<open>simp_all add: js_sum_defs\<close>)
  qed
qed

lemma js_counts_work:
  assumes inv: "js_counts N s" and t: "t < N" and st: "work_step t s s'"
  shows "js_counts N s'"
  using st
proof cases
  case work_pop
  have i: "js_exec s t = E_Idle" by (rule token_idle [OF inv t]) (simp add: work_pop)
  show ?thesis
    by (rule js_counts_frame [OF inv]) (use i work_pop exec_sums [OF t, of s "E_Loop E_Idle"] in \<open>simp_all add: js_sum_defs\<close>)
next
  case work_clear
  then have "queued N s' = queued N s" "tokens N s' + js_global s = tokens N s" by (simp_all add: js_sum_defs)
  with work_clear inv show ?thesis by (auto simp: js_counts_def)
qed

text \<open>No call in a job, and the history.\<close>

lemma js_history_frame:
  assumes "js_history N s" "t < N" "exec_rest x = exec_rest (js_exec s t)" "js_exec s' = (js_exec s)(t := x)"
    "real_jobs (js_pushed s') = real_jobs (js_pushed s)" "js_executed s' = js_executed s" "js_jobs s' = js_jobs s"
  shows "js_history N s'"
proof -
  have "exec_rest (js_exec s' u) = exec_rest (js_exec s u)" for u using assms(3,4) by simp
  then show ?thesis using assms(1,5-7) by (simp add: js_history_def)
qed

lemma js_order_push:
  assumes inv: "js_order N s" and t: "t < N" and st: "push_step t s s'"
  shows "js_flat N s' \<and> js_history N s'"
proof -
  have c: "js_counts N s" and f: "js_flat N s" and h: "js_history N s" using inv by (simp_all add: js_order_def)
  from st show ?thesis
  proof cases
    case push_execute
    have i: "js_exec s t = E_Idle" by (rule token_idle [OF c t]) (simp add: push_execute)
    have "js_history N s'" unfolding push_execute(1) by (rule js_history_frame [OF h t, of "E_Loop E_Idle"]) (simp_all add: i)
    with f i show ?thesis unfolding push_execute(1) by (simp add: js_flat_def)
  qed (use f h in \<open>auto simp: js_flat_def js_history_def\<close>)
qed

lemma js_order_exec:
  assumes inv: "js_order N s" and t: "t < N" and st: "exec_step t s s'" and d: "\<not> js_direct s'"
  shows "js_flat N s' \<and> js_history N s'"
proof -
  have f: "js_flat N s" using inv by (simp add: js_order_def)
  have ne: "js_exec s t \<noteq> E_Idle" using st d by cases auto
  note h = js_order_history [OF inv t ne]
  have idle: "u < N \<Longrightarrow> u \<noteq> t \<Longrightarrow> exec_rest (js_exec s u) = []" for u
    using js_order_single [OF inv _ t _ ne] by (metis exec_rest.simps(3))
  have "js_flat N s'" using st f t d by cases (auto simp: js_flat_def)
  moreover have "js_history N s'" using st
  proof cases
    case (exec_clear k jobs q)
    then show ?thesis using h idle t clear_jobs_counts(2) [OF exec_clear(4)] by (auto simp: js_history_def)
  next
    case (exec_sub_last k n)
    then have "k = E_Idle" using f t by (auto simp: js_flat_def)
    with exec_sub_last h idle t show ?thesis by (auto simp: js_history_def)
  next
    case (exec_timeout k)
    then have "k = E_Idle" using f t by (auto simp: js_flat_def)
    with exec_timeout h idle t show ?thesis by (auto simp: js_history_def)
  qed (use h idle t d in \<open>auto simp: js_history_def\<close>)
  ultimately show ?thesis by blast
qed

lemma js_order_work:
  assumes inv: "js_order N s" and t: "t < N" and st: "work_step t s s'"
  shows "js_flat N s' \<and> js_history N s'"
proof -
  have c: "js_counts N s" and f: "js_flat N s" and h: "js_history N s" using inv by (simp_all add: js_order_def)
  from st show ?thesis
  proof cases
    case work_pop
    have i: "js_exec s t = E_Idle" by (rule token_idle [OF c t]) (simp add: work_pop)
    have "js_history N s'" unfolding work_pop(1) by (rule js_history_frame [OF h t, of "E_Loop E_Idle"]) (simp_all add: i)
    with f i show ?thesis unfolding work_pop(1) by (simp add: js_flat_def)
  qed (use f h in \<open>auto simp: js_flat_def js_history_def\<close>)
qed

lemma js_orderly_step:
  assumes "push_step t s s' \<or> exec_step t s s' \<or> work_step t s s'" "js_orderly s'"
  shows "js_orderly s"
  using assms by (auto simp: js_orderly_def elim!: push_step.cases exec_step.cases work_step.cases)

interpretation js: invariant_system js_init "js_step N" "js_inv N"
proof
  show "js_inv N s" if "js_init s" for s :: "'a js_sys" using that by (rule js_inv_init)
  show "js_inv N s'" if inv: "js_inv N s" and st: "js_step N s s'" for s s' :: "'a js_sys"
  proof -
    from st obtain t where t: "t < N" and st: "push_step t s s' \<or> exec_step t s s' \<or> work_step t s s'"
      by (auto simp: js_step_def)
    have "js_books N s'"
      using st inv t unfolding js_inv_def by (blast intro: js_books_push js_books_exec js_books_work)
    moreover have "js_order N s'" if o: "js_orderly s'"
    proof -
      have inv: "js_order N s" using inv js_orderly_step [OF st o] by (simp add: js_inv_def)
      then have c: "js_counts N s" "js_flat N s" by (simp_all add: js_order_def)
      have d: "\<not> js_wrapped s'" "\<not> js_direct s'" using o by (simp_all add: js_orderly_def)
      from st show ?thesis
        using js_order_push [OF inv t] js_counts_push [OF c(1) t _ d(1)] js_order_exec [OF inv t _ d(2)]
          js_counts_exec [OF c t _ d(2)] js_order_work [OF inv t] js_counts_work [OF c(1) t]
        unfolding js_order_def by blast
    qed
    ultimately show ?thesis by (simp add: js_inv_def)
  qed
qed

lemma js_reach_order:
  assumes "reach js_init (js_step N) s" "\<not> js_wrapped s" "\<not> js_direct s"
  shows "js_order N s"
  using js.reach_inv [OF assms(1)] assms(2,3) by (simp add: js_inv_def js_orderly_def)

section \<open>The reserved jobs as a priority queue\<close>

interpretation Reservable: strict_weak_order ReservableJobCompare
  by unfold_locales (auto simp: ReservableJobCompare_def)

lemma GlobalJobWorker_AddReservableJob_wf:
  "pq_wf ReservableJobCompare (gw_reservableQueue w) \<Longrightarrow>
     pq_wf ReservableJobCompare (gw_reservableQueue (GlobalJobWorker_AddReservableJob r w))"
  by (simp add: GlobalJobWorker_AddReservableJob_def Reservable.pq.push_wf)

lemma DoJobs_loop_returns:
  assumes "clock n - start > maxTick" and "i \<le> n"
  shows "\<exists>executed' q'. DoJobs_loop clock run maxTick start i executed q = Some (executed', q') \<and>
    length executed' \<le> length executed + (n - i)"
  using assms(2)
proof (induction "n - i" arbitrary: i executed q)
  case 0
  then have "i = n" by simp
  then show ?case using assms(1) by (subst DoJobs_loop.simps) simp
next
  case (Suc k)
  show ?case
  proof (cases "clock i - start > maxTick")
    case True
    then show ?thesis by (subst DoJobs_loop.simps) simp
  next
    case False
    obtain ser q1 where p: "GlobalJobWorker_PopJobSerializer q = (ser, q1)"
      by (cases "GlobalJobWorker_PopJobSerializer q")
    show ?thesis
    proof (cases ser)
      case None
      with False p show ?thesis by (subst DoJobs_loop.simps) simp
    next
      case (Some x)
      from Suc.hyps(2) have "k = n - (i + 1)" "i + 1 \<le> n" by simp_all
      from Suc.hyps(1) [OF this, of "executed @ [x]" "run i x q1"] obtain executed' q' where
        "DoJobs_loop clock run maxTick start (i + 1) (executed @ [x]) (run i x q1) = Some (executed', q')"
        "length executed' \<le> length (executed @ [x]) + (n - (i + 1))"
        by auto
      with False p Some Suc.hyps(2) show ?thesis by (subst DoJobs_loop.simps) simp
    qed
  qed
qed

section \<open>Properties of the jobs\<close>

text \<open>C8. At most one thread at a time executes jobs of a serializer: in every reachable state, for any
  number of threads that push jobs, from outside or from inside of running jobs, execute them, take the
  serializer from the global queue and empty that queue, two threads inside \<^verbatim>\<open>ExecuteJobs\<close> of the serializer
  are the same thread, and that thread is in it once. The conditions: the count, an \<^verbatim>\<open>int\<close>, has never gone past
  its largest value, and the application has never called \<^verbatim>\<open>ExecuteJobs\<close> itself.\<close>

theorem JobSerializer_single_executor:
  assumes "reach js_init (js_step N) s" and "\<not> js_wrapped s" and "\<not> js_direct s" and "t < N" and "u < N"
    and "js_exec s t \<noteq> E_Idle" and "js_exec s u \<noteq> E_Idle"
  shows "t = u \<and> exec_ret (js_exec s t) = E_Idle"
proof -
  have o: "js_order N s" by (rule js_reach_order [OF assms(1-3)])
  with js_order_single [OF o assms(4-7)] assms(4) show ?thesis by (simp add: js_order_def js_flat_def)
qed

text \<open>Thread 0 has pushed job 7 and is in it. From there it can end, or thread 1 can push job 8.\<close>

definition js_demo_start :: "nat js_sys" where
  "js_demo_start = \<lparr>js_queuedCount = 1, js_jobs = [], js_global = 0, js_exec = (\<lambda>_. E_Idle)(0 := E_Job E_Idle 1 []),
     js_push = (\<lambda>_. P_Idle), js_pushed = [Some 7], js_executed = [7], js_nulls = 0, js_wrapped = False,
     js_direct = False, js_cleared = False\<rparr>"

definition js_demo :: "nat js_sys" where
  "js_demo = js_demo_start\<lparr>js_queuedCount := 2, js_jobs := [Some 8], js_push := (\<lambda>_. P_Idle)(1 := P_Pushed 1),
     js_pushed := [Some 7, Some 8]\<rparr>"

definition js_demo_done :: "nat js_sys" where
  "js_demo_done = js_demo_start\<lparr>js_queuedCount := 0, js_exec := (\<lambda>_. E_Idle)\<rparr>"

lemma js_reach_push:
  "reach js_init (js_step N) s \<Longrightarrow> t < N \<Longrightarrow> push_step t s s' \<Longrightarrow> reach js_init (js_step N) s'"
  by (rule reach_step) (auto simp: js_step_def)

lemma js_reach_exec:
  "reach js_init (js_step N) s \<Longrightarrow> t < N \<Longrightarrow> exec_step t s s' \<Longrightarrow> reach js_init (js_step N) s'"
  by (rule reach_step) (auto simp: js_step_def)

lemma js_demo_start_reach: "reach js_init (js_step 2) js_demo_start"
proof -
  let ?R = "reach js_init (js_step 2)"
  define S where "S c q e p h d = js_demo_start\<lparr>js_queuedCount := c, js_jobs := q, js_exec := e, js_push := p,
    js_pushed := h, js_executed := d\<rparr>" for c q e p h d
  define i where "i = (\<lambda>_ :: nat. E_Idle :: nat exec_pc)"
  define p where "p = (\<lambda>_ :: nat. P_Idle :: nat push_pc)"
  note d = S_def js_demo_start_def i_def p_def
  have "?R (S 0 [] i p [] [])"
    by (rule reach_init) (simp add: d js_init_def)
  then have "?R (S 1 [] i (p(0 := P_Added 0 (Some 7))) [] [])"
    by (rule js_reach_push [where t = 0]) (use push_add [of "S 0 [] i p [] []" 0 "Some 7"] in \<open>simp_all add: d\<close>)
  then have "?R (S 1 [Some 7] i (p(0 := P_Pushed 0)) [Some 7] [])"
    by (rule js_reach_push [where t = 0])
       (use push_queue [of "S 1 [] i (p(0 := P_Added 0 (Some 7))) [] []" 0 0 "Some 7"] in \<open>simp_all add: d\<close>)
  then have "?R (S 1 [Some 7] (i(0 := E_Loop E_Idle)) p [Some 7] [])"
    by (rule js_reach_push [where t = 0])
       (use push_execute [of "S 1 [Some 7] i (p(0 := P_Pushed 0)) [Some 7] []" 0] in \<open>simp_all add: d fun_upd_idem\<close>)
  then have "?R (S 1 [] (i(0 := E_Run E_Idle 1 [7])) p [Some 7] [])"
    by (rule js_reach_exec [where t = 0])
       (use exec_clear [of "S 1 [Some 7] (i(0 := E_Loop E_Idle)) p [Some 7] []" 0 E_Idle "[Some 7]" "\<lparr>lq_queue = []\<rparr>"] in
        \<open>simp_all add: d LockQueue_Clear_into_eq\<close>)
  then have "?R (S 1 [] (i(0 := E_Job E_Idle 1 [])) p [Some 7] [7])"
    by (rule js_reach_exec [where t = 0])
       (use exec_start [of "S 1 [] (i(0 := E_Run E_Idle 1 [7])) p [Some 7] []" 0 E_Idle 1 7 "[]"] in \<open>simp_all add: d\<close>)
  then show ?thesis by (simp add: d)
qed

lemma js_demo_reach: "reach js_init (js_step 2) js_demo"
proof -
  let ?s = "js_demo_start\<lparr>js_queuedCount := 2, js_push := (\<lambda>_. P_Idle)(1 := P_Added 1 (Some 8))\<rparr>"
  have "reach js_init (js_step 2) ?s"
    by (rule js_reach_push [OF js_demo_start_reach, where t = 1])
       (use push_add [of js_demo_start 1 "Some 8"] in \<open>simp_all add: js_demo_start_def\<close>)
  then show ?thesis
    by (rule js_reach_push [where t = 1]) (use push_queue [of ?s 1 1 "Some 8"] in \<open>simp_all add: js_demo_start_def js_demo_def\<close>)
qed

lemma js_demo_done_reach: "reach js_init (js_step 2) js_demo_done"
proof -
  let ?s = "js_demo_start\<lparr>js_exec := (\<lambda>_. E_Idle)(0 := E_Run E_Idle 1 [])\<rparr>"
  have "reach js_init (js_step 2) ?s"
    by (rule js_reach_exec [OF js_demo_start_reach, where t = 0])
       (use exec_finish [of js_demo_start 0 E_Idle 1 "[]"] in \<open>simp_all add: js_demo_start_def\<close>)
  then show ?thesis
    by (rule js_reach_exec [where t = 0])
       (use exec_sub_last [of ?s 0 E_Idle 1] in \<open>simp_all add: js_demo_start_def js_demo_done_def fun_upd_idem\<close>)
qed

theorem JobSerializer_single_executor_witness: "{u. u < 2 \<and> js_exec js_demo u \<noteq> E_Idle} = {0}"
proof -
  have e: "js_exec js_demo 0 \<noteq> E_Idle" "\<not> js_wrapped js_demo" "\<not> js_direct js_demo"
    by (simp_all add: js_demo_def js_demo_start_def)
  have "u = 0" if "u < 2" "js_exec js_demo u \<noteq> E_Idle" for u
    using JobSerializer_single_executor [OF js_demo_reach e(2,3) that(1) _ that(2) e(1)] by simp
  with e show ?thesis by auto
qed

text \<open>C9. Jobs of a serializer are executed in the order they were queued. In every reachable state no job has
  been executed more often than it was queued. As long as the count has not wrapped and the application has
  not called \<^verbatim>\<open>ExecuteJobs\<close> itself, the executed jobs are a prefix of the queued ones, null pointers left out.
  If, moreover, \<^verbatim>\<open>ClearJobs\<close> has dropped no entry, then when no thread is inside \<^verbatim>\<open>Push\<close> or \<^verbatim>\<open>ExecuteJobs\<close> and the
  global queue has no entry for the serializer, no null pointer was ever queued, every job has been executed
  and the count is back at zero.\<close>

theorem JobSerializer_fifo:
  assumes "reach js_init (js_step N) s"
  shows "(\<forall>j. count_list (js_executed s) j \<le> count_list (js_pushed s) (Some j)) \<and>
    (\<not> js_wrapped s \<and> \<not> js_direct s \<longrightarrow>
      (\<exists>rest. real_jobs (js_pushed s) = js_executed s @ rest) \<and>
      (\<not> js_cleared s \<and> (\<forall>t < N. js_exec s t = E_Idle \<and> js_push s t = P_Idle) \<and> js_global s = 0 \<longrightarrow>
         js_pushed s = map Some (js_executed s) \<and> js_queuedCount s = 0))"
proof -
  have books: "js_books N s" using js.reach_inv [OF assms] by (simp add: js_inv_def)
  have "js_pushed s = map Some (js_executed s) \<and> js_queuedCount s = 0"
    if o: "js_order N s" "\<not> js_cleared s" and quiet: "\<forall>t < N. js_exec s t = E_Idle \<and> js_push s t = P_Idle" "js_global s = 0"
  proof -
    have "tokens N s = 0" using quiet by (simp add: tokens_def)
    with o have q: "queued N s = 0" and c: "js_queuedCount s = 0"
      by (auto simp: js_order_def js_counts_def int32_eq_0_iff split: if_splits)
    then have z: "js_jobs s = []" "js_nulls s = 0" by (simp_all add: queued_def)
    with books have "None \<notin># mset (js_pushed s)" unfolding js_books_def by simp
    then have "js_pushed s = map Some (real_jobs (js_pushed s))" by (simp add: map_Some_real_jobs)
    moreover have "real_jobs (js_pushed s) = js_executed s" using o(1) quiet z by (simp add: js_order_def js_history_def)
    ultimately show ?thesis using c by simp
  qed
  then show ?thesis
    using js_reach_order [OF assms] js_order_prefix js_books_executed [OF books] by blast
qed

theorem JobSerializer_fifo_witness:
  "(\<exists>rest. real_jobs (js_pushed js_demo) = js_executed js_demo @ rest) \<and>
   js_pushed js_demo_done = map Some (js_executed js_demo_done) \<and> js_queuedCount js_demo_done = 0"
  using JobSerializer_fifo [OF js_demo_reach] JobSerializer_fifo [OF js_demo_done_reach]
  by (simp add: js_demo_def js_demo_done_def js_demo_start_def)

text \<open>C21. No wake-up is lost, and none is doubled: under the conditions of the single executor the count is the
  number of jobs queued, in execution and about to be queued and of null pointers swallowed. Responsible for
  the jobs are the threads that execute the serializer, the threads in \<^verbatim>\<open>Push\<close> that found the count at zero, and
  the entries in the global queue: all together there is exactly one of them when the count is not zero and
  none when it is. After \<^verbatim>\<open>ClearJobs\<close> has dropped an entry there is still at most one.\<close>

theorem JobSerializer_no_lost_wakeup:
  assumes "reach js_init (js_step N) s" and "\<not> js_wrapped s" and "\<not> js_direct s"
  shows "sint (js_queuedCount s) = int (queued N s) \<and>
    card {t. t < N \<and> js_exec s t \<noteq> E_Idle} +
      card {t. t < N \<and> ((\<exists>j. js_push s t = P_Added 0 j) \<or> js_push s t = P_Pushed 0)} + js_global s
      \<le> (if js_queuedCount s = 0 then 0 else 1) \<and>
    (\<not> js_cleared s \<longrightarrow>
      card {t. t < N \<and> js_exec s t \<noteq> E_Idle} +
      card {t. t < N \<and> ((\<exists>j. js_push s t = P_Added 0 j) \<or> js_push s t = P_Pushed 0)} + js_global s
      = (if js_queuedCount s = 0 then 0 else 1))"
proof -
  have inv: "js_counts N s" using js_reach_order [OF assms] by (simp add: js_order_def)
  have z: "queued N s = 0 \<longleftrightarrow> js_queuedCount s = 0" using inv by (simp add: int32_eq_0_iff js_counts_def)
  have ones: "(\<Sum>t<N. of_bool (P t)) = card {t. t < N \<and> P t}" for P
    by (simp add: sum_of_bool_eq Int_def conj_commute lessThan_def)
  have "exec_token x = of_bool (x \<noteq> E_Idle)" for x :: "'a exec_pc" by (simp add: exec_token_pos)
  moreover have "push_token x = of_bool ((\<exists>j. x = P_Added 0 j) \<or> x = P_Pushed 0)" for x :: "'a push_pc" by (cases x) auto
  ultimately have "tokens N s = card {t. t < N \<and> js_exec s t \<noteq> E_Idle} +
      card {t. t < N \<and> ((\<exists>j. js_push s t = P_Added 0 j) \<or> js_push s t = P_Pushed 0)} + js_global s"
    unfolding tokens_def by (simp only: ones)
  with inv z show ?thesis by (simp add: js_counts_def)
qed

theorem JobSerializer_no_lost_wakeup_witness:
  "sint (js_queuedCount js_demo) = int (queued 2 js_demo) \<and>
   card {t. t < 2 \<and> js_exec js_demo t \<noteq> E_Idle} +
     card {t. t < 2 \<and> ((\<exists>j. js_push js_demo t = P_Added 0 j) \<or> js_push js_demo t = P_Pushed 0)} + js_global js_demo = 1"
  using JobSerializer_no_lost_wakeup [OF js_demo_reach] by (simp add: js_demo_def js_demo_start_def)

text \<open>A null pointer in the queue is never made up for: under the same conditions, once \<^verbatim>\<open>Clear(jobs)\<close> has
  swallowed one, the count is not zero in any later state, so \<^verbatim>\<open>ExecuteJobs\<close> always goes on or hands the
  serializer back to the workers, with nothing to do.\<close>

theorem JobSerializer_null_job:
  assumes "reach js_init (js_step N) s" "0 < js_nulls s"
    and "reach (\<lambda>m. m = s) (js_step N) s'" "\<not> js_wrapped s'" "\<not> js_direct s'"
  shows "js_queuedCount s' \<noteq> 0"
proof -
  have "js_nulls s \<le> js_nulls s'" using assms(3)
  proof (induction rule: reach.induct)
    case (reach_step a b)
    have "js_nulls a \<le> js_nulls b"
      using reach_step.hyps(2) by (auto simp: js_step_def elim!: push_step.cases exec_step.cases work_step.cases)
    with reach_step.IH show ?case by simp
  qed simp
  moreover have "js_counts N s'"
    using js_reach_order [OF reach_from [OF assms(3,1)] assms(4,5)] by (simp add: js_order_def)
  then have "sint (js_queuedCount s') = int (queued N s')" by (simp add: js_counts_def)
  moreover have "js_nulls s' \<le> queued N s'" by (simp add: queued_def)
  ultimately show ?thesis using assms(2) by (simp add: int32_eq_0_iff)
qed

text \<open>The conditions are needed. When the application calls \<^verbatim>\<open>ExecuteJobs\<close> itself, two threads can execute the
  serializer at the same time; and when \<^verbatim>\<open>ClearJobs\<close> drops its entry, a job can be in the queue with nobody
  responsible for it, while the count keeps every later \<^verbatim>\<open>Push\<close> from executing.\<close>

theorem JobSerializer_direct_call:
  "\<exists>s :: nat js_sys. reach js_init (js_step 2) s \<and> \<not> js_wrapped s \<and> js_exec s 0 \<noteq> E_Idle \<and> js_exec s 1 \<noteq> E_Idle"
proof -
  let ?s = "js_demo_start\<lparr>js_exec := (js_exec js_demo_start)(1 := E_Loop E_Idle), js_direct := True\<rparr>"
  have "reach js_init (js_step 2) ?s"
    by (rule js_reach_exec [OF js_demo_start_reach, where t = 1])
       (use exec_direct [of js_demo_start 1] in \<open>simp_all add: js_demo_start_def\<close>)
  then show ?thesis by (intro exI [of _ ?s]) (simp add: js_demo_start_def)
qed

theorem GlobalJobWorker_ClearJobs_loses:
  "\<exists>s :: nat js_sys. reach js_init (js_step 1) s \<and> \<not> js_wrapped s \<and> \<not> js_direct s \<and> js_jobs s = [Some 7] \<and>
     js_queuedCount s = 1 \<and> tokens 1 s = 0"
proof -
  let ?R = "reach js_init (js_step 1)"
  define S where "S c q g p h d = js_demo_start\<lparr>js_queuedCount := c, js_jobs := q, js_global := g, js_exec := (\<lambda>_. E_Idle),
    js_push := p, js_pushed := h, js_executed := [], js_cleared := d\<rparr>" for c q g p h d
  define p where "p = (\<lambda>_ :: nat. P_Idle :: nat push_pc)"
  note d = S_def js_demo_start_def p_def
  have "?R (S 0 [] 0 p [] False)" by (rule reach_init) (simp add: d js_init_def)
  then have "?R (S 1 [] 0 (p(0 := P_Added 0 (Some 7))) [] False)"
    by (rule js_reach_push [where t = 0]) (use push_add [of "S 0 [] 0 p [] False" 0 "Some 7"] in \<open>simp_all add: d\<close>)
  then have "?R (S 1 [Some 7] 0 (p(0 := P_Pushed 0)) [Some 7] False)"
    by (rule js_reach_push [where t = 0])
       (use push_queue [of "S 1 [] 0 (p(0 := P_Added 0 (Some 7))) [] False" 0 0 "Some 7"] in \<open>simp_all add: d\<close>)
  then have "?R (S 1 [Some 7] 1 p [Some 7] False)"
    by (rule js_reach_push [where t = 0])
       (use push_defer [of "S 1 [Some 7] 0 (p(0 := P_Pushed 0)) [Some 7] False" 0] in \<open>simp_all add: d fun_upd_idem\<close>)
  then have "?R (S 1 [Some 7] 0 p [Some 7] True)"
    by (rule reach_step)
       (use work_clear [of "S 1 [Some 7] 1 p [Some 7] False" 0] in \<open>simp add: js_step_def, simp add: d\<close>)
  then show ?thesis by (intro exI [of _ "S 1 [Some 7] 0 p [Some 7] True"]) (simp add: d tokens_def)
qed

text \<open>\<^verbatim>\<open>CheckReservedJob\<close> on a well-formed queue, when no other thread is in it: exactly the jobs whose
  tick has come leave the queue; of these the ones that are not cancelled and whose owner is alive
  are pushed to their owner, in the order of their ticks; the others stay in a well-formed queue; and
  the next thread may enter.\<close>

theorem CheckReservedJob_due:
  assumes "pq_wf ReservableJobCompare (gw_reservableQueue w)" and "\<not> gw_executingReservables w"
    and "GlobalJobWorker_CheckReservedJob alive now w = (calls, w')"
  shows "\<exists>due. mset due = filter_mset (\<lambda>r. rj_executionTick r \<le> now) (mset (gw_reservableQueue w)) \<and>
    sorted (map rj_executionTick due) \<and>
    calls = map (\<lambda>r. (rj_owner r, rj_job r)) (filter (\<lambda>r. \<not> rj_canceled r \<and> alive (rj_owner r)) due) \<and>
    mset (gw_reservableQueue w') = filter_mset (\<lambda>r. now < rj_executionTick r) (mset (gw_reservableQueue w)) \<and>
    pq_wf ReservableJobCompare (gw_reservableQueue w') \<and> \<not> gw_executingReservables w'"
proof -
  let ?c = "\<lambda>r. \<not> rj_executionTick r > now"
  from assms(2,3) obtain due where
    p: "pq_pop_while ?c [] (gw_reservableQueue w) = (due, gw_reservableQueue w')"
    and calls: "calls = concat (map (PushJobToSerializer alive) due)" and flag: "\<not> gw_executingReservables w'"
    by (auto simp: GlobalJobWorker_CheckReservedJob_def split: prod.splits)
  have up: "\<forall>x y. ?c x \<and> \<not> ReservableJobCompare y x \<longrightarrow> ?c y" by (auto simp: ReservableJobCompare_def)
  from Reservable.pq_pop_while_due [OF up assms(1) p]
  have due: "mset due = filter_mset ?c (mset (gw_reservableQueue w))"
    "sorted_wrt (\<lambda>x y. \<not> ReservableJobCompare x y) due"
    "mset (gw_reservableQueue w') = filter_mset (\<lambda>r. now < rj_executionTick r) (mset (gw_reservableQueue w))"
    "pq_wf ReservableJobCompare (gw_reservableQueue w')" by simp_all
  have "concat (map (PushJobToSerializer alive) ds) =
      map (\<lambda>r. (rj_owner r, rj_job r)) (filter (\<lambda>r. \<not> rj_canceled r \<and> alive (rj_owner r)) ds)" for ds
    by (induction ds) (auto simp: PushJobToSerializer_def)
  moreover have "sorted (map rj_executionTick due)"
    using due(2) by (simp add: sorted_map ReservableJobCompare_def not_less)
  ultimately show ?thesis
    unfolding calls using due flag by (intro exI [of _ due]) (simp add: not_less)
qed

definition gw_demo :: "nat global_worker" where
  "gw_demo = \<lparr>gw_reservableQueue = [ReservableJob_new 10 1 0, ReservableJob_new 20 2 0],
     gw_executingReservables = False, gw_jobQueue = LockQueue_new\<rparr>"

theorem CheckReservedJob_due_witness:
  "\<exists>due. mset due = filter_mset (\<lambda>r. rj_executionTick r \<le> 15) (mset (gw_reservableQueue gw_demo))"
proof -
  have "pq_wf ReservableJobCompare (gw_reservableQueue gw_demo)" "\<not> gw_executingReservables gw_demo"
    by (simp_all add: gw_demo_def pq_wf_def ReservableJobCompare_def ReservableJob_new_def)
  moreover obtain calls w' where "GlobalJobWorker_CheckReservedJob (\<lambda>_. True) 15 gw_demo = (calls, w')"
    by (cases "GlobalJobWorker_CheckReservedJob (\<lambda>_. True) 15 gw_demo")
  ultimately show ?thesis using CheckReservedJob_due by blast
qed

text \<open>\<^verbatim>\<open>DoJobs\<close> returns: if the clock ever reads more than the allowed ticks after the start, the loop
  ends, after at most as many serializers as there were readings before, whatever the executed
  serializers put back into the global queue.\<close>

theorem DoJobs_returns:
  assumes "clock n - start > maxTick"
  shows "\<exists>executed q'. GlobalJobWorker_DoJobs clock run maxTick start q = Some (executed, q') \<and> length executed \<le> n"
  using DoJobs_loop_returns [of maxTick clock n start 0 run "[]" q] assms by (simp add: GlobalJobWorker_DoJobs_def)

theorem DoJobs_returns_witness:
  "\<exists>executed q'. GlobalJobWorker_DoJobs (\<lambda>i. of_nat i * 40) (\<lambda>i ser. LockQueue_Push ser) 64 0 \<lparr>lq_queue = [3]\<rparr> =
     Some (executed, q') \<and> length executed \<le> 2"
  by (rule DoJobs_returns) simp

end
