(* ===== verification/Reserved_Jobs.thy ===== *)
theory Reserved_Jobs
  imports Jobs "HOL-Library.Sublist"
begin

text \<open>
  The reserved jobs of a serializer among threads: \<^verbatim>\<open>JobSerializer::PushReservableJob\<close>
  (\<^verbatim>\<open>JobSerializer.h\<close>), \<^verbatim>\<open>ReservableJob::Cancel\<close>, \<^verbatim>\<open>PushJobToSerializer\<close> (\<^verbatim>\<open>ReservableJob.h\<close>, \<^verbatim>\<open>ReservableJob.cpp\<close>)
  and \<^verbatim>\<open>GlobalJobWorker::CheckReservedJob\<close> (\<^verbatim>\<open>JobWorker.cpp\<close>) under \<^verbatim>\<open>src/MyNetworkLib/\<close>, one atomic access or
  one critical section per step, put together with the step relation of \<^verbatim>\<open>Push\<close> and \<^verbatim>\<open>ExecuteJobs\<close> of \<open>Jobs\<close>.

  A \<^verbatim>\<open>ReservableJob\<close> is an object of a store, and a pointer to it its number; the job it holds is
  \<open>Reserved i\<close> in the serializer's queue, other jobs are \<open>Plain\<close>. The weak pointer to the owner can always
  be locked: the function object of the job has a shared pointer to it. The clock only advances. The flag
  \<^verbatim>\<open>_executingReservables\<close> has no initializer and may start with either value. The last four fields of the
  state are its history: the jobs that a check took out of the priority queue, in that order, what became of
  them, for each job how many had been taken out when it was put in, and the jobs that \<^verbatim>\<open>ClearReservedJobs\<close>
  dropped.
\<close>

section \<open>Steps\<close>

datatype 'j serial_job = Reserved nat | Plain 'j

datatype check_pc =
    C_Idle
  | C_Now uint64
  | C_Taken uint64
  | C_Push "nat list"

record 'j rs_sys =
  rs_js :: "'j serial_job js_sys"
  rs_obj :: "nat \<Rightarrow> 'j reservable"
  rs_next :: nat
  rs_reservableQueue :: "nat list"
  rs_executingReservables :: bool
  rs_clock :: uint64
  rs_check :: "nat \<Rightarrow> check_pc"
  rs_made :: "nat \<Rightarrow> nat option"
  rs_popped :: "nat list"
  rs_handled :: "(nat \<times> bool) list"
  rs_since :: "nat \<Rightarrow> nat"
  rs_dropped :: "nat list"

abbreviation (input) tick :: "'j rs_sys \<Rightarrow> nat \<Rightarrow> uint64" where
  "tick s i \<equiv> rj_executionTick (rs_obj s i)"

definition later :: "'j rs_sys \<Rightarrow> nat \<Rightarrow> nat \<Rightarrow> bool" where
  "later s i k \<longleftrightarrow> ReservableJobCompare (rs_obj s i) (rs_obj s k)"

definition rs_init :: "'j rs_sys \<Rightarrow> bool" where
  "rs_init s \<longleftrightarrow> js_init (rs_js s) \<and> rs_next s = 0 \<and> rs_reservableQueue s = [] \<and>
     rs_check s = (\<lambda>_. C_Idle) \<and> rs_made s = (\<lambda>_. None) \<and> rs_popped s = [] \<and> rs_handled s = [] \<and> rs_dropped s = []"

text \<open>A thread that is in no method of the serializer.\<close>

definition free_thread :: "'j rs_sys \<Rightarrow> nat \<Rightarrow> bool" where
  "free_thread s t \<longleftrightarrow> js_push (rs_js s) t = P_Idle \<and> js_exec (rs_js s) t = E_Idle"

text \<open>\<^verbatim>\<open>PushReservableJob\<close> reads the clock and makes the object before it takes the lock of the queue. A thread
  calls it outside of the serializer or in one of its jobs.\<close>

inductive reserve_step :: "nat \<Rightarrow> 'j rs_sys \<Rightarrow> 'j rs_sys \<Rightarrow> bool" where
  reserve_make:
    "rs_made s t = None \<Longrightarrow> js_push (rs_js s) t = P_Idle \<Longrightarrow>
     free_thread s t \<and> rs_check s t = C_Idle \<or> (\<exists>k n r. js_exec (rs_js s) t = E_Job k n r) \<Longrightarrow>
     reserve_step t s (s\<lparr>rs_made := (rs_made s)(t \<mapsto> rs_next s), rs_next := rs_next s + 1,
       rs_obj := (rs_obj s)(rs_next s := ReservableJob_new (tickAfter + rs_clock s) job 0)\<rparr>)"
| reserve_add:
    "rs_made s t = Some i \<Longrightarrow>
     reserve_step t s (s\<lparr>rs_made := (rs_made s)(t := None),
       rs_reservableQueue := pq_push (later s) i (rs_reservableQueue s),
       rs_since := (rs_since s)(i := length (rs_popped s))\<rparr>)"

text \<open>\<^verbatim>\<open>CheckReservedJob\<close>: the argument is the clock; the flag lets one thread in; the due jobs are taken under the
  lock and then pushed one after the other, each with all that \<^verbatim>\<open>Push\<close> does, before the flag is cleared.\<close>

inductive check_step :: "nat \<Rightarrow> 'j rs_sys \<Rightarrow> 'j rs_sys \<Rightarrow> bool" where
  check_now:
    "rs_check s t = C_Idle \<Longrightarrow> free_thread s t \<Longrightarrow> rs_made s t = None \<Longrightarrow>
     check_step t s (s\<lparr>rs_check := (rs_check s)(t := C_Now (rs_clock s))\<rparr>)"
| check_busy:
    "rs_check s t = C_Now n \<Longrightarrow> rs_executingReservables s \<Longrightarrow>
     check_step t s (s\<lparr>rs_check := (rs_check s)(t := C_Idle)\<rparr>)"
| check_take:
    "rs_check s t = C_Now n \<Longrightarrow> \<not> rs_executingReservables s \<Longrightarrow>
     check_step t s (s\<lparr>rs_check := (rs_check s)(t := C_Taken n), rs_executingReservables := True\<rparr>)"
| check_pop:
    "rs_check s t = C_Taken n \<Longrightarrow>
     pq_pop_while (\<lambda>i. \<not> tick s i > n) [] (rs_reservableQueue s) = (jobs, q) \<Longrightarrow>
     check_step t s (s\<lparr>rs_check := (rs_check s)(t := C_Push jobs), rs_reservableQueue := q,
       rs_popped := rs_popped s @ jobs\<rparr>)"
| check_skip:
    "rs_check s t = C_Push (i # r) \<Longrightarrow> free_thread s t \<Longrightarrow> rs_made s t = None \<Longrightarrow> rj_canceled (rs_obj s i) \<Longrightarrow>
     check_step t s (s\<lparr>rs_check := (rs_check s)(t := C_Push r), rs_handled := rs_handled s @ [(i, False)]\<rparr>)"
| check_push:
    "rs_check s t = C_Push (i # r) \<Longrightarrow> free_thread s t \<Longrightarrow> rs_made s t = None \<Longrightarrow> \<not> rj_canceled (rs_obj s i) \<Longrightarrow>
     check_step t s (s\<lparr>rs_check := (rs_check s)(t := C_Push r), rs_handled := rs_handled s @ [(i, True)],
       rs_js := (rs_js s)\<lparr>js_push := (js_push (rs_js s))(t := P_Added (js_queuedCount (rs_js s)) (Some (Reserved i))),
                          js_queuedCount := js_queuedCount (rs_js s) + 1,
                          js_wrapped := (js_wrapped (rs_js s) \<or> js_queuedCount (rs_js s) = 0x7FFFFFFF)\<rparr>\<rparr>)"
| check_done:
    "rs_check s t = C_Push [] \<Longrightarrow> free_thread s t \<Longrightarrow> rs_made s t = None \<Longrightarrow>
     check_step t s (s\<lparr>rs_check := (rs_check s)(t := C_Idle), rs_executingReservables := False\<rparr>)"

text \<open>The steps of the serializer. A thread begins one of them outside of \<^verbatim>\<open>CheckReservedJob\<close> or inside a \<^verbatim>\<open>Push\<close> or a
  job that is its own; what it pushes itself is no reserved job.\<close>

definition serial_step :: "nat \<Rightarrow> 'j rs_sys \<Rightarrow> 'j rs_sys \<Rightarrow> bool" where
  "serial_step t s s' \<longleftrightarrow> rs_made s t = None \<and> (free_thread s t \<longrightarrow> rs_check s t = C_Idle) \<and>
     (\<exists>js. (push_step t (rs_js s) js \<or> exec_step t (rs_js s) js \<or> work_step t (rs_js s) js) \<and>
        s' = s\<lparr>rs_js := js\<rparr> \<and>
        (\<forall>c i. js_push js t = P_Added c (Some (Reserved i)) \<longrightarrow> js_push (rs_js s) t = P_Added c (Some (Reserved i))))"

text \<open>\<^verbatim>\<open>ClearReservedJobs\<close> (\<open>rs_clear\<close>) may come from any thread at any time; it holds the lock of the queue.\<close>

inductive rs_step :: "nat \<Rightarrow> 'j rs_sys \<Rightarrow> 'j rs_sys \<Rightarrow> bool" for N where
  rs_reserve: "t < N \<Longrightarrow> reserve_step t s s' \<Longrightarrow> rs_step N s s'"
| rs_check: "t < N \<Longrightarrow> check_step t s s' \<Longrightarrow> rs_step N s s'"
| rs_serial: "t < N \<Longrightarrow> serial_step t s s' \<Longrightarrow> rs_step N s s'"
| rs_cancel: "i < rs_next s \<Longrightarrow> \<forall>t. rs_made s t \<noteq> Some i \<Longrightarrow>
    rs_step N s (s\<lparr>rs_obj := (rs_obj s)(i := ReservableJob_Cancel (rs_obj s i))\<rparr>)"
| rs_clear: "rs_step N s (s\<lparr>rs_reservableQueue := pop_until_empty (rs_reservableQueue s),
    rs_dropped := rs_dropped s @ rs_reservableQueue s\<rparr>)"
| rs_time: "rs_clock s \<le> c \<Longrightarrow> rs_step N s (s\<lparr>rs_clock := c\<rparr>)"

section \<open>The serializer in the system\<close>

lemma rs_step_js: "rs_step N s s' \<Longrightarrow> rs_js s' = rs_js s \<or> js_step N (rs_js s) (rs_js s')"
proof (induction rule: rs_step.cases)
  case (rs_check t s s')
  from rs_check(4) show ?case
  proof cases
    case (check_push i r)
    then have "push_step t (rs_js s) (rs_js s')" by (auto simp: free_thread_def intro: push_add)
    then show ?thesis using rs_check by (auto simp: js_step_def)
  qed (use rs_check in auto)
next
  case (rs_serial t s s')
  then show ?case by (auto simp: serial_step_def js_step_def)
qed (auto elim: reserve_step.cases)

interpretation serial: simulation rs_init "rs_step N" "\<lambda>_. True" js_init "js_step N" rs_js for N
  by unfold_locales (auto simp: rs_init_def dest: rs_step_js)

lemma reserve_keeps:
  assumes "reserve_step t s s'"
  shows "rs_js s' = rs_js s" "rs_check s' = rs_check s" "rs_executingReservables s' = rs_executingReservables s"
    "rs_popped s' = rs_popped s" "rs_handled s' = rs_handled s" "rs_clock s' = rs_clock s"
  using assms by (cases; simp)+

lemma serial_keeps:
  assumes "serial_step t s s'"
  obtains js where "s' = s\<lparr>rs_js := js\<rparr>" "push_step t (rs_js s) js \<or> exec_step t (rs_js s) js \<or> work_step t (rs_js s) js"
  using assms by (auto simp: serial_step_def)

section \<open>One thread at a time\<close>

fun inside :: "check_pc \<Rightarrow> bool" where
  "inside (C_Taken _) = True"
| "inside (C_Push _) = True"
| "inside _ = False"

definition one_inside :: "'j rs_sys \<Rightarrow> bool" where
  "one_inside s \<longleftrightarrow> (\<forall>t. inside (rs_check s t) \<longrightarrow> rs_executingReservables s) \<and>
     (\<forall>t u. inside (rs_check s t) \<and> inside (rs_check s u) \<longrightarrow> t = u)"

lemma one_inside_step:
  assumes i: "one_inside s" and "rs_step N s s'"
  shows "one_inside s'"
  using assms(2)
proof cases
  case (rs_check t)
  have only: "rs_executingReservables s \<and> (\<forall>u. inside (rs_check s u) \<longrightarrow> u = t)" if "inside (rs_check s t)"
    using i that unfolding one_inside_def by blast
  from rs_check(2) show ?thesis
  proof cases
    case (check_busy n)
    then show ?thesis using i unfolding check_busy(1) by (auto simp: one_inside_def split: if_splits)
  next
    case (check_take n)
    then have "\<not> inside (rs_check s u)" for u using i unfolding one_inside_def by blast
    then show ?thesis unfolding check_take(1) by (auto simp: one_inside_def)
  qed (use i only in \<open>auto simp: one_inside_def split: if_splits\<close>)
qed (use i in \<open>auto simp: one_inside_def serial_step_def elim: reserve_step.cases\<close>)

section \<open>Every reserved job in one place\<close>

text \<open>A job is with the thread that made it, in the priority queue, or has left it by a check or by
  \<^verbatim>\<open>ClearReservedJobs\<close>, and of those that a check took the ones that are not handled are what the thread inside has still to push.\<close>

definition placed :: "'j rs_sys \<Rightarrow> bool" where
  "placed s \<longleftrightarrow> distinct (rs_reservableQueue s @ rs_popped s @ rs_dropped s) \<and>
     (\<forall>t u i. rs_made s t = Some i \<and> rs_made s u = Some i \<longrightarrow> t = u) \<and>
     (\<forall>i. i < rs_next s \<longleftrightarrow> i \<in> set (rs_reservableQueue s) \<or> i \<in> set (rs_popped s) \<or> i \<in> set (rs_dropped s) \<or>
        (\<exists>t. rs_made s t = Some i)) \<and>
     (\<forall>t i. rs_made s t = Some i \<longrightarrow> i \<notin> set (rs_reservableQueue s) \<and> i \<notin> set (rs_popped s) \<and> i \<notin> set (rs_dropped s))"

definition in_hand :: "'j rs_sys \<Rightarrow> bool" where
  "in_hand s \<longleftrightarrow> (\<forall>t r. rs_check s t = C_Push r \<longrightarrow> rs_popped s = map fst (rs_handled s) @ r) \<and>
     ((\<forall>t r. rs_check s t \<noteq> C_Push r) \<longrightarrow> rs_popped s = map fst (rs_handled s))"

lemma check_pop_parts:
  assumes "pq_pop_while c [] q = (jobs, q')"
  shows "jobs = takeWhile c q" "q' = dropWhile c q" "jobs @ q' = q"
  using assms by (simp_all add: pq_pop_while_eq) (metis takeWhile_dropWhile_id)

lemma placed_step:
  assumes p: "placed s" and "rs_step N s s'"
  shows "placed s'"
  using assms(2)
proof cases
  case (rs_reserve t)
  from rs_reserve(2) show ?thesis
  proof cases
    case (reserve_make tickAfter job)
    have n: "rs_made s u \<noteq> Some (rs_next s)" for u using p unfolding placed_def by (metis less_irrefl)
    have f: "rs_next s \<notin> set (rs_reservableQueue s)" "rs_next s \<notin> set (rs_popped s)" "rs_next s \<notin> set (rs_dropped s)"
      using p unfolding placed_def by (metis less_irrefl)+
    have "i < Suc (rs_next s) \<longleftrightarrow> i \<in> set (rs_reservableQueue s) \<or> i \<in> set (rs_popped s) \<or> i \<in> set (rs_dropped s) \<or>
        (\<exists>u. ((rs_made s)(t \<mapsto> rs_next s)) u = Some i)" for i
    proof -
      have "i < rs_next s \<longleftrightarrow> i \<in> set (rs_reservableQueue s) \<or> i \<in> set (rs_popped s) \<or> i \<in> set (rs_dropped s) \<or>
          (\<exists>u. rs_made s u = Some i)"
        using p by (simp add: placed_def)
      moreover have "(\<exists>u. ((rs_made s)(t \<mapsto> rs_next s)) u = Some i) \<longleftrightarrow> i = rs_next s \<or> (\<exists>u. rs_made s u = Some i)"
        using reserve_make(2) by (metis fun_upd_other fun_upd_same option.distinct(1) option.inject)
      ultimately show ?thesis by (auto simp: less_Suc_eq)
    qed
    then show ?thesis using p n f unfolding reserve_make(1) by (auto simp: placed_def split: if_splits)
  next
    case (reserve_add i)
    have d: "mset (pq_push (later s) i (rs_reservableQueue s)) = mset (i # rs_reservableQueue s)" by simp
    have "distinct (pq_push (later s) i (rs_reservableQueue s))"
      using p reserve_add(2) unfolding placed_def by (subst mset_eq_imp_distinct_iff [OF d]) auto
    moreover have "(\<exists>u. ((rs_made s)(t := None)) u = Some k) \<longleftrightarrow> k \<noteq> i \<and> (\<exists>u. rs_made s u = Some k)" for k
      using p reserve_add(2) unfolding placed_def by (metis fun_upd_other fun_upd_same option.distinct(1) option.inject)
    ultimately show ?thesis
      using p reserve_add(2) unfolding reserve_add(1) placed_def by (auto split: if_splits)
  qed
next
  case (rs_check t)
  from rs_check(2) show ?thesis
  proof cases
    case (check_pop n jobs q)
    note parts = check_pop_parts(3) [OF check_pop(3)]
    have "mset (q @ (rs_popped s @ jobs) @ rs_dropped s) = mset (rs_reservableQueue s @ rs_popped s @ rs_dropped s)"
      by (simp flip: parts)
    from mset_eq_imp_distinct_iff [OF this] have "distinct (q @ (rs_popped s @ jobs) @ rs_dropped s)"
      using p by (simp add: placed_def)
    moreover have "set (rs_reservableQueue s) = set jobs \<union> set q" by (metis parts set_append)
    ultimately show ?thesis using p unfolding check_pop(1) by (auto simp: placed_def)
  qed (use p in \<open>auto simp: placed_def\<close>)
next
  case rs_clear
  have "mset ([] @ rs_popped s @ rs_dropped s @ rs_reservableQueue s) = mset (rs_reservableQueue s @ rs_popped s @ rs_dropped s)"
    by simp
  from mset_eq_imp_distinct_iff [OF this] have "distinct ([] @ rs_popped s @ rs_dropped s @ rs_reservableQueue s)"
    using p by (simp add: placed_def)
  then show ?thesis using p unfolding rs_clear(1) by (auto simp: placed_def)
qed (use p in \<open>auto simp: placed_def serial_step_def\<close>)

lemma in_hand_frame:
  "rs_check s' = rs_check s \<Longrightarrow> rs_popped s' = rs_popped s \<Longrightarrow> rs_handled s' = rs_handled s \<Longrightarrow> in_hand s' = in_hand s"
  by (simp add: in_hand_def)

lemma in_hand_step:
  assumes o: "one_inside s" and h: "in_hand s" and "rs_step N s s'"
  shows "in_hand s'"
  using assms(3)
proof cases
  case (rs_check t)
  have only: "rs_check s u \<noteq> C_Push r" if "inside (rs_check s t)" "u \<noteq> t" for u r
    using o that unfolding one_inside_def by (metis inside.simps(2))
  from rs_check(2) show ?thesis
  proof cases
    case check_now
    then have "((rs_check s)(t := C_Now (rs_clock s))) u = C_Push r \<longleftrightarrow> rs_check s u = C_Push r" for u r by auto
    then show ?thesis using h unfolding check_now(1) by (simp add: in_hand_def)
  next
    case (check_busy n)
    then have "((rs_check s)(t := C_Idle)) u = C_Push r \<longleftrightarrow> rs_check s u = C_Push r" for u r by auto
    then show ?thesis using h unfolding check_busy(1) by (simp add: in_hand_def)
  next
    case (check_take n)
    then have "rs_check s u \<noteq> C_Push r" for u r using o unfolding one_inside_def by (metis inside.simps(2))
    then show ?thesis using h unfolding check_take(1) by (auto simp: in_hand_def)
  next
    case (check_pop n jobs q)
    then have "rs_check s u \<noteq> C_Push r" for u r using only by (cases "u = t") auto
    then show ?thesis using h unfolding check_pop(1) by (auto simp: in_hand_def)
  next
    case (check_skip i r)
    then show ?thesis using h only unfolding check_skip(1) by (auto simp: in_hand_def split: if_splits)
  next
    case (check_push i r)
    then show ?thesis using h only unfolding check_push(1) by (auto simp: in_hand_def split: if_splits)
  next
    case check_done
    then show ?thesis using h only unfolding check_done(1) by (auto simp: in_hand_def split: if_splits)
  qed
next
  case (rs_reserve t)
  with h in_hand_frame [of s' s] reserve_keeps [OF rs_reserve(2)] show ?thesis by simp
next
  case (rs_serial t)
  with h in_hand_frame [of s' s] show ?thesis by (auto elim: serial_keeps)
qed (use h in \<open>simp_all add: in_hand_def\<close>)

section \<open>The order of the ticks\<close>

text \<open>Whatever left the queue while a job was in it has a tick that is not later; nothing leaves early.\<close>

definition ordered :: "'j rs_sys \<Rightarrow> bool" where
  "ordered s \<longleftrightarrow> sorted (map (tick s) (rs_reservableQueue s)) \<and>
     (\<forall>i \<in> set (rs_reservableQueue s). \<forall>p. rs_since s i \<le> p \<and> p < length (rs_popped s) \<longrightarrow> tick s (rs_popped s ! p) \<le> tick s i) \<and>
     (\<forall>p q. p < q \<and> q < length (rs_popped s) \<and> rs_since s (rs_popped s ! q) \<le> p \<longrightarrow>
        tick s (rs_popped s ! p) \<le> tick s (rs_popped s ! q))"

definition timely :: "'j rs_sys \<Rightarrow> bool" where
  "timely s \<longleftrightarrow> (\<forall>i \<in> set (rs_popped s). tick s i \<le> rs_clock s) \<and>
     (\<forall>t n. rs_check s t = C_Now n \<or> rs_check s t = C_Taken n \<longrightarrow> n \<le> rs_clock s)"

interpretation Later: strict_weak_order "later s" for s :: "'j rs_sys"
  by unfold_locales (auto simp: later_def ReservableJobCompare_def)

lemma later_wf: "pq_wf (later s) q \<longleftrightarrow> sorted (map (tick s) q)"
  by (simp add: pq_wf_def later_def ReservableJobCompare_def sorted_map not_less)

lemma check_pop_due:
  assumes "ordered s" and "pq_pop_while (\<lambda>i. \<not> tick s i > n) [] (rs_reservableQueue s) = (jobs, q)"
  shows "jobs = filter (\<lambda>i. tick s i \<le> n) (rs_reservableQueue s)" "q = filter (\<lambda>i. n < tick s i) (rs_reservableQueue s)"
proof -
  have up: "\<forall>x y. \<not> tick s x > n \<and> \<not> later s y x \<longrightarrow> \<not> tick s y > n" by (auto simp: later_def ReservableJobCompare_def)
  have "pq_wf (later s) (rs_reservableQueue s)" using assms(1) by (simp add: later_wf ordered_def)
  from Later.takeWhile_eq_filter [OF up this] check_pop_parts [OF assms(2)]
  show "jobs = filter (\<lambda>i. tick s i \<le> n) (rs_reservableQueue s)" "q = filter (\<lambda>i. n < tick s i) (rs_reservableQueue s)"
    by (simp_all add: not_less not_le)
qed

text \<open>A change of the objects that leaves the ticks of the queued and of the popped jobs alone.\<close>

lemma ordered_frame:
  assumes "rs_reservableQueue s' = rs_reservableQueue s" "rs_popped s' = rs_popped s" "rs_since s' = rs_since s"
    and "\<And>i. i \<in> set (rs_reservableQueue s) \<or> i \<in> set (rs_popped s) \<Longrightarrow> tick s' i = tick s i"
  shows "ordered s' = ordered s"
proof -
  have m: "map (tick s') (rs_reservableQueue s) = map (tick s) (rs_reservableQueue s)" using assms(4) by simp
  show ?thesis
    unfolding ordered_def assms(1-3) m
    by (intro conj_cong ball_cong all_cong1 imp_cong refl) (simp_all add: assms(4))
qed

lemma ordered_pop:
  assumes o: "ordered s" and since: "\<forall>i \<in> set (rs_reservableQueue s). rs_since s i \<le> length (rs_popped s)"
    and p: "pq_pop_while (\<lambda>i. \<not> tick s i > n) [] (rs_reservableQueue s) = (jobs, q)"
  shows "ordered (s\<lparr>rs_check := c, rs_reservableQueue := q, rs_popped := rs_popped s @ jobs\<rparr>)"
proof -
  let ?old = "rs_popped s"
  note due = check_pop_due [OF o p]
  have srt: "sorted (map (tick s) (rs_reservableQueue s))" using o by (simp add: ordered_def)
  then have "sorted (map (tick s) q)" "sorted (map (tick s) jobs)" unfolding due by (simp_all add: sorted_filter)
  moreover have left: "tick s ((?old @ jobs) ! p) \<le> tick s i"
    if i: "i \<in> set q" and r: "rs_since s i \<le> p" "p < length (?old @ jobs)" for i p
  proof (cases "p < length ?old")
    case True
    then show ?thesis using o i r unfolding due by (simp add: ordered_def nth_append)
  next
    case False
    then have "(?old @ jobs) ! p \<in> set jobs" using r(2) by (simp add: nth_append)
    then show ?thesis using i unfolding due by auto
  qed
  moreover have "tick s ((?old @ jobs) ! p) \<le> tick s ((?old @ jobs) ! k)"
    if r: "p < k" "k < length (?old @ jobs)" "rs_since s ((?old @ jobs) ! k) \<le> p" for p k
  proof (cases "k < length ?old")
    case True
    then show ?thesis using o r unfolding ordered_def by (auto simp: nth_append)
  next
    case k: False
    then have at: "(?old @ jobs) ! k = jobs ! (k - length ?old)" "k - length ?old < length jobs" using r(2) by (auto simp: nth_append)
    show ?thesis
    proof (cases "p < length ?old")
      case True
      have "jobs ! (k - length ?old) \<in> set (rs_reservableQueue s)" using at(2) nth_mem [OF at(2)] unfolding due by auto
      with o True r(3) show ?thesis unfolding at ordered_def by (auto simp: nth_append)
    next
      case False
      then have "p - length ?old < k - length ?old" using r(1) by simp
      then show ?thesis
        using \<open>sorted (map (tick s) jobs)\<close> at False by (auto simp: nth_append sorted_iff_nth_mono_less)
    qed
  qed
  ultimately show ?thesis unfolding ordered_def by simp
qed

text \<open>All of it together.\<close>

definition since_ok :: "'j rs_sys \<Rightarrow> bool" where
  "since_ok s \<longleftrightarrow> (\<forall>i \<in> set (rs_reservableQueue s). rs_since s i \<le> length (rs_popped s))"

definition rs_inv :: "'j rs_sys \<Rightarrow> bool" where
  "rs_inv s \<longleftrightarrow> one_inside s \<and> placed s \<and> in_hand s \<and> ordered s \<and> since_ok s \<and> timely s"

lemma ordered_add:
  assumes o: "ordered s" and i: "i \<notin> set (rs_reservableQueue s)" "i \<notin> set (rs_popped s)"
  shows "ordered (s\<lparr>rs_made := m, rs_reservableQueue := pq_push (later s) i (rs_reservableQueue s),
    rs_since := (rs_since s)(i := length (rs_popped s))\<rparr>)"
proof -
  have "pq_wf (later s) (rs_reservableQueue s)" using o by (simp add: later_wf ordered_def)
  then have "sorted (map (tick s) (pq_push (later s) i (rs_reservableQueue s)))"
    using Later.pq_push_wf later_wf by blast
  moreover have "q < length (rs_popped s) \<Longrightarrow> rs_popped s ! q \<noteq> i" for q using i(2) nth_mem by metis
  ultimately show ?thesis using o i unfolding ordered_def by auto
qed

lemma ordered_step:
  assumes i: "rs_inv s" and "rs_step N s s'"
  shows "ordered s' \<and> since_ok s' \<and> timely s'"
proof -
  have o: "ordered s" "since_ok s" "timely s" and p: "placed s" using i by (simp_all add: rs_inv_def)
  from assms(2) show ?thesis
  proof cases
    case (rs_reserve t)
    from rs_reserve(2) show ?thesis
    proof cases
      case (reserve_make tickAfter job)
      have fresh: "rs_next s \<notin> set (rs_reservableQueue s)" "rs_next s \<notin> set (rs_popped s)" using p unfolding placed_def by (metis less_irrefl)+
      have "ordered s' = ordered s" unfolding reserve_make(1) using fresh by (intro ordered_frame) auto
      moreover have "\<forall>i \<in> set (rs_popped s). i \<noteq> rs_next s" using fresh by auto
      ultimately show ?thesis using o by (simp add: reserve_make(1) since_ok_def timely_def)
    next
      case (reserve_add i)
      then have "i \<notin> set (rs_reservableQueue s)" "i \<notin> set (rs_popped s)" using p unfolding placed_def by blast+
      with ordered_add [OF o(1) this] o show ?thesis by (auto simp: reserve_add(1) since_ok_def timely_def)
    qed
  next
    case (rs_check t)
    from rs_check(2) show ?thesis
    proof cases
      case (check_pop n jobs q)
      have "n \<le> rs_clock s" using o(3) check_pop(2) by (auto simp: timely_def)
      then have "timely s'"
        using o(3) check_pop_due [OF o(1) check_pop(3)] unfolding check_pop(1) by (auto simp: timely_def split: if_splits)
      moreover have "since_ok s'" using o(2) check_pop_due(2) [OF o(1) check_pop(3)] unfolding check_pop(1) by (auto simp: since_ok_def)
      ultimately show ?thesis
        using ordered_pop [OF o(1) _ check_pop(3)] o(2) unfolding check_pop(1) by (simp add: since_ok_def)
    qed (use o in \<open>auto simp: ordered_def since_ok_def timely_def split: if_splits\<close>)
  next
    case (rs_serial t)
    with o show ?thesis by (auto simp: serial_step_def ordered_def since_ok_def timely_def)
  next
    case (rs_cancel i)
    have "ordered s' = ordered s" unfolding rs_cancel(1) by (rule ordered_frame) (auto simp: ReservableJob_Cancel_def)
    then show ?thesis using o by (auto simp: rs_cancel(1) since_ok_def timely_def ReservableJob_Cancel_def)
  next
    case rs_clear
    then show ?thesis using o by (simp add: ordered_def since_ok_def timely_def)
  next
    case (rs_time c)
    then show ?thesis using o by (fastforce simp: ordered_def since_ok_def timely_def)
  qed
qed

interpretation rs: invariant_system rs_init "rs_step N" rs_inv for N
proof
  show "rs_inv s" if "rs_init s" for s :: "'j rs_sys"
    using that by (auto simp: rs_init_def rs_inv_def one_inside_def placed_def in_hand_def ordered_def since_ok_def timely_def)
  show "rs_inv s'" if i: "rs_inv s" and st: "rs_step N s s'" for s s' :: "'j rs_sys"
    using ordered_step [OF i st] one_inside_step [OF _ st] placed_step [OF _ st] in_hand_step [OF _ _ st] i
    unfolding rs_inv_def by blast
qed

section \<open>From the priority queue to the serializer\<close>

definition given :: "'j rs_sys \<Rightarrow> nat list" where
  "given s = map fst (filter snd (rs_handled s))"

fun reserved_ids :: "'j serial_job list \<Rightarrow> nat list" where
  "reserved_ids [] = []"
| "reserved_ids (Reserved i # js) = i # reserved_ids js"
| "reserved_ids (Plain j # js) = reserved_ids js"

lemma reserved_ids_append [simp]: "reserved_ids (xs @ ys) = reserved_ids xs @ reserved_ids ys"
  by (induction xs rule: reserved_ids.induct) auto

text \<open>A reserved job that is being pushed is the last one given, and the thread that pushes it is inside.\<close>

definition flowing :: "'j rs_sys \<Rightarrow> bool" where
  "flowing s \<longleftrightarrow>
     (\<forall>t c i. js_push (rs_js s) t = P_Added c (Some (Reserved i)) \<longrightarrow>
        (\<exists>r. rs_check s t = C_Push r) \<and> given s = reserved_ids (real_jobs (js_pushed (rs_js s))) @ [i]) \<and>
     ((\<forall>t c i. js_push (rs_js s) t \<noteq> P_Added c (Some (Reserved i))) \<longrightarrow> given s = reserved_ids (real_jobs (js_pushed (rs_js s))))"

lemma flowing_pusher:
  "flowing s \<Longrightarrow> js_push (rs_js s) t = P_Added c (Some (Reserved i)) \<Longrightarrow> \<exists>r. rs_check s t = C_Push r"
  unfolding flowing_def by blast

lemma flowing_alone:
  assumes "flowing s" "one_inside s" "rs_check s t = C_Push r" "free_thread s t"
  shows "\<forall>u c i. js_push (rs_js s) u \<noteq> P_Added c (Some (Reserved i))"
proof (intro allI notI)
  fix u c i
  assume a: "js_push (rs_js s) u = P_Added c (Some (Reserved i))"
  then obtain r' where "rs_check s u = C_Push r'" using assms(1) unfolding flowing_def by blast
  then have "u = t" using assms(2,3) unfolding one_inside_def by (metis inside.simps(2))
  then show False using a assms(4) by (simp add: free_thread_def)
qed

lemma serial_ptr_cases:
  obtains "p = None" | i where "p = Some (Reserved i)" | j where "p = Some (Plain j)"
  by (cases p) (simp, metis serial_job.exhaust)

text \<open>What the steps of the serializer do to the pushes of reserved jobs.\<close>

lemma serial_pushes:
  assumes "push_step t js js' \<or> exec_step t js js' \<or> work_step t js js'"
    and new: "\<forall>c i. js_push js' t = P_Added c (Some (Reserved i)) \<longrightarrow> js_push js t = P_Added c (Some (Reserved i))"
  shows "(js_pushed js' = js_pushed js \<or> js_pushed js' = js_pushed js @ [None] \<or> (\<exists>j. js_pushed js' = js_pushed js @ [Some (Plain j)])) \<and>
      (\<forall>u c i. js_push js' u = P_Added c (Some (Reserved i)) \<longleftrightarrow> js_push js u = P_Added c (Some (Reserved i))) \<or>
    (\<exists>c i. js_push js t = P_Added c (Some (Reserved i)) \<and> js_pushed js' = js_pushed js @ [Some (Reserved i)] \<and>
      js_push js' = (js_push js)(t := P_Pushed c))"
  using assms(1)
proof (elim disjE)
  assume "push_step t js js'"
  then show ?thesis
  proof cases
    case (push_add j)
    then show ?thesis using new by (cases j rule: serial_ptr_cases) auto
  next
    case (push_queue prev j)
    then show ?thesis by (cases j rule: serial_ptr_cases) auto
  qed auto
qed (auto elim!: exec_step.cases work_step.cases)

lemma flowing_step:
  assumes i: "rs_inv s" and f: "flowing s" and "rs_step N s s'"
  shows "flowing s'"
  using assms(3)
proof cases
  case (rs_reserve t)
  note k = reserve_keeps [OF rs_reserve(2)]
  show ?thesis using f unfolding flowing_def given_def k .
next
  case (rs_check t)
  have o: "one_inside s" using i by (simp add: rs_inv_def)
  from rs_check(2) show ?thesis
  proof cases
    case (check_push k r)
    note alone = flowing_alone [OF f o check_push(2,3)]
    then have "given s = reserved_ids (real_jobs (js_pushed (rs_js s)))" using f by (simp add: flowing_def)
    then show ?thesis using alone unfolding check_push(1) by (auto simp: flowing_def given_def)
  next
    case (check_skip k r)
    note alone = flowing_alone [OF f o check_skip(2,3)]
    then show ?thesis using f unfolding check_skip(1) by (auto simp: flowing_def given_def)
  next
    case check_done
    note alone = flowing_alone [OF f o check_done(2,3)]
    then show ?thesis using f unfolding check_done(1) by (auto simp: flowing_def given_def)
  next
    case (check_pop n jobs q)
    then show ?thesis using f unfolding check_pop(1) by (auto simp: flowing_def given_def)
  next
    case (check_take n)
    then have "js_push (rs_js s) t \<noteq> P_Added c (Some (Reserved k))" for c k using flowing_pusher [OF f] by fastforce
    then show ?thesis using f unfolding check_take(1) by (auto simp: flowing_def given_def)
  next
    case (check_busy n)
    then have "js_push (rs_js s) t \<noteq> P_Added c (Some (Reserved k))" for c k using flowing_pusher [OF f] by fastforce
    then show ?thesis using f unfolding check_busy(1) by (auto simp: flowing_def given_def)
  next
    case check_now
    then have "js_push (rs_js s) t \<noteq> P_Added c (Some (Reserved k))" for c k by (simp add: free_thread_def)
    then show ?thesis using f unfolding check_now(1) by (auto simp: flowing_def given_def)
  qed
next
  case (rs_serial t)
  then obtain js where js: "push_step t (rs_js s) js \<or> exec_step t (rs_js s) js \<or> work_step t (rs_js s) js"
    "\<forall>c i. js_push js t = P_Added c (Some (Reserved i)) \<longrightarrow> js_push (rs_js s) t = P_Added c (Some (Reserved i))"
    and s': "s' = s\<lparr>rs_js := js\<rparr>" by (auto simp: serial_step_def)
  from serial_pushes [OF js] show ?thesis
  proof (elim disjE exE conjE)
    fix c k
    assume q: "js_push (rs_js s) t = P_Added c (Some (Reserved k))" "js_pushed js = js_pushed (rs_js s) @ [Some (Reserved k)]"
      "js_push js = (js_push (rs_js s))(t := P_Pushed c)"
    have g: "given s = reserved_ids (real_jobs (js_pushed (rs_js s))) @ [k]" using f q(1) by (auto simp: flowing_def)
    have "js_push js u \<noteq> P_Added d (Some (Reserved l))" for u d l
    proof
      assume a: "js_push js u = P_Added d (Some (Reserved l))"
      then have ne: "u \<noteq> t" and a: "js_push (rs_js s) u = P_Added d (Some (Reserved l))" using q(3) by (auto split: if_splits)
      obtain r r' where "rs_check s u = C_Push r" "rs_check s t = C_Push r'" using f a q(1) unfolding flowing_def by blast
      then show False using i ne unfolding rs_inv_def one_inside_def by (metis inside.simps(2))
    qed
    then show ?thesis using g q(2) by (auto simp: flowing_def given_def s')
  qed (use f in \<open>auto simp: flowing_def given_def s'\<close>)
qed (use f in \<open>simp_all add: flowing_def given_def\<close>)

interpretation flow: invariant_system rs_init "rs_step N" "\<lambda>s. rs_inv s \<and> flowing s" for N
proof
  show "rs_inv s \<and> flowing s" if "rs_init s" for s :: "'j rs_sys"
    using that rs.inv_init by (auto simp: rs_init_def js_init_def flowing_def given_def)
qed (auto intro: flowing_step rs.inv_step)

section \<open>Properties of the reserved jobs\<close>

lemma given_popped:
  assumes "in_hand s"
  shows "\<exists>rest. rs_popped s = map fst (rs_handled s) @ rest"
  using assms by (cases "\<forall>t r. rs_check s t \<noteq> C_Push r") (auto simp: in_hand_def)

lemma given_in_popped: "in_hand s \<Longrightarrow> set (given s) \<subseteq> set (rs_popped s)"
  using given_popped [of s] by (force simp: given_def)

lemma given_subseq:
  assumes "in_hand s"
  shows "subseq (given s) (rs_popped s)"
proof -
  obtain rest where "rs_popped s = map fst (rs_handled s) @ rest" using given_popped [OF assms] by blast
  moreover have "subseq (given s) (map fst (rs_handled s))" unfolding given_def by (rule subseq_map) simp
  ultimately show ?thesis by (metis prefixI prefix_imp_subseq subseq_order.order_trans)
qed

text \<open>What is pushed is given, up to the job being pushed.\<close>

lemma pushed_given:
  assumes "flowing s"
  shows "\<exists>rest. given s = reserved_ids (real_jobs (js_pushed (rs_js s))) @ rest"
  using assms by (cases "\<exists>t c i. js_push (rs_js s) t = P_Added c (Some (Reserved i))") (auto simp: flowing_def)

lemma executed_given:
  assumes "reach rs_init (rs_step N) s" "\<not> js_wrapped (rs_js s)" "\<not> js_direct (rs_js s)"
  shows "\<exists>rest. given s = reserved_ids (js_executed (rs_js s)) @ rest"
proof -
  have "js_order N (rs_js s)" using serial.reach_abs [OF assms(1)] assms(2,3) by (rule js_reach_order)
  then obtain rest where r: "real_jobs (js_pushed (rs_js s)) = js_executed (rs_js s) @ rest" using js_order_prefix by blast
  have "flowing s" using flow.reach_inv [OF assms(1)] by simp
  from pushed_given [OF this] r show ?thesis by auto
qed

lemma count_reserved_ids: "count_list (reserved_ids js) i = count_list js (Reserved i)"
  by (induction js rule: reserved_ids.induct) auto

lemma count_real_jobs: "count_list (real_jobs js) j = count_list js (Some j)"
  by (induction js rule: real_jobs.induct) auto

text \<open>Whatever the application does, a reserved job is executed at most as often as it was given to the serializer.\<close>

lemma executed_count:
  assumes "reach rs_init (rs_step N) s"
  shows "count_list (reserved_ids (js_executed (rs_js s))) i \<le> count_list (given s) i"
proof -
  have "js_books N (rs_js s)" using js.reach_inv [OF serial.reach_abs [OF assms]] by (simp add: js_inv_def)
  from js_books_executed [OF this, of "Reserved i"]
  have "count_list (reserved_ids (js_executed (rs_js s))) i \<le> count_list (reserved_ids (real_jobs (js_pushed (rs_js s)))) i"
    by (simp add: count_reserved_ids count_real_jobs)
  also have "\<dots> \<le> count_list (given s) i" using pushed_given [of s] flow.reach_inv [OF assms] by auto
  finally show ?thesis .
qed

lemma distinct_count_list_iff: "distinct xs \<longleftrightarrow> (\<forall>k. count_list xs k \<le> 1)"
proof (induction xs)
  case (Cons x xs)
  have "(\<forall>k. count_list (x # xs) k \<le> 1) \<longleftrightarrow> count_list xs x = 0 \<and> (\<forall>k. count_list xs k \<le> 1)"
  proof (intro iffI conjI allI)
    fix k
    assume a: "\<forall>k. count_list (x # xs) k \<le> 1"
    from a [rule_format, of x] show "count_list xs x = 0" by simp
    from a [rule_format, of k] show "count_list xs k \<le> 1" by (simp split: if_splits)
  next
    fix k
    assume a: "count_list xs x = 0 \<and> (\<forall>k. count_list xs k \<le> 1)"
    from a [THEN conjunct2, rule_format, of k] a [THEN conjunct1] show "count_list (x # xs) k \<le> 1" by (cases "x = k") simp_all
  qed
  then show ?case using Cons by (simp add: count_list_0_iff)
qed simp

lemma executed_once:
  assumes "reach rs_init (rs_step N) s"
  shows "distinct (reserved_ids (js_executed (rs_js s)))" "set (reserved_ids (js_executed (rs_js s))) \<subseteq> set (given s)"
proof -
  have i: "placed s" "in_hand s" using flow.reach_inv [OF assms] by (simp_all add: rs_inv_def)
  obtain rest where "rs_popped s = map fst (rs_handled s) @ rest" using given_popped [OF i(2)] by blast
  then have "distinct (given s)" using i(1) unfolding given_def by (intro distinct_map_filter) (simp add: placed_def)
  then show "distinct (reserved_ids (js_executed (rs_js s)))"
    unfolding distinct_count_list_iff using executed_count [OF assms] order_trans by blast
  show "set (reserved_ids (js_executed (rs_js s))) \<subseteq> set (given s)"
    using executed_count [OF assms] by (metis count_list_0_iff le_zero_eq subsetI)
qed

text \<open>C10. In every reachable state of any number of threads that reserve, cancel, check, push and execute: at
  most one thread is inside the guarded part of \<^verbatim>\<open>CheckReservedJob\<close>. Every reserved job that is executed was
  taken out of the priority queue by a check, is executed at most once and not before its tick. As long as
  the serializer's count has not wrapped and the application has not called \<^verbatim>\<open>ExecuteJobs\<close> itself, the reserved
  jobs are executed in the order in which the checks took them out. A job that is taken out while another one is in
  the queue has a tick that is not later. No reserved job is lost but by \<^verbatim>\<open>ClearReservedJobs\<close>: each is
  with the thread that is reserving it, in the queue, taken out by a check, or dropped by that call, in one
  of these places only; and when no thread is inside, every job taken out by a check was pushed to the
  serializer or skipped.\<close>

theorem reserved_jobs_in_order:
  assumes "reach rs_init (rs_step N) s"
  shows "(\<forall>t u. inside (rs_check s t) \<and> inside (rs_check s u) \<longrightarrow> t = u) \<and>
    distinct (reserved_ids (js_executed (rs_js s))) \<and> set (reserved_ids (js_executed (rs_js s))) \<subseteq> set (rs_popped s) \<and>
    (\<not> js_wrapped (rs_js s) \<and> \<not> js_direct (rs_js s) \<longrightarrow> subseq (reserved_ids (js_executed (rs_js s))) (rs_popped s)) \<and>
    distinct (rs_reservableQueue s @ rs_popped s @ rs_dropped s) \<and>
    (\<forall>i \<in> set (rs_popped s). rj_executionTick (rs_obj s i) \<le> rs_clock s) \<and>
    (\<forall>p q. p < q \<and> q < length (rs_popped s) \<and> rs_since s (rs_popped s ! q) \<le> p \<longrightarrow>
       rj_executionTick (rs_obj s (rs_popped s ! p)) \<le> rj_executionTick (rs_obj s (rs_popped s ! q))) \<and>
    (\<forall>i < rs_next s. (\<exists>t. rs_made s t = Some i) \<or> i \<in> set (rs_reservableQueue s) \<or> i \<in> set (rs_popped s) \<or> i \<in> set (rs_dropped s)) \<and>
    ((\<forall>t. \<not> inside (rs_check s t)) \<longrightarrow> rs_popped s = map fst (rs_handled s))"
proof -
  have i: "rs_inv s" using flow.reach_inv [OF assms] by simp
  have g: "subseq (given s) (rs_popped s)" using i by (intro given_subseq) (simp add: rs_inv_def)
  have "subseq (reserved_ids (js_executed (rs_js s))) (rs_popped s)" if o: "\<not> js_wrapped (rs_js s) \<and> \<not> js_direct (rs_js s)"
  proof -
    obtain rest where "given s = reserved_ids (js_executed (rs_js s)) @ rest" using executed_given [OF assms] o by blast
    with g show ?thesis by (metis prefixI prefix_imp_subseq subseq_order.order_trans)
  qed
  moreover have "set (reserved_ids (js_executed (rs_js s))) \<subseteq> set (rs_popped s)"
    using executed_once(2) [OF assms] given_in_popped [of s] i by (simp add: rs_inv_def)
  moreover have "rs_popped s = map fst (rs_handled s)" if "\<forall>t. \<not> inside (rs_check s t)"
    using i that unfolding rs_inv_def in_hand_def by (metis inside.simps(2))
  moreover have "one_inside s" "placed s" "ordered s" "timely s" using i by (simp_all add: rs_inv_def)
  note parts = this [unfolded one_inside_def placed_def ordered_def timely_def]
  have "(\<exists>t. rs_made s t = Some i) \<or> i \<in> set (rs_reservableQueue s) \<or> i \<in> set (rs_popped s) \<or> i \<in> set (rs_dropped s)"
    if "i < rs_next s" for i
    using parts(2) that by blast
  ultimately show ?thesis
    using parts executed_once(1) [OF assms] by (intro conjI allI impI) (simp_all only: simp_thms, blast+)
qed

text \<open>One thread reserves two jobs, cancels the second, checks when both are due and executes the first.\<close>

definition rs_demo :: "nat rs_sys" where
  "rs_demo = \<lparr>rs_js = \<lparr>js_queuedCount = 0, js_jobs = [], js_global = 0, js_exec = (\<lambda>_. E_Idle), js_push = (\<lambda>_. P_Idle),
       js_pushed = [], js_executed = [], js_nulls = 0, js_wrapped = False, js_direct = False, js_cleared = False\<rparr>,
     rs_obj = (\<lambda>_. ReservableJob_new 0 0 0)(0 := ReservableJob_new 15 7 0, 1 := ReservableJob_Cancel (ReservableJob_new 17 8 0)),
     rs_next = 2, rs_reservableQueue = [0, 1], rs_executingReservables = False, rs_clock = 20, rs_check = (\<lambda>_. C_Idle),
     rs_made = (\<lambda>_. None), rs_popped = [], rs_handled = [], rs_since = (\<lambda>_. 0), rs_dropped = []\<rparr>"

lemma rs_demo_reach: "reach rs_init (rs_step 1) rs_demo"
proof -
  let ?R = "reach rs_init (rs_step 1)"
  define S where "S ob k q c m = rs_demo\<lparr>rs_obj := ob, rs_next := k, rs_reservableQueue := q, rs_clock := c, rs_made := m\<rparr>" for ob k q c m
  define n where "n = (\<lambda>_ :: nat. None :: nat option)"
  define o0 where "o0 = (\<lambda>_ :: nat. ReservableJob_new 0 (0 :: nat) 0)"
  define o1 where "o1 = o0(0 := ReservableJob_new 15 7 0)"
  define o2 where "o2 = o1(1 := ReservableJob_new 17 8 0)"
  have "?R (S o0 0 [] 10 n)" by (rule reach_init) (simp add: S_def rs_demo_def n_def rs_init_def js_init_def)
  then have "?R (S o1 1 [] 10 (n(0 \<mapsto> 0)))"
    by (rule reach_step) (use rs_reserve [OF _ reserve_make [of "S o0 0 [] 10 n" 0 5 7], of 1] in
      \<open>simp add: S_def rs_demo_def n_def o1_def free_thread_def\<close>)
  then have "?R (S o1 1 [0] 10 n)"
    by (rule reach_step) (use rs_reserve [OF _ reserve_add [of "S o1 1 [] 10 (n(0 \<mapsto> 0))" 0 0], of 1] in
      \<open>simp add: S_def rs_demo_def n_def fun_upd_idem\<close>)
  then have "?R (S o2 2 [0] 10 (n(0 \<mapsto> 1)))"
    by (rule reach_step) (use rs_reserve [OF _ reserve_make [of "S o1 1 [0] 10 n" 0 7 8], of 1] in
      \<open>simp add: S_def rs_demo_def n_def o2_def free_thread_def numeral_2_eq_2\<close>)
  then have "?R (S o2 2 [0, 1] 10 n)"
    by (rule reach_step) (use rs_reserve [OF _ reserve_add [of "S o2 2 [0] 10 (n(0 \<mapsto> 1))" 0 1], of 1] in
      \<open>simp add: S_def rs_demo_def n_def fun_upd_idem later_def o2_def o1_def ReservableJobCompare_def ReservableJob_new_def\<close>)
  then have "?R (S o2 2 [0, 1] 20 n)"
    by (rule reach_step) (use rs_time [of "S o2 2 [0, 1] 10 n" 20 1] in \<open>simp add: S_def rs_demo_def\<close>)
  then have "?R (S (o2(1 := ReservableJob_Cancel (o2 1))) 2 [0, 1] 20 n)"
    by (rule reach_step) (use rs_cancel [of 1 "S o2 2 [0, 1] 20 n" 1] in \<open>simp add: S_def rs_demo_def n_def\<close>)
  then show ?thesis by (simp add: S_def rs_demo_def n_def o2_def o1_def o0_def)
qed

text \<open>The same thread then checks and executes.\<close>

definition rs_demo_end :: "nat rs_sys" where
  "rs_demo_end = rs_demo\<lparr>rs_js := (rs_js rs_demo)\<lparr>js_queuedCount := 1, js_exec := (\<lambda>_. E_Idle)(0 := E_Job E_Idle 1 []),
       js_pushed := [Some (Reserved 0)], js_executed := [Reserved 0]\<rparr>,
     rs_reservableQueue := [], rs_executingReservables := True, rs_check := (\<lambda>_. C_Idle)(0 := C_Push [1]),
     rs_popped := [0, 1], rs_handled := [(0, True)]\<rparr>"

lemma rs_serial_reach:
  "reach start (rs_step N) s \<Longrightarrow> t < N \<Longrightarrow> serial_step t s s' \<Longrightarrow> reach start (rs_step N) s'"
  by (erule reach_step) (rule rs_serial)

lemma rs_demo_runs: "reach (\<lambda>m. m = rs_demo) (rs_step 1) rs_demo_end"
proof -
  let ?R = "reach (\<lambda>m. m = rs_demo) (rs_step 1)"
  define c where "c = (\<lambda>_ :: nat. C_Idle)"
  define e where "e = (\<lambda>_ :: nat. E_Idle :: nat serial_job exec_pc)"
  define p where "p = (\<lambda>_ :: nat. P_Idle :: nat serial_job push_pc)"
  define J where "J k q x y h d = (rs_js rs_demo)\<lparr>js_queuedCount := k, js_jobs := q, js_exec := x, js_push := y,
    js_pushed := h, js_executed := d\<rparr>" for k q x y h d
  define S where "S js q f ch pp hd = rs_demo\<lparr>rs_js := js, rs_reservableQueue := q, rs_executingReservables := f,
    rs_check := ch, rs_popped := pp, rs_handled := hd\<rparr>" for js q f ch pp hd
  define j0 where "j0 = J 0 [] e p [] []"
  note d = S_def J_def rs_demo_def c_def e_def p_def
  have "?R (S j0 [0, 1] False c [] [])" by (rule reach_init) (simp add: j0_def d)
  then have "?R (S j0 [0, 1] False (c(0 := C_Now 20)) [] [])"
    by (rule reach_step) (use rs_check [OF _ check_now [of "S j0 [0, 1] False c [] []" 0], of 1] in \<open>simp add: j0_def d free_thread_def\<close>)
  then have "?R (S j0 [0, 1] True (c(0 := C_Taken 20)) [] [])"
    by (rule reach_step) (use rs_check [OF _ check_take [of "S j0 [0, 1] False (c(0 := C_Now 20)) [] []" 0 20], of 1] in \<open>simp add: j0_def d\<close>)
  then have "?R (S j0 [] True (c(0 := C_Push [0, 1])) [0, 1] [])"
    by (rule reach_step) (use rs_check [OF _ check_pop [of "S j0 [0, 1] True (c(0 := C_Taken 20)) [] []" 0 20 "[0, 1]" "[]"], of 1] in
      \<open>simp add: j0_def d pq_pop_while_eq ReservableJob_new_def ReservableJob_Cancel_def\<close>)
  then have "?R (S (J 1 [] e (p(0 := P_Added 0 (Some (Reserved 0)))) [] []) [] True (c(0 := C_Push [1])) [0, 1] [(0, True)])"
    by (rule reach_step) (use rs_check [OF _ check_push [of "S j0 [] True (c(0 := C_Push [0, 1])) [0, 1] []" 0 0 "[1]"], of 1] in
      \<open>simp add: j0_def d free_thread_def ReservableJob_new_def\<close>)
  then have "?R (S (J 1 [Some (Reserved 0)] e (p(0 := P_Pushed 0)) [Some (Reserved 0)] []) [] True (c(0 := C_Push [1])) [0, 1] [(0, True)])"
    by (rule rs_serial_reach [where t = 0])
       (use push_queue [of "J 1 [] e (p(0 := P_Added 0 (Some (Reserved 0)))) [] []" 0 0 "Some (Reserved 0)"] in
        \<open>auto simp: serial_step_def free_thread_def d\<close>)
  then have "?R (S (J 1 [Some (Reserved 0)] (e(0 := E_Loop E_Idle)) p [Some (Reserved 0)] []) [] True (c(0 := C_Push [1])) [0, 1] [(0, True)])"
    by (rule rs_serial_reach [where t = 0])
       (use push_execute [of "J 1 [Some (Reserved 0)] e (p(0 := P_Pushed 0)) [Some (Reserved 0)] []" 0] in
        \<open>auto simp: serial_step_def free_thread_def d fun_upd_idem\<close>)
  then have "?R (S (J 1 [] (e(0 := E_Run E_Idle 1 [Reserved 0])) p [Some (Reserved 0)] []) [] True (c(0 := C_Push [1])) [0, 1] [(0, True)])"
    by (rule rs_serial_reach [where t = 0])
       (use exec_clear [of "J 1 [Some (Reserved 0)] (e(0 := E_Loop E_Idle)) p [Some (Reserved 0)] []" 0 E_Idle "[Some (Reserved 0)]" "\<lparr>lq_queue = []\<rparr>"] in
        \<open>auto simp: serial_step_def free_thread_def d LockQueue_Clear_into_eq\<close>)
  then have "?R (S (J 1 [] (e(0 := E_Job E_Idle 1 [])) p [Some (Reserved 0)] [Reserved 0]) [] True (c(0 := C_Push [1])) [0, 1] [(0, True)])"
    by (rule rs_serial_reach [where t = 0])
       (use exec_start [of "J 1 [] (e(0 := E_Run E_Idle 1 [Reserved 0])) p [Some (Reserved 0)] []" 0 E_Idle 1 "Reserved 0" "[]"] in
        \<open>auto simp: serial_step_def free_thread_def d\<close>)
  then show ?thesis by (simp add: rs_demo_end_def d)
qed

theorem reserved_jobs_in_order_witness:
  "subseq (reserved_ids (js_executed (rs_js rs_demo_end))) (rs_popped rs_demo_end) \<and>
   reserved_ids (js_executed (rs_js rs_demo_end)) = [0] \<and> rs_popped rs_demo_end = [0, 1] \<and>
   rj_executionTick (rs_obj rs_demo_end 0) \<le> rj_executionTick (rs_obj rs_demo_end 1)"
proof -
  have d: "rs_popped rs_demo_end = [0, 1]" "rs_since rs_demo_end 1 = 0" "reserved_ids (js_executed (rs_js rs_demo_end)) = [0]"
    by (simp_all add: rs_demo_end_def rs_demo_def)
  note w = reserved_jobs_in_order [OF reach_from [OF rs_demo_runs rs_demo_reach]]
  then have "\<not> js_wrapped (rs_js rs_demo_end) \<and> \<not> js_direct (rs_js rs_demo_end) \<longrightarrow>
      subseq (reserved_ids (js_executed (rs_js rs_demo_end))) (rs_popped rs_demo_end)" by (elim conjE)
  moreover have "\<not> js_wrapped (rs_js rs_demo_end) \<and> \<not> js_direct (rs_js rs_demo_end)" by (simp add: rs_demo_end_def rs_demo_def)
  moreover from w have "\<forall>p q. p < q \<and> q < length (rs_popped rs_demo_end) \<and> rs_since rs_demo_end (rs_popped rs_demo_end ! q) \<le> p \<longrightarrow>
      tick rs_demo_end (rs_popped rs_demo_end ! p) \<le> tick rs_demo_end (rs_popped rs_demo_end ! q)" by (elim conjE)
  from this [rule_format, of 0 1] have "tick rs_demo_end 0 \<le> tick rs_demo_end 1"
    by (simp add: d(1) d(2) [unfolded One_nat_def])
  ultimately show ?thesis using d by simp
qed

section \<open>Cancelling\<close>

definition cancelled :: "nat \<Rightarrow> 'j rs_sys \<Rightarrow> bool" where
  "cancelled i s \<longleftrightarrow> i < rs_next s \<and> rj_canceled (rs_obj s i) \<and> i \<notin> set (given s)"

lemma cancelled_step:
  assumes c: "cancelled i s" and "rs_step N s s'"
  shows "cancelled i s'"
  using assms(2)
proof cases
  case (rs_reserve t)
  from rs_reserve(2) c show ?thesis by cases (auto simp: cancelled_def given_def)
next
  case (rs_check t)
  from rs_check(2) c show ?thesis by cases (auto simp: cancelled_def given_def)
next
  case (rs_serial t)
  with c show ?thesis by (auto simp: serial_step_def cancelled_def given_def)
qed (use c in \<open>auto simp: cancelled_def given_def ReservableJob_Cancel_def\<close>)

interpretation cancel: invariant_system "cancelled i" "rs_step N" "cancelled i" for i N
  by unfold_locales (auto intro: cancelled_step)

lemma cancelled_not_executed:
  assumes "reach rs_init (rs_step N) s" "cancelled i s" and "reach (\<lambda>m. m = s) (rs_step N) s'"
  shows "Reserved i \<notin> set (js_executed (rs_js s'))"
proof -
  have "cancelled i s'" using reach_starts [OF assms(3), of "cancelled i", OF assms(2)] by (rule cancel.reach_inv)
  then have "i \<notin> set (reserved_ids (js_executed (rs_js s')))"
    using executed_once(2) [OF reach_from [OF assms(3,1)]] by (auto simp: cancelled_def)
  moreover have "Reserved i \<in> set js \<Longrightarrow> i \<in> set (reserved_ids js)" for js :: "'a serial_job list"
    by (induction js rule: reserved_ids.induct) auto
  ultimately show ?thesis by blast
qed



end
