(* ===== verification/Lib_Test.thy ===== *)
theory Lib_Test
  imports Reserved_Jobs
begin

text \<open>
  The program \<^verbatim>\<open>src/LibTest/LibTest.cpp\<close>: a \<^verbatim>\<open>Room\<close> whose jobs print, three reservations that try the priority
  queue, and the loop that reserves two jobs, cancels one of them and pushes a third. The room's serializer
  and the reserved jobs are those of \<open>Reserved_Jobs\<close>; the loop of the workers, \<^verbatim>\<open>DoWorkJob\<close> and \<^verbatim>\<open>CheckReservedJob\<close>,
  is its \<open>work_step\<close>, \<open>exec_step\<close> and \<open>check_step\<close>. What a job prints goes to the output of the room.

  \<open>PushReservableJob\<close> is a call of \<^verbatim>\<open>PushReservableJob\<close> during which no other thread moves. Start-up and the
  joining of threads that never end are left out.
\<close>

section \<open>Definitions\<close>

datatype room_job = AddJob_lambda | Reserve_call | Print_call int32

datatype room_output =
    Job_line uint32 uint64 int32
  | RJob_line uint32 uint64 int32
  | Print_line uint32 int32

record room =
  rm_n :: int32
  rm_out :: "room_output list"

definition Room_AddJob_body :: "uint32 \<Rightarrow> uint64 \<Rightarrow> room \<Rightarrow> room" where
  "Room_AddJob_body tls_id tickCount r = r\<lparr>rm_out := rm_out r @ [Job_line tls_id (tickCount mod 10000) (rm_n r)]\<rparr>"

definition Room_Reserve :: "uint32 \<Rightarrow> uint64 \<Rightarrow> room \<Rightarrow> room" where
  "Room_Reserve tls_id tickCount r =
     (let r1 = r\<lparr>rm_n := rm_n r - 1\<rparr>
      in r1\<lparr>rm_out := rm_out r1 @ [RJob_line tls_id (tickCount mod 10000) (rm_n r1)]\<rparr>)"

definition Room_Print :: "uint32 \<Rightarrow> int32 \<Rightarrow> room \<Rightarrow> room" where
  "Room_Print tls_id value r = r\<lparr>rm_out := rm_out r @ [Print_line tls_id value]\<rparr>"

definition Room_Execute :: "uint32 \<Rightarrow> uint64 \<Rightarrow> room_job \<Rightarrow> room \<Rightarrow> room" where
  "Room_Execute tls_id tickCount j =
     (case j of AddJob_lambda \<Rightarrow> Room_AddJob_body tls_id tickCount
      | Reserve_call \<Rightarrow> Room_Reserve tls_id tickCount
      | Print_call v \<Rightarrow> Room_Print tls_id v)"

text \<open>The job behind an entry of the serializer's queue.\<close>

fun room_job_of :: "room_job rs_sys \<Rightarrow> room_job serial_job \<Rightarrow> room_job" where
  "room_job_of s (Reserved i) = rj_job (rs_obj s i)"
| "room_job_of s (Plain j) = j"

text \<open>The room after the executed jobs; \<open>at\<close> gives the thread and the clock of each execution.\<close>

definition Room_run :: "(nat \<Rightarrow> uint32 \<times> uint64) \<Rightarrow> room_job rs_sys \<Rightarrow> room" where
  "Room_run at s =
     fold (\<lambda>(k, j). Room_Execute (fst (at k)) (snd (at k)) (room_job_of s j))
       (enumerate 0 (js_executed (rs_js s))) \<lparr>rm_n = 0, rm_out = []\<rparr>"

definition PushReservableJob :: "uint64 \<Rightarrow> 'j \<Rightarrow> 'j rs_sys \<Rightarrow> nat \<times> 'j rs_sys" where
  "PushReservableJob tickAfter job s =
     (let i = rs_next s;
          s1 = s\<lparr>rs_next := i + 1, rs_obj := (rs_obj s)(i := ReservableJob_new (tickAfter + rs_clock s) job 0)\<rparr>
      in (i, s1\<lparr>rs_reservableQueue := pq_push (later s1) i (rs_reservableQueue s1),
                rs_since := (rs_since s1)(i := length (rs_popped s1))\<rparr>))"

definition Cancel_at :: "nat \<Rightarrow> 'j rs_sys \<Rightarrow> 'j rs_sys" where
  "Cancel_at i s = s\<lparr>rs_obj := (rs_obj s)(i := ReservableJob_Cancel (rs_obj s i))\<rparr>"

definition LibTest_reservations :: "room_job rs_sys \<Rightarrow> room_job rs_sys" where
  "LibTest_reservations s =
     (let (rJobRef1, s1) = PushReservableJob 1000 (Print_call 1) s;
          (rJobRef2, s2) = PushReservableJob 500 (Print_call 2) s1;
          (rJobRef3, s3) = PushReservableJob 1500 (Print_call 3) s2
      in s3)"

text \<open>One round of the second task up to its sleep; \<^verbatim>\<open>AddJob\<close> after it is a push of \<open>Plain AddJob_lambda\<close>.\<close>

definition LibTest_round :: "int32 \<Rightarrow> room_job rs_sys \<Rightarrow> nat \<times> nat \<times> room_job rs_sys" where
  "LibTest_round rand s =
     (let (rJobRef, s1) = PushReservableJob 100 Reserve_call s;
          (rJobRef2, s2) = PushReservableJob 150 (Print_call rand) s1
      in (rJobRef, rJobRef2, Cancel_at rJobRef s2))"

section \<open>The calls are runs of the system\<close>

lemma PushReservableJob_reach:
  assumes r: "reach rs_init (rs_step N) s" and t: "t < N" "free_thread s t" "rs_check s t = C_Idle" "rs_made s t = None"
    and p: "PushReservableJob tickAfter job s = (i, s')"
  shows "reach rs_init (rs_step N) s'"
proof -
  let ?s1 = "s\<lparr>rs_made := (rs_made s)(t \<mapsto> rs_next s), rs_next := rs_next s + 1,
    rs_obj := (rs_obj s)(rs_next s := ReservableJob_new (tickAfter + rs_clock s) job 0)\<rparr>"
  have "reserve_step t s ?s1" using t by (intro reserve_make) (simp_all add: free_thread_def)
  then have r1: "reach rs_init (rs_step N) ?s1" using r t(1) by (blast intro: reach_step rs_reserve)
  have "later ?s1 = later (s\<lparr>rs_next := rs_next s + 1, rs_obj := rs_obj ?s1\<rparr>)" by (simp add: later_def fun_eq_iff)
  then have "reserve_step t ?s1 s'"
    using reserve_add [of ?s1 t "rs_next s"] p t(4) by (auto simp: PushReservableJob_def Let_def fun_upd_idem)
  then show ?thesis using r1 t(1) by (blast intro: reach_step rs_reserve)
qed

lemma PushReservableJob_keeps:
  assumes "PushReservableJob tickAfter job s = (i, s')"
  shows "i = rs_next s" "rs_next s' = rs_next s + 1" "rs_js s' = rs_js s" "rs_check s' = rs_check s" "rs_made s' = rs_made s"
    "rs_handled s' = rs_handled s" "rs_popped s' = rs_popped s" "rs_clock s' = rs_clock s"
    "rs_obj s' = (rs_obj s)(rs_next s := ReservableJob_new (tickAfter + rs_clock s) job 0)"
    "set (rs_reservableQueue s') = insert (rs_next s) (set (rs_reservableQueue s))"
  using assms by (auto simp: PushReservableJob_def Let_def)

lemma given_made:
  assumes "reach rs_init (rs_step N) s"
  shows "set (given s) \<subseteq> {..<rs_next s}"
proof -
  have i: "rs_inv s" using flow.reach_inv [OF assms] by simp
  then have "set (given s) \<subseteq> set (rs_popped s)" by (intro given_in_popped) (simp add: rs_inv_def)
  moreover have "set (rs_popped s) \<subseteq> {..<rs_next s}" using i by (auto simp: rs_inv_def placed_def)
  ultimately show ?thesis by blast
qed

section \<open>Properties\<close>

text \<open>The three reservations on an empty queue: whatever the clock reads, a check finds the due ones of them in the
  order 2, 1, 3.\<close>

lemma LibTest_reservations_queue:
  assumes "rs_reservableQueue s = []" "unat (rs_clock s) + 1500 < 2 ^ 64"
  shows "rs_reservableQueue (LibTest_reservations s) = [rs_next s + 1, rs_next s, rs_next s + 2]"
    and "map (\<lambda>i. (rj_executionTick (rs_obj (LibTest_reservations s) i), rj_job (rs_obj (LibTest_reservations s) i)))
      [rs_next s + 1, rs_next s, rs_next s + 2] =
      [(rs_clock s + 500, Print_call 2), (rs_clock s + 1000, Print_call 1), (rs_clock s + 1500, Print_call 3)]"
proof -
  have u: "unat (rs_clock s + 500) = unat (rs_clock s) + 500" "unat (rs_clock s + 1000) = unat (rs_clock s) + 1000"
    "unat (rs_clock s + 1500) = unat (rs_clock s) + 1500"
    using assms(2) by (subst unat_add_lem [THEN iffD1]; simp)+
  show "rs_reservableQueue (LibTest_reservations s) = [rs_next s + 1, rs_next s, rs_next s + 2]"
    "map (\<lambda>i. (rj_executionTick (rs_obj (LibTest_reservations s) i), rj_job (rs_obj (LibTest_reservations s) i)))
      [rs_next s + 1, rs_next s, rs_next s + 2] =
      [(rs_clock s + 500, Print_call 2), (rs_clock s + 1000, Print_call 1), (rs_clock s + 1500, Print_call 3)]"
    using assms(1) u
    by (simp_all add: LibTest_reservations_def PushReservableJob_def later_def ReservableJobCompare_def ReservableJob_new_def
        word_less_nat_alt Let_def ac_simps)
qed

theorem LibTest_reservations_order:
  assumes "rs_reservableQueue s = []" "unat (rs_clock s) + 1500 < 2 ^ 64" "LibTest_reservations s = s'"
    and "pq_pop_while (\<lambda>i. \<not> rj_executionTick (rs_obj s' i) > now) [] (rs_reservableQueue s') = (jobs, q)"
  shows "map (\<lambda>i. rj_job (rs_obj s' i)) jobs = map snd (takeWhile (\<lambda>(tick, _). tick \<le> now)
    [(rs_clock s + 500, Print_call 2), (rs_clock s + 1000, Print_call 1), (rs_clock s + 1500, Print_call 3)])"
proof -
  note q = LibTest_reservations_queue [OF assms(1,2)]
  have "jobs = takeWhile (\<lambda>i. rj_executionTick (rs_obj s' i) \<le> now) [rs_next s + 1, rs_next s, rs_next s + 2]"
    using assms(3,4) q(1) by (simp add: pq_pop_while_eq not_less)
  then show ?thesis
    unfolding q(2) [symmetric] assms(3) takeWhile_map map_map comp_def by (simp add: comp_def)
qed

text \<open>A round of the second task, run by a thread that is in no method of the serializer: the reserved call of
  \<^verbatim>\<open>Reserve\<close> that it cancels is never executed, whatever all threads do from then on, so that round does not
  change the room's \<^verbatim>\<open>n\<close>; the call of \<^verbatim>\<open>Print\<close> is in the queue and due 150 ticks later.\<close>

theorem LibTest_round_result:
  assumes "reach rs_init (rs_step N) s" "t < N" "free_thread s t" "rs_check s t = C_Idle" "rs_made s t = None"
    and "LibTest_round rand s = (i, k, s1)"
  shows "reach rs_init (rs_step N) s1 \<and> rj_job (rs_obj s1 i) = Reserve_call \<and>
    (\<forall>s2. reach (\<lambda>m. m = s1) (rs_step N) s2 \<longrightarrow> Reserved i \<notin> set (js_executed (rs_js s2))) \<and>
    k \<in> set (rs_reservableQueue s1) \<and> rj_job (rs_obj s1 k) = Print_call rand \<and> \<not> rj_canceled (rs_obj s1 k) \<and>
    rj_executionTick (rs_obj s1 k) = rs_clock s + 150"
proof -
  obtain a where a: "PushReservableJob 100 Reserve_call s = (i, a)"
    and b: "\<exists>b. PushReservableJob 150 (Print_call rand) a = (k, b) \<and> s1 = Cancel_at i b"
    using assms(6) by (auto simp: LibTest_round_def Let_def split: prod.splits)
  from b obtain b where b: "PushReservableJob 150 (Print_call rand) a = (k, b)" "s1 = Cancel_at i b" by blast
  note ka = PushReservableJob_keeps [OF a] and kb = PushReservableJob_keeps [OF b(1)]
  have ra: "reach rs_init (rs_step N) a" by (rule PushReservableJob_reach [OF assms(1-5) a])
  have rb: "reach rs_init (rs_step N) b"
    using assms(2-5) ka by (intro PushReservableJob_reach [OF ra _ _ _ _ b(1)]) (simp_all add: free_thread_def)
  have "placed s" using flow.reach_inv [OF assms(1)] by (simp add: rs_inv_def)
  then have "rs_made s u \<noteq> Some (rs_next s)" for u unfolding placed_def by (metis less_irrefl)
  then have c: "i < rs_next b" "\<forall>u. rs_made b u \<noteq> Some i" by (simp_all add: ka kb)
  have r1: "reach rs_init (rs_step N) s1" unfolding b(2) Cancel_at_def by (rule reach_step [OF rb rs_cancel [OF c]])
  have "i \<notin> set (given s1)"
    using given_made [OF assms(1)] by (auto simp: b(2) Cancel_at_def given_def ka(1,6) kb(6))
  moreover have "i < rs_next s1" "rj_canceled (rs_obj s1 i)" using c(1) by (simp_all add: b(2) Cancel_at_def ReservableJob_Cancel_def)
  ultimately have "cancelled i s1" by (simp add: cancelled_def)
  then have "Reserved i \<notin> set (js_executed (rs_js s2))" if "reach (\<lambda>m. m = s1) (rs_step N) s2" for s2
    using cancelled_not_executed [OF r1 _ that] by blast
  moreover have "k \<noteq> i" by (simp add: ka(1,2) kb(1))
  ultimately show ?thesis
    using r1 ka(1,2,8,9) kb(1,9,10)
    by (auto simp: b(2) Cancel_at_def ReservableJob_Cancel_def ReservableJob_new_def)
qed

text \<open>The first round of the program.\<close>

lemma LibTest_first_round:
  assumes "rs_init (s :: room_job rs_sys)" and "LibTest_round rand s = (i, k, s1)"
    and "reach (\<lambda>m. m = s1) (rs_step 1) s2"
  shows "Reserved i \<notin> set (js_executed (rs_js s2))"
proof -
  have "reach rs_init (rs_step 1) s" using assms(1) by (rule reach_init)
  moreover have "free_thread s 0" "rs_check s 0 = C_Idle" "rs_made s 0 = None"
    using assms(1) by (simp_all add: rs_init_def js_init_def free_thread_def)
  ultimately show ?thesis using LibTest_round_result [of 1 s 0 rand i k s1] assms(2,3) by simp
qed

end
