(* ===== verification/Recv_Buffer.thy ===== *)
theory Recv_Buffer
  imports Error_Handler
begin

text \<open>
  The receive buffer of a session: \<^verbatim>\<open>RecvBuffer.h\<close> and \<^verbatim>\<open>RecvBuffer.cpp\<close> under
  \<^verbatim>\<open>src/MyNetworkLib/\<close>. The positions and sizes are 32-bit and every subtraction and addition on
  them wraps as in the source. A pointer into the vector is an offset; an offset outside of it, a
  copy beyond it and a \<^verbatim>\<open>memcpy\<close> between overlapping ranges are faults. The system call that fills
  the buffer is \<open>recv_bytes\<close>: it stores bytes from the write position on, at most as many as it was
  told are free.
\<close>

section \<open>State and operations\<close>

abbreviation (input) BUFFER_COUNT :: uint32 where "BUFFER_COUNT \<equiv> 10"

record recv_buffer =
  rb_buffer :: "ubyte list"
  rb_bufferSize :: uint32
  rb_capacity :: uint32
  rb_dataPos :: uint32
  rb_writePos :: uint32

definition RecvBuffer_new :: "uint32 \<Rightarrow> recv_buffer" where
  "RecvBuffer_new bufferSize =
     \<lparr>rb_buffer = replicate (unat (bufferSize * BUFFER_COUNT)) 0, rb_bufferSize = bufferSize,
      rb_capacity = bufferSize * BUFFER_COUNT, rb_dataPos = 0, rb_writePos = 0\<rparr>"

definition RecvBuffer_DataSize :: "recv_buffer \<Rightarrow> uint32" where
  "RecvBuffer_DataSize b = rb_writePos b - rb_dataPos b"

definition RecvBuffer_FreeSize :: "recv_buffer \<Rightarrow> uint32" where
  "RecvBuffer_FreeSize b = rb_bufferSize b - rb_writePos b"

definition RecvBuffer_WritePos :: "recv_buffer \<Rightarrow> nat outcome" where
  "RecvBuffer_WritePos b =
     (if unat (rb_writePos b) < length (rb_buffer b) then Ok (unat (rb_writePos b))
      else Fault OutOfRange)"

definition RecvBuffer_DataPos :: "recv_buffer \<Rightarrow> nat outcome" where
  "RecvBuffer_DataPos b =
     (if unat (rb_dataPos b) < length (rb_buffer b) then Ok (unat (rb_dataPos b))
      else Fault OutOfRange)"

definition RecvBuffer_Read ::
    "uint32 \<Rightarrow> recv_buffer \<Rightarrow> err_state \<Rightarrow> bool \<times> recv_buffer \<times> err_state" where
  "RecvBuffer_Read sz b s =
     (if sz > RecvBuffer_DataSize b then (False, b, SetLastError APP_RECVBUFFER_INVALID_DATA s)
      else (True, b\<lparr>rb_dataPos := rb_dataPos b + sz\<rparr>, s))"

definition RecvBuffer_Write ::
    "uint32 \<Rightarrow> recv_buffer \<Rightarrow> err_state \<Rightarrow> bool \<times> recv_buffer \<times> err_state" where
  "RecvBuffer_Write sz b s =
     (if sz > RecvBuffer_FreeSize b then (False, b, SetLastError APP_RECVBUFFER_OVERFLOW s)
      else (True, b\<lparr>rb_writePos := rb_writePos b + sz\<rparr>, s))"

text \<open>\<^verbatim>\<open>memcpy\<close> between two places of one array.\<close>

definition memcpy_within :: "'a list \<Rightarrow> nat \<Rightarrow> nat \<Rightarrow> nat \<Rightarrow> 'a list outcome" where
  "memcpy_within buf dst src n =
     (if length buf < src + n \<or> length buf < dst + n then Fault BufferOverrun
      else if 0 < n \<and> dst < src + n \<and> src < dst + n then Fault OverlappingCopy
      else Ok (take dst buf @ take n (drop src buf) @ drop (dst + n) buf))"

definition RecvBuffer_Clear :: "recv_buffer \<Rightarrow> recv_buffer outcome" where
  "RecvBuffer_Clear b =
     (let dataSize = RecvBuffer_DataSize b
      in if dataSize = 0 then Ok (b\<lparr>rb_writePos := 0, rb_dataPos := 0\<rparr>)
         else if RecvBuffer_FreeSize b < rb_bufferSize b
         then and_then (memcpy_within (rb_buffer b) 0 (unat (rb_dataPos b)) (unat dataSize))
                (\<lambda>buf. Ok (b\<lparr>rb_buffer := buf, rb_dataPos := 0, rb_writePos := dataSize\<rparr>))
         else Ok b)"

text \<open>What \<^verbatim>\<open>WSARecv\<close> does with the pair of \<^verbatim>\<open>WritePos()\<close> and \<^verbatim>\<open>FreeSize()\<close>: store the received bytes
  there; the caller then moves the write position with \<^verbatim>\<open>Write\<close>.\<close>

definition store_bytes :: "'a list \<Rightarrow> nat \<Rightarrow> 'a list \<Rightarrow> 'a list" where
  "store_bytes buf pos bs = take pos buf @ bs @ drop (pos + length bs) buf"

definition recv_bytes :: "ubyte list \<Rightarrow> recv_buffer \<Rightarrow> recv_buffer outcome" where
  "recv_bytes bs b =
     and_then (RecvBuffer_WritePos b)
       (\<lambda>pos. if length (rb_buffer b) < pos + length bs then Fault BufferOverrun
              else Ok (b\<lparr>rb_buffer := store_bytes (rb_buffer b) pos bs\<rparr>))"

section \<open>The stored bytes\<close>

definition rb_contents :: "recv_buffer \<Rightarrow> ubyte list" where
  "rb_contents b =
     take (unat (rb_writePos b) - unat (rb_dataPos b)) (drop (unat (rb_dataPos b)) (rb_buffer b))"

text \<open>The read position is behind the write position, which stays within the nominal size; the
  vector has ten times that size, provided the product fits 32 bits.\<close>

definition rb_inv :: "recv_buffer \<Rightarrow> bool" where
  "rb_inv b \<longleftrightarrow> rb_dataPos b \<le> rb_writePos b \<and> rb_writePos b \<le> rb_bufferSize b \<and>
     length (rb_buffer b) = unat (rb_capacity b) \<and>
     unat (rb_capacity b) = 10 * unat (rb_bufferSize b) \<and> 0 < rb_bufferSize b"

lemma rb_inv_nat:
  assumes "rb_inv b"
  shows "unat (rb_dataPos b) \<le> unat (rb_writePos b)"
    and "unat (rb_writePos b) \<le> unat (rb_bufferSize b)"
    and "unat (rb_writePos b) < length (rb_buffer b)"
    and "length (rb_buffer b) = 10 * unat (rb_bufferSize b)"
    and "unat (RecvBuffer_DataSize b) = unat (rb_writePos b) - unat (rb_dataPos b)"
    and "unat (RecvBuffer_FreeSize b) = unat (rb_bufferSize b) - unat (rb_writePos b)"
    and "length (rb_contents b) = unat (RecvBuffer_DataSize b)"
proof -
  show 1: "unat (rb_dataPos b) \<le> unat (rb_writePos b)"
    and 2: "unat (rb_writePos b) \<le> unat (rb_bufferSize b)"
    using assms by (simp_all add: rb_inv_def word_le_nat_alt)
  have "0 < unat (rb_bufferSize b)"
    using assms by (simp add: rb_inv_def word_less_nat_alt)
  then show 3: "unat (rb_writePos b) < length (rb_buffer b)"
    and 4: "length (rb_buffer b) = 10 * unat (rb_bufferSize b)"
    using assms 2 by (simp_all add: rb_inv_def)
  show 5: "unat (RecvBuffer_DataSize b) = unat (rb_writePos b) - unat (rb_dataPos b)"
    and "unat (RecvBuffer_FreeSize b) = unat (rb_bufferSize b) - unat (rb_writePos b)"
    using assms by (simp_all add: rb_inv_def RecvBuffer_DataSize_def RecvBuffer_FreeSize_def unat_sub_small)
  from 1 3 5 show "length (rb_contents b) = unat (RecvBuffer_DataSize b)"
    by (simp add: rb_contents_def)
qed

lemma RecvBuffer_new_inv:
  assumes "0 < n" and "unat n * 10 < 2 ^ 32"
  shows "rb_inv (RecvBuffer_new n)" and "rb_contents (RecvBuffer_new n) = []"
proof -
  have "unat (n * 10) = unat n * 10"
    using assms(2) by (simp add: unat_mult_lem [THEN iffD1])
  with assms(1) show "rb_inv (RecvBuffer_new n)"
    by (simp add: rb_inv_def RecvBuffer_new_def)
qed (simp add: rb_contents_def RecvBuffer_new_def)

section \<open>Each operation on the stored bytes\<close>

lemma RecvBuffer_Read_ok:
  assumes inv: "rb_inv b" and r: "RecvBuffer_Read sz b s = (True, b', s')"
  shows "rb_inv b'" and "unat sz \<le> length (rb_contents b)"
    and "rb_contents b' = drop (unat sz) (rb_contents b)" and "s' = s"
proof -
  note n = rb_inv_nat [OF inv]
  from r have le: "sz \<le> RecvBuffer_DataSize b" and b': "b' = b\<lparr>rb_dataPos := rb_dataPos b + sz\<rparr>"
    and "s' = s"
    by (auto simp: RecvBuffer_Read_def split: if_splits)
  then have le': "unat sz \<le> unat (rb_writePos b) - unat (rb_dataPos b)"
    using n(5) by (simp add: word_le_nat_alt)
  have "unat (rb_dataPos b) + unat sz < 2 ^ LENGTH(32)"
    using le' n(1) unat_uint32_bound [of "rb_writePos b"] by simp
  then have pos: "unat (rb_dataPos b + sz) = unat (rb_dataPos b) + unat sz"
    by (rule unat_add_small)
  show "unat sz \<le> length (rb_contents b)" using le' n(5,7) by simp
  show "rb_inv b'"
    using inv le' n(1) by (simp add: b' rb_inv_def word_le_nat_alt pos)
  show "rb_contents b' = drop (unat sz) (rb_contents b)"
    by (simp add: b' rb_contents_def pos drop_take add.commute [of "unat sz"])
  show "s' = s" by fact
qed

lemma RecvBuffer_Write_ok:
  assumes inv: "rb_inv b" and len: "unat sz = length bs"
    and fill: "rb_buffer b1 = store_bytes (rb_buffer b) (unat (rb_writePos b)) bs"
      "b1 = b\<lparr>rb_buffer := rb_buffer b1\<rparr>"
    and w: "RecvBuffer_Write sz b1 s = (True, b', s')"
  shows "rb_inv b'" and "rb_contents b' = rb_contents b @ bs" and "s' = s"
proof -
  note n = rb_inv_nat [OF inv]
  have pos: "rb_writePos b1 = rb_writePos b" "rb_dataPos b1 = rb_dataPos b"
    "rb_bufferSize b1 = rb_bufferSize b" "rb_capacity b1 = rb_capacity b"
    by (subst fill(2), simp)+
  from w have le: "sz \<le> RecvBuffer_FreeSize b1"
    and b': "b' = b1\<lparr>rb_writePos := rb_writePos b1 + sz\<rparr>" and "s' = s"
    by (auto simp: RecvBuffer_Write_def split: if_splits)
  have "RecvBuffer_FreeSize b1 = RecvBuffer_FreeSize b"
    by (simp add: RecvBuffer_FreeSize_def pos)
  with le have le': "length bs \<le> unat (rb_bufferSize b) - unat (rb_writePos b)"
    using n(6) len by (simp add: word_le_nat_alt)
  have "unat (rb_writePos b) + unat sz < 2 ^ LENGTH(32)"
    using le' len n(2) unat_uint32_bound [of "rb_bufferSize b"] by simp
  then have wp: "unat (rb_writePos b + sz) = unat (rb_writePos b) + length bs"
    using len by (simp add: unat_add_small)
  have room: "unat (rb_writePos b) + length bs \<le> length (rb_buffer b)"
    using le' n(2,4) by simp
  then show "rb_inv b'"
    using inv n(1,2) le' wp
    by (simp add: b' rb_inv_def pos fill(1) store_bytes_def word_le_nat_alt)
  show "rb_contents b' = rb_contents b @ bs"
    using room n(1) wp
    by (simp add: b' rb_contents_def pos fill(1) store_bytes_def drop_take)
  show "s' = s" by fact
qed

lemma RecvBuffer_Clear_cases:
  assumes inv: "rb_inv b"
  shows "RecvBuffer_Clear b =
    (if rb_dataPos b = rb_writePos b then Ok (b\<lparr>rb_writePos := 0, rb_dataPos := 0\<rparr>)
     else if unat (rb_dataPos b) < unat (RecvBuffer_DataSize b) then Fault OverlappingCopy
     else Ok (b\<lparr>rb_buffer := rb_contents b @ drop (unat (RecvBuffer_DataSize b)) (rb_buffer b),
                rb_dataPos := 0, rb_writePos := RecvBuffer_DataSize b\<rparr>))"
proof (cases "rb_dataPos b = rb_writePos b")
  case True
  then show ?thesis by (simp add: RecvBuffer_Clear_def RecvBuffer_DataSize_def Let_def)
next
  case False
  note n = rb_inv_nat [OF inv]
  from False n(1) have "unat (rb_dataPos b) < unat (rb_writePos b)"
    by (metis le_neq_implies_less word_unat_eq_iff)
  with n have "0 < unat (RecvBuffer_DataSize b)" and "RecvBuffer_FreeSize b < rb_bufferSize b"
    and "RecvBuffer_DataSize b \<noteq> 0"
    by (auto simp: word_less_nat_alt RecvBuffer_DataSize_def)
  moreover have "unat (rb_dataPos b) + unat (RecvBuffer_DataSize b) \<le> length (rb_buffer b)"
    using n by simp
  ultimately show ?thesis
    using False n by (auto simp: RecvBuffer_Clear_def memcpy_within_def rb_contents_def Let_def)
qed

lemma RecvBuffer_Clear_ok:
  assumes inv: "rb_inv b" and c: "RecvBuffer_Clear b = Ok b'"
  shows "rb_inv b'" and "rb_contents b' = rb_contents b" and "rb_dataPos b' = 0"
    and "rb_bufferSize b' = rb_bufferSize b"
proof -
  note n = rb_inv_nat [OF inv]
  consider (none) "rb_dataPos b = rb_writePos b" "b' = b\<lparr>rb_writePos := 0, rb_dataPos := 0\<rparr>"
    | (move) "rb_dataPos b \<noteq> rb_writePos b"
      "b' = b\<lparr>rb_buffer := rb_contents b @ drop (unat (RecvBuffer_DataSize b)) (rb_buffer b),
              rb_dataPos := 0, rb_writePos := RecvBuffer_DataSize b\<rparr>"
    using c by (auto simp: RecvBuffer_Clear_cases [OF inv] split: if_splits)
  then have "rb_inv b' \<and> rb_contents b' = rb_contents b \<and> rb_dataPos b' = 0 \<and>
    rb_bufferSize b' = rb_bufferSize b"
  proof cases
    case none
    then show ?thesis using inv by (simp add: rb_inv_def rb_contents_def)
  next
    case move
    have "RecvBuffer_DataSize b \<le> rb_bufferSize b"
      using n(2,5) by (simp add: word_le_nat_alt)
    moreover have "unat (RecvBuffer_DataSize b) \<le> length (rb_buffer b)"
      using n by simp
    ultimately have "rb_inv b'" and "rb_contents b' = rb_contents b"
      using inv n(7) by (simp_all add: move(2) rb_inv_def rb_contents_def [of "b\<lparr>rb_buffer := _, rb_dataPos := _, rb_writePos := _\<rparr>"])
    then show ?thesis by (simp add: move(2))
  qed
  then show "rb_inv b'" "rb_contents b' = rb_contents b" "rb_dataPos b' = 0"
    "rb_bufferSize b' = rb_bufferSize b"
    by simp_all
qed

section \<open>The buffer as a stream of bytes\<close>

text \<open>A component that takes bytes in and hands bytes out: one operation reports the bytes it took
  in and the bytes it handed out.\<close>

fun stream_run ::
    "('op \<Rightarrow> 'b \<Rightarrow> ('x list \<times> 'x list \<times> 'b) outcome) \<Rightarrow> 'op list \<Rightarrow> 'b \<Rightarrow>
     ('x list \<times> 'x list \<times> 'b) outcome" where
  "stream_run exec [] b = Ok ([], [], b)"
| "stream_run exec (op # ops) b =
     and_then (exec op b) (\<lambda>(i, out, b1).
       and_then (stream_run exec ops b1) (\<lambda>(is, outs, b2). Ok (i @ is, out @ outs, b2)))"

locale stream_store =
  fixes contents :: "'b \<Rightarrow> 'x list"
    and ok :: "'b \<Rightarrow> bool"
    and exec :: "'op \<Rightarrow> 'b \<Rightarrow> ('x list \<times> 'x list \<times> 'b) outcome"
  assumes exec_ok: "ok b \<Longrightarrow> exec op b = Ok (i, out, b') \<Longrightarrow> ok b'"
    and exec_stream: "ok b \<Longrightarrow> exec op b = Ok (i, out, b') \<Longrightarrow> contents b @ i = out @ contents b'"
begin

lemma run_stream:
  "ok b \<Longrightarrow> stream_run exec ops b = Ok (is, outs, b') \<Longrightarrow>
     ok b' \<and> contents b @ is = outs @ contents b'"
proof (induction ops arbitrary: b "is" outs)
  case (Cons op ops)
  from Cons.prems(2) obtain i out b1 is2 outs2
    where 1: "exec op b = Ok (i, out, b1)" and 2: "stream_run exec ops b1 = Ok (is2, outs2, b')"
      and 3: "is = i @ is2" "outs = out @ outs2"
    by (auto split: prod.splits)
  have 4: "contents b @ i = out @ contents b1" using exec_stream [OF Cons.prems(1) 1] .
  from Cons.IH [OF exec_ok [OF Cons.prems(1) 1] 2]
  have "ok b'" and "contents b1 @ is2 = outs2 @ contents b'" by simp_all
  with 4 show ?case by (simp add: 3) (metis append.assoc)
qed simp

end

datatype rb_op = Rb_Receive "ubyte list" | Rb_Write uint32 | Rb_Read uint32 | Rb_Clear

text \<open>A receive stores at most \<^verbatim>\<open>FreeSize()\<close> bytes at \<^verbatim>\<open>WritePos()\<close> and moves the write position by their
  number; a write of any size moves the write position over what is in the vector there, or is refused; a
  read takes the bytes at \<^verbatim>\<open>DataPos()\<close> and moves the read position, or is refused.\<close>

fun rb_exec :: "rb_op \<Rightarrow> recv_buffer \<times> err_state \<Rightarrow>
    (ubyte list \<times> ubyte list \<times> recv_buffer \<times> err_state) outcome" where
  "rb_exec (Rb_Receive bs) (b, s) =
     (let got = take (unat (RecvBuffer_FreeSize b)) bs
      in and_then (recv_bytes got b) (\<lambda>b1.
           case RecvBuffer_Write (of_nat (length got)) b1 s of (done, b2, s2) \<Rightarrow>
             Ok (if done then got else [], [], b2, s2)))"
| "rb_exec (Rb_Write n) (b, s) =
     (case RecvBuffer_Write n b s of (done, b1, s1) \<Rightarrow>
        Ok (if done then take (unat n) (drop (unat (rb_writePos b)) (rb_buffer b)) else [], [], b1, s1))"
| "rb_exec (Rb_Read n) (b, s) =
     (case RecvBuffer_Read n b s of (done, b1, s1) \<Rightarrow>
        and_then (RecvBuffer_DataPos b) (\<lambda>pos.
          Ok ([], if done then take (unat n) (drop pos (rb_buffer b)) else [], b1, s1)))"
| "rb_exec Rb_Clear (b, s) = and_then (RecvBuffer_Clear b) (\<lambda>b1. Ok ([], [], b1, s))"

lemma rb_exec_stream:
  assumes inv: "rb_inv b" and e: "rb_exec op (b, s) = Ok (i, out, b', s')"
  shows "rb_inv b' \<and> rb_contents b @ i = out @ rb_contents b'"
proof (cases op)
  case (Rb_Receive bs)
  define got where "got = take (unat (RecvBuffer_FreeSize b)) bs"
  have "length got \<le> unat (RecvBuffer_FreeSize b)" by (simp add: got_def)
  then have len: "unat (of_nat (length got) :: uint32) = length got"
    using unat_uint32_bound [of "RecvBuffer_FreeSize b"] by (simp add: unat_of_nat_small)
  from e obtain b1 where fill: "recv_bytes got b = Ok b1"
    and rest: "(case RecvBuffer_Write (of_nat (length got)) b1 s of (dn, b2, s2) \<Rightarrow>
      Ok (if dn then got else [], [], b2, s2)) = Ok (i, out, b', s')"
    by (simp only: Rb_Receive rb_exec.simps Let_def got_def [symmetric] and_then_Ok_iff) blast
  obtain dn where w: "RecvBuffer_Write (of_nat (length got)) b1 s = (dn, b', s')"
    and io: "i = (if dn then got else [])" "out = []"
    using rest by (cases "RecvBuffer_Write (of_nat (length got)) b1 s") auto
  from fill have b1: "b1 = b\<lparr>rb_buffer := store_bytes (rb_buffer b) (unat (rb_writePos b)) got\<rparr>"
    by (auto simp: recv_bytes_def RecvBuffer_WritePos_def split: if_splits)
  then have "of_nat (length got) \<le> RecvBuffer_FreeSize b1"
    using len by (simp add: word_le_nat_alt got_def RecvBuffer_FreeSize_def)
  with w have "dn" by (auto simp: RecvBuffer_Write_def split: if_splits)
  with RecvBuffer_Write_ok [OF inv len, of b1 s b' s'] w b1 show ?thesis by (simp add: io)
next
  case (Rb_Write n)
  let ?bs = "take (unat n) (drop (unat (rb_writePos b)) (rb_buffer b))"
  from e obtain dn where w: "RecvBuffer_Write n b s = (dn, b', s')" and io: "i = (if dn then ?bs else [])" "out = []"
    by (auto simp: Rb_Write split: prod.splits)
  show ?thesis
  proof (cases dn)
    case True
    then have "n \<le> RecvBuffer_FreeSize b" using w by (auto simp: RecvBuffer_Write_def split: if_splits)
    then have len: "unat n = length ?bs" using rb_inv_nat [OF inv] by (simp add: word_le_nat_alt)
    have "rb_buffer b = store_bytes (rb_buffer b) (unat (rb_writePos b)) ?bs"
      unfolding store_bytes_def len [symmetric] by (simp flip: drop_drop add: add.commute)
    with RecvBuffer_Write_ok [OF inv len, of b s b' s'] w True show ?thesis by (simp add: io)
  next
    case False
    with w inv show ?thesis by (auto simp: io RecvBuffer_Write_def split: if_splits)
  qed
next
  case (Rb_Read n)
  from e obtain dn where r: "RecvBuffer_Read n b s = (dn, b', s')"
    and io: "i = []" "out = (if dn then take (unat n) (drop (unat (rb_dataPos b)) (rb_buffer b)) else [])"
    by (auto simp: Rb_Read RecvBuffer_DataPos_def split: prod.splits if_splits)
  show ?thesis
  proof (cases dn)
    case True
    with r have r': "RecvBuffer_Read n b s = (True, b', s')" by simp
    note ok = RecvBuffer_Read_ok [OF inv r']
    have "out = take (unat n) (rb_contents b)"
      using True ok(2) rb_inv_nat [OF inv] by (simp add: io rb_contents_def min_def)
    with ok io(1) show ?thesis by simp
  next
    case False
    with r inv show ?thesis by (auto simp: io RecvBuffer_Read_def split: if_splits)
  qed
next
  case Rb_Clear
  with e have "RecvBuffer_Clear b = Ok b'" and "i = []" and "out = []" by auto
  with RecvBuffer_Clear_ok [OF inv, of b'] show ?thesis by simp
qed

interpretation RecvBuffer: stream_store "\<lambda>(b, s). rb_contents b" "\<lambda>(b, s). rb_inv b" rb_exec
proof
  show "(case b' of (b, s) \<Rightarrow> rb_inv b)"
    if "case b of (b, s) \<Rightarrow> rb_inv b" "rb_exec op b = Ok (i, out, b')" for b op i out b'
    using that rb_exec_stream [of "fst b" op "snd b"] by (auto split: prod.splits)
  show "(case b of (b, s) \<Rightarrow> rb_contents b) @ i = out @ (case b' of (b, s) \<Rightarrow> rb_contents b)"
    if "case b of (b, s) \<Rightarrow> rb_inv b" "rb_exec op b = Ok (i, out, b')" for b op i out b'
    using that rb_exec_stream [of "fst b" op "snd b"] by (auto split: prod.splits)
qed

text \<open>The nominal size never changes, and the only fault of an operation on a well-formed buffer is the copy of
  \<^verbatim>\<open>Clear\<close> onto itself.\<close>

lemma rb_exec_size: "rb_exec op (b, s) = Ok (i, out, b', s') \<Longrightarrow> rb_bufferSize b' = rb_bufferSize b"
  by (cases op) (auto simp: recv_bytes_def RecvBuffer_Write_def RecvBuffer_Read_def RecvBuffer_Clear_def Let_def
      split: prod.splits if_splits)

lemma rb_run_size:
  "stream_run rb_exec ops (b, s) = Ok (received, out, b', s') \<Longrightarrow> rb_bufferSize b' = rb_bufferSize b"
proof (induction ops arbitrary: b s received out)
  case (Cons op ops)
  then obtain i o1 b1 s1 received1 out1 where "rb_exec op (b, s) = Ok (i, o1, b1, s1)"
    "stream_run rb_exec ops (b1, s1) = Ok (received1, out1, b', s')"
    by auto
  with Cons.IH rb_exec_size show ?case by metis
qed simp

lemma rb_exec_fault:
  assumes inv: "rb_inv b" and e: "rb_exec op (b, s) = Fault e"
  shows "op = Rb_Clear \<and> e = OverlappingCopy"
proof (cases op)
  case (Rb_Receive bs)
  have "unat (rb_writePos b) + length (take (unat (RecvBuffer_FreeSize b)) bs) \<le> length (rb_buffer b)"
    using rb_inv_nat [OF inv] by auto
  with e rb_inv_nat [OF inv] show ?thesis
    by (auto simp: Rb_Receive recv_bytes_def RecvBuffer_WritePos_def Let_def split: prod.splits if_splits)
next
  case (Rb_Write n)
  with e show ?thesis by (simp split: prod.splits)
next
  case (Rb_Read n)
  with e rb_inv_nat [OF inv] show ?thesis by (auto simp: RecvBuffer_DataPos_def split: prod.splits if_splits)
next
  case Rb_Clear
  with e have "RecvBuffer_Clear b = Fault e" by (cases "RecvBuffer_Clear b") auto
  with inv Rb_Clear show ?thesis by (auto simp: RecvBuffer_Clear_cases split: if_splits)
qed

section \<open>Properties of the receive buffer\<close>

text \<open>C17. Over any sequence of receives, writes, reads and \<^verbatim>\<open>Clear\<close> calls that does not fault, starting with a
  well-formed buffer, the bytes the buffer held followed by the bytes received are the bytes read
  followed by the bytes it still holds: nothing is lost, duplicated or reordered, whether or not
  \<^verbatim>\<open>Clear\<close> moved the data, and the buffer stays well-formed.\<close>

theorem RecvBuffer_stream:
  assumes "rb_inv b" and "stream_run rb_exec ops (b, s) = Ok (received, out, b', s')"
  shows "rb_inv b' \<and> rb_contents b @ received = out @ rb_contents b'"
  using RecvBuffer.run_stream [of "(b, s)" ops received out "(b', s')"] assms by simp

theorem RecvBuffer_stream_witness:
  "rb_contents (RecvBuffer_new 4) @ [1, 2, 3, 4] = [1, 2, 3] @ [4 :: ubyte]"
proof -
  have inv: "rb_inv (RecvBuffer_new 4)" by (rule RecvBuffer_new_inv) simp_all
  define b' where "b' = \<lparr>rb_buffer = [4, 2, 3, 4] @ replicate 36 0, rb_bufferSize = 4, rb_capacity = 40,
    rb_dataPos = 0, rb_writePos = 1\<rparr>"
  have run: "stream_run rb_exec
      [Rb_Receive [1, 2], Rb_Read 1, Rb_Receive [3, 4, 5], Rb_Read 2, Rb_Clear]
      (RecvBuffer_new 4, \<lparr>app_last_error = 0\<rparr>) =
      Ok ([1, 2, 3, 4], [1, 2, 3], b', \<lparr>app_last_error = 0\<rparr>)"
    unfolding b'_def by code_simp
  have "rb_contents b' = [4]" by (simp add: b'_def rb_contents_def)
  with RecvBuffer_stream [OF inv run] show ?thesis by simp
qed



text \<open>\<^verbatim>\<open>Clear\<close> on a well-formed buffer: with no unread data it resets both positions; with unread
  data it always moves, because \<^verbatim>\<open>FreeSize()\<close> is measured against the nominal size and not the
  capacity, and the \<^verbatim>\<open>memcpy\<close> it uses is undefined whenever fewer bytes were read than remain, since
  the ranges overlap. When it is defined it keeps the unread bytes and frees all the room they do
  not take.\<close>

theorem RecvBuffer_Clear_result:
  assumes "rb_inv b"
  shows "(RecvBuffer_Clear b = Fault OverlappingCopy \<longleftrightarrow> rb_dataPos b < RecvBuffer_DataSize b) \<and>
    (RecvBuffer_DataSize b \<le> rb_dataPos b \<longleftrightarrow>
      (\<exists>b'. RecvBuffer_Clear b = Ok b' \<and> rb_inv b' \<and> rb_contents b' = rb_contents b \<and> rb_dataPos b' = 0 \<and>
        unat (RecvBuffer_FreeSize b') = unat (rb_bufferSize b) - length (rb_contents b)))"
proof (cases "RecvBuffer_Clear b")
  case (Fault f)
  with assms show ?thesis
    by (auto simp: RecvBuffer_Clear_cases word_less_nat_alt word_le_nat_alt split: if_splits)
next
  case (Ok b')
  note ok = RecvBuffer_Clear_ok [OF assms Ok]
  have "\<not> rb_dataPos b < RecvBuffer_DataSize b"
    using Ok assms
    by (auto simp: RecvBuffer_Clear_cases word_less_nat_alt RecvBuffer_DataSize_def split: if_splits)
  moreover have "unat (RecvBuffer_FreeSize b') = unat (rb_bufferSize b) - length (rb_contents b)"
    using rb_inv_nat [OF ok(1)] ok by simp
  ultimately show ?thesis using Ok ok by (simp add: not_less)
qed

definition rb_demo :: recv_buffer where
  "rb_demo = \<lparr>rb_buffer = replicate 40 7, rb_bufferSize = 4, rb_capacity = 40, rb_dataPos = 1, rb_writePos = 4\<rparr>"

theorem RecvBuffer_Clear_result_witness: "RecvBuffer_Clear rb_demo = Fault OverlappingCopy"
proof -
  have "rb_inv rb_demo" and "rb_dataPos rb_demo < RecvBuffer_DataSize rb_demo"
    by (simp_all add: rb_inv_def rb_demo_def RecvBuffer_DataSize_def)
  with RecvBuffer_Clear_result [of rb_demo] show ?thesis by simp
qed

end
