(* ===== verification/Send_Buffer.thy ===== *)
theory Send_Buffer
  imports Recv_Buffer
begin

text \<open>
  The send buffers: \<^verbatim>\<open>SendBuffer.h\<close>, \<^verbatim>\<open>SendBuffer.cpp\<close>, \<^verbatim>\<open>SendBufferManager.h\<close>,
  \<^verbatim>\<open>SendBufferManager.cpp\<close> and the thread-local \<^verbatim>\<open>TLS_SendBuffer\<close> of \<^verbatim>\<open>CoreTLS.cpp\<close>, under
  \<^verbatim>\<open>src/MyNetworkLib/\<close>.

  The buffers live in a store: a \<^verbatim>\<open>SendBuffer*\<close> is an index of \<open>sw_heap\<close>. A \<^verbatim>\<open>SendBufferSPtr\<close> is held by
  the manager's vector \<open>sw_pool\<close> (its last element is \<^verbatim>\<open>back()\<close>) or by a thread's \<^verbatim>\<open>TLS_SendBuffer\<close>
  (\<open>sw_tls\<close>, one slot per thread); when the last reference goes, the deleter \<^verbatim>\<open>_push\<close> hands the object
  back to the manager, with its \<^verbatim>\<open>_usedSize\<close> as it is. A writable pointer that \<^verbatim>\<open>Reserve\<close> returns is the
  pair of a buffer and an offset.
\<close>

section \<open>SendBuffer\<close>

abbreviation (input) MAX_BUFFER_SIZE :: uint32 where "MAX_BUFFER_SIZE \<equiv> 0x1000"

record send_buffer =
  sb_buffer :: "ubyte list"
  sb_usedSize :: uint32

definition SendBuffer_new :: send_buffer where
  "SendBuffer_new = \<lparr>sb_buffer = replicate (unat MAX_BUFFER_SIZE) 0, sb_usedSize = 0\<rparr>"

definition SendBuffer_FreeSize :: "send_buffer \<Rightarrow> uint32" where
  "SendBuffer_FreeSize b = of_nat (length (sb_buffer b)) - sb_usedSize b"

text \<open>The size is checked against the array's size only; \<^verbatim>\<open>memset\<close> then runs from the used size on,
  whatever room is left there.\<close>

definition SendBuffer_Reserve ::
    "uint32 \<Rightarrow> send_buffer \<Rightarrow> err_state \<Rightarrow> (nat \<times> send_buffer) outcome" where
  "SendBuffer_Reserve sz b s =
     and_then (if sz > MAX_BUFFER_SIZE then AssertCrash_always APP_SENDBUFFER_SIZE_OVERFLOW s else Ok s)
       (\<lambda>_. let ret = unat (sb_usedSize b)
            in if length (sb_buffer b) \<le> ret then Fault OutOfRange
               else if length (sb_buffer b) < ret + unat sz then Fault BufferOverrun
               else Ok (ret, b\<lparr>sb_buffer := store_bytes (sb_buffer b) ret (replicate (unat sz) 0),
                               sb_usedSize := sb_usedSize b + sz\<rparr>))"

section \<open>SendBufferManager and the thread-local buffers\<close>

record sb_world =
  sw_heap :: "send_buffer list"
  sw_pool :: "nat list"
  sw_tls :: "nat option list"

definition sw_init :: "nat \<Rightarrow> sb_world" where
  "sw_init threads = \<lparr>sw_heap = [], sw_pool = [], sw_tls = replicate threads None\<rparr>"

definition SendBufferManager_Push :: "nat \<Rightarrow> sb_world \<Rightarrow> sb_world" where
  "SendBufferManager_Push i w = w\<lparr>sw_pool := sw_pool w @ [i]\<rparr>"

definition SendBufferManager_Pop :: "sb_world \<Rightarrow> nat \<times> sb_world" where
  "SendBufferManager_Pop w =
     (if sw_pool w \<noteq> [] then (last (sw_pool w), w\<lparr>sw_pool := butlast (sw_pool w)\<rparr>)
      else (length (sw_heap w), w\<lparr>sw_heap := sw_heap w @ [SendBuffer_new]\<rparr>))"

definition TLS_SendBuffer :: "nat \<Rightarrow> sb_world \<Rightarrow> nat option" where
  "TLS_SendBuffer t w = (if t < length (sw_tls w) then sw_tls w ! t else None)"

text \<open>Dropping one reference: the deleter runs when no slot refers to the object any more.\<close>

definition release_sptr :: "nat option \<Rightarrow> sb_world \<Rightarrow> sb_world" where
  "release_sptr old w =
     (case old of None \<Rightarrow> w
      | Some i \<Rightarrow> if Some i \<in> set (sw_tls w) \<or> i \<in> set (sw_pool w) then w
                   else SendBufferManager_Push i w)"

definition set_TLS_SendBuffer :: "nat \<Rightarrow> nat option \<Rightarrow> sb_world \<Rightarrow> sb_world" where
  "set_TLS_SendBuffer t p w =
     (let old = TLS_SendBuffer t w in release_sptr old (w\<lparr>sw_tls := (sw_tls w)[t := p]\<rparr>))"

definition SendBufferManager_Reserve ::
    "nat \<Rightarrow> uint32 \<Rightarrow> sb_world \<Rightarrow> err_state \<Rightarrow> ((nat \<times> nat) \<times> sb_world) outcome" where
  "SendBufferManager_Reserve t sz w s =
     (case TLS_SendBuffer t w of None \<Rightarrow> Fault NullDereference
      | Some cur \<Rightarrow>
          let w1 = (if sz > SendBuffer_FreeSize (sw_heap w ! cur)
                    then (case SendBufferManager_Pop w of (i, w') \<Rightarrow> set_TLS_SendBuffer t (Some i) w')
                    else w)
          in (case TLS_SendBuffer t w1 of None \<Rightarrow> Fault NullDereference
              | Some i \<Rightarrow>
                  and_then (SendBuffer_Reserve sz (sw_heap w1 ! i) s)
                    (\<lambda>(pos, b). Ok ((i, pos), w1\<lparr>sw_heap := (sw_heap w1)[i := b]\<rparr>))))"

text \<open>A thread of the task managers takes a buffer when it starts (\<^verbatim>\<open>_init_tls\<close>); its thread-local
  reference is destroyed when it ends.\<close>

definition init_tls_SendBuffer :: "nat \<Rightarrow> sb_world \<Rightarrow> sb_world" where
  "init_tls_SendBuffer t w =
     (case SendBufferManager_Pop w of (i, w') \<Rightarrow> set_TLS_SendBuffer t (Some i) w')"

definition exit_tls_SendBuffer :: "nat \<Rightarrow> sb_world \<Rightarrow> sb_world" where
  "exit_tls_SendBuffer t w = set_TLS_SendBuffer t None w"

section \<open>Ownership\<close>

text \<open>Every buffer is held by one slot only, of the pool or of a thread, has 4096 bytes and a used
  size within them.\<close>

definition held_ids :: "sb_world \<Rightarrow> nat list" where
  "held_ids w = sw_pool w @ List.map_filter id (sw_tls w)"

definition sb_wf :: "send_buffer \<Rightarrow> bool" where
  "sb_wf b \<longleftrightarrow> length (sb_buffer b) = 4096 \<and> unat (sb_usedSize b) \<le> 4096"

definition sw_inv :: "sb_world \<Rightarrow> bool" where
  "sw_inv w \<longleftrightarrow> distinct (held_ids w) \<and> (\<forall>i \<in> set (held_ids w). i < length (sw_heap w)) \<and>
     (\<forall>b \<in> set (sw_heap w). sb_wf b)"

lemma map_filter_id_set [simp]: "set (List.map_filter id xs) = {i. Some i \<in> set xs}"
  by (force simp: List.map_filter_def)

lemma map_filter_id_update:
  assumes "t < length xs"
  shows "mset (List.map_filter id (xs[t := p])) + (case xs ! t of None \<Rightarrow> {#} | Some i \<Rightarrow> {#i#}) =
    mset (List.map_filter id xs) + (case p of None \<Rightarrow> {#} | Some i \<Rightarrow> {#i#})"
  using assms
proof (induction xs arbitrary: t)
  case (Cons x xs)
  show ?case
  proof (cases t)
    case 0
    then show ?thesis by (cases x; cases p) (simp_all add: List.map_filter_simps)
  next
    case (Suc u)
    with Cons show ?thesis by (cases x) (simp_all add: List.map_filter_simps)
  qed
qed simp

lemma sw_inv_init: "sw_inv (sw_init n)"
  by (auto simp: sw_inv_def sw_init_def held_ids_def List.map_filter_def)

lemma sb_wf_new [simp]: "sb_wf SendBuffer_new" and used_new [simp]: "sb_usedSize SendBuffer_new = 0"
  and length_new [simp]: "length (sb_buffer SendBuffer_new) = 4096"
  by (simp_all add: sb_wf_def SendBuffer_new_def)

lemma SendBuffer_FreeSize_wf:
  assumes "sb_wf b"
  shows "unat (SendBuffer_FreeSize b) = 4096 - unat (sb_usedSize b)"
proof -
  from assms have len: "length (sb_buffer b) = 4096" and "sb_usedSize b \<le> 4096"
    by (simp_all add: sb_wf_def word_le_nat_alt)
  then show ?thesis by (simp add: SendBuffer_FreeSize_def unat_sub_small)
qed

lemma SendBuffer_Reserve_wf:
  assumes "sb_wf b"
  shows "SendBuffer_Reserve sz b s =
    (if 4096 < sz then Fault (AssertCrash (error_code APP_SENDBUFFER_SIZE_OVERFLOW))
     else if unat (sb_usedSize b) = 4096 then Fault OutOfRange
     else if unat (SendBuffer_FreeSize b) < unat sz then Fault BufferOverrun
     else Ok (unat (sb_usedSize b),
       b\<lparr>sb_buffer := store_bytes (sb_buffer b) (unat (sb_usedSize b)) (replicate (unat sz) 0),
         sb_usedSize := sb_usedSize b + sz\<rparr>))"
  using assms SendBuffer_FreeSize_wf [OF assms]
  by (auto simp: SendBuffer_Reserve_def sb_wf_def AssertCrash_always_def ASSERT_CRASH_def
      SetLastError_def Let_def)

lemma SendBuffer_Reserve_ok:
  assumes wf: "sb_wf b" and r: "SendBuffer_Reserve sz b s = Ok (pos, b')"
  shows "sb_wf b'" and "pos = unat (sb_usedSize b)" and "unat (sb_usedSize b') = pos + unat sz"
    and "pos + unat sz \<le> 4096"
    and "take pos (sb_buffer b') = take pos (sb_buffer b)"
proof -
  from r wf have pos: "pos = unat (sb_usedSize b)" and le: "unat sz \<le> 4096 - pos" "pos \<le> 4096"
    and b': "b' = b\<lparr>sb_buffer := store_bytes (sb_buffer b) pos (replicate (unat sz) 0),
         sb_usedSize := sb_usedSize b + sz\<rparr>"
    by (auto simp: SendBuffer_Reserve_wf SendBuffer_FreeSize_wf sb_wf_def split: if_splits)
  show "pos + unat sz \<le> 4096" using le by simp
  show "unat (sb_usedSize b') = pos + unat sz"
    using le by (simp add: b' pos unat_add_small)
  with le show "sb_wf b'" using wf by (simp add: sb_wf_def b' store_bytes_def)
  show "take pos (sb_buffer b') = take pos (sb_buffer b)"
    using wf le by (simp add: b' store_bytes_def sb_wf_def)
  show "pos = unat (sb_usedSize b)" by fact
qed

lemma SendBufferManager_Pop_inv:
  assumes inv: "sw_inv w" and p: "SendBufferManager_Pop w = (i, w')"
  shows "sw_inv w'" and "i \<notin> set (held_ids w')" and "i < length (sw_heap w')"
    and "sw_tls w' = sw_tls w" and "\<exists>ext. sw_heap w' = sw_heap w @ ext"
    and "sw_pool w = [] \<Longrightarrow> sw_heap w' ! i = SendBuffer_new"
    and "sw_pool w \<noteq> [] \<Longrightarrow> sw_heap w' = sw_heap w \<and> i = last (sw_pool w)"
proof -
  have "sw_inv w' \<and> i \<notin> set (held_ids w') \<and> i < length (sw_heap w')"
  proof (cases "sw_pool w = []")
    case True
    with p have w': "w' = w\<lparr>sw_heap := sw_heap w @ [SendBuffer_new]\<rparr>" and "i = length (sw_heap w)"
      by (auto simp: SendBufferManager_Pop_def)
    with inv show ?thesis by (auto simp: sw_inv_def held_ids_def intro: less_SucI)
  next
    case False
    with p have w': "w' = w\<lparr>sw_pool := butlast (sw_pool w)\<rparr>" and i: "i = last (sw_pool w)"
      by (auto simp: SendBufferManager_Pop_def)
    from False have "sw_pool w = butlast (sw_pool w) @ [i]" by (simp add: i)
    then have "mset (held_ids w) = add_mset i (mset (held_ids w'))"
      by (simp add: held_ids_def w') (metis add_mset_add_single mset_append mset_single_iff_right)
    then have e: "mset (held_ids w) = mset (i # held_ids w')" by simp
    have "distinct (i # held_ids w')"
      using inv mset_eq_imp_distinct_iff [OF e] by (simp add: sw_inv_def)
    moreover have "set (held_ids w) = insert i (set (held_ids w'))"
      using mset_eq_setD [OF e] by simp
    ultimately show ?thesis using inv by (simp add: sw_inv_def w')
  qed
  then show "sw_inv w'" "i \<notin> set (held_ids w')" "i < length (sw_heap w')" by simp_all
qed (use p in \<open>auto simp: SendBufferManager_Pop_def split: if_splits\<close>)

lemma set_TLS_held:
  assumes t: "t < length (sw_tls w)" and d: "distinct (held_ids w)"
    and fresh: "\<forall>i. p = Some i \<longrightarrow> i \<notin> set (held_ids w)"
  shows "mset (held_ids (set_TLS_SendBuffer t p w)) =
    mset (held_ids w) + (case p of None \<Rightarrow> {#} | Some i \<Rightarrow> {#i#})"
proof -
  define w1 where "w1 = w\<lparr>sw_tls := (sw_tls w)[t := p]\<rparr>"
  have e: "mset (held_ids w1) + (case sw_tls w ! t of None \<Rightarrow> {#} | Some i \<Rightarrow> {#i#}) =
      mset (held_ids w) + (case p of None \<Rightarrow> {#} | Some i \<Rightarrow> {#i#})"
    using map_filter_id_update [OF t, of p] by (simp add: held_ids_def w1_def)
  show ?thesis
  proof (cases "sw_tls w ! t")
    case None
    with e t show ?thesis
      by (simp add: set_TLS_SendBuffer_def TLS_SendBuffer_def release_sptr_def w1_def)
  next
    case (Some prev)
    then have prev: "prev \<in> set (held_ids w)" using t nth_mem [OF t] by (simp add: held_ids_def)
    with fresh have "p \<noteq> Some prev" by auto
    then have "count (mset (held_ids w1)) prev = 0"
      using arg_cong [OF e, of "\<lambda>M. count M prev"] d prev Some
      by (auto simp: distinct_count_atmost_1 split: option.splits)
    then have "prev \<notin> set (held_ids w1)" by (simp add: count_eq_zero_iff)
    then have "Some prev \<notin> set (sw_tls w1)" and "prev \<notin> set (sw_pool w1)" by (auto simp: held_ids_def)
    then have "set_TLS_SendBuffer t p w = SendBufferManager_Push prev w1"
      using Some t by (simp add: set_TLS_SendBuffer_def TLS_SendBuffer_def release_sptr_def w1_def)
    then show ?thesis using e Some by (simp add: SendBufferManager_Push_def held_ids_def add.commute)
  qed
qed

lemma release_sptr_fields [simp]:
  "sw_tls (release_sptr p w) = sw_tls w" "sw_heap (release_sptr p w) = sw_heap w"
  by (simp_all add: release_sptr_def SendBufferManager_Push_def split: option.splits)

lemma set_TLS_fields [simp]:
  "sw_heap (set_TLS_SendBuffer t p w) = sw_heap w"
  "sw_tls (set_TLS_SendBuffer t p w) = (sw_tls w)[t := p]"
  by (simp_all add: set_TLS_SendBuffer_def Let_def)

lemma set_TLS_inv:
  assumes inv: "sw_inv w" and t: "t < length (sw_tls w)"
    and fresh: "\<forall>i. p = Some i \<longrightarrow> i \<notin> set (held_ids w) \<and> i < length (sw_heap w)"
  shows "sw_inv (set_TLS_SendBuffer t p w)"
proof -
  define ids where "ids = (case p of None \<Rightarrow> [] | Some i \<Rightarrow> [i]) @ held_ids w"
  have d: "distinct (held_ids w)" using inv by (simp add: sw_inv_def)
  have "mset (held_ids (set_TLS_SendBuffer t p w)) = mset ids"
    using set_TLS_held [OF t d] fresh by (auto simp: ids_def split: option.splits)
  then have "distinct (held_ids (set_TLS_SendBuffer t p w)) = distinct ids"
    and "set (held_ids (set_TLS_SendBuffer t p w)) = set ids"
    by (auto dest: mset_eq_imp_distinct_iff mset_eq_setD)
  then show ?thesis
    using inv fresh by (auto simp: sw_inv_def ids_def split: option.splits)
qed

text \<open>Taking a new buffer for thread \<open>t\<close>.\<close>

lemma take_buffer_inv:
  assumes inv: "sw_inv w" and t: "t < length (sw_tls w)" and p: "SendBufferManager_Pop w = (i, w')"
  defines "w1 \<equiv> set_TLS_SendBuffer t (Some i) w'"
  shows "sw_inv w1" and "TLS_SendBuffer t w1 = Some i" and "i < length (sw_heap w1)"
    and "sw_heap w1 = sw_heap w'" and "length (sw_tls w1) = length (sw_tls w)"
  using SendBufferManager_Pop_inv [OF inv p] set_TLS_inv [of w' t "Some i"] t
  by (auto simp: w1_def TLS_SendBuffer_def)

lemma SendBufferManager_Reserve_via:
  assumes inv: "sw_inv w" and cur: "TLS_SendBuffer t w = Some cur"
  obtains i w1 ext where "sw_inv w1" "i < length (sw_heap w1)" "TLS_SendBuffer t w1 = Some i"
    "sw_heap w1 = sw_heap w @ ext" "length (sw_tls w1) = length (sw_tls w)"
    "SendBufferManager_Reserve t sz w s = and_then (SendBuffer_Reserve sz (sw_heap w1 ! i) s)
       (\<lambda>(pos, b). Ok ((i, pos), w1\<lparr>sw_heap := (sw_heap w1)[i := b]\<rparr>))"
    "sz \<le> SendBuffer_FreeSize (sw_heap w ! cur) \<longrightarrow> i = cur \<and> w1 = w"
    "SendBuffer_FreeSize (sw_heap w ! cur) < sz \<and> sw_pool w = [] \<longrightarrow> sw_heap w1 ! i = SendBuffer_new"
    "SendBuffer_FreeSize (sw_heap w ! cur) < sz \<and> sw_pool w \<noteq> [] \<longrightarrow>
       i = last (sw_pool w) \<and> sw_heap w1 = sw_heap w"
proof (cases "sz \<le> SendBuffer_FreeSize (sw_heap w ! cur)")
  case True
  have "cur < length (sw_heap w)"
    using inv cur by (auto simp: sw_inv_def held_ids_def TLS_SendBuffer_def split: if_splits dest: nth_mem)
  with True inv cur show ?thesis
    by (intro that [of w cur "[]"]) (auto simp: SendBufferManager_Reserve_def Let_def)
next
  case False
  have t: "t < length (sw_tls w)" using cur by (auto simp: TLS_SendBuffer_def split: if_splits)
  obtain i w' where p: "SendBufferManager_Pop w = (i, w')" by (cases "SendBufferManager_Pop w")
  note pop = SendBufferManager_Pop_inv [OF inv p] and tb = take_buffer_inv [OF inv t p]
  from pop(5) obtain ext where "sw_heap w' = sw_heap w @ ext" by blast
  with False cur p pop(6,7) tb show ?thesis
    by (intro that [of "set_TLS_SendBuffer t (Some i) w'" i ext])
      (auto simp: SendBufferManager_Reserve_def)
qed

lemma SendBufferManager_Reserve_inv:
  assumes inv: "sw_inv w" and r: "SendBufferManager_Reserve t sz w s = Ok ((i, pos), w')"
  shows "sw_inv w'" and "i < length (sw_heap w')" and "length (sw_heap w) \<le> length (sw_heap w')"
    and "unat (sb_usedSize (sw_heap w' ! i)) = pos + unat sz" and "pos + unat sz \<le> 4096"
    and "\<And>j. j < length (sw_heap w) \<Longrightarrow>
      unat (sb_usedSize (sw_heap w ! j)) \<le> unat (sb_usedSize (sw_heap w' ! j)) \<and>
      (j = i \<longrightarrow> unat (sb_usedSize (sw_heap w ! j)) = pos) \<and>
      take (unat (sb_usedSize (sw_heap w ! j))) (sb_buffer (sw_heap w' ! j)) =
      take (unat (sb_usedSize (sw_heap w ! j))) (sb_buffer (sw_heap w ! j))"
    and "length (sw_tls w') = length (sw_tls w)" and "TLS_SendBuffer t w' = Some i"
proof -
  from r obtain cur where cur: "TLS_SendBuffer t w = Some cur"
    by (auto simp: SendBufferManager_Reserve_def split: option.splits)
  from inv cur obtain i0 w1 ext where v: "sw_inv w1" "i0 < length (sw_heap w1)"
      "TLS_SendBuffer t w1 = Some i0" "sw_heap w1 = sw_heap w @ ext" "length (sw_tls w1) = length (sw_tls w)"
      "SendBufferManager_Reserve t sz w s = and_then (SendBuffer_Reserve sz (sw_heap w1 ! i0) s)
       (\<lambda>(pos, b). Ok ((i0, pos), w1\<lparr>sw_heap := (sw_heap w1)[i0 := b]\<rparr>))"
    by (rule SendBufferManager_Reserve_via [where sz = sz and s = s]) blast
  from r v(6) obtain b where b: "SendBuffer_Reserve sz (sw_heap w1 ! i) s = Ok (pos, b)"
    and i: "i0 = i" and w': "w' = w1\<lparr>sw_heap := (sw_heap w1)[i := b]\<rparr>"
    by auto
  have wf: "sb_wf (sw_heap w1 ! i)" using v(1,2) i by (simp add: sw_inv_def)
  note ok = SendBuffer_Reserve_ok [OF wf b]
  show "sw_inv w'"
    using v(1) ok(1) by (auto simp: sw_inv_def w' held_ids_def dest: set_update_subset_insert [THEN subsetD])
  show "i < length (sw_heap w')" using v(2) i by (simp add: w')
  show "length (sw_heap w) \<le> length (sw_heap w')" by (simp add: w' v(4))
  show "unat (sb_usedSize (sw_heap w' ! i)) = pos + unat sz" using v(2) i ok(3) by (simp add: w')
  show "pos + unat sz \<le> 4096" by (rule ok(4))
  show "unat (sb_usedSize (sw_heap w ! j)) \<le> unat (sb_usedSize (sw_heap w' ! j)) \<and>
      (j = i \<longrightarrow> unat (sb_usedSize (sw_heap w ! j)) = pos) \<and>
      take (unat (sb_usedSize (sw_heap w ! j))) (sb_buffer (sw_heap w' ! j)) =
      take (unat (sb_usedSize (sw_heap w ! j))) (sb_buffer (sw_heap w ! j))"
    if "j < length (sw_heap w)" for j
    using that ok v(2,4) i by (cases "j = i") (auto simp: w' nth_append)
  show "length (sw_tls w') = length (sw_tls w)" using v(5) by (simp add: w')
  show "TLS_SendBuffer t w' = Some i" using v(3) i by (simp add: w' TLS_SendBuffer_def split: if_splits)
qed

section \<open>Runs of the threads\<close>

datatype sb_op = Sb_Start nat | Sb_Reserve nat uint32 | Sb_Exit nat

type_synonym region = "nat \<times> nat \<times> nat"

definition overlap :: "region \<Rightarrow> region \<Rightarrow> bool" where
  "overlap r r' = (case (r, r') of ((i, p, n), (i', p', n')) \<Rightarrow> i = i' \<and> p < p' + n' \<and> p' < p + n)"

text \<open>Thread starts, reservations and thread ends in the order the manager's lock admits them,
  collecting the regions handed out.\<close>

fun sb_run :: "sb_op list \<Rightarrow> region list \<Rightarrow> sb_world \<Rightarrow> err_state \<Rightarrow> (region list \<times> sb_world) outcome" where
  "sb_run [] rs w s = Ok (rs, w)"
| "sb_run (Sb_Start t # ops) rs w s = sb_run ops rs (if t < length (sw_tls w) then init_tls_SendBuffer t w else w) s"
| "sb_run (Sb_Exit t # ops) rs w s = sb_run ops rs (if t < length (sw_tls w) then exit_tls_SendBuffer t w else w) s"
| "sb_run (Sb_Reserve t sz # ops) rs w s =
     and_then (SendBufferManager_Reserve t sz w s)
       (\<lambda>((i, pos), w1). sb_run ops (rs @ [(i, pos, unat sz)]) w1 s)"

definition granted_ok :: "region list \<Rightarrow> sb_world \<Rightarrow> bool" where
  "granted_ok rs w \<longleftrightarrow> sw_inv w \<and> sorted_wrt (\<lambda>r r'. \<not> overlap r r') rs \<and>
     (\<forall>(i, p, n) \<in> set rs. i < length (sw_heap w) \<and> p + n \<le> unat (sb_usedSize (sw_heap w ! i)))"

lemma granted_extend:
  assumes "granted_ok rs w" and "sw_inv w'" and "length (sw_heap w) \<le> length (sw_heap w')"
    and "\<forall>j < length (sw_heap w). unat (sb_usedSize (sw_heap w ! j)) \<le> unat (sb_usedSize (sw_heap w' ! j))"
  shows "granted_ok rs w'"
  using assms unfolding granted_ok_def by (force intro: order_trans less_le_trans)

lemma granted_start:
  assumes g: "granted_ok rs w" and t: "t < length (sw_tls w)"
  shows "granted_ok rs (init_tls_SendBuffer t w)"
proof -
  have inv: "sw_inv w" using g by (simp add: granted_ok_def)
  obtain i w' where p: "SendBufferManager_Pop w = (i, w')" by (cases "SendBufferManager_Pop w")
  note pop = SendBufferManager_Pop_inv [OF inv p] and tb = take_buffer_inv [OF inv t p]
  from pop(5) obtain ext where e: "sw_heap w' = sw_heap w @ ext" by blast
  have i: "init_tls_SendBuffer t w = set_TLS_SendBuffer t (Some i) w'"
    by (simp add: init_tls_SendBuffer_def p)
  show ?thesis
    unfolding i using tb e by (intro granted_extend [OF g]) (auto simp: nth_append)
qed

lemma granted_exit:
  assumes "granted_ok rs w" and "t < length (sw_tls w)"
  shows "granted_ok rs (exit_tls_SendBuffer t w)"
  using assms set_TLS_inv [of w t None]
  by (intro granted_extend [OF assms(1)]) (simp_all add: exit_tls_SendBuffer_def granted_ok_def)

lemma granted_reserve:
  assumes g: "granted_ok rs w" and r: "SendBufferManager_Reserve t sz w s = Ok ((i, pos), w')"
  shows "granted_ok (rs @ [(i, pos, unat sz)]) w'"
proof -
  have inv: "sw_inv w" using g by (simp add: granted_ok_def)
  note ri = SendBufferManager_Reserve_inv [OF inv r]
  have "granted_ok rs w'" using ri(1,3,6) by (intro granted_extend [OF g]) auto
  moreover have "\<not> overlap x (i, pos, unat sz)" if "x \<in> set rs" for x
    using that g ri(6) by (fastforce simp: granted_ok_def overlap_def split: prod.splits)
  ultimately show ?thesis using ri(2,4) by (auto simp: granted_ok_def sorted_wrt_append)
qed

lemma granted_run:
  "granted_ok rs w \<Longrightarrow> sb_run ops rs w s = Ok (rs', w') \<Longrightarrow> granted_ok rs' w'"
proof (induction ops arbitrary: rs w)
  case (Cons op ops)
  show ?case
  proof (cases op)
    case (Sb_Reserve t sz)
    with Cons.prems(2) obtain i pos w1 where "SendBufferManager_Reserve t sz w s = Ok ((i, pos), w1)"
      and "sb_run ops (rs @ [(i, pos, unat sz)]) w1 s = Ok (rs', w')"
      by auto
    with Cons.IH granted_reserve [OF Cons.prems(1)] show ?thesis by blast
  qed (use Cons in \<open>auto split: if_splits intro: granted_start granted_exit\<close>)
qed simp

section \<open>Properties of the send buffers\<close>

lemma SendBuffer_Reserve_fresh:
  assumes "sz \<le> 4096"
  shows "\<exists>b. SendBuffer_Reserve sz SendBuffer_new s = Ok (0, b) \<and> sb_wf b \<and> sb_usedSize b = sz"
proof -
  have n: "unat sz \<le> 4096" using assms by (simp add: word_le_nat_alt)
  have "sb_wf (SendBuffer_new\<lparr>sb_buffer :=
      store_bytes (sb_buffer SendBuffer_new) 0 (replicate (unat sz) 0), sb_usedSize := sz\<rparr>)"
    using n by (simp add: sb_wf_def store_bytes_def)
  with assms n show ?thesis
    by (simp add: SendBuffer_Reserve_wf SendBuffer_FreeSize_wf not_less)
qed

text \<open>\<^verbatim>\<open>SendBufferManager::Reserve\<close> of a size up to 4096 succeeds exactly when the size fits the
  thread's buffer, or a new buffer is made because the pool is empty, or the size fits the recycled
  buffer it takes from the pool. In the remaining case the recycled buffer is used without a check
  and the reservation runs over the end of its array.\<close>

theorem SendBufferManager_Reserve_result:
  assumes "sw_inv w" and "TLS_SendBuffer t w = Some cur" and "0 < sz" and "sz \<le> 4096"
  shows "is_ok (SendBufferManager_Reserve t sz w s) \<longleftrightarrow>
    sz \<le> SendBuffer_FreeSize (sw_heap w ! cur) \<or> sw_pool w = [] \<or>
    sz \<le> SendBuffer_FreeSize (sw_heap w ! last (sw_pool w))"
proof -
  from assms(1,2) obtain i w1 where v: "sw_inv w1" "i < length (sw_heap w1)"
    and r: "SendBufferManager_Reserve t sz w s = and_then (SendBuffer_Reserve sz (sw_heap w1 ! i) s)
       (\<lambda>(pos, b). Ok ((i, pos), w1\<lparr>sw_heap := (sw_heap w1)[i := b]\<rparr>))"
    and which: "sz \<le> SendBuffer_FreeSize (sw_heap w ! cur) \<longrightarrow> i = cur \<and> w1 = w"
      "SendBuffer_FreeSize (sw_heap w ! cur) < sz \<and> sw_pool w = [] \<longrightarrow> sw_heap w1 ! i = SendBuffer_new"
      "SendBuffer_FreeSize (sw_heap w ! cur) < sz \<and> sw_pool w \<noteq> [] \<longrightarrow>
       i = last (sw_pool w) \<and> sw_heap w1 = sw_heap w"
    by (rule SendBufferManager_Reserve_via [where sz = sz and s = s]) blast
  have wf: "sb_wf (sw_heap w1 ! i)" using v by (simp add: sw_inv_def)
  have "0 < unat sz" using assms(3) by (simp add: word_less_nat_alt)
  moreover have "\<not> 4096 < sz" using assms(4) by (simp add: not_less)
  ultimately have "is_ok (SendBuffer_Reserve sz (sw_heap w1 ! i) s) \<longleftrightarrow>
      sz \<le> SendBuffer_FreeSize (sw_heap w1 ! i)"
    using SendBuffer_FreeSize_wf [OF wf]
    by (auto simp: SendBuffer_Reserve_wf [OF wf] word_le_nat_alt)
  moreover have "is_ok (SendBufferManager_Reserve t sz w s) = is_ok (SendBuffer_Reserve sz (sw_heap w1 ! i) s)"
    unfolding r by (cases "SendBuffer_Reserve sz (sw_heap w1 ! i) s") auto
  moreover have "sz \<le> SendBuffer_FreeSize SendBuffer_new"
    using assms(4) by (simp add: SendBuffer_FreeSize_def)
  ultimately show ?thesis using which by (auto simp: not_le)
qed

definition sw_demo :: sb_world where
  "sw_demo = \<lparr>sw_heap = [SendBuffer_new, SendBuffer_new\<lparr>sb_usedSize := 4000\<rparr>,
     SendBuffer_new\<lparr>sb_usedSize := 4090\<rparr>], sw_pool = [0, 2], sw_tls = [Some 1]\<rparr>"

theorem SendBufferManager_Reserve_result_witness:
  "\<not> is_ok (SendBufferManager_Reserve 0 100 sw_demo \<lparr>app_last_error = 0\<rparr>)"
proof -
  have "sw_inv sw_demo" and "TLS_SendBuffer 0 sw_demo = Some 1"
    by (simp_all add: sw_demo_def sw_inv_def held_ids_def List.map_filter_simps sb_wf_def
        TLS_SendBuffer_def SendBuffer_new_def)
  from SendBufferManager_Reserve_result [OF this, of 100 "\<lparr>app_last_error = 0\<rparr>"]
  show ?thesis by (simp add: sw_demo_def SendBuffer_FreeSize_def)
qed

text \<open>C16. In every run of threads that start, reserve and end in any order and in which no reservation has
  faulted yet: no two regions ever handed out overlap, not even through a recycled buffer, every region
  lies inside its 4096-byte array, and every buffer is held by at most one thread or once by the pool.
  The next reservation, of 1 to 4096 bytes by a thread with a buffer, faults exactly when the size fits
  neither that buffer nor the recycled one that the pool gives instead.\<close>

theorem SendBuffer_regions_disjoint:
  assumes "sb_run ops [] (sw_init threads) s = Ok (rs, w)"
  shows "sorted_wrt (\<lambda>r r'. \<not> overlap r r') rs \<and>
    (\<forall>(i, p, n) \<in> set rs. i < length (sw_heap w) \<and> p + n \<le> length (sb_buffer (sw_heap w ! i))) \<and>
    distinct (held_ids w) \<and>
    (\<forall>t cur sz. TLS_SendBuffer t w = Some cur \<and> 0 < sz \<and> sz \<le> 4096 \<longrightarrow>
       (is_ok (SendBufferManager_Reserve t sz w s) \<longleftrightarrow>
          sz \<le> SendBuffer_FreeSize (sw_heap w ! cur) \<or> sw_pool w = [] \<or>
          sz \<le> SendBuffer_FreeSize (sw_heap w ! last (sw_pool w))))"
proof -
  have "granted_ok [] (sw_init threads)" by (simp add: granted_ok_def sw_inv_init)
  from granted_run [OF this assms] have g: "granted_ok rs w" .
  have "p + n \<le> length (sb_buffer (sw_heap w ! i))" if "(i, p, n) \<in> set rs" for i p n
  proof -
    from g that have i: "i < length (sw_heap w)" and le: "p + n \<le> unat (sb_usedSize (sw_heap w ! i))"
      by (auto simp: granted_ok_def)
    with g have "sb_wf (sw_heap w ! i)" by (simp add: granted_ok_def sw_inv_def)
    with le show ?thesis by (simp add: sb_wf_def)
  qed
  then have "\<forall>(i, p, n) \<in> set rs. i < length (sw_heap w) \<and> p + n \<le> length (sb_buffer (sw_heap w ! i))"
    using g by (auto simp: granted_ok_def)
  moreover have "sw_inv w" "sorted_wrt (\<lambda>r r'. \<not> overlap r r') rs" using g by (simp_all add: granted_ok_def)
  ultimately show ?thesis using SendBufferManager_Reserve_result [of w] by (simp add: sw_inv_def)
qed

theorem SendBuffer_regions_disjoint_witness:
  "\<exists>w. sb_run [Sb_Start 0, Sb_Start 1, Sb_Reserve 0 10, Sb_Reserve 1 20, Sb_Reserve 0 30] []
      (sw_init 2) \<lparr>app_last_error = 0\<rparr> = Ok ([(0, 0, 10), (1, 0, 20), (0, 10, 30)], w) \<and>
     sorted_wrt (\<lambda>r r'. \<not> overlap r r') [(0, 0, 10), (1, 0, 20), (0, 10, 30)] \<and>
     list_all (\<lambda>(i, p, n). p + n \<le> length (sb_buffer (sw_heap w ! i))) [(0, 0, 10), (1, 0, 20), (0, 10, 30)] \<and>
     distinct (held_ids w)"
proof -
  obtain b0 where b0: "SendBuffer_Reserve 10 SendBuffer_new \<lparr>app_last_error = 0\<rparr> = Ok (0, b0)"
    "sb_wf b0" "sb_usedSize b0 = 10"
    using SendBuffer_Reserve_fresh [of 10] by auto
  obtain b1 where b1: "SendBuffer_Reserve 20 SendBuffer_new \<lparr>app_last_error = 0\<rparr> = Ok (0, b1)"
    using SendBuffer_Reserve_fresh [of 20] by auto
  have free: "SendBuffer_FreeSize b0 = 4086" "SendBuffer_FreeSize SendBuffer_new = 4096"
    using b0(2,3) by (simp_all add: SendBuffer_FreeSize_def sb_wf_def)
  then obtain b2 where b2: "SendBuffer_Reserve 30 b0 \<lparr>app_last_error = 0\<rparr> = Ok (10, b2)"
    using b0 by (simp add: SendBuffer_Reserve_wf)
  have w0: "sw_init 2 = \<lparr>sw_heap = [], sw_pool = [], sw_tls = [None, None]\<rparr>"
    by (simp add: sw_init_def numeral_2_eq_2)
  obtain w where w: "sb_run [Sb_Start 0, Sb_Start 1, Sb_Reserve 0 10, Sb_Reserve 1 20, Sb_Reserve 0 30] []
      (sw_init 2) \<lparr>app_last_error = 0\<rparr> = Ok ([(0, 0, 10), (1, 0, 20), (0, 10, 30)], w)"
    by (simp add: w0 init_tls_SendBuffer_def SendBufferManager_Pop_def set_TLS_SendBuffer_def
        TLS_SendBuffer_def release_sptr_def SendBufferManager_Reserve_def b0(1) b1 b2 free Let_def)
  note d = SendBuffer_regions_disjoint [OF w]
  have "sorted_wrt (\<lambda>r r'. \<not> overlap r r') [(0, 0, 10), (1, 0, 20), (0, 10, 30)]" using d by (rule conjunct1)
  moreover have "distinct (held_ids w)" using d by (elim conjE)
  moreover have "list_all (\<lambda>(i, p, n). p + n \<le> length (sb_buffer (sw_heap w ! i))) [(0, 0, 10), (1, 0, 20), (0, 10, 30)]"
    using d by (elim conjE) (auto simp: list_all_iff)
  ultimately show ?thesis using w by blast
qed

text \<open>C35. A thread that reserves the same size three times, any size above 2048 and below 4096, runs
  over the end of a send buffer at the third time: the second reservation retires the first buffer
  into the pool, where it keeps its used size, and the third one takes it from there.\<close>

theorem SendBuffer_recycled_overrun:
  assumes "2048 < sz" and "sz < 4096"
  shows "sb_run [Sb_Start 0, Sb_Reserve 0 sz, Sb_Reserve 0 sz, Sb_Reserve 0 sz] [] (sw_init 1) s =
    Fault BufferOverrun"
proof -
  have n: "2048 < unat sz" "unat sz < 4096" using assms by (simp_all add: word_less_nat_alt)
  obtain b where new: "SendBuffer_Reserve sz SendBuffer_new s = Ok (0, b)"
    and wf: "sb_wf b" and used: "sb_usedSize b = sz"
    using SendBuffer_Reserve_fresh [OF less_imp_le [OF assms(2)]] by blast
  have fit: "\<not> SendBuffer_FreeSize SendBuffer_new < sz"
    using assms by (simp add: SendBuffer_FreeSize_def not_less)
  have full: "SendBuffer_FreeSize b < sz"
    using n SendBuffer_FreeSize_wf [OF wf] by (simp add: word_less_nat_alt used)
  then have over: "SendBuffer_Reserve sz b s = Fault BufferOverrun"
    using assms n by (simp add: SendBuffer_Reserve_wf [OF wf] word_less_nat_alt used not_less)
  show ?thesis
    by (simp add: sw_init_def init_tls_SendBuffer_def SendBufferManager_Pop_def set_TLS_SendBuffer_def
        TLS_SendBuffer_def release_sptr_def SendBufferManager_Reserve_def SendBufferManager_Push_def
        Let_def new fit full over)
qed

theorem SendBuffer_recycled_overrun_witness:
  "sb_run [Sb_Start 0, Sb_Reserve 0 3000, Sb_Reserve 0 3000, Sb_Reserve 0 3000] [] (sw_init 1)
     \<lparr>app_last_error = 0\<rparr> = Fault BufferOverrun"
  by (rule SendBuffer_recycled_overrun) simp_all

end
