(* ===== verification/Tasks.thy ===== *)
theory Tasks
  imports Jobs Send_Buffer
begin

text \<open>
  Threads and their thread-local objects: \<^verbatim>\<open>TaskManager.h\<close>, \<^verbatim>\<open>TaskManager.cpp\<close>, \<^verbatim>\<open>TaskManagerEx.h\<close>,
  \<^verbatim>\<open>TaskManagerEx.cpp\<close> and \<^verbatim>\<open>CoreTLS.cpp\<close> under \<^verbatim>\<open>src/MyNetworkLib/\<close>. A thread is a
  number; its thread-local variables are entries of maps over threads. A task is opaque: the moments
  that matter are its start (\<^verbatim>\<open>_init_tls\<close>) and its end (\<^verbatim>\<open>_task_done\<close>), which are operations of the
  thread that runs it. Of a \<^verbatim>\<open>std::thread\<close> only whether it is joinable is kept.
\<close>

section \<open>Thread-local variables\<close>

record tls =
  tls_Id :: "nat \<Rightarrow> uint32"
  tls_send :: sb_world
  tls_CurrentJobSerializer :: "nat \<Rightarrow> nat option"
  tls_MaxTickCount :: "nat \<Rightarrow> uint64"

definition tls_initial :: "nat \<Rightarrow> tls" where
  "tls_initial threads =
     \<lparr>tls_Id = (\<lambda>_. 0), tls_send = sw_init threads, tls_CurrentJobSerializer = (\<lambda>_. None), tls_MaxTickCount = (\<lambda>_. 0)\<rparr>"

section \<open>TaskManager\<close>

record task_entry =
  te_joinable :: bool
  te_done :: bool

record task_manager =
  tm_taskId :: uint32
  tm_tasks :: "uint32 \<rightharpoonup> task_entry"

definition TaskManager_get_new_task_id :: "task_manager \<Rightarrow> uint32 \<times> task_manager" where
  "TaskManager_get_new_task_id m = (tm_taskId m, m\<lparr>tm_taskId := tm_taskId m + 1\<rparr>)"

definition TaskManager_init_tls :: "nat \<Rightarrow> uint32 \<Rightarrow> tls \<Rightarrow> tls" where
  "TaskManager_init_tls t i w = w\<lparr>tls_send := init_tls_SendBuffer t (tls_send w), tls_Id := (tls_Id w)(t := i)\<rparr>"

text \<open>The static counter starts at 1 and the constructor takes the first id for its own thread.\<close>

definition TaskManager_new :: "nat \<Rightarrow> tls \<Rightarrow> task_manager \<times> tls" where
  "TaskManager_new t w =
     (case TaskManager_get_new_task_id \<lparr>tm_taskId = 1, tm_tasks = Map.empty\<rparr> of
        (i, m) \<Rightarrow> (m, TaskManager_init_tls t i w))"

text \<open>A new thread under a fresh id. When the id is taken nothing is inserted, and the joinable thread
  object is destroyed.\<close>

definition insert_task :: "task_manager \<Rightarrow> (uint32 \<times> task_manager) outcome" where
  "insert_task m =
     (case TaskManager_get_new_task_id m of (i, m1) \<Rightarrow>
        if tm_tasks m1 i \<noteq> None then Fault Terminate
        else Ok (i, m1\<lparr>tm_tasks := (tm_tasks m1)(i \<mapsto> \<lparr>te_joinable = True, te_done = False\<rparr>)\<rparr>))"

definition TaskManager_AddTask :: "task_manager \<Rightarrow> (uint32 \<times> task_manager) outcome" where
  "TaskManager_AddTask m = insert_task m"

fun insert_tasks :: "nat \<Rightarrow> task_manager \<Rightarrow> task_manager outcome" where
  "insert_tasks 0 m = Ok m"
| "insert_tasks (Suc c) m = and_then (insert_task m) (\<lambda>(_, m1). insert_tasks c m1)"

definition TaskManager_AddTask_count :: "uint32 \<Rightarrow> task_manager \<Rightarrow> ((uint32 \<times> uint32) \<times> task_manager) outcome" where
  "TaskManager_AddTask_count c m =
     (if c = 1 then and_then (TaskManager_AddTask m) (\<lambda>(i, m1). Ok ((i, i), m1))
      else and_then (insert_tasks (unat c) m) (\<lambda>m1. Ok ((tm_taskId m, tm_taskId m1 - 1), m1)))"

definition TaskManager_IsRunning :: "uint32 \<Rightarrow> task_manager \<Rightarrow> bool outcome" where
  "TaskManager_IsRunning i m = (case tm_tasks m i of None \<Rightarrow> Fault OutOfRange | Some e \<Rightarrow> Ok (te_done e))"

definition TaskManager_task_done :: "nat \<Rightarrow> tls \<Rightarrow> task_manager \<Rightarrow> task_manager outcome" where
  "TaskManager_task_done t w m =
     (case tm_tasks m (tls_Id w t) of
        None \<Rightarrow> Fault OutOfRange
      | Some e \<Rightarrow> Ok (m\<lparr>tm_tasks := (tm_tasks m)(tls_Id w t \<mapsto> e\<lparr>te_done := True\<rparr>)\<rparr>))"

definition TaskManager_JoinTask :: "uint32 \<Rightarrow> task_manager \<Rightarrow> (bool \<times> task_manager) outcome" where
  "TaskManager_JoinTask i m =
     (case tm_tasks m i of
        None \<Rightarrow> Fault OutOfRange
      | Some e \<Rightarrow>
          if te_done e = True \<and> te_joinable e
          then Ok (True, m\<lparr>tm_tasks := (tm_tasks m)(i \<mapsto> e\<lparr>te_joinable := False\<rparr>)\<rparr>)
          else Ok (False, m))"

text \<open>When \<^verbatim>\<open>join\<close> returns the thread has ended, so its task is done.\<close>

definition TaskManager_join_all_tasks :: "task_manager \<Rightarrow> task_manager" where
  "TaskManager_join_all_tasks m =
     m\<lparr>tm_tasks := (\<lambda>i. map_option (\<lambda>e. if te_joinable e then \<lparr>te_joinable = False, te_done = True\<rparr> else e) (tm_tasks m i))\<rparr>"

definition TaskManager_destroy :: "task_manager \<Rightarrow> task_manager" where
  "TaskManager_destroy m = (TaskManager_join_all_tasks m)\<lparr>tm_tasks := Map.empty\<rparr>"

section \<open>TaskManagerEx\<close>

record task_manager_ex =
  tx_taskId :: uint32
  tx_tasks :: "bool list"

abbreviation (input) DEFAULT_EXECUTION_TICKCOUNT :: uint64 where "DEFAULT_EXECUTION_TICKCOUNT \<equiv> 64"

text \<open>Here the thread takes its id when it starts.\<close>

definition TaskManagerEx_init_tls :: "nat \<Rightarrow> task_manager_ex \<Rightarrow> tls \<Rightarrow> task_manager_ex \<times> tls" where
  "TaskManagerEx_init_tls t m w =
     (m\<lparr>tx_taskId := tx_taskId m + 1\<rparr>,
      w\<lparr>tls_send := init_tls_SendBuffer t (tls_send w), tls_Id := (tls_Id w)(t := tx_taskId m),
        tls_CurrentJobSerializer := (tls_CurrentJobSerializer w)(t := None),
        tls_MaxTickCount := (tls_MaxTickCount w)(t := DEFAULT_EXECUTION_TICKCOUNT)\<rparr>)"

definition TaskManagerEx_new :: "nat \<Rightarrow> tls \<Rightarrow> task_manager_ex \<times> tls" where
  "TaskManagerEx_new t w = TaskManagerEx_init_tls t \<lparr>tx_taskId = 1, tx_tasks = []\<rparr> w"

definition TaskManagerEx_AddTask :: "task_manager_ex \<Rightarrow> task_manager_ex" where
  "TaskManagerEx_AddTask m = m\<lparr>tx_tasks := tx_tasks m @ [True]\<rparr>"

definition TaskManagerEx_AddTask_count :: "uint32 \<Rightarrow> task_manager_ex \<Rightarrow> task_manager_ex" where
  "TaskManagerEx_AddTask_count c m = (TaskManagerEx_AddTask ^^ unat c) m"

definition TaskManagerEx_join_all_tasks :: "task_manager_ex \<Rightarrow> task_manager_ex" where
  "TaskManagerEx_join_all_tasks m = m\<lparr>tx_tasks := map (\<lambda>joinable. if joinable then False else joinable) (tx_tasks m)\<rparr>"

definition TaskManagerEx_destroy :: "task_manager_ex \<Rightarrow> task_manager_ex" where
  "TaskManagerEx_destroy m = (TaskManagerEx_join_all_tasks m)\<lparr>tx_tasks := []\<rparr>"

definition TaskManagerEx_DoWorkJob ::
    "nat \<Rightarrow> tls \<Rightarrow> (nat \<Rightarrow> uint64) \<Rightarrow> (nat \<Rightarrow> nat \<Rightarrow> nat lock_queue \<Rightarrow> nat lock_queue) \<Rightarrow> uint64 \<Rightarrow>
     'j global_worker \<Rightarrow> (nat list \<times> 'j global_worker) option" where
  "TaskManagerEx_DoWorkJob t w clock run start g =
     (case GlobalJobWorker_DoJobs clock run (tls_MaxTickCount w t) start (gw_jobQueue g) of
        None \<Rightarrow> None
      | Some (executed, q) \<Rightarrow> Some (executed, g\<lparr>gw_jobQueue := q\<rparr>))"

definition TaskManagerEx_CheckReservedJob ::
    "(nat \<Rightarrow> bool) \<Rightarrow> uint64 \<Rightarrow> 'j global_worker \<Rightarrow> (nat \<times> 'j) list \<times> 'j global_worker" where
  "TaskManagerEx_CheckReservedJob alive now g = GlobalJobWorker_CheckReservedJob alive now g"

section \<open>Task ids\<close>

text \<open>Every known id is below the counter, and none is 0, the id the lock takes for no thread.\<close>

definition tm_wf :: "task_manager \<Rightarrow> bool" where
  "tm_wf m \<longleftrightarrow> 0 < tm_taskId m \<and> (\<forall>i \<in> dom (tm_tasks m). 0 < i \<and> i < tm_taskId m)"

abbreviation (input) new_entry :: task_entry where
  "new_entry \<equiv> \<lparr>te_joinable = True, te_done = False\<rparr>"

lemma TaskManager_new_wf: "tm_wf (fst (TaskManager_new t w))"
  by (simp add: TaskManager_new_def TaskManager_get_new_task_id_def tm_wf_def)

lemma insert_task_result:
  assumes "tm_wf m" and "unat (tm_taskId m) + 1 < 2 ^ 32"
  shows "\<exists>m'. insert_task m = Ok (tm_taskId m, m') \<and> tm_wf m' \<and> unat (tm_taskId m') = unat (tm_taskId m) + 1 \<and>
    tm_taskId m' = tm_taskId m + 1 \<and> tm_tasks m' = (tm_tasks m)(tm_taskId m \<mapsto> new_entry)"
proof -
  have next_id: "unat (tm_taskId m + 1) = unat (tm_taskId m) + 1"
    using assms(2) by (simp add: unat_add_small)
  have "tm_tasks m (tm_taskId m) = None"
    using assms(1) by (auto simp: tm_wf_def)
  moreover have "tm_taskId m < tm_taskId m + 1" "0 < tm_taskId m + 1"
    using next_id by (simp_all add: word_less_nat_alt)
  ultimately show ?thesis
    using assms(1) next_id
    by (auto simp: insert_task_def TaskManager_get_new_task_id_def tm_wf_def dest: order.strict_trans)
qed

lemma insert_tasks_result:
  "tm_wf m \<Longrightarrow> unat (tm_taskId m) + c < 2 ^ 32 \<Longrightarrow>
   \<exists>m'. insert_tasks c m = Ok m' \<and> tm_wf m' \<and> tm_taskId m' = tm_taskId m + of_nat c \<and>
     (\<forall>i. tm_tasks m' i =
        (if unat (tm_taskId m) \<le> unat i \<and> unat i < unat (tm_taskId m) + c then Some new_entry else tm_tasks m i))"
proof (induction c arbitrary: m)
  case (Suc c)
  then obtain m1 where m1: "insert_task m = Ok (tm_taskId m, m1)" "tm_wf m1"
    "unat (tm_taskId m1) = unat (tm_taskId m) + 1" "tm_taskId m1 = tm_taskId m + 1"
    "tm_tasks m1 = (tm_tasks m)(tm_taskId m \<mapsto> new_entry)"
    using insert_task_result [of m] by auto
  from Suc.IH [of m1] m1(2,3) Suc.prems(2) obtain m' where m': "insert_tasks c m1 = Ok m'" "tm_wf m'"
    "tm_taskId m' = tm_taskId m1 + of_nat c"
    "\<forall>i. tm_tasks m' i = (if unat (tm_taskId m1) \<le> unat i \<and> unat i < unat (tm_taskId m1) + c
        then Some new_entry else tm_tasks m1 i)"
    by auto
  have "tm_tasks m' i = (if unat (tm_taskId m) \<le> unat i \<and> unat i < unat (tm_taskId m) + Suc c
        then Some new_entry else tm_tasks m i)" for i
    using m'(4) m1(3,5) word_unat_eq_iff [of i "tm_taskId m"] by (cases "i = tm_taskId m") auto
  with m1 m' show ?case by (auto simp: algebra_simps)
qed auto

lemma TaskManager_AddTask_count_result:
  assumes "tm_wf m" and "unat (tm_taskId m) + unat c < 2 ^ 32"
  shows "\<exists>m'. TaskManager_AddTask_count c m = Ok ((tm_taskId m, tm_taskId m + c - 1), m') \<and> tm_wf m' \<and>
     (\<forall>i. tm_tasks m' i =
        (if unat (tm_taskId m) \<le> unat i \<and> unat i < unat (tm_taskId m) + unat c then Some new_entry
         else tm_tasks m i))"
proof (cases "c = 1")
  case True
  then have "unat (tm_taskId m) + 1 < 2 ^ 32" using assms(2) by simp
  then obtain m' where m': "insert_task m = Ok (tm_taskId m, m')" "tm_wf m'"
    "tm_tasks m' = (tm_tasks m)(tm_taskId m \<mapsto> new_entry)"
    using insert_task_result [OF assms(1)] by blast
  have "unat (tm_taskId m) \<le> unat i \<and> unat i < unat (tm_taskId m) + 1 \<longleftrightarrow> i = tm_taskId m" for i
    using word_unat_eq_iff [of i "tm_taskId m"] by auto
  with True m' show ?thesis
    by (auto simp: TaskManager_AddTask_count_def TaskManager_AddTask_def)
next
  case False
  with insert_tasks_result [OF assms] show ?thesis
    by (auto simp: TaskManager_AddTask_count_def)
qed

section \<open>Properties of the task manager\<close>

text \<open>As long as the 32-bit counter does not wrap, \<^verbatim>\<open>AddTask(task, count)\<close> starts \<^verbatim>\<open>count\<close> threads under
  consecutive ids, of which it returns the first and the last; none was in use and none is 0, the id
  the read-write lock takes for no thread. Of each such task \<^verbatim>\<open>IsRunning\<close> says false from its start and
  true once it is done, the opposite of its documentation, and \<^verbatim>\<open>JoinTask\<close> joins it once, after it is
  done.\<close>

theorem TaskManager_lifecycle:
  assumes "tm_wf m" and "unat (tm_taskId m) + unat c < 2 ^ 32"
    and "unat (tm_taskId m) \<le> unat i" "unat i < unat (tm_taskId m) + unat c" and "tls_Id w t = i"
  shows "\<exists>m1 m2 m3. TaskManager_AddTask_count c m = Ok ((tm_taskId m, tm_taskId m + c - 1), m1) \<and> tm_wf m1 \<and>
    i \<noteq> 0 \<and> tm_tasks m i = None \<and>
    TaskManager_IsRunning i m1 = Ok False \<and> TaskManager_JoinTask i m1 = Ok (False, m1) \<and>
    TaskManager_task_done t w m1 = Ok m2 \<and>
    TaskManager_IsRunning i m2 = Ok True \<and> TaskManager_JoinTask i m2 = Ok (True, m3) \<and>
    TaskManager_JoinTask i m3 = Ok (False, m3)"
proof -
  obtain m1 where m1: "TaskManager_AddTask_count c m = Ok ((tm_taskId m, tm_taskId m + c - 1), m1)" "tm_wf m1"
    "tm_tasks m1 i = Some new_entry"
    using TaskManager_AddTask_count_result [OF assms(1,2)] assms(3,4) by auto
  moreover have "i \<noteq> 0"
    using m1(2,3) by (auto simp: tm_wf_def)
  moreover have "tm_tasks m i = None"
    using assms(1,3) by (meson domIff not_le tm_wf_def word_less_nat_alt)
  ultimately show ?thesis
    using assms(5) by (auto simp: TaskManager_IsRunning_def TaskManager_JoinTask_def TaskManager_task_done_def)
qed

theorem TaskManager_lifecycle_witness:
  "\<exists>m1 m2. TaskManager_AddTask_count 3 (fst (TaskManager_new 0 (tls_initial 4))) = Ok ((2, 4), m1) \<and>
     TaskManager_IsRunning 3 m1 = Ok False \<and>
     TaskManager_task_done 1 (TaskManager_init_tls 1 3 (tls_initial 4)) m1 = Ok m2 \<and>
     TaskManager_IsRunning 3 m2 = Ok True"
proof -
  let ?m = "fst (TaskManager_new 0 (tls_initial 4))"
  have m: "tm_taskId ?m = 2" by (simp add: TaskManager_new_def TaskManager_get_new_task_id_def)
  have t: "tls_Id (TaskManager_init_tls 1 3 (tls_initial 4)) 1 = 3" by (simp add: TaskManager_init_tls_def)
  show ?thesis
    using TaskManager_lifecycle [of ?m 3 3 "TaskManager_init_tls 1 3 (tls_initial 4)" 1, OF TaskManager_new_wf _ _ _ t] m
    by auto
qed

end
