(* ===== verification/Task_Threads.thy ===== *)
theory Task_Threads
  imports Tasks
begin

text \<open>
  \<^verbatim>\<open>TaskManager::AddTask\<close> among threads (\<^verbatim>\<open>src/MyNetworkLib/TaskManager.cpp\<close>): any number of threads add
  tasks under the manager's mutex, and the threads they create start at once, run their task and end
  with \<^verbatim>\<open>_task_done\<close>, which takes no lock. The creation of a thread and the insertion of its entry are
  separate steps. A created thread is named by the id it stores in its \<^verbatim>\<open>TLS_Id\<close>.

  Each access to \<^verbatim>\<open>_tasks\<close> is one step. Since \<^verbatim>\<open>_task_done\<close> takes no lock, its lookup can overlap an insertion by
  \<^verbatim>\<open>AddTask\<close>: in C++ that is a data race, whose behaviour is undefined. The steps here are the runs in which the
  lookup falls before or after the insertion; what they show is shown of those runs only.
\<close>

section \<open>Steps\<close>

datatype task_phase = TP_None | TP_Spawned | TP_Running | TP_Ended

datatype add_pc = A_Idle | A_Loop nat | A_Created uint32 nat

text \<open>\<open>tt_created\<close> counts the threads made so far.\<close>

record tt_sys =
  tt_mgr :: task_manager
  tt_lock :: "nat option"
  tt_pc :: "nat \<Rightarrow> add_pc"
  tt_phase :: "uint32 \<Rightarrow> task_phase"
  tt_created :: nat
  tt_crashed :: bool

definition tt_init :: "tt_sys \<Rightarrow> bool" where
  "tt_init s \<longleftrightarrow> tt_mgr s = \<lparr>tm_taskId = 2, tm_tasks = Map.empty\<rparr> \<and> tt_lock s = None \<and> tt_pc s = (\<lambda>_. A_Idle) \<and>
     tt_phase s = (\<lambda>_. TP_None) \<and> tt_created s = 0 \<and> \<not> tt_crashed s"

abbreviation (input) upd_tasks :: "((uint32 \<rightharpoonup> task_entry) \<Rightarrow> (uint32 \<rightharpoonup> task_entry)) \<Rightarrow> tt_sys \<Rightarrow> tt_sys" where
  "upd_tasks f s \<equiv> s\<lparr>tt_mgr := (tt_mgr s)\<lparr>tm_tasks := f (tm_tasks (tt_mgr s))\<rparr>\<rparr>"

text \<open>\<^verbatim>\<open>AddTask\<close> with \<open>c\<close> threads to make. The loop of the second overload and the body of the first are
  the same steps.\<close>

inductive add_step :: "nat \<Rightarrow> tt_sys \<Rightarrow> tt_sys \<Rightarrow> bool" where
  add_enter:
    "tt_pc s t = A_Idle \<Longrightarrow> tt_lock s = None \<Longrightarrow>
     add_step t s (s\<lparr>tt_lock := Some t, tt_pc := (tt_pc s)(t := A_Loop c)\<rparr>)"
| add_create:
    "tt_pc s t = A_Loop (Suc c) \<Longrightarrow> TaskManager_get_new_task_id (tt_mgr s) = (i, m) \<Longrightarrow>
     add_step t s (s\<lparr>tt_mgr := m, tt_pc := (tt_pc s)(t := A_Created i c), tt_phase := (tt_phase s)(i := TP_Spawned),
                     tt_created := tt_created s + 1\<rparr>)"
| add_insert:
    "tt_pc s t = A_Created i c \<Longrightarrow> tm_tasks (tt_mgr s) i = None \<Longrightarrow>
     add_step t s (upd_tasks (\<lambda>m. m(i \<mapsto> \<lparr>te_joinable = True, te_done = False\<rparr>)) (s\<lparr>tt_pc := (tt_pc s)(t := A_Loop c)\<rparr>))"
| add_taken:
    "tt_pc s t = A_Created i c \<Longrightarrow> tm_tasks (tt_mgr s) i \<noteq> None \<Longrightarrow> add_step t s (s\<lparr>tt_crashed := True\<rparr>)"
| add_return:
    "tt_pc s t = A_Loop 0 \<Longrightarrow> add_step t s (s\<lparr>tt_lock := None, tt_pc := (tt_pc s)(t := A_Idle)\<rparr>)"

text \<open>The thread of task \<open>i\<close>, and \<^verbatim>\<open>JoinTask\<close> under the lock. \<^verbatim>\<open>_tasks.at\<close> throws in a thread that nobody
  catches for, which ends the process.\<close>

inductive task_step :: "uint32 \<Rightarrow> tt_sys \<Rightarrow> tt_sys \<Rightarrow> bool" where
  task_init:
    "tt_phase s i = TP_Spawned \<Longrightarrow> task_step i s (s\<lparr>tt_phase := (tt_phase s)(i := TP_Running)\<rparr>)"
| task_done:
    "tt_phase s i = TP_Running \<Longrightarrow> tm_tasks (tt_mgr s) i = Some e \<Longrightarrow>
     task_step i s (upd_tasks (\<lambda>m. m(i \<mapsto> e\<lparr>te_done := True\<rparr>)) (s\<lparr>tt_phase := (tt_phase s)(i := TP_Ended)\<rparr>))"
| task_done_throws:
    "tt_phase s i = TP_Running \<Longrightarrow> tm_tasks (tt_mgr s) i = None \<Longrightarrow> task_step i s (s\<lparr>tt_crashed := True\<rparr>)"
| task_join:
    "tt_lock s = None \<Longrightarrow> TaskManager_JoinTask i (tt_mgr s) = Ok (ok, m) \<Longrightarrow> task_step i s (s\<lparr>tt_mgr := m\<rparr>)"

definition tt_step :: "tt_sys \<Rightarrow> tt_sys \<Rightarrow> bool" where
  "tt_step s s' \<longleftrightarrow> \<not> tt_crashed s \<and> ((\<exists>t. add_step t s s') \<or> (\<exists>i. task_step i s s'))"

inductive_cases add_stepE: "add_step t s s'"
inductive_cases task_stepE: "task_step i s s'"

section \<open>The invariant\<close>

text \<open>As long as the ids do not wrap: the ids handed out are 2, 3 and so on; an id is in the table
  unless the thread that made it has yet to insert it, and then its entry tells whether the task has
  ended.\<close>

definition tt_ok :: "tt_sys \<Rightarrow> bool" where
  "tt_ok s \<longleftrightarrow> tm_taskId (tt_mgr s) = of_nat (tt_created s + 2) \<and>
     (\<forall>i. tt_phase s i \<noteq> TP_None \<longleftrightarrow> 2 \<le> unat i \<and> unat i < tt_created s + 2) \<and>
     (\<forall>t. tt_pc s t \<noteq> A_Idle \<longrightarrow> tt_lock s = Some t) \<and>
     (\<forall>i. tm_tasks (tt_mgr s) i = None \<longleftrightarrow> tt_phase s i = TP_None \<or> (\<exists>t c. tt_pc s t = A_Created i c)) \<and>
     (\<forall>t i c. tt_pc s t = A_Created i c \<longrightarrow> tt_phase s i \<noteq> TP_None) \<and>
     (\<forall>i e. tm_tasks (tt_mgr s) i = Some e \<longrightarrow> (te_done e \<longleftrightarrow> tt_phase s i = TP_Ended)) \<and>
     (\<forall>i. tt_phase s i = TP_Ended \<longrightarrow> tm_tasks (tt_mgr s) i \<noteq> None)"

abbreviation (input) ids_left :: "tt_sys \<Rightarrow> bool" where
  "ids_left s \<equiv> tt_created s + 2 < 2 ^ 32"

definition tt_inv :: "tt_sys \<Rightarrow> bool" where
  "tt_inv s \<longleftrightarrow> (ids_left s \<longrightarrow> tt_ok s)"

lemma tt_inv_init: "tt_init s \<Longrightarrow> tt_inv s"
  by (auto simp: tt_init_def tt_inv_def tt_ok_def)

lemma tt_okD:
  assumes "tt_ok s"
  shows "tm_taskId (tt_mgr s) = of_nat (tt_created s + 2)"
    and "tt_phase s i \<noteq> TP_None \<longleftrightarrow> 2 \<le> unat i \<and> unat i < tt_created s + 2"
    and "tt_pc s t \<noteq> A_Idle \<Longrightarrow> tt_lock s = Some t"
    and "tm_tasks (tt_mgr s) i = None \<longleftrightarrow> tt_phase s i = TP_None \<or> (\<exists>t c. tt_pc s t = A_Created i c)"
    and "tt_pc s t = A_Created i c \<Longrightarrow> tt_phase s i \<noteq> TP_None"
    and "tm_tasks (tt_mgr s) i = Some e \<Longrightarrow> te_done e \<longleftrightarrow> tt_phase s i = TP_Ended"
    and "tt_phase s i = TP_Ended \<Longrightarrow> tm_tasks (tt_mgr s) i \<noteq> None"
  using assms unfolding tt_ok_def by blast+

lemma tt_ok_others: "tt_ok s \<Longrightarrow> tt_lock s = Some t \<Longrightarrow> u \<noteq> t \<Longrightarrow> tt_pc s u = A_Idle"
  using tt_okD(3) by (metis option.inject)

lemma tt_ok_create:
  assumes ok: "tt_ok s" and pc: "tt_pc s t = A_Loop (Suc c)" and left: "tt_created s + 3 < 2 ^ 32"
    and i: "TaskManager_get_new_task_id (tt_mgr s) = (i, m)"
  shows "tt_ok (s\<lparr>tt_mgr := m, tt_pc := (tt_pc s)(t := A_Created i c), tt_phase := (tt_phase s)(i := TP_Spawned),
                  tt_created := tt_created s + 1\<rparr>)" (is "tt_ok ?s")
proof -
  have i': "i = of_nat (tt_created s + 2)" "m = (tt_mgr s)\<lparr>tm_taskId := i + 1\<rparr>"
    using i ok by (auto simp: TaskManager_get_new_task_id_def tt_ok_def)
  have u: "unat i = tt_created s + 2"
    unfolding i'(1) by (rule unat_of_nat_small) (use left in simp)
  have j: "unat j = tt_created s + 2 \<longleftrightarrow> j = i" for j using u by (metis word_unat_eq_iff)
  have none: "tt_phase s i = TP_None" "tm_tasks (tt_mgr s) i = None"
    using tt_okD(2,4) [OF ok, of i] u by auto
  have others: "tt_pc s u = A_Idle" if "u \<noteq> t" for u
    using tt_ok_others [OF ok tt_okD(3) [OF ok] that] pc by simp
  have "tm_taskId (tt_mgr ?s) = of_nat (tt_created ?s + 2)" by (simp add: i')
  moreover have "tt_phase ?s k \<noteq> TP_None \<longleftrightarrow> 2 \<le> unat k \<and> unat k < tt_created ?s + 2" for k
    using tt_okD(2) [OF ok, of k] j [of k] by (cases "k = i") (auto simp: u)
  moreover have "tt_pc ?s v \<noteq> A_Idle \<longrightarrow> tt_lock ?s = Some v" for v
    using tt_okD(3) [OF ok, of v] pc by auto
  moreover have "tm_tasks (tt_mgr ?s) k = None \<longleftrightarrow> tt_phase ?s k = TP_None \<or> (\<exists>u d. tt_pc ?s u = A_Created k d)" for k
  proof (cases "k = i")
    case False
    have "tt_pc s v \<noteq> A_Created k d" for v d using pc others [of v] by (cases "v = t") auto
    with False others show ?thesis
      using tt_okD(4) [OF ok, of k] by (auto simp: i'(2))
  qed (auto simp: i'(2) none)
  moreover have "tt_pc ?s v = A_Created k d \<longrightarrow> tt_phase ?s k \<noteq> TP_None" for v k d
    using others [of v] by auto
  moreover have "tm_tasks (tt_mgr ?s) k = Some e \<longrightarrow> (te_done e \<longleftrightarrow> tt_phase ?s k = TP_Ended)" for k e
    using tt_okD(6) [OF ok, of k e] none by (auto simp: i'(2))
  moreover have "tt_phase ?s k = TP_Ended \<longrightarrow> tm_tasks (tt_mgr ?s) k \<noteq> None" for k
    using tt_okD(7) [OF ok, of k] by (auto simp: i'(2))
  ultimately show ?thesis unfolding tt_ok_def by blast
qed

lemma tt_ok_insert:
  assumes ok: "tt_ok s" and pc: "tt_pc s t = A_Created i c"
  shows "tt_ok (upd_tasks (\<lambda>m. m(i \<mapsto> \<lparr>te_joinable = True, te_done = False\<rparr>)) (s\<lparr>tt_pc := (tt_pc s)(t := A_Loop c)\<rparr>))"
proof -
  have lock: "tt_lock s = Some t" using tt_okD(3) [OF ok] pc by simp
  have "tt_pc s u = A_Idle" if "u \<noteq> t" for u by (rule tt_ok_others [OF ok lock that])
  then have "tt_pc s u = A_Created k d \<longleftrightarrow> u = t \<and> k = i \<and> d = c" for u k d using pc by (cases "u = t") auto
  moreover have "tt_phase s i \<noteq> TP_Ended" using tt_okD(4,7) [OF ok] pc by blast
  ultimately show ?thesis using lock tt_okD [OF ok] by (auto simp: tt_ok_def)
qed

text \<open>Every state of a call keeps the lock, so what another thread does leaves the callers alone.\<close>

lemma tt_ok_pc:
  assumes ok: "tt_ok s" and "tt_lock s = None \<or> tt_lock s = Some t" "\<forall>i c. tt_pc s t \<noteq> A_Created i c"
    and "p = A_Idle \<and> l = None \<or> l = Some t" "\<forall>i c. p \<noteq> A_Created i c"
  shows "tt_ok (s\<lparr>tt_lock := l, tt_pc := (tt_pc s)(t := p)\<rparr>)"
proof -
  have "tt_pc s u = A_Idle" if "u \<noteq> t" for u
    using assms(2) tt_okD(3) [OF ok] that by (metis option.distinct(1) option.inject)
  then have "tt_pc s u \<noteq> A_Created k d" for u k d using assms(3) by (cases "u = t") auto
  with assms(4,5) tt_okD [OF ok] \<open>\<And>u. u \<noteq> t \<Longrightarrow> tt_pc s u = A_Idle\<close> show ?thesis
    by (auto simp: tt_ok_def)
qed

lemma tt_inv_add:
  assumes inv: "tt_inv s" and step: "add_step t s s'"
  shows "tt_inv s'"
  unfolding tt_inv_def
proof (intro impI)
  assume left: "ids_left s'"
  from step left have "ids_left s" by (auto elim!: add_stepE)
  with inv have ok: "tt_ok s" by (simp add: tt_inv_def)
  from step show "tt_ok s'"
  proof (cases rule: add_step.cases)
    case (add_create c i m)
    with left have "tt_created s + 3 < 2 ^ 32" by simp
    from tt_ok_create [OF ok add_create(2) this add_create(3)] show ?thesis unfolding add_create(1) .
  next
    case (add_enter c)
    with tt_ok_pc [OF ok, of t "A_Loop c" "Some t"] show ?thesis by simp
  next
    case add_return
    with tt_ok_pc [OF ok, of t A_Idle None] tt_okD(3) [OF ok, of t] show ?thesis by simp
  next
    case (add_taken i c)
    with tt_okD(4) [OF ok, of i] show ?thesis by auto
  next
    case (add_insert i c)
    from tt_ok_insert [OF ok add_insert(2)] show ?thesis unfolding add_insert(1) by simp
  qed
qed

text \<open>What happens to one task: its phase becomes \<open>p\<close> and its entry \<open>x\<close>.\<close>

lemma tt_ok_task:
  assumes ok: "tt_ok s" and p: "p = TP_None \<longleftrightarrow> tt_phase s i = TP_None"
    and x: "x = None \<longleftrightarrow> tm_tasks (tt_mgr s) i = None" "\<And>e. x = Some e \<Longrightarrow> te_done e \<longleftrightarrow> p = TP_Ended"
      "p = TP_Ended \<Longrightarrow> x \<noteq> None"
  shows "tt_ok (upd_tasks (\<lambda>m. m(i := x)) (s\<lparr>tt_phase := (tt_phase s)(i := p)\<rparr>))" (is "tt_ok ?s")
proof -
  have phase: "tt_phase ?s k = TP_None \<longleftrightarrow> tt_phase s k = TP_None" for k using p by simp
  have entry: "tm_tasks (tt_mgr ?s) k = None \<longleftrightarrow> tm_tasks (tt_mgr s) k = None" for k using x(1) by simp
  have "tm_tasks (tt_mgr ?s) k = Some e \<longrightarrow> (te_done e \<longleftrightarrow> tt_phase ?s k = TP_Ended)" for k e
    using x(2) tt_okD(6) [OF ok, of k e] by auto
  moreover have "tt_phase ?s k = TP_Ended \<longrightarrow> tm_tasks (tt_mgr ?s) k \<noteq> None" for k
    using x(3) tt_okD(7) [OF ok, of k] by auto
  moreover have "tm_taskId (tt_mgr ?s) = of_nat (tt_created ?s + 2)" using tt_okD(1) [OF ok] by simp
  moreover have "tt_phase ?s k \<noteq> TP_None \<longleftrightarrow> 2 \<le> unat k \<and> unat k < tt_created ?s + 2" for k
    using tt_okD(2) [OF ok, of k] unfolding phase by simp
  moreover have "tm_tasks (tt_mgr ?s) k = None \<longleftrightarrow> tt_phase ?s k = TP_None \<or> (\<exists>t c. tt_pc ?s t = A_Created k c)" for k
    using tt_okD(4) [OF ok, of k] unfolding phase entry by simp
  moreover have "tt_pc ?s t \<noteq> A_Idle \<longrightarrow> tt_lock ?s = Some t" for t using tt_okD(3) [OF ok, of t] by auto
  moreover have "tt_pc ?s t = A_Created k c \<longrightarrow> tt_phase ?s k \<noteq> TP_None" for t k c
    using tt_okD(5) [OF ok, of t k c] unfolding phase by simp
  ultimately show ?thesis unfolding tt_ok_def by blast
qed

lemma tt_ok_crashed [simp]: "tt_ok (s\<lparr>tt_crashed := b\<rparr>) = tt_ok s"
  by (simp add: tt_ok_def)

lemma tt_inv_task:
  assumes inv: "tt_inv s" and step: "task_step i s s'"
  shows "tt_inv s'"
  unfolding tt_inv_def
proof (intro impI)
  assume left: "ids_left s'"
  from step left have "ids_left s" by (auto elim!: task_stepE)
  with inv have ok: "tt_ok s" by (simp add: tt_inv_def)
  note task = tt_ok_task [OF ok, of _ i]
  from step show "tt_ok s'"
  proof (cases rule: task_step.cases)
    case task_init
    with task [of TP_Running "tm_tasks (tt_mgr s) i"] tt_okD(6) [OF ok, of i] show ?thesis by simp
  next
    case (task_done e)
    with task [of TP_Ended "Some (e\<lparr>te_done := True\<rparr>)"] show ?thesis by simp
  next
    case task_done_throws
    with ok show ?thesis by simp
  next
    case (task_join k m)
    then obtain e where "tm_tasks (tt_mgr s) i = Some e"
      "m = tt_mgr s \<or> m = (tt_mgr s)\<lparr>tm_tasks := (tm_tasks (tt_mgr s))(i \<mapsto> e\<lparr>te_joinable := False\<rparr>)\<rparr>"
      by (auto simp: TaskManager_JoinTask_def split: option.splits if_splits)
    with task [of "tt_phase s i" "Some (e\<lparr>te_joinable := False\<rparr>)"] tt_okD(6) [OF ok, of i e] ok task_join(1)
    show ?thesis by auto
  qed
qed

interpretation tt: invariant_system tt_init tt_step tt_inv
proof
  show "tt_inv s" if "tt_init s" for s using that by (rule tt_inv_init)
  show "tt_inv s'" if "tt_inv s" "tt_step s s'" for s s'
    using that tt_inv_add tt_inv_task unfolding tt_step_def by blast
qed

section \<open>Properties\<close>

text \<open>C24. As long as the 32-bit counter does not wrap, whatever the threads do: the ids in use are 2, 3 and
  so on without a gap, none of them 0 or 1; the table has an entry for every id handed out, except for
  the one that the holder of the mutex is about to insert; and an entry says that its task is done
  exactly when the task has ended.\<close>

theorem TaskManager_ids:
  assumes "reach tt_init tt_step s" and "tt_created s + 2 < 2 ^ 32"
  shows "(tt_phase s i \<noteq> TP_None \<longleftrightarrow> 2 \<le> unat i \<and> unat i < tt_created s + 2) \<and>
    (tt_phase s i \<noteq> TP_None \<and> tm_tasks (tt_mgr s) i = None \<longrightarrow>
       (\<exists>t c. tt_lock s = Some t \<and> tt_pc s t = A_Created i c)) \<and>
    (\<forall>e. tm_tasks (tt_mgr s) i = Some e \<longrightarrow> (te_done e \<longleftrightarrow> tt_phase s i = TP_Ended))"
proof -
  have ok: "tt_ok s" using tt.reach_inv [OF assms(1)] assms(2) by (simp add: tt_inv_def)
  have "tt_lock s = Some t" if "tt_pc s t = A_Created i c" for t c using tt_okD(3) [OF ok] that by simp
  with tt_okD [OF ok] show ?thesis by blast
qed

text \<open>A thread that adds one task: the states its steps pass through.\<close>

definition tt_first :: tt_sys where
  "tt_first = \<lparr>tt_mgr = \<lparr>tm_taskId = 2, tm_tasks = Map.empty\<rparr>, tt_lock = None, tt_pc = (\<lambda>_. A_Idle),
     tt_phase = (\<lambda>_. TP_None), tt_created = 0, tt_crashed = False\<rparr>"

definition tt_second :: tt_sys where
  "tt_second = tt_first\<lparr>tt_mgr := \<lparr>tm_taskId = 3, tm_tasks = Map.empty\<rparr>, tt_lock := Some 0,
     tt_pc := (tt_pc tt_first)(0 := A_Created 2 0), tt_phase := (tt_phase tt_first)(2 := TP_Spawned), tt_created := 1\<rparr>"

lemma tt_second_reach: "reach tt_init tt_step tt_second"
proof -
  let ?s = "tt_first\<lparr>tt_lock := Some 0, tt_pc := (tt_pc tt_first)(0 := A_Loop 1)\<rparr>"
  have "reach tt_init tt_step tt_first"
    by (rule reach_init) (simp add: tt_init_def tt_first_def)
  moreover have "tt_step tt_first ?s"
    using add_enter [of tt_first 0 1] by (auto simp: tt_step_def tt_first_def)
  ultimately have "reach tt_init tt_step ?s" by (rule reach_step)
  moreover have "tt_step ?s tt_second"
    using add_create [of ?s 0 0 2 "\<lparr>tm_taskId = 3, tm_tasks = Map.empty\<rparr>"]
    by (auto simp: tt_step_def tt_second_def tt_first_def TaskManager_get_new_task_id_def)
  ultimately show ?thesis by (rule reach_step)
qed

theorem TaskManager_ids_witness:
  "tt_phase tt_second 2 = TP_Spawned \<and> (\<exists>t c. tt_lock tt_second = Some t \<and> tt_pc tt_second t = A_Created 2 c)"
  using TaskManager_ids [OF tt_second_reach, of 2]
  by (auto simp: tt_second_def tt_first_def)

text \<open>C33. A task can end before \<^verbatim>\<open>AddTask\<close> has inserted its entry, since \<^verbatim>\<open>_task_done\<close> takes no lock: then
  \<^verbatim>\<open>_tasks.at\<close> throws in the task's thread, which ends the process.\<close>

theorem TaskManager_ends_early:
  "\<exists>s s'. reach tt_init tt_step s \<and> tt_phase s 2 = TP_Running \<and> tm_tasks (tt_mgr s) 2 = None \<and>
     tt_lock s = Some 0 \<and> tt_step s s' \<and> tt_crashed s'"
proof -
  let ?s = "tt_second\<lparr>tt_phase := (tt_phase tt_second)(2 := TP_Running)\<rparr>"
  have "tt_step tt_second ?s"
    using task_init [of tt_second 2] by (auto simp: tt_step_def tt_second_def tt_first_def)
  with tt_second_reach have "reach tt_init tt_step ?s" by (rule reach_step)
  moreover have "tt_step ?s (?s\<lparr>tt_crashed := True\<rparr>)"
    using task_done_throws [of ?s 2] by (auto simp: tt_step_def tt_second_def tt_first_def)
  ultimately show ?thesis by (intro exI [of _ ?s] exI conjI) (auto simp: tt_second_def tt_first_def)
qed

end
