(* ===== verification/Session_Send.thy ===== *)
theory Session_Send
  imports Prelude "HOL-Library.Sublist"
begin

text \<open>
  Sending on one session by any number of threads: \<^verbatim>\<open>Session::_send\<close>, \<^verbatim>\<open>Session::_register_send\<close> and what
  else touches the fields they share (\<^verbatim>\<open>_process_send\<close>, \<^verbatim>\<open>_set_connected\<close>, \<^verbatim>\<open>Disconnect\<close>, \<^verbatim>\<open>_clear\<close>) of
  \<^verbatim>\<open>src/MyNetworkLib/Session.cpp\<close>, as a step relation with one atomic access or one critical section
  of \<^verbatim>\<open>WRITE_LOCK(send)\<close> per step. A buffer is any value.

  The fields \<open>ss_queued\<close> (all buffers given to \<^verbatim>\<open>_send\<close>, in the order of the lock), \<open>ss_handed\<close> (all buffers
  given to \<^verbatim>\<open>WSASend\<close>), \<open>ss_cleared\<close> (whether \<^verbatim>\<open>_clear\<close> has run) and \<open>ss_reused\<close> (whether the
  \<^verbatim>\<open>OVERLAPPED\<close> was cleared under a send in progress) only observe.
\<close>

section \<open>The machine\<close>

datatype send_pc =
    S_Idle
  | S_Register
  | S_Clear
  | S_Move
  | S_Send
  | S_Sent
  | S_Unflag

record 'b send_sys =
  ss_queue :: "'b list"
  ss_sending :: bool
  ss_connected :: bool
  ss_segments :: "'b list"
  ss_inflight :: nat
  ss_pc :: "nat \<Rightarrow> send_pc"
  ss_queued :: "'b list"
  ss_handed :: "'b list"
  ss_cleared :: bool
  ss_reused :: bool

definition ss_init :: "'b send_sys \<Rightarrow> bool" where
  "ss_init s \<longleftrightarrow> ss_queue s = [] \<and> \<not> ss_sending s \<and> \<not> ss_connected s \<and> ss_segments s = [] \<and>
     ss_inflight s = 0 \<and> ss_pc s = (\<lambda>_. S_Idle) \<and> ss_queued s = [] \<and> ss_handed s = [] \<and>
     \<not> ss_cleared s \<and> \<not> ss_reused s"

text \<open>\<^verbatim>\<open>_send\<close>: the buffers enter the queue and the flag is exchanged under the lock; who found it down
  goes on to \<^verbatim>\<open>_register_send\<close>.\<close>

inductive send_step :: "nat \<Rightarrow> 'b send_sys \<Rightarrow> 'b send_sys \<Rightarrow> bool" where
  send_flag:
    "ss_pc s t = S_Idle \<Longrightarrow> bs \<noteq> [] \<Longrightarrow> \<not> ss_sending s \<Longrightarrow>
     send_step t s (s\<lparr>ss_queue := ss_queue s @ bs, ss_queued := ss_queued s @ bs,
                      ss_sending := True, ss_pc := (ss_pc s)(t := S_Register)\<rparr>)"
| send_queued:
    "ss_pc s t = S_Idle \<Longrightarrow> bs \<noteq> [] \<Longrightarrow> ss_sending s \<Longrightarrow>
     send_step t s (s\<lparr>ss_queue := ss_queue s @ bs, ss_queued := ss_queued s @ bs\<rparr>)"

text \<open>\<^verbatim>\<open>_register_send\<close>. On a session that is not connected it returns with the flag still up; the
  \<^verbatim>\<open>_disconnect\<close> called there touches none of these fields. Between the return of \<^verbatim>\<open>WSASend\<close> and the store
  to the flag other threads may queue.\<close>

inductive register_step :: "nat \<Rightarrow> 'b send_sys \<Rightarrow> 'b send_sys \<Rightarrow> bool" where
  reg_disconnected:
    "ss_pc s t = S_Register \<Longrightarrow> \<not> ss_connected s \<Longrightarrow>
     register_step t s (s\<lparr>ss_pc := (ss_pc s)(t := S_Idle)\<rparr>)"
| reg_connected:
    "ss_pc s t = S_Register \<Longrightarrow> ss_connected s \<Longrightarrow>
     register_step t s (s\<lparr>ss_pc := (ss_pc s)(t := S_Clear)\<rparr>)"
| reg_clear:
    "ss_pc s t = S_Clear \<Longrightarrow>
     register_step t s (s\<lparr>ss_reused := (ss_reused s \<or> 0 < ss_inflight s), ss_pc := (ss_pc s)(t := S_Move)\<rparr>)"
| reg_move:
    "ss_pc s t = S_Move \<Longrightarrow>
     register_step t s (s\<lparr>ss_segments := ss_segments s @ ss_queue s, ss_queue := [],
                          ss_pc := (ss_pc s)(t := S_Send)\<rparr>)"
| reg_wsasend:
    "ss_pc s t = S_Send \<Longrightarrow>
     register_step t s (s\<lparr>ss_handed := ss_handed s @ ss_segments s,
                          ss_inflight := (if ok then ss_inflight s + 1 else ss_inflight s),
                          ss_pc := (ss_pc s)(t := S_Sent)\<rparr>)"
| reg_segments:
    "ss_pc s t = S_Sent \<Longrightarrow>
     register_step t s (s\<lparr>ss_segments := [], ss_pc := (ss_pc s)(t := S_Unflag)\<rparr>)"
| reg_unflag:
    "ss_pc s t = S_Unflag \<Longrightarrow>
     register_step t s (s\<lparr>ss_sending := False, ss_pc := (ss_pc s)(t := S_Idle)\<rparr>)"

text \<open>The rest of the session, at any time: a send completes, the session connects, loses its
  connection, or is cleared by \<^verbatim>\<open>_process_disconnect\<close>, which empties the queue without the lock.\<close>

inductive session_step :: "'b send_sys \<Rightarrow> 'b send_sys \<Rightarrow> bool" where
  ses_process_send:
    "0 < ss_inflight s \<Longrightarrow> session_step s (s\<lparr>ss_inflight := ss_inflight s - 1\<rparr>)"
| ses_set_connected:
    "session_step s (s\<lparr>ss_connected := True\<rparr>)"
| ses_disconnect:
    "session_step s (s\<lparr>ss_connected := False\<rparr>)"
| ses_clear:
    "session_step s (s\<lparr>ss_queue := [], ss_connected := False, ss_cleared := True\<rparr>)"

definition ss_step :: "'b send_sys \<Rightarrow> 'b send_sys \<Rightarrow> bool" where
  "ss_step s s' \<longleftrightarrow> (\<exists>t. send_step t s s' \<or> register_step t s s') \<or> session_step s s'"

section \<open>The invariant\<close>

text \<open>At most one thread, the owner, is inside \<^verbatim>\<open>_register_send\<close>; it holds the flag, and the
  segments are its own.\<close>

definition ss_owner :: "nat \<Rightarrow> 'b send_sys \<Rightarrow> bool" where
  "ss_owner t s \<longleftrightarrow> (\<forall>u. u \<noteq> t \<longrightarrow> ss_pc s u = S_Idle) \<and> (ss_pc s t \<noteq> S_Idle \<longrightarrow> ss_sending s) \<and>
     (ss_pc s t \<noteq> S_Send \<longrightarrow> ss_pc s t \<noteq> S_Sent \<longrightarrow> ss_segments s = [])"

text \<open>The buffers that are moved out of the queue and not yet given to \<^verbatim>\<open>WSASend\<close>.\<close>

definition ss_pending :: "'b send_sys \<Rightarrow> 'b list" where
  "ss_pending s = (if \<exists>t. ss_pc s t = S_Send then ss_segments s else [])"

definition ss_history :: "'b send_sys \<Rightarrow> bool" where
  "ss_history s \<longleftrightarrow> subseq (ss_handed s @ ss_pending s @ ss_queue s) (ss_queued s) \<and>
     (\<not> ss_cleared s \<longrightarrow> ss_handed s @ ss_pending s @ ss_queue s = ss_queued s)"

definition ss_inv :: "'b send_sys \<Rightarrow> bool" where
  "ss_inv s \<longleftrightarrow> (\<exists>t. ss_owner t s) \<and> ss_history s"

lemma ss_pending_owner:
  assumes "ss_owner t s"
  shows "ss_pending s = (if ss_pc s t = S_Send then ss_segments s else [])"
proof -
  from assms have "(\<exists>u. ss_pc s u = S_Send) \<longleftrightarrow> ss_pc s t = S_Send"
    unfolding ss_owner_def by (metis send_pc.distinct(7))
  then show ?thesis by (simp add: ss_pending_def)
qed

lemma ss_owner_active: "ss_owner t s \<Longrightarrow> ss_pc s u \<noteq> S_Idle \<Longrightarrow> u = t"
  by (auto simp: ss_owner_def)

lemma ss_owner_free: "ss_owner t s \<Longrightarrow> \<not> ss_sending s \<Longrightarrow> ss_owner u s"
  unfolding ss_owner_def by (metis send_pc.distinct(7,9))

lemma subseq_drop_end: "subseq (xs @ ys) zs \<Longrightarrow> subseq xs zs"
  by (meson prefix_imp_subseq prefixI subseq_order.trans)

lemma ss_inv_init: "ss_init s \<Longrightarrow> ss_inv s"
  by (simp add: ss_inv_def ss_history_def ss_owner_def ss_init_def ss_pending_def)

lemma ss_owner_send:
  assumes "send_step u s s'" and "ss_owner t s"
  shows "(if ss_sending s then ss_owner t s' else ss_owner u s') \<and> ss_pending s' = ss_pending s"
proof -
  from assms(1) have "(\<exists>v. ss_pc s' v = S_Send) \<longleftrightarrow> (\<exists>v. ss_pc s v = S_Send)"
    by cases (auto, metis send_pc.distinct(7))
  moreover from assms(1) have "ss_segments s' = ss_segments s"
    by cases auto
  ultimately have "ss_pending s' = ss_pending s"
    by (simp add: ss_pending_def)
  moreover from assms(1) have "if ss_sending s then ss_owner t s' else ss_owner u s'"
    using assms(2) ss_owner_free [OF assms(2), of u] by cases (auto simp: ss_owner_def)
  ultimately show ?thesis by simp
qed

lemma ss_owner_register: "register_step t s s' \<Longrightarrow> ss_owner t s \<Longrightarrow> ss_owner t s'"
  by (induction rule: register_step.induct) (auto simp: ss_owner_def)

lemma ss_owner_session: "session_step s s' \<Longrightarrow> ss_owner t s \<Longrightarrow> ss_owner t s'"
  by (induction rule: session_step.induct) (auto simp: ss_owner_def)

lemma register_active: "register_step t s s' \<Longrightarrow> ss_pc s t \<noteq> S_Idle"
  by (induction rule: register_step.induct) auto

lemma ss_history_register:
  assumes "register_step t s s'" and "ss_owner t s" and "ss_history s"
  shows "ss_history s'"
proof -
  have "ss_owner t s'" using assms(1,2) by (rule ss_owner_register)
  note pend = ss_pending_owner [OF assms(2)] ss_pending_owner [OF this]
  from assms(1) show ?thesis
    using assms(2,3) pend by cases (auto simp: ss_history_def ss_owner_def)
qed

lemma ss_history_session:
  assumes "session_step s s'" and "ss_history s"
  shows "ss_history s'"
proof -
  have "ss_pending s' = ss_pending s"
    using assms(1) by cases (auto simp: ss_pending_def)
  with assms show ?thesis
    by cases (auto simp: ss_history_def dest: subseq_drop_end [of "_ @ _", simplified])
qed

lemma ss_history_send:
  assumes "send_step u s s'" and "ss_owner t s" and "ss_history s"
  shows "ss_history s'"
proof -
  have "ss_pending s' = ss_pending s" using ss_owner_send [OF assms(1,2)] by simp
  with assms(1,3) show ?thesis
    by cases (auto simp: ss_history_def simp flip: append_assoc)
qed

interpretation ss: invariant_system ss_init ss_step ss_inv
proof unfold_locales
  fix s s' :: "'b send_sys"
  assume inv: "ss_inv s" and step: "ss_step s s'"
  then obtain t where t: "ss_owner t s" "ss_history s" by (auto simp: ss_inv_def)
  from step consider (send) u where "send_step u s s'" | (reg) u where "register_step u s s'" |
      (ses) "session_step s s'"
    by (auto simp: ss_step_def)
  then show "ss_inv s'"
  proof cases
    case send
    then have "\<exists>t. ss_owner t s'" using ss_owner_send [OF _ t(1)] by (cases "ss_sending s") auto
    then show ?thesis using ss_history_send [OF send t] by (simp add: ss_inv_def)
  next
    case reg
    then have "u = t" using ss_owner_active [OF t(1)] register_active by blast
    with reg t show ?thesis
      unfolding ss_inv_def by (blast intro: ss_owner_register ss_history_register)
  next
    case ses
    with t show ?thesis
      unfolding ss_inv_def by (blast intro: ss_owner_session ss_history_session)
  qed
qed (rule ss_inv_init)

section \<open>A flag that stays up\<close>

text \<open>The states in which the flag is up and nobody is there to take it down, after \<open>h\<close> was sent.\<close>

definition ss_stuck :: "'b list \<Rightarrow> 'b send_sys \<Rightarrow> bool" where
  "ss_stuck h s \<longleftrightarrow> (\<forall>t. ss_pc s t = S_Idle) \<and> ss_sending s \<and> ss_handed s = h"

interpretation stuck: invariant_system "ss_stuck h" ss_step "ss_stuck h"
proof unfold_locales
  fix s s' :: "'a send_sys"
  assume stuck: "ss_stuck h s" and "ss_step s s'"
  then consider t where "send_step t s s'" | t where "register_step t s s'" | "session_step s s'"
    by (auto simp: ss_step_def)
  then show "ss_stuck h s'"
  proof cases
    case 1
    then show ?thesis using stuck by cases (auto simp: ss_stuck_def)
  next
    case 2
    then show ?thesis using stuck register_active by (auto simp: ss_stuck_def)
  next
    case 3
    then show ?thesis using stuck by cases (auto simp: ss_stuck_def)
  qed
qed

section \<open>Runs\<close>

text \<open>A run is a list of moves; \<open>ss_move\<close> is the state after a move that the step relations allow.\<close>

datatype 'b ss_act = A_send nat "'b list" | A_register nat bool | A_complete | A_connect

fun ss_move :: "'b send_sys \<Rightarrow> 'b ss_act \<Rightarrow> 'b send_sys" where
  "ss_move s (A_send t bs) =
     (if bs = [] \<or> ss_pc s t \<noteq> S_Idle then s
      else if ss_sending s then s\<lparr>ss_queue := ss_queue s @ bs, ss_queued := ss_queued s @ bs\<rparr>
      else s\<lparr>ss_queue := ss_queue s @ bs, ss_queued := ss_queued s @ bs,
             ss_sending := True, ss_pc := (ss_pc s)(t := S_Register)\<rparr>)"
| "ss_move s (A_register t ok) =
     (case ss_pc s t of
        S_Idle \<Rightarrow> s
      | S_Register \<Rightarrow> s\<lparr>ss_pc := (ss_pc s)(t := if ss_connected s then S_Clear else S_Idle)\<rparr>
      | S_Clear \<Rightarrow> s\<lparr>ss_reused := (ss_reused s \<or> 0 < ss_inflight s), ss_pc := (ss_pc s)(t := S_Move)\<rparr>
      | S_Move \<Rightarrow> s\<lparr>ss_segments := ss_segments s @ ss_queue s, ss_queue := [], ss_pc := (ss_pc s)(t := S_Send)\<rparr>
      | S_Send \<Rightarrow> s\<lparr>ss_handed := ss_handed s @ ss_segments s,
                  ss_inflight := (if ok then ss_inflight s + 1 else ss_inflight s),
                  ss_pc := (ss_pc s)(t := S_Sent)\<rparr>
      | S_Sent \<Rightarrow> s\<lparr>ss_segments := [], ss_pc := (ss_pc s)(t := S_Unflag)\<rparr>
      | S_Unflag \<Rightarrow> s\<lparr>ss_sending := False, ss_pc := (ss_pc s)(t := S_Idle)\<rparr>)"
| "ss_move s A_complete = (if 0 < ss_inflight s then s\<lparr>ss_inflight := ss_inflight s - 1\<rparr> else s)"
| "ss_move s A_connect = s\<lparr>ss_connected := True\<rparr>"

lemma ss_move_register: "ss_move s (A_register t ok) = s \<or> register_step t s (ss_move s (A_register t ok))"
  using reg_wsasend [of s t ok] by (cases "ss_pc s t") (auto intro: register_step.intros)

lemma ss_move_step: "ss_move s a = s \<or> ss_step s (ss_move s a)"
proof (cases a)
  case (A_send t bs)
  then show ?thesis
    using send_flag [of s t bs] send_queued [of s t bs] by (auto simp: ss_step_def)
next
  case (A_register t ok)
  then show ?thesis using ss_move_register [of s t ok] by (auto simp: ss_step_def simp del: ss_move.simps)
next
  case A_complete
  then show ?thesis using ses_process_send [of s] by (auto simp: ss_step_def)
next
  case A_connect
  then show ?thesis using ses_set_connected [of s] by (auto simp: ss_step_def)
qed

lemma reach_run: "reach init ss_step s \<Longrightarrow> reach init ss_step (run_steps ss_move s acts)"
proof (induction acts arbitrary: s)
  case (Cons a acts)
  then have "reach init ss_step (ss_move s a)"
    using ss_move_step [of s a] by (metis reach.reach_step)
  with Cons show ?case by simp
qed simp

definition ss_start :: "'b send_sys" where
  "ss_start = \<lparr>ss_queue = [], ss_sending = False, ss_connected = False, ss_segments = [], ss_inflight = 0,
     ss_pc = (\<lambda>_. S_Idle), ss_queued = [], ss_handed = [], ss_cleared = False, ss_reused = False\<rparr>"

lemma ss_start_init: "ss_init ss_start"
  by (simp add: ss_init_def ss_start_def)

lemma run_reach: "reach ss_init ss_step (run_steps ss_move ss_start acts)"
  by (rule reach_run) (rule reach_init, rule ss_start_init)

text \<open>One whole \<^verbatim>\<open>_register_send\<close> of thread \<open>t\<close>, and one during which thread 1 queues.\<close>

abbreviation (input) "A_whole t \<equiv> replicate 6 (A_register t True)"

abbreviation (input) "late_run b c \<equiv>
  [A_connect, A_send 0 [b]] @ replicate 3 (A_register 0 True) @ [A_send 1 [c]] @ replicate 3 (A_register 0 True)"

section \<open>Properties of sending\<close>

text \<open>C11. With any number of threads in \<^verbatim>\<open>_send\<close> on one session, at most one is inside \<^verbatim>\<open>_register_send\<close>. What was
  given to \<^verbatim>\<open>WSASend\<close> is in the order of the queue and has nothing twice, and as long as \<^verbatim>\<open>_clear\<close> has not
  emptied the queue nothing is missing: sent, pending and queued buffers together are all buffers
  ever given to \<^verbatim>\<open>_send\<close>.\<close>

theorem session_send_fifo:
  assumes "reach ss_init ss_step s"
  shows "(ss_pc s t \<noteq> S_Idle \<and> ss_pc s u \<noteq> S_Idle \<longrightarrow> t = u) \<and>
    subseq (ss_handed s) (ss_queued s) \<and>
    (ss_cleared s \<or> ss_handed s @ ss_pending s @ ss_queue s = ss_queued s)"
proof -
  from assms have inv: "ss_inv s" by (rule ss.reach_inv)
  then obtain v where v: "ss_owner v s" by (auto simp: ss_inv_def)
  from inv have "subseq (ss_handed s) (ss_queued s)"
    by (auto simp: ss_inv_def ss_history_def dest: subseq_drop_end)
  with inv show ?thesis
    using ss_owner_active [OF v, of t] ss_owner_active [OF v, of u]
    by (auto simp: ss_inv_def ss_history_def)
qed

theorem session_send_fifo_witness:
  "\<exists>s :: nat send_sys. ss_pc s 0 = S_Send \<and> ss_queue s = [9] \<and>
     subseq (ss_handed s) (ss_queued s) \<and> ss_handed s @ [8] @ [9] = [7, 8, 9]"
proof -
  let ?acts = "[A_connect, A_send 0 [7 :: nat]] @ A_whole 0 @ [A_send 0 [8]] @
     replicate 3 (A_register 0 True) @ [A_send 1 [9]]"
  show ?thesis
    using session_send_fifo [OF run_reach, of ?acts 0 0]
    by (intro exI [of _ "run_steps ss_move ss_start ?acts"])
       (simp add: ss_start_def numeral_eq_Suc ss_pending_def)
qed

text \<open>C38. Two races of \<^verbatim>\<open>_register_send\<close>. A buffer queued after the queue was moved into the segments and
  before the flag is taken down stays behind: the session is connected, the flag is down, nobody is
  sending, and the buffer is in the queue. And the \<^verbatim>\<open>OVERLAPPED\<close> of \<^verbatim>\<open>_sendEvent\<close> is cleared for a second
  send while the first one has not completed.\<close>

theorem session_send_races:
  "(\<exists>s. reach ss_init ss_step s \<and> (\<forall>t. ss_pc s t = S_Idle) \<and> ss_connected s \<and> \<not> ss_sending s \<and>
      ss_handed s = [b] \<and> ss_queue s = [c]) \<and>
   (\<exists>s. reach ss_init ss_step s \<and> ss_reused s \<and> ss_handed s = [b] \<and> ss_inflight s = 1)"
proof
  show "\<exists>s. reach ss_init ss_step s \<and> (\<forall>t. ss_pc s t = S_Idle) \<and> ss_connected s \<and> \<not> ss_sending s \<and>
      ss_handed s = [b] \<and> ss_queue s = [c]"
    by (rule exI [of _ "run_steps ss_move ss_start (late_run b c)"], intro conjI, rule run_reach)
       (simp_all add: ss_start_def numeral_eq_Suc)
  let ?acts = "[A_connect, A_send 0 [b]] @ A_whole 0 @ [A_send 0 [c]] @ replicate 2 (A_register 0 True)"
  show "\<exists>s. reach ss_init ss_step s \<and> ss_reused s \<and> ss_handed s = [b] \<and> ss_inflight s = 1"
    by (rule exI [of _ "run_steps ss_move ss_start ?acts"], intro conjI, rule run_reach)
       (simp_all add: ss_start_def numeral_eq_Suc)
qed

text \<open>Once the flag is up and no thread is inside \<^verbatim>\<open>_register_send\<close>, nothing is sent any more, whatever
  threads send and whether or not the session connects later; a \<^verbatim>\<open>_send\<close> on a session that is not
  connected leaves it in such a state.\<close>

theorem session_send_stuck:
  assumes "reach (ss_stuck h) ss_step s"
  shows "ss_handed s = h \<and> ss_sending s \<and> (\<forall>t. ss_pc s t = S_Idle)"
  using stuck.reach_inv [OF assms] by (simp add: ss_stuck_def)

theorem session_send_stuck_witness:
  "\<exists>s s' :: nat send_sys. reach ss_init ss_step s \<and> reach (\<lambda>x. x = s) ss_step s' \<and>
     ss_connected s' \<and> ss_queue s' = [7, 8, 9] \<and> ss_handed s' = []"
proof -
  let ?s = "run_steps ss_move ss_start [A_send 0 [7 :: nat], A_register 0 True]"
  let ?s' = "run_steps ss_move ?s [A_connect, A_send 0 [8], A_send 1 [9]]"
  have "ss_stuck [] ?s" by (simp add: ss_stuck_def ss_start_def)
  then have "ss_handed ?s' = []"
    using session_send_stuck [of "[]" ?s'] by (blast intro: reach_run reach_init)
  moreover have "ss_connected ?s' \<and> ss_queue ?s' = [7, 8, 9]" by (simp add: ss_start_def)
  moreover have "reach (\<lambda>x. x = ?s) ss_step ?s'" by (blast intro: reach_run reach_init)
  ultimately show ?thesis using run_reach by blast
qed

end
