(* ===== verification/Packets.thy ===== *)
theory Packets
  imports Send_Buffer
begin

text \<open>
  Packets on the wire and the packet session: \<^verbatim>\<open>PacketWrapper.h\<close>, \<^verbatim>\<open>PacketSession.h\<close> and
  \<^verbatim>\<open>PacketSession.cpp\<close> under \<^verbatim>\<open>src/MyNetworkLib/\<close>. A header is two 16-bit fields, size first, in the
  little-endian byte order of the platform. Received memory is the list of the bytes from the
  session's \<^verbatim>\<open>DataPos()\<close> to the end of its vector, of which the first \<open>len\<close> were received; the
  calls of the virtual \<^verbatim>\<open>OnRecvPacket\<close> are collected as pairs of an offset into that memory and an id.
\<close>

section \<open>Headers\<close>

record packet_header =
  ph_size :: uint16
  ph_id :: uint16

definition PacketHeader_new :: "uint16 \<Rightarrow> uint16 \<Rightarrow> packet_header" where
  "PacketHeader_new i n = \<lparr>ph_size = n, ph_id = i\<rparr>"

abbreviation (input) HEADER_SIZE :: nat where "HEADER_SIZE \<equiv> 4"

definition uint16_bytes :: "uint16 \<Rightarrow> ubyte list" where
  "uint16_bytes w = [ucast w, ucast (drop_bit 8 w)]"

definition bytes_uint16 :: "ubyte \<Rightarrow> ubyte \<Rightarrow> uint16" where
  "bytes_uint16 l h = ucast l OR push_bit 8 (ucast h)"

definition header_bytes :: "packet_header \<Rightarrow> ubyte list" where
  "header_bytes h = uint16_bytes (ph_size h) @ uint16_bytes (ph_id h)"

definition header_at :: "ubyte list \<Rightarrow> nat \<Rightarrow> packet_header outcome" where
  "header_at mem pos =
     (if length mem < pos + HEADER_SIZE then Fault BufferOverrun
      else Ok \<lparr>ph_size = bytes_uint16 (mem ! pos) (mem ! (pos + 1)),
              ph_id = bytes_uint16 (mem ! (pos + 2)) (mem ! (pos + 3))\<rparr>)"

section \<open>PacketWrapper\<close>

record wsabuf =
  wb_len :: uint32
  wb_buf :: "nat \<times> nat"

definition write_heap :: "nat \<Rightarrow> nat \<Rightarrow> ubyte list \<Rightarrow> sb_world \<Rightarrow> sb_world outcome" where
  "write_heap i pos bs w =
     (if length (sb_buffer (sw_heap w ! i)) < pos + length bs then Fault BufferOverrun
      else Ok (w\<lparr>sw_heap := (sw_heap w)[i :=
             (sw_heap w ! i)\<lparr>sb_buffer := store_bytes (sb_buffer (sw_heap w ! i)) pos bs\<rparr>]\<rparr>))"

text \<open>\<open>data\<close> is the memory behind \<^verbatim>\<open>dataPtr\<close>. The total size is computed in 16 bits.\<close>

definition PacketWrapper_Serialize ::
    "nat \<Rightarrow> uint16 \<Rightarrow> ubyte list \<Rightarrow> uint16 \<Rightarrow> sb_world \<Rightarrow> err_state \<Rightarrow> (wsabuf \<times> sb_world) outcome" where
  "PacketWrapper_Serialize t i data dataSize w s =
     (let sz = 4 + dataSize
      in and_then (SendBufferManager_Reserve t (ucast sz) w s)
        (\<lambda>((buf, pos), w1). and_then (write_heap buf pos (header_bytes (PacketHeader_new i sz)) w1)
        (\<lambda>w2. if length data < unat dataSize then Fault BufferOverrun
              else and_then (write_heap buf (pos + HEADER_SIZE) (take (unat dataSize) data) w2)
        (\<lambda>w3. Ok (\<lparr>wb_len = ucast sz, wb_buf = (buf, pos)\<rparr>, w3)))))"

definition wsabuf_bytes :: "sb_world \<Rightarrow> wsabuf \<Rightarrow> ubyte list" where
  "wsabuf_bytes w b =
     (case wb_buf b of (i, pos) \<Rightarrow> take (unat (wb_len b)) (drop pos (sb_buffer (sw_heap w ! i))))"

section \<open>PacketSession\<close>

abbreviation (input) FLUSH_SEND_MIN_INTERVAL_TICK :: uint64 where
  "FLUSH_SEND_MIN_INTERVAL_TICK \<equiv> 1000"
abbreviation (input) FLUSH_SEND_MIN_RESERVED_BYTE_LENGTH :: uint32 where
  "FLUSH_SEND_MIN_RESERVED_BYTE_LENGTH \<equiv> 128"

record packet_session =
  ps_reserved :: "wsabuf list"
  ps_reservedSendBytes :: uint32
  ps_lastSendTick :: uint64

definition PacketSession_new :: "uint64 \<Rightarrow> packet_session" where
  "PacketSession_new tick = \<lparr>ps_reserved = [], ps_reservedSendBytes = 0, ps_lastSendTick = tick\<rparr>"

text \<open>A null pointer is \<open>None\<close>. \<open>SendRaw\<close> gets a C string: the bytes before its terminating zero.\<close>

definition PacketSession_SendRaw ::
    "nat \<Rightarrow> ubyte list option \<Rightarrow> packet_session \<Rightarrow> sb_world \<Rightarrow> err_state \<Rightarrow>
     (packet_session \<times> sb_world) outcome" where
  "PacketSession_SendRaw t buffer p w s =
     (case buffer of None \<Rightarrow> Ok (p, w)
      | Some str \<Rightarrow>
          let sz = of_nat (length str) in
          (case TLS_SendBuffer t w of None \<Rightarrow> Fault NullDereference
           | Some i \<Rightarrow>
               and_then (SendBuffer_Reserve sz (sw_heap w ! i) s)
                 (\<lambda>(pos, b). and_then (write_heap i pos str (w\<lparr>sw_heap := (sw_heap w)[i := b]\<rparr>))
                 (\<lambda>w2. Ok (p\<lparr>ps_reservedSendBytes := ps_reservedSendBytes p + sz\<rparr>, w2)))))"

definition PacketSession_Send ::
    "nat \<Rightarrow> uint16 \<Rightarrow> ubyte list option \<Rightarrow> uint16 \<Rightarrow> packet_session \<Rightarrow> sb_world \<Rightarrow> err_state \<Rightarrow>
     (packet_session \<times> sb_world) outcome" where
  "PacketSession_Send t i ptr sz p w s =
     (case ptr of None \<Rightarrow> Ok (p, w)
      | Some data \<Rightarrow>
          and_then (PacketWrapper_Serialize t i data sz w s)
            (\<lambda>(buf, w1). Ok (p\<lparr>ps_reserved := ps_reserved p @ [buf],
                               ps_reservedSendBytes := ps_reservedSendBytes p + (ucast sz + 4)\<rparr>, w1)))"

text \<open>\<^verbatim>\<open>Flush\<close> reads the clock up to two times; the first component of the result is the list it hands to
  \<^verbatim>\<open>Session::_send\<close>, empty when it returns before.\<close>

definition PacketSession_Flush ::
    "uint64 \<Rightarrow> uint64 \<Rightarrow> packet_session \<Rightarrow> wsabuf list \<times> packet_session" where
  "PacketSession_Flush now1 now2 p =
     (let dt = now1 - ps_lastSendTick p
      in if dt < FLUSH_SEND_MIN_INTERVAL_TICK \<and> ps_reservedSendBytes p < FLUSH_SEND_MIN_RESERVED_BYTE_LENGTH
         then ([], p)
         else if length (ps_reserved p) = 0 then ([], p)
         else (ps_reserved p, p\<lparr>ps_reserved := [], ps_lastSendTick := now2, ps_reservedSendBytes := 0\<rparr>))"

text \<open>The loop of \<^verbatim>\<open>OnRecv\<close> ends only when enough sizes have been added up.\<close>

type_synonym recv_call = "nat \<times> uint16"

partial_function (option) OnRecv_loop ::
    "ubyte list \<Rightarrow> uint32 \<Rightarrow> uint32 \<Rightarrow> recv_call list \<Rightarrow> (recv_call list \<times> uint32) outcome option" where
  "OnRecv_loop mem len processed calls =
     (if processed < len
      then (case header_at mem (unat processed) of
              Fault f \<Rightarrow> Some (Fault f)
            | Ok header \<Rightarrow>
                OnRecv_loop mem len (processed + ucast (ph_size header))
                  (calls @ [(unat processed + HEADER_SIZE, ph_id header)]))
      else Some (Ok (calls, processed)))"

definition PacketSession_OnRecv ::
    "ubyte list \<Rightarrow> uint32 \<Rightarrow> (recv_call list \<times> uint32) outcome option" where
  "PacketSession_OnRecv mem len = OnRecv_loop mem len 0 []"

section \<open>Header bytes\<close>

lemma unat_ucast_uint32 [simp]: "unat (ucast (w :: uint16) :: uint32) = unat w"
proof -
  have "unat w < 2 ^ LENGTH(16)" by (rule unsigned_less)
  then have "unat w < 2 ^ LENGTH(32)" by simp
  then show ?thesis by (simp add: unsigned_ucast_eq take_bit_nat_eq_self)
qed

lemma bytes_uint16_bytes [simp]: "bytes_uint16 (ucast w) (ucast (drop_bit 8 w)) = w"
  by (rule bit_word_eqI) (auto simp: bytes_uint16_def bit_simps)

lemma uint16_bytes_bytes: "uint16_bytes (bytes_uint16 l h) = [l, h]"
  by (auto simp: uint16_bytes_def bytes_uint16_def intro!: bit_word_eqI)
    (auto simp: bit_simps dest: bit_imp_le_length)

lemma length_header_bytes [simp]: "length (header_bytes h) = 4"
  by (simp add: header_bytes_def uint16_bytes_def)

lemma header_at_bytes:
  "header_at (pre @ header_bytes h @ post) (length pre) = Ok h"
  by (simp add: header_at_def header_bytes_def uint16_bytes_def nth_append)

section \<open>The receive loop\<close>

type_synonym packet = "uint16 \<times> ubyte list"

definition packet_bytes :: "packet \<Rightarrow> ubyte list" where
  "packet_bytes p = header_bytes (PacketHeader_new (fst p) (of_nat (4 + length (snd p)))) @ snd p"

definition packet_ok :: "packet \<Rightarrow> bool" where
  "packet_ok p \<longleftrightarrow> 4 + length (snd p) < 2 ^ 16"

fun calls_of :: "nat \<Rightarrow> packet list \<Rightarrow> recv_call list" where
  "calls_of off [] = []"
| "calls_of off (p # ps) = (off + 4, fst p) # calls_of (off + 4 + length (snd p)) ps"

abbreviation wire :: "packet list \<Rightarrow> ubyte list" where
  "wire ps \<equiv> concat (map packet_bytes ps)"

lemma length_packet_bytes [simp]: "length (packet_bytes p) = 4 + length (snd p)"
  by (simp add: packet_bytes_def)

lemma length_calls_of [simp]: "length (calls_of off ps) = length ps"
  by (induction ps arbitrary: off) auto

lemma calls_of_append:
  "calls_of off (ps @ qs) = calls_of off ps @ calls_of (off + length (wire ps)) qs"
  by (induction ps arbitrary: off) (auto simp: add.assoc)

lemma OnRecv_loop_step:
  assumes ok: "packet_ok p" and lt: "length pre < unat len"
    and fits: "length pre + length (packet_bytes p) < 2 ^ 32"
  shows "OnRecv_loop (pre @ packet_bytes p @ post) len (of_nat (length pre)) calls =
    OnRecv_loop (pre @ packet_bytes p @ post) len (of_nat (length (pre @ packet_bytes p)))
      (calls @ [(length pre + 4, fst p)])"
proof -
  have pre: "unat (of_nat (length pre) :: uint32) = length pre"
    using fits by (intro unat_of_nat_small) simp
  have "of_nat (length pre) < len" using lt pre by (simp add: word_less_nat_alt)
  moreover have "header_at (pre @ packet_bytes p @ post) (length pre) =
      Ok (PacketHeader_new (fst p) (of_nat (4 + length (snd p))))"
    using header_at_bytes [of pre _ "snd p @ post"] by (simp add: packet_bytes_def)
  moreover have "(of_nat (length pre) :: uint32) + ucast (of_nat (4 + length (snd p)) :: uint16) =
      of_nat (length (pre @ packet_bytes p))"
  proof -
    have "unat (of_nat (4 + length (snd p)) :: uint16) = 4 + length (snd p)"
      using ok by (intro unat_of_nat_small) (simp add: packet_ok_def)
    then have "(ucast (of_nat (4 + length (snd p)) :: uint16) :: uint32) = of_nat (4 + length (snd p))"
      by (metis of_nat_unat)
    then show ?thesis by simp
  qed
  ultimately show ?thesis
    by (subst OnRecv_loop.simps) (simp add: pre PacketHeader_new_def)
qed

lemma OnRecv_loop_prefix:
  assumes "\<forall>p \<in> set ps. packet_ok p" and "length pre + length (wire ps) \<le> unat len"
  shows "OnRecv_loop (pre @ wire ps @ post) len (of_nat (length pre)) calls =
    OnRecv_loop (pre @ wire ps @ post) len (of_nat (length (pre @ wire ps)))
      (calls @ calls_of (length pre) ps)"
  using assms
proof (induction ps arbitrary: pre calls)
  case (Cons p ps)
  have "length pre + length (packet_bytes p) < 2 ^ 32"
    using Cons.prems(2) unat_uint32_bound [of len] by simp
  then have "OnRecv_loop (pre @ packet_bytes p @ wire ps @ post) len (of_nat (length pre)) calls =
      OnRecv_loop (pre @ packet_bytes p @ wire ps @ post) len (of_nat (length (pre @ packet_bytes p)))
        (calls @ [(length pre + 4, fst p)])"
    using Cons.prems by (intro OnRecv_loop_step) auto
  also have "\<dots> = OnRecv_loop (pre @ packet_bytes p @ wire ps @ post) len
        (of_nat (length ((pre @ packet_bytes p) @ wire ps)))
        ((calls @ [(length pre + 4, fst p)]) @ calls_of (length (pre @ packet_bytes p)) ps)"
    using Cons.IH [of "pre @ packet_bytes p" "calls @ [(length pre + 4, fst p)]"] Cons.prems by simp
  finally show ?case by (simp add: add.assoc)
qed simp

lemma OnRecv_loop_end:
  "\<not> processed < len \<Longrightarrow> OnRecv_loop mem len processed calls = Some (Ok (calls, processed))"
  by (subst OnRecv_loop.simps) simp

lemma of_nat_uint32_less: "n < unat (len :: uint32) \<Longrightarrow> (of_nat n :: uint32) < len"
  using unat_uint32_bound [of len] by (simp add: word_less_nat_alt unat_of_nat_small)

lemma not_of_nat_uint32_less:
  "n < 2 ^ 32 \<Longrightarrow> unat (len :: uint32) \<le> n \<Longrightarrow> \<not> (of_nat n :: uint32) < len"
  by (simp add: word_less_nat_alt unat_of_nat_small)

text \<open>Whole packets, of which the last one may still be missing a part.\<close>

lemma OnRecv_loop_last:
  assumes ok: "\<forall>p \<in> set ps. packet_ok p" "packet_ok q"
    and len: "length (wire ps) < unat len" "unat len \<le> length (wire (ps @ [q]))"
    and fits: "length (wire (ps @ [q])) < 2 ^ 32"
  shows "OnRecv_loop (wire (ps @ [q]) @ rest) len 0 [] =
    Some (Ok (calls_of 0 (ps @ [q]), of_nat (length (wire (ps @ [q])))))"
proof -
  have "OnRecv_loop (wire ps @ packet_bytes q @ rest) len 0 [] =
      OnRecv_loop (wire ps @ packet_bytes q @ rest) len (of_nat (length (wire ps))) (calls_of 0 ps)"
    using OnRecv_loop_prefix [of ps "[]" len "packet_bytes q @ rest" "[]"] ok(1) len(1) by simp
  also have "\<dots> = OnRecv_loop (wire ps @ packet_bytes q @ rest) len
      (of_nat (length (wire ps @ packet_bytes q))) (calls_of 0 ps @ [(length (wire ps) + 4, fst q)])"
    using ok(2) len(1) fits by (intro OnRecv_loop_step) simp_all
  also have "\<dots> = Some (Ok (calls_of 0 (ps @ [q]), of_nat (length (wire (ps @ [q])))))"
    using not_of_nat_uint32_less [OF fits len(2)] by (simp add: OnRecv_loop_end calls_of_append)
  finally show ?thesis by simp
qed

lemma OnRecv_loop_zero:
  assumes h: "header_at mem (unat processed) = Ok h" "ph_size h = 0" and lt: "processed < len"
  shows "OnRecv_loop mem len processed calls = None"
proof -
  have False if "OnRecv_loop mem len processed calls = Some y" for y
  proof -
    have "\<not> (mem = mem \<and> len = len \<and> processed = processed)"
      by (rule OnRecv_loop.raw_induct
          [where P = "\<lambda>m l n c y. \<not> (m = mem \<and> l = len \<and> n = processed)", OF _ that])
        (use h lt in \<open>fastforce split: if_splits\<close>)
    then show False by simp
  qed
  then show ?thesis by (cases "OnRecv_loop mem len processed calls") auto
qed

section \<open>Serialized packets in the send buffers\<close>

lemma take_store_bytes: "k \<le> pos \<Longrightarrow> pos \<le> length xs \<Longrightarrow> take k (store_bytes xs pos bs) = take k xs"
  by (simp add: store_bytes_def min_def)

lemma length_store_bytes [simp]:
  "pos + length bs \<le> length xs \<Longrightarrow> length (store_bytes xs pos bs) = length xs"
  by (simp add: store_bytes_def)

lemma store_bytes_twice:
  assumes "pos + length a + length b \<le> length xs"
  shows "take (length a + length b)
    (drop pos (store_bytes (store_bytes xs pos a) (pos + length a) b)) = a @ b"
  using assms by (simp add: store_bytes_def)

lemma write_heap_ok:
  assumes "write_heap i pos bs w = Ok w'" and "i < length (sw_heap w)" and "sw_inv w"
  shows "sw_heap w' = (sw_heap w)[i :=
      (sw_heap w ! i)\<lparr>sb_buffer := store_bytes (sb_buffer (sw_heap w ! i)) pos bs\<rparr>]"
    and "pos + length bs \<le> 4096" and "sw_inv w'"
proof -
  have wf: "sb_wf (sw_heap w ! i)" using assms(2,3) by (simp add: sw_inv_def)
  from assms(1) have fits: "pos + length bs \<le> length (sb_buffer (sw_heap w ! i))"
    and w': "w' = w\<lparr>sw_heap := (sw_heap w)[i :=
      (sw_heap w ! i)\<lparr>sb_buffer := store_bytes (sb_buffer (sw_heap w ! i)) pos bs\<rparr>]\<rparr>"
    by (auto simp: write_heap_def split: if_splits)
  then show "pos + length bs \<le> 4096"
    and "sw_heap w' = (sw_heap w)[i :=
      (sw_heap w ! i)\<lparr>sb_buffer := store_bytes (sb_buffer (sw_heap w ! i)) pos bs\<rparr>]"
    using wf by (simp_all add: sb_wf_def)
  have "sb_wf ((sw_heap w ! i)\<lparr>sb_buffer := store_bytes (sb_buffer (sw_heap w ! i)) pos bs\<rparr>)"
    using wf fits by (simp add: sb_wf_def)
  then show "sw_inv w'"
    using assms(3) by (auto simp: w' sw_inv_def held_ids_def dest: set_update_subset_insert [THEN subsetD])
qed

text \<open>The bytes handed out so far keep their values.\<close>

definition heap_kept :: "sb_world \<Rightarrow> sb_world \<Rightarrow> bool" where
  "heap_kept w w' \<longleftrightarrow> length (sw_heap w) \<le> length (sw_heap w') \<and>
     (\<forall>j < length (sw_heap w).
        unat (sb_usedSize (sw_heap w ! j)) \<le> unat (sb_usedSize (sw_heap w' ! j)) \<and>
        take (unat (sb_usedSize (sw_heap w ! j))) (sb_buffer (sw_heap w' ! j)) =
        take (unat (sb_usedSize (sw_heap w ! j))) (sb_buffer (sw_heap w ! j)))"

definition wsabuf_in :: "sb_world \<Rightarrow> wsabuf \<Rightarrow> bool" where
  "wsabuf_in w b \<longleftrightarrow> (case wb_buf b of (i, pos) \<Rightarrow>
     i < length (sw_heap w) \<and> pos + unat (wb_len b) \<le> unat (sb_usedSize (sw_heap w ! i)))"

lemma heap_kept_refl [simp]: "heap_kept w w"
  by (simp add: heap_kept_def)

lemma heap_kept_trans:
  assumes "heap_kept u v" and "heap_kept v w"
  shows "heap_kept u w"
proof -
  have "take (unat (sb_usedSize (sw_heap u ! j))) (sb_buffer (sw_heap w ! j)) =
      take (unat (sb_usedSize (sw_heap u ! j))) (sb_buffer (sw_heap u ! j))"
    if j: "j < length (sw_heap u)" for j
  proof -
    define n m where "n = unat (sb_usedSize (sw_heap u ! j))" and "m = unat (sb_usedSize (sw_heap v ! j))"
    have "n \<le> m" and v: "take n (sb_buffer (sw_heap v ! j)) = take n (sb_buffer (sw_heap u ! j))"
      and w: "take m (sb_buffer (sw_heap w ! j)) = take m (sb_buffer (sw_heap v ! j))"
      using assms j by (auto simp: heap_kept_def n_def m_def)
    then have "take n (take m (sb_buffer (sw_heap w ! j))) = take n (take m (sb_buffer (sw_heap v ! j)))"
      by simp
    with \<open>n \<le> m\<close> v show ?thesis by (simp add: min_def n_def)
  qed
  with assms show ?thesis unfolding heap_kept_def by (meson less_le_trans order_trans)
qed

lemma heap_kept_wsabuf:
  assumes k: "heap_kept w w'" and b: "wsabuf_in w b"
  shows "wsabuf_in w' b" and "wsabuf_bytes w' b = wsabuf_bytes w b"
proof -
  obtain i pos where wb: "wb_buf b = (i, pos)" by (cases "wb_buf b")
  define n where "n = unat (sb_usedSize (sw_heap w ! i))"
  have i: "i < length (sw_heap w)" and le: "pos + unat (wb_len b) \<le> n"
    using b by (auto simp: wsabuf_in_def wb n_def)
  have t: "take n (sb_buffer (sw_heap w' ! i)) = take n (sb_buffer (sw_heap w ! i))"
    and "n \<le> unat (sb_usedSize (sw_heap w' ! i))" and "length (sw_heap w) \<le> length (sw_heap w')"
    using k i by (auto simp: heap_kept_def n_def)
  with i le show "wsabuf_in w' b" by (simp add: wsabuf_in_def wb)
  have cut: "take (unat (wb_len b)) (drop pos xs) = take (unat (wb_len b)) (drop pos (take n xs))" for xs :: "ubyte list"
    using le by (simp add: drop_take min_def)
  show "wsabuf_bytes w' b = wsabuf_bytes w b"
    unfolding wsabuf_bytes_def wb prod.case
    by (subst cut, subst (2) cut) (simp only: t)
qed

lemma PacketWrapper_Serialize_ok:
  assumes inv: "sw_inv w" and r: "PacketWrapper_Serialize t i data n w s = Ok (buf, w')"
  shows "sw_inv w'" and "heap_kept w w'" and "wsabuf_in w' buf" and "unat n \<le> 4092"
    and "wsabuf_bytes w' buf = packet_bytes (i, take (unat n) data)" and "unat n \<le> length data"
    and "unat (wb_len buf) = 4 + unat n"
proof -
  define d where "d = take (unat n) data"
  from r obtain j pos w1 w2 where
    res: "SendBufferManager_Reserve t (ucast (4 + n)) w s = Ok ((j, pos), w1)"
    and h: "write_heap j pos (header_bytes (PacketHeader_new i (4 + n))) w1 = Ok w2"
    and dat: "write_heap j (pos + 4) d w2 = Ok w'"
    and buf: "buf = \<lparr>wb_len = ucast (4 + n), wb_buf = (j, pos)\<rparr>" and len: "unat n \<le> length data"
    by (auto simp: PacketWrapper_Serialize_def Let_def d_def split: if_splits)
  note ri = SendBufferManager_Reserve_inv [OF inv res]
  note wh = write_heap_ok [OF h ri(2,1)]
  have j2: "j < length (sw_heap w2)" using ri(2) by (simp add: wh(1))
  note wd = write_heap_ok [OF dat j2 wh(3)]
  have ld: "length d = unat n" using len by (simp add: d_def)
  then have n: "pos + 4 + unat n \<le> 4096" using wd(2) by simp
  then have sz: "unat (4 + n) = 4 + unat n" by (simp add: unat_add_small)
  then have sz32: "unat (ucast (4 + n) :: uint32) = 4 + unat n" by simp
  have w1len: "length (sb_buffer (sw_heap w1 ! j)) = 4096"
    using ri(1,2) by (auto simp: sw_inv_def sb_wf_def)
  have w': "sw_heap w' = (sw_heap w1)[j := (sw_heap w1 ! j)\<lparr>sb_buffer :=
      store_bytes (store_bytes (sb_buffer (sw_heap w1 ! j)) pos (header_bytes (PacketHeader_new i (4 + n)))) (pos + 4) d\<rparr>]"
    using ri(2) by (simp add: wd(1) wh(1))
  show "sw_inv w'" by (rule wd(3))
  show "unat n \<le> 4092" using n by simp
  show "unat n \<le> length data" by (rule len)
  show "unat (wb_len buf) = 4 + unat n" using sz32 by (simp add: buf)
  show "wsabuf_in w' buf"
    using ri(2,4) sz by (simp add: wsabuf_in_def buf w')
  have "of_nat (4 + length d) = 4 + n" by (simp add: ld)
  then show "wsabuf_bytes w' buf = packet_bytes (i, take (unat n) data)"
    using store_bytes_twice [of pos "header_bytes (PacketHeader_new i (4 + n))" d "sb_buffer (sw_heap w1 ! j)"]
      n ld ri(2) w1len sz
    by (simp add: wsabuf_bytes_def buf w' packet_bytes_def d_def [symmetric])
  show "heap_kept w w'"
    unfolding heap_kept_def
  proof (intro conjI allI impI)
    show "length (sw_heap w) \<le> length (sw_heap w')" using ri(3) by (simp add: w')
    fix k assume k: "k < length (sw_heap w)"
    show "unat (sb_usedSize (sw_heap w ! k)) \<le> unat (sb_usedSize (sw_heap w' ! k))"
      using ri(6) [OF k] ri(2) by (cases "k = j") (simp_all add: w')
    show "take (unat (sb_usedSize (sw_heap w ! k))) (sb_buffer (sw_heap w' ! k)) =
        take (unat (sb_usedSize (sw_heap w ! k))) (sb_buffer (sw_heap w ! k))"
      using ri(6) [OF k] ri(2) n w1len by (cases "k = j") (auto simp: w' take_store_bytes)
  qed
qed

section \<open>The packet session as a queue of serialized packets\<close>

fun send_packets ::
    "nat \<Rightarrow> packet list \<Rightarrow> packet_session \<Rightarrow> sb_world \<Rightarrow> err_state \<Rightarrow> (packet_session \<times> sb_world) outcome" where
  "send_packets t [] p w s = Ok (p, w)"
| "send_packets t (q # qs) p w s =
     and_then (PacketSession_Send t (fst q) (Some (snd q)) (of_nat (length (snd q))) p w s)
       (\<lambda>(p1, w1). send_packets t qs p1 w1 s)"

lemma PacketSession_Send_ok:
  assumes inv: "sw_inv w" and small: "length (snd q) < 2 ^ 16"
    and r: "PacketSession_Send t (fst q) (Some (snd q)) (of_nat (length (snd q))) p w s = Ok (p1, w1)"
  shows "sw_inv w1" and "heap_kept w w1" and "packet_ok q"
    and "\<exists>buf. ps_reserved p1 = ps_reserved p @ [buf] \<and> wsabuf_in w1 buf \<and> wsabuf_bytes w1 buf = packet_bytes q"
proof -
  from r obtain buf where "PacketWrapper_Serialize t (fst q) (snd q) (of_nat (length (snd q))) w s = Ok (buf, w1)"
    and p1: "ps_reserved p1 = ps_reserved p @ [buf]"
    by (auto simp: PacketSession_Send_def)
  note ok = PacketWrapper_Serialize_ok [OF inv this(1)]
  have len: "unat (of_nat (length (snd q)) :: uint16) = length (snd q)"
    using small by (simp add: unat_of_nat_small)
  show "sw_inv w1" "heap_kept w w1" by (rule ok)+
  show "packet_ok q" using ok(4) len by (simp add: packet_ok_def)
  show "\<exists>buf. ps_reserved p1 = ps_reserved p @ [buf] \<and> wsabuf_in w1 buf \<and> wsabuf_bytes w1 buf = packet_bytes q"
    using p1 ok(3,5) len by auto
qed

lemma send_packets_ok:
  assumes "sw_inv w" and "\<forall>b \<in> set (ps_reserved p). wsabuf_in w b"
    and "\<forall>q \<in> set qs. length (snd q) < 2 ^ 16" and "send_packets t qs p w s = Ok (p', w')"
  shows "sw_inv w' \<and> heap_kept w w' \<and> (\<forall>q \<in> set qs. packet_ok q) \<and>
    (\<forall>b \<in> set (ps_reserved p'). wsabuf_in w' b) \<and>
    concat (map (wsabuf_bytes w') (ps_reserved p')) =
    concat (map (wsabuf_bytes w) (ps_reserved p)) @ wire qs"
  using assms
proof (induction qs arbitrary: p w)
  case (Cons q qs)
  from Cons.prems(4) obtain p1 w1 where
    s1: "PacketSession_Send t (fst q) (Some (snd q)) (of_nat (length (snd q))) p w s = Ok (p1, w1)"
    and rest: "send_packets t qs p1 w1 s = Ok (p', w')"
    by auto
  have small: "length (snd q) < 2 ^ 16" using Cons.prems(3) by simp
  note ok = PacketSession_Send_ok [OF Cons.prems(1) small s1]
  from ok(4) obtain buf where buf: "ps_reserved p1 = ps_reserved p @ [buf]" "wsabuf_in w1 buf"
    "wsabuf_bytes w1 buf = packet_bytes q" by blast
  have kept: "\<forall>b \<in> set (ps_reserved p). wsabuf_in w1 b \<and> wsabuf_bytes w1 b = wsabuf_bytes w b"
    using Cons.prems(2) heap_kept_wsabuf [OF ok(2)] by blast
  then have "map (wsabuf_bytes w1) (ps_reserved p) = map (wsabuf_bytes w) (ps_reserved p)" by simp
  then have "concat (map (wsabuf_bytes w1) (ps_reserved p)) = concat (map (wsabuf_bytes w) (ps_reserved p))"
    by (rule arg_cong)
  moreover have "\<forall>b \<in> set (ps_reserved p1). wsabuf_in w1 b" using kept buf by auto
  ultimately show ?case
    using Cons.IH [OF ok(1) _ _ rest] Cons.prems(3) ok(2,3) buf heap_kept_trans by auto
qed simp

datatype ps_op = Ps_Queue wsabuf | Ps_Flush uint64 uint64

text \<open>What the session's lock serialises: a serialized packet is queued, or \<^verbatim>\<open>Flush\<close> takes the queue.\<close>

fun ps_exec :: "ps_op \<Rightarrow> packet_session \<Rightarrow> (wsabuf list \<times> wsabuf list \<times> packet_session) outcome" where
  "ps_exec (Ps_Queue b) p =
     Ok ([b], [], p\<lparr>ps_reserved := ps_reserved p @ [b],
                    ps_reservedSendBytes := ps_reservedSendBytes p + wb_len b\<rparr>)"
| "ps_exec (Ps_Flush now1 now2) p = (case PacketSession_Flush now1 now2 p of (out, p1) \<Rightarrow> Ok ([], out, p1))"

interpretation PacketSession: stream_store ps_reserved "\<lambda>_. True" ps_exec
proof
  show "ps_reserved p @ i = out @ ps_reserved p'" if "ps_exec op p = Ok (i, out, p')" for op p i out p'
    using that by (cases op) (auto simp: PacketSession_Flush_def Let_def split: if_splits)
qed simp

lemma calls_deliver:
  "mem = pre @ wire ps @ rest \<Longrightarrow> length pre = off \<Longrightarrow>
     map2 (\<lambda>(pos, i) q. (i, take (length (snd q)) (drop pos mem))) (calls_of off ps) ps = ps"
proof (induction ps arbitrary: pre off)
  case (Cons p ps)
  have "map2 (\<lambda>(pos, i) q. (i, take (length (snd q)) (drop pos mem)))
      (calls_of (off + 4 + length (snd p)) ps) ps = ps"
    using Cons.prems by (intro Cons.IH [of "pre @ packet_bytes p"]) simp_all
  moreover have "take (length (snd p)) (drop (off + 4) mem) = snd p"
    using Cons.prems by (simp add: packet_bytes_def)
  ultimately show ?case by simp
qed simp

lemma PacketSession_OnRecv_wire:
  assumes "\<forall>p \<in> set ps. packet_ok p" and "length (wire ps) < 2 ^ 32"
  shows "PacketSession_OnRecv (wire ps @ rest) (of_nat (length (wire ps))) =
    Some (Ok (calls_of 0 ps, of_nat (length (wire ps))))"
proof -
  have "unat (of_nat (length (wire ps)) :: uint32) = length (wire ps)"
    using assms(2) by (intro unat_of_nat_small) simp
  then have "OnRecv_loop ([] @ wire ps @ rest) (of_nat (length (wire ps))) (of_nat (length ([] :: ubyte list))) [] =
      OnRecv_loop ([] @ wire ps @ rest) (of_nat (length (wire ps))) (of_nat (length ([] @ wire ps)))
        ([] @ calls_of (length ([] :: ubyte list)) ps)"
    using assms(1) by (intro OnRecv_loop_prefix) simp_all
  then show ?thesis by (simp add: PacketSession_OnRecv_def OnRecv_loop_end)
qed

lemma PacketWrapper_Serialize_succeeds:
  assumes inv: "sw_inv w" and res: "SendBufferManager_Reserve t (ucast (4 + n)) w s = Ok ((j, pos), w1)"
    and len: "unat n \<le> length data" "unat n \<le> 4092"
  shows "\<exists>buf w'. PacketWrapper_Serialize t i data n w s = Ok (buf, w')"
proof -
  note ri = SendBufferManager_Reserve_inv [OF inv res]
  have "unat (4 + n) = 4 + unat n" using len(2) by (simp add: unat_add_small)
  then have n: "pos + 4 + unat n \<le> 4096" using ri(5) by simp
  have "length (sb_buffer (sw_heap w1 ! j)) = 4096" using ri(1,2) by (auto simp: sw_inv_def sb_wf_def)
  then show ?thesis
    using n len ri(2) by (simp add: PacketWrapper_Serialize_def Let_def res write_heap_def)
qed

lemma PacketWrapper_Serialize_oversize:
  assumes inv: "sw_inv w" and cur: "TLS_SendBuffer t w = Some cur" and n: "4092 < unat n" "unat n < 65532"
  shows "PacketWrapper_Serialize t i data n w s =
    Fault (AssertCrash (error_code APP_SENDBUFFER_SIZE_OVERFLOW))"
proof -
  have "unat (4 + n) = 4 + unat n" using n(2) by (simp add: unat_add_small)
  then have big: "(4096 :: uint32) < ucast (4 + n)" using n(1) by (simp add: word_less_nat_alt)
  from inv cur obtain k w1 where "sw_inv w1" "k < length (sw_heap w1)"
    and r: "SendBufferManager_Reserve t (ucast (4 + n)) w s =
      and_then (SendBuffer_Reserve (ucast (4 + n)) (sw_heap w1 ! k) s)
       (\<lambda>(pos, b). Ok ((k, pos), w1\<lparr>sw_heap := (sw_heap w1)[k := b]\<rparr>))"
    by (rule SendBufferManager_Reserve_via [where sz = "ucast (4 + n)" and s = s]) blast
  then have "sb_wf (sw_heap w1 ! k)" by (simp add: sw_inv_def)
  with r big show ?thesis by (simp add: PacketWrapper_Serialize_def SendBuffer_Reserve_wf)
qed

section \<open>Properties of packets and packet sessions\<close>

text \<open>Sending and receiving are inverse: whatever packets a thread sends through a session with
  nothing queued, when none of the sends faults and \<^verbatim>\<open>Flush\<close> hands out the queue, the bytes of the
  handed out buffers are the packets one after the other, and \<^verbatim>\<open>OnRecv\<close> on these bytes returns,
  processes all of them and calls \<^verbatim>\<open>OnRecvPacket\<close> once per packet, in order, with its id and a pointer
  to its data. The send buffers hold the bytes unchanged from each \<^verbatim>\<open>Send\<close> to the \<^verbatim>\<open>Flush\<close>.\<close>

theorem send_flush_OnRecv_roundtrip:
  assumes "sw_inv w" and "ps_reserved p = []" and "\<forall>q \<in> set qs. length (snd q) < 2 ^ 16"
    and "send_packets t qs p w s = Ok (p1, w1)" and "PacketSession_Flush now1 now2 p1 = (bufs, p2)"
    and "bufs \<noteq> []" and "length (wire qs) < 2 ^ 32"
  shows "concat (map (wsabuf_bytes w1) bufs) = wire qs \<and> ps_reserved p2 = [] \<and>
    (\<exists>calls. PacketSession_OnRecv (wire qs @ rest) (of_nat (length (wire qs))) =
        Some (Ok (calls, of_nat (length (wire qs)))) \<and> length calls = length qs \<and>
      map2 (\<lambda>(pos, i) q. (i, take (length (snd q)) (drop pos (wire qs @ rest)))) calls qs = qs)"
proof -
  have ok: "\<forall>q \<in> set qs. packet_ok q"
    and bytes: "concat (map (wsabuf_bytes w1) (ps_reserved p1)) = wire qs"
    using send_packets_ok [OF assms(1) _ assms(3,4)] assms(2) by simp_all
  have "bufs = ps_reserved p1" and "ps_reserved p2 = []"
    using assms(5,6) by (auto simp: PacketSession_Flush_def Let_def split: if_splits)
  with bytes PacketSession_OnRecv_wire [OF ok assms(7), of rest] calls_deliver [of "wire qs @ rest" "[]" qs rest 0]
  show ?thesis by auto
qed

text \<open>A world with one started thread, in which one packet was sent.\<close>

definition demo_world :: sb_world where
  "demo_world = init_tls_SendBuffer 0 (sw_init 1)"

lemma demo_world_ok: "sw_inv demo_world" "TLS_SendBuffer 0 demo_world = Some 0" "sw_pool demo_world = []"
proof -
  have "granted_ok [] (sw_init 1)" by (simp add: granted_ok_def sw_inv_init)
  from granted_start [OF this, of 0] show "sw_inv demo_world"
    by (simp add: granted_ok_def demo_world_def sw_init_def)
  show "TLS_SendBuffer 0 demo_world = Some 0" "sw_pool demo_world = []"
    by (simp_all add: demo_world_def sw_init_def init_tls_SendBuffer_def SendBufferManager_Pop_def
        set_TLS_SendBuffer_def TLS_SendBuffer_def release_sptr_def)
qed

lemma demo_send:
  "\<exists>p1 w1. send_packets 0 [(7, [1, 2])] (PacketSession_new 0) demo_world s = Ok (p1, w1) \<and>
     ps_lastSendTick p1 = 0"
proof -
  have "sw_heap demo_world = [SendBuffer_new]"
    by (simp add: demo_world_def sw_init_def init_tls_SendBuffer_def SendBufferManager_Pop_def)
  then have "\<exists>j pos w1. SendBufferManager_Reserve 0 6 demo_world s = Ok ((j, pos), w1)"
    using SendBuffer_Reserve_fresh [of 6 s] demo_world_ok(2)
    by (auto simp: SendBufferManager_Reserve_def SendBuffer_FreeSize_def Let_def)
  then obtain j pos w1 where "SendBufferManager_Reserve 0 (ucast (4 + (2 :: uint16))) demo_world s = Ok ((j, pos), w1)"
    by auto
  from PacketWrapper_Serialize_succeeds [OF demo_world_ok(1) this, of "[1, 2]" 7]
  show ?thesis by (auto simp: PacketSession_Send_def PacketSession_new_def)
qed

theorem send_flush_OnRecv_roundtrip_witness:
  "\<exists>calls. PacketSession_OnRecv [6, 0, 7, 0, 1, 2, 0, 0] 6 = Some (Ok (calls, 6)) \<and> length calls = 1"
proof -
  obtain p1 w1 where s: "send_packets 0 [(7, [1, 2])] (PacketSession_new 0) demo_world \<lparr>app_last_error = 0\<rparr> = Ok (p1, w1)"
    and tick: "ps_lastSendTick p1 = 0"
    using demo_send [of "\<lparr>app_last_error = 0\<rparr>"] by blast
  from s have r: "ps_reserved p1 \<noteq> []" by (auto simp: PacketSession_Send_def)
  obtain bufs p2 where f: "PacketSession_Flush 5000 5000 p1 = (bufs, p2)" and b: "bufs \<noteq> []"
    using r tick by (simp add: PacketSession_Flush_def)
  have "wire [(7, [1, 2])] = [6, 0, 7, 0, 1, 2]"
    by (simp add: packet_bytes_def header_bytes_def uint16_bytes_def PacketHeader_new_def)
  then show ?thesis
    using send_flush_OnRecv_roundtrip [OF demo_world_ok(1) _ _ s f b, of "[0, 0]"]
    by (auto simp: PacketSession_new_def)
qed

text \<open>C36. \<^verbatim>\<open>OnRecv\<close> takes a packet whose end has not arrived yet for a whole one: for every length that
  cuts the last packet anywhere after its first byte, it makes the same calls and returns the same
  number as for the complete data, a number larger than the received length. The handler is given
  a pointer to data that is not there, and the bytes that arrive later are read as a new header.\<close>

theorem OnRecv_truncated:
  assumes "\<forall>p \<in> set ps. packet_ok p" and "packet_ok q" and "length (wire (ps @ [q])) < 2 ^ 32"
    and "length (wire ps) < unat len" and "unat len < length (wire (ps @ [q]))"
  shows "PacketSession_OnRecv (wire (ps @ [q]) @ rest) len =
      PacketSession_OnRecv (wire (ps @ [q]) @ rest) (of_nat (length (wire (ps @ [q])))) \<and>
    (\<exists>calls processed. PacketSession_OnRecv (wire (ps @ [q]) @ rest) len = Some (Ok (calls, processed)) \<and>
       length calls = length ps + 1 \<and> len < processed)"
proof -
  have n: "unat (of_nat (length (wire (ps @ [q]))) :: uint32) = length (wire (ps @ [q]))"
    using assms(3) by (intro unat_of_nat_small) simp
  have r: "PacketSession_OnRecv (wire (ps @ [q]) @ rest) len =
      Some (Ok (calls_of 0 (ps @ [q]), of_nat (length (wire (ps @ [q])))))"
    unfolding PacketSession_OnRecv_def using assms by (intro OnRecv_loop_last) simp_all
  have "\<forall>p \<in> set (ps @ [q]). packet_ok p" using assms(1,2) by simp
  from PacketSession_OnRecv_wire [OF this assms(3), of rest] r
  have "PacketSession_OnRecv (wire (ps @ [q]) @ rest) len =
      PacketSession_OnRecv (wire (ps @ [q]) @ rest) (of_nat (length (wire (ps @ [q]))))"
    by (simp only:)
  moreover have "len < of_nat (length (wire (ps @ [q])))"
    using assms(5) n by (simp only: word_less_nat_alt)
  ultimately show ?thesis
    using r by (intro conjI exI [of _ "calls_of 0 (ps @ [q])"] exI) simp_all
qed

theorem OnRecv_truncated_witness:
  "\<exists>calls processed. PacketSession_OnRecv (wire ([] @ [(7, [1, 2])]) @ []) 5 = Some (Ok (calls, processed)) \<and> 5 < processed"
proof -
  have "\<forall>p \<in> set []. packet_ok p" and "packet_ok (7, [1, 2])" and "length (wire ([] @ [(7, [1, 2])])) < 2 ^ 32"
    and "length (wire []) < unat (5 :: uint32)" and "unat (5 :: uint32) < length (wire ([] @ [(7, [1, 2])]))"
    by (simp_all add: packet_ok_def)
  from OnRecv_truncated [OF this, of "[]"] show ?thesis by blast
qed

text \<open>C37. A header whose size field is zero stops \<^verbatim>\<open>OnRecv\<close> from ever returning, wherever it stands
  behind complete packets: the loop does not advance and calls the handler for ever.\<close>

theorem OnRecv_zero_size_diverges:
  assumes "\<forall>p \<in> set ps. packet_ok p" and "length (wire ps) < unat len"
  shows "PacketSession_OnRecv (wire ps @ header_bytes (PacketHeader_new i 0) @ rest) len = None"
proof -
  let ?mem = "wire ps @ header_bytes (PacketHeader_new i 0) @ rest"
  have n: "unat (of_nat (length (wire ps)) :: uint32) = length (wire ps)"
    using assms(2) unat_uint32_bound [of len] by (intro unat_of_nat_small) simp
  have "OnRecv_loop ?mem len 0 [] = OnRecv_loop ?mem len (of_nat (length (wire ps))) (calls_of 0 ps)"
    using OnRecv_loop_prefix [of ps "[]" len "header_bytes (PacketHeader_new i 0) @ rest" "[]"] assms by simp
  also have "\<dots> = None"
    using header_at_bytes [of "wire ps" "PacketHeader_new i 0" rest] of_nat_uint32_less [OF assms(2)] n
    by (intro OnRecv_loop_zero [of _ _ "PacketHeader_new i 0"]) (simp_all add: PacketHeader_new_def)
  finally show ?thesis by (simp add: PacketSession_OnRecv_def)
qed

theorem OnRecv_zero_size_diverges_witness: "PacketSession_OnRecv [0, 0, 7, 0] 4 = None"
  using OnRecv_zero_size_diverges [of "[]" 4 7 "[]"]
  by (simp add: header_bytes_def uint16_bytes_def PacketHeader_new_def)

text \<open>C26. \<^verbatim>\<open>Serialize\<close> for a thread with a send buffer and at least \<open>n\<close> bytes behind the pointer. It returns a
  buffer that holds the header and the data exactly when \<open>n\<close> is at most 4092 and header and data fit the
  thread's send buffer, or the pool is empty, or they fit the recycled buffer that the pool gives instead.
  Between 4093 and 65531 bytes the process crashes with the send buffer overflow code; and from 65532 on,
  where the 16-bit total wraps around to less than a header, it never returns a buffer.\<close>

theorem PacketWrapper_Serialize_result:
  assumes "sw_inv w" and "TLS_SendBuffer t w = Some cur" and "unat n \<le> length data"
  shows "(unat n \<le> 4092 \<and> (ucast (4 + n) \<le> SendBuffer_FreeSize (sw_heap w ! cur) \<or> sw_pool w = [] \<or>
        ucast (4 + n) \<le> SendBuffer_FreeSize (sw_heap w ! last (sw_pool w))) \<longleftrightarrow>
      (\<exists>buf w'. PacketWrapper_Serialize t i data n w s = Ok (buf, w') \<and> sw_inv w' \<and>
        wsabuf_bytes w' buf = packet_bytes (i, take (unat n) data))) \<and>
    (4092 < unat n \<and> unat n < 65532 \<longrightarrow>
      PacketWrapper_Serialize t i data n w s = Fault (AssertCrash (error_code APP_SENDBUFFER_SIZE_OVERFLOW))) \<and>
    (65532 \<le> unat n \<longrightarrow> \<not> is_ok (PacketWrapper_Serialize t i data n w s))"
    (is "(_ \<and> ?fits \<longleftrightarrow> ?done) \<and> _")
proof (intro conjI iffI impI)
  have fits: "?fits \<longleftrightarrow> is_ok (SendBufferManager_Reserve t (ucast (4 + n)) w s)" if "unat n \<le> 4092"
  proof -
    have "unat (ucast (4 + n) :: uint32) = 4 + unat n" using that by (simp add: unat_add_small)
    then show ?thesis
      using SendBufferManager_Reserve_result [OF assms(1,2)] that by (simp add: word_less_nat_alt word_le_nat_alt)
  qed
  {
    assume small: "unat n \<le> 4092 \<and> ?fits"
    then obtain j pos w1 where "SendBufferManager_Reserve t (ucast (4 + n)) w s = Ok ((j, pos), w1)"
      using fits by (auto simp: is_ok_iff)
    from PacketWrapper_Serialize_succeeds [OF assms(1) this assms(3), of i] small
    obtain buf w' where "PacketWrapper_Serialize t i data n w s = Ok (buf, w')" by blast
    with PacketWrapper_Serialize_ok [OF assms(1) this] show ?done by blast
  next
    assume ?done
    then obtain buf w' where r: "PacketWrapper_Serialize t i data n w s = Ok (buf, w')" by blast
    then show n: "unat n \<le> 4092" by (rule PacketWrapper_Serialize_ok [OF assms(1)])
    from r have "is_ok (SendBufferManager_Reserve t (ucast (4 + n)) w s)"
      by (auto simp: PacketWrapper_Serialize_def Let_def is_ok_iff)
    then show ?fits using fits [OF n] by blast
  }
next
  assume "4092 < unat n \<and> unat n < 65532"
  then show "PacketWrapper_Serialize t i data n w s = Fault (AssertCrash (error_code APP_SENDBUFFER_SIZE_OVERFLOW))"
    using PacketWrapper_Serialize_oversize [OF assms(1,2)] by blast
next
  assume "65532 \<le> unat n"
  then show "\<not> is_ok (PacketWrapper_Serialize t i data n w s)"
    using PacketWrapper_Serialize_ok(4) [OF assms(1)] by (fastforce simp: is_ok_iff)
qed

theorem PacketWrapper_Serialize_result_witness:
  "(\<exists>buf w'. PacketWrapper_Serialize 0 7 [1, 2, 3] 2 demo_world \<lparr>app_last_error = 0\<rparr> = Ok (buf, w') \<and>
      wsabuf_bytes w' buf = packet_bytes (7, [1, 2])) \<and>
   PacketWrapper_Serialize 0 7 (replicate 5000 0) 5000 demo_world \<lparr>app_last_error = 0\<rparr> =
     Fault (AssertCrash (error_code APP_SENDBUFFER_SIZE_OVERFLOW))"
proof -
  note r = PacketWrapper_Serialize_result [OF demo_world_ok(1,2)]
  have "sw_pool demo_world = []" by (rule demo_world_ok(3))
  then have "\<exists>buf w'. PacketWrapper_Serialize 0 7 [1, 2, 3] 2 demo_world \<lparr>app_last_error = 0\<rparr> = Ok (buf, w') \<and>
      sw_inv w' \<and> wsabuf_bytes w' buf = packet_bytes (7, [1, 2])"
    using r [of 2 "[1, 2, 3]" 7 "\<lparr>app_last_error = 0\<rparr>"] by simp
  then show ?thesis using r [of 5000 "replicate 5000 0"] by auto
qed

text \<open>\<^verbatim>\<open>SendRaw\<close> never leads to a send: it copies the string into the send buffer and counts its
  bytes, but queues nothing, so that \<^verbatim>\<open>Flush\<close> hands out exactly what it would have handed out before,
  or, when the counted bytes reach the threshold, the older packets early.\<close>

theorem PacketSession_SendRaw_not_sent:
  assumes "PacketSession_SendRaw t str p w s = Ok (p1, w1)"
  shows "ps_reserved p1 = ps_reserved p \<and> ps_lastSendTick p1 = ps_lastSendTick p \<and>
    fst (PacketSession_Flush now1 now2 p1) \<in> {[], ps_reserved p}"
  using assms
  by (auto simp: PacketSession_SendRaw_def PacketSession_Flush_def Let_def split: option.splits)

theorem PacketSession_SendRaw_not_sent_witness:
  "\<exists>p1. fst (PacketSession_Flush 5000 5000 p1) \<in> {[], ps_reserved (PacketSession_new 0)}"
proof -
  have "PacketSession_SendRaw 0 None (PacketSession_new 0) demo_world \<lparr>app_last_error = 0\<rparr> =
      Ok (PacketSession_new 0, demo_world)"
    by (simp add: PacketSession_SendRaw_def)
  from PacketSession_SendRaw_not_sent [OF this] show ?thesis by blast
qed

end
