(* ===== verification/Completion_Events.thy ===== *)
theory Completion_Events
  imports Packets
begin

text \<open>
  The events of the completion port: \<^verbatim>\<open>IOCPEvent.h\<close> under \<^verbatim>\<open>src/MyNetworkLib/\<close>. Each event extends the
  \<^verbatim>\<open>OVERLAPPED\<close> structure of the system, as its record extends \<open>overlapped\<close>, and carries a weak pointer to
  the object that handles it. Objects are named by \<open>iocp_object\<close>: a session by its reference, the
  listener of the service, a connector by its position. An event is named by \<open>event_ref\<close> after the
  object it is a member of.
\<close>

section \<open>Data\<close>

datatype EventType = EV_Connect | EV_Disconnect | EV_Accept | EV_Send | EV_Recv

datatype iocp_object = Session_obj nat | Listener_obj | Connector_obj nat

datatype event_ref =
    SendEvent_of nat
  | RecvEvent_of nat
  | DisconnectEvent_of nat
  | AcceptEvent_of nat
  | ConnectEvent_of nat

record overlapped =
  ov_Internal :: uint64
  ov_InternalHigh :: uint64
  ov_Offset :: uint32
  ov_OffsetHigh :: uint32
  ov_hEvent :: "uint64 option"

record iocp_event = overlapped +
  ev_eventType :: EventType
  ev_iocpObject :: "iocp_object option"

record accept_event = iocp_event +
  ae_session :: "nat option"

record send_event = iocp_event +
  sn_segments :: "wsabuf list"

section \<open>Operations\<close>

definition IOCPEvent_init :: "'a overlapped_scheme \<Rightarrow> 'a overlapped_scheme" where
  "IOCPEvent_init ev =
     ev\<lparr>ov_Internal := 0, ov_InternalHigh := 0, ov_Offset := 0, ov_OffsetHigh := 0, ov_hEvent := None\<rparr>"

definition IOCPEvent_Clear :: "'a overlapped_scheme \<Rightarrow> 'a overlapped_scheme" where
  "IOCPEvent_Clear ev = IOCPEvent_init ev"

text \<open>The body of \<^verbatim>\<open>ReleaseIOCPObjectSPtr\<close> is empty; the weak pointer stays.\<close>

definition IOCPEvent_ReleaseIOCPObjectSPtr :: "'a iocp_event_scheme \<Rightarrow> 'a iocp_event_scheme" where
  "IOCPEvent_ReleaseIOCPObjectSPtr ev = ev"

definition IOCPEvent_SetIOCPObjectSPtr :: "iocp_object option \<Rightarrow> 'a iocp_event_scheme \<Rightarrow> 'a iocp_event_scheme" where
  "IOCPEvent_SetIOCPObjectSPtr obj ev = ev\<lparr>ev_iocpObject := obj\<rparr>"

text \<open>The constructors. \<open>mem\<close> is what the memory of the \<^verbatim>\<open>OVERLAPPED\<close> held before.\<close>

definition IOCPEvent_new :: "overlapped \<Rightarrow> EventType \<Rightarrow> iocp_event" where
  "IOCPEvent_new mem eventType =
     IOCPEvent_init (overlapped.extend mem \<lparr>ev_eventType = eventType, ev_iocpObject = None\<rparr>)"

definition ConnectEvent_new :: "overlapped \<Rightarrow> iocp_event" where
  "ConnectEvent_new mem = IOCPEvent_new mem EV_Connect"

definition DisconnectEvent_new :: "overlapped \<Rightarrow> iocp_event" where
  "DisconnectEvent_new mem = IOCPEvent_new mem EV_Disconnect"

definition RecvEvent_new :: "overlapped \<Rightarrow> iocp_event" where
  "RecvEvent_new mem = IOCPEvent_new mem EV_Recv"

definition AcceptEvent_new :: "overlapped \<Rightarrow> accept_event" where
  "AcceptEvent_new mem = iocp_event.extend (IOCPEvent_new mem EV_Accept) \<lparr>ae_session = None\<rparr>"

definition AcceptEvent_SetSessionRef :: "nat option \<Rightarrow> accept_event \<Rightarrow> accept_event" where
  "AcceptEvent_SetSessionRef s ev = ev\<lparr>ae_session := s\<rparr>"

definition AcceptEvent_GetSessionRef :: "accept_event \<Rightarrow> nat option" where
  "AcceptEvent_GetSessionRef ev = ae_session ev"

definition SendEvent_Init :: "send_event \<Rightarrow> send_event" where
  "SendEvent_Init ev = ev\<lparr>sn_segments := []\<rparr>"

definition SendEvent_new :: "overlapped \<Rightarrow> send_event" where
  "SendEvent_new mem = SendEvent_Init (iocp_event.extend (IOCPEvent_new mem EV_Send) \<lparr>sn_segments = []\<rparr>)"

text \<open>The constructors overwrite the memory they find, so any \<open>mem\<close> will do.\<close>

lemma IOCPEvent_new_mem: "IOCPEvent_new mem t = IOCPEvent_new mem' t"
  by (simp add: IOCPEvent_new_def IOCPEvent_init_def overlapped.defs)

abbreviation (input) zeroed :: overlapped where
  "zeroed \<equiv> \<lparr>ov_Internal = 0, ov_InternalHigh = 0, ov_Offset = 0, ov_OffsetHigh = 0, ov_hEvent = None\<rparr>"

section \<open>What is posted\<close>

text \<open>Before a call is posted its event is cleared and pointed at the object that posts it.\<close>

abbreviation (input) arm :: "iocp_object \<Rightarrow> 'a iocp_event_scheme \<Rightarrow> 'a iocp_event_scheme" where
  "arm obj ev \<equiv> IOCPEvent_SetIOCPObjectSPtr (Some obj) (IOCPEvent_Clear ev)"

definition blank :: "'a overlapped_scheme \<Rightarrow> bool" where
  "blank ev \<longleftrightarrow> ov_Internal ev = 0 \<and> ov_InternalHigh ev = 0 \<and> ov_Offset ev = 0 \<and> ov_OffsetHigh ev = 0 \<and>
     ov_hEvent ev = None"

lemmas event_defs =
  IOCPEvent_init_def IOCPEvent_Clear_def IOCPEvent_ReleaseIOCPObjectSPtr_def IOCPEvent_SetIOCPObjectSPtr_def

lemmas event_new_defs =
  IOCPEvent_new_def ConnectEvent_new_def DisconnectEvent_new_def RecvEvent_new_def AcceptEvent_new_def
  SendEvent_new_def SendEvent_Init_def

lemma event_type_kept [simp]:
  "ev_eventType (IOCPEvent_Clear ev) = ev_eventType ev"
  "ev_eventType (IOCPEvent_SetIOCPObjectSPtr obj ev) = ev_eventType ev"
  "ev_eventType (IOCPEvent_ReleaseIOCPObjectSPtr ev) = ev_eventType ev"
  by (simp_all add: event_defs)

lemma event_object [simp]:
  "ev_iocpObject (IOCPEvent_Clear ev) = ev_iocpObject ev"
  "ev_iocpObject (IOCPEvent_SetIOCPObjectSPtr obj ev) = obj"
  "ev_iocpObject (IOCPEvent_ReleaseIOCPObjectSPtr ev) = ev_iocpObject ev"
  by (simp_all add: event_defs)

lemma event_payload [simp]:
  "ae_session (IOCPEvent_Clear aev) = ae_session aev"
  "ae_session (IOCPEvent_SetIOCPObjectSPtr obj aev) = ae_session aev"
  "sn_segments (IOCPEvent_Clear sev) = sn_segments sev"
  "sn_segments (IOCPEvent_SetIOCPObjectSPtr obj sev) = sn_segments sev"
  "sn_segments (IOCPEvent_ReleaseIOCPObjectSPtr sev) = sn_segments sev"
  by (simp_all add: event_defs)

lemma event_new [simp]:
  "ev_eventType (RecvEvent_new mem) = EV_Recv" "ev_eventType (DisconnectEvent_new mem) = EV_Disconnect"
  "ev_eventType (ConnectEvent_new mem) = EV_Connect" "ev_eventType (AcceptEvent_new mem) = EV_Accept"
  "ev_eventType (SendEvent_new mem) = EV_Send" "sn_segments (SendEvent_new mem) = []"
  "ae_session (AcceptEvent_new mem) = None" "ev_iocpObject (AcceptEvent_new mem) = None"
  by (simp_all add: event_defs event_new_defs overlapped.defs iocp_event.defs)

text \<open>Whatever memory an event was made in, and whatever the system left in it, it is blank when it
  is new and when it is posted.\<close>

lemma event_blank [simp]:
  "blank (IOCPEvent_new mem t)" "blank (IOCPEvent_Clear ev)"
  "blank (IOCPEvent_SetIOCPObjectSPtr obj iev) = blank iev"
  by (simp_all add: event_defs event_new_defs blank_def overlapped.defs)

end
