(* ===== verification/Sockets.thy ===== *)
theory Sockets
  imports Error_Handler
begin

text \<open>
  Socket and address helpers: \<^verbatim>\<open>SocketUtils.h\<close>, \<^verbatim>\<open>SocketUtils.cpp\<close> and \<^verbatim>\<open>AddrUtils.h\<close> under
  \<^verbatim>\<open>src/MyNetworkLib/\<close>. The Winsock calls are outside of the repository: what a call returns is an
  argument (\<open>res\<close>, a socket, a success flag, \<open>pton\<close> for \<^verbatim>\<open>InetPton\<close>), and the definitions are what
  the helpers make of it. The error record of \<open>Error_Handler\<close> is threaded through.
\<close>

section \<open>Socket helpers\<close>

text \<open>What one helper returns: whether it succeeded, and the error record.\<close>

type_synonym checked = "(bool \<times> err_state) outcome"

definition SocketUtils_CreateSocket :: "uint64 \<Rightarrow> err_state \<Rightarrow> (uint64 \<times> err_state) outcome" where
  "SocketUtils_CreateSocket sock s =
     and_then (CheckSocketValid sock WSASOCKETW_FAILED True s) (\<lambda>(_, s1). Ok (sock, s1))"

definition SocketUtils_SetLinger :: "int32 \<Rightarrow> err_state \<Rightarrow> checked" where
  "SocketUtils_SetLinger res s = WSACheckSocketError res WSA_SET_LINGER_FAILED False s"

definition SocketUtils_SetReuseAddress :: "int32 \<Rightarrow> err_state \<Rightarrow> checked" where
  "SocketUtils_SetReuseAddress res s = WSACheckSocketError res WSA_SET_REUSEADDR_FAILED False s"

definition SocketUtils_SetRecvBufferSize :: "int32 \<Rightarrow> err_state \<Rightarrow> checked" where
  "SocketUtils_SetRecvBufferSize res s = WSACheckSocketError res WSA_SET_RCVBUF_FAILED False s"

definition SocketUtils_SetSendBufferSize :: "int32 \<Rightarrow> err_state \<Rightarrow> checked" where
  "SocketUtils_SetSendBufferSize res s = WSACheckSocketError res WSA_SET_SNDBUF_FAILED False s"

definition SocketUtils_SetTcpNoDelay :: "int32 \<Rightarrow> err_state \<Rightarrow> checked" where
  "SocketUtils_SetTcpNoDelay res s = WSACheckSocketError res WSA_SET_TCP_NODELAY_FAILED False s"

definition SocketUtils_SetUpdateAcceptSocket :: "int32 \<Rightarrow> err_state \<Rightarrow> checked" where
  "SocketUtils_SetUpdateAcceptSocket res s = WSACheckSocketError res WSA_SET_UPDATE_ACCEPT_CONTEXT_FAILED False s"

definition SocketUtils_SetUpdateConnectContext :: "int32 \<Rightarrow> err_state \<Rightarrow> checked" where
  "SocketUtils_SetUpdateConnectContext res s =
     WSACheckSocketError res WSA_SETSOCKOPT_UPDATE_CONNECT_CONTEXT_FAILED False s"

definition SocketUtils_Bind :: "int32 \<Rightarrow> err_state \<Rightarrow> checked" where
  "SocketUtils_Bind res s = WSACheckSocketError res WSA_BIND_FAILED True s"

definition SocketUtils_BindAnyAddress :: "int32 \<Rightarrow> err_state \<Rightarrow> checked" where
  "SocketUtils_BindAnyAddress res s = WSACheckSocketError res WSA_BIND_ANYADDRESS_FAILED True s"

definition SocketUtils_Listen :: "int32 \<Rightarrow> err_state \<Rightarrow> checked" where
  "SocketUtils_Listen res s = WSACheckSocketError res WSA_LISTEN_FAILED True s"

definition SocketUtils_Close :: "int32 \<Rightarrow> uint64 \<Rightarrow> err_state \<Rightarrow> (uint64 \<times> err_state) outcome" where
  "SocketUtils_Close res sock s =
     and_then (if sock \<noteq> INVALID_SOCKET then WSACheckSocketError res WSA_CLOSE_SOCKET_FAILED True s else Ok (True, s))
       (\<lambda>(_, s1). Ok (INVALID_SOCKET, s1))"

definition SocketUtils_Init :: "int32 \<Rightarrow> int32 \<Rightarrow> int32 \<Rightarrow> int32 \<Rightarrow> uint64 \<Rightarrow> int32 \<Rightarrow> err_state \<Rightarrow> err_state outcome" where
  "SocketUtils_Init startup connectEx acceptEx disconnectEx sock closeRes s =
     and_then (WSACheckSocketError startup WSASTARTUP_FAILED True s) (\<lambda>(_, s1).
     and_then (SocketUtils_CreateSocket sock s1) (\<lambda>(sk, s2).
     and_then (WSACheckSocketError connectEx WSAIOCTL_CONNECTEX_FAILED True s2) (\<lambda>(_, s3).
     and_then (WSACheckSocketError acceptEx WSAIOCTL_ACCEPTEX_FAILED True s3) (\<lambda>(_, s4).
     and_then (WSACheckSocketError disconnectEx WSAIOCTL_DISCONNECTEX_FAILED True s4) (\<lambda>(_, s5).
     and_then (SocketUtils_Close closeRes sk s5) (\<lambda>(_, s6). Ok s6))))))"

definition SocketUtils_Clear :: "int32 \<Rightarrow> err_state \<Rightarrow> checked" where
  "SocketUtils_Clear res s = WSACheckSocketError res WSAClEANUP_FAILED False s"

section \<open>Addresses\<close>

definition AF_INET :: uint16 where "AF_INET = 2"

record sockaddr_in =
  sin_family :: uint16
  sin_port :: uint16
  sin_addr :: uint32

definition htons :: "uint16 \<Rightarrow> uint16" where
  "htons w = push_bit 8 w OR drop_bit 8 w"

definition ntohs :: "uint16 \<Rightarrow> uint16" where
  "ntohs w = push_bit 8 w OR drop_bit 8 w"

text \<open>\<^verbatim>\<open>InetPton\<close> yields an address or fails; then the zeroed address stays.\<close>

definition AddrUtils_GetTcpAddress :: "(string \<Rightarrow> uint32 option) \<Rightarrow> string \<Rightarrow> uint16 \<Rightarrow> sockaddr_in" where
  "AddrUtils_GetTcpAddress pton ip port =
     \<lparr>sin_family = AF_INET, sin_port = htons port, sin_addr = (case pton ip of None \<Rightarrow> 0 | Some a \<Rightarrow> a)\<rparr>"

definition AddrUtils_SetTcpAddress :: "(string \<Rightarrow> uint32 option) \<Rightarrow> string \<Rightarrow> uint16 \<Rightarrow> bool \<times> sockaddr_in" where
  "AddrUtils_SetTcpAddress pton ip port =
     (case pton ip of
        None \<Rightarrow> (False, \<lparr>sin_family = AF_INET, sin_port = htons port, sin_addr = 0\<rparr>)
      | Some a \<Rightarrow> (True, \<lparr>sin_family = AF_INET, sin_port = htons port, sin_addr = a\<rparr>))"

text \<open>\<open>name\<close> is the address that \<^verbatim>\<open>getsockname\<close> or \<^verbatim>\<open>getpeername\<close> delivers.\<close>

definition AddrUtils_GetSockName :: "sockaddr_in option \<Rightarrow> uint16 \<Rightarrow> bool \<times> uint16" where
  "AddrUtils_GetSockName name port = (case name of Some a \<Rightarrow> (True, ntohs (sin_port a)) | None \<Rightarrow> (False, port))"

definition AddrUtils_GetPeerName :: "sockaddr_in option \<Rightarrow> uint16 \<Rightarrow> bool \<times> uint16" where
  "AddrUtils_GetPeerName name port = (case name of Some a \<Rightarrow> (True, ntohs (sin_port a)) | None \<Rightarrow> (False, port))"

definition AddrUtils_GetMyAddress :: "uint16 \<Rightarrow> sockaddr_in" where
  "AddrUtils_GetMyAddress port = \<lparr>sin_family = AF_INET, sin_port = htons port, sin_addr = 0\<rparr>"

text \<open>The port is compared as it stands, in network order, with a bound that a 16-bit value cannot
  exceed.\<close>

definition AddrUtils_IsValid :: "sockaddr_in \<Rightarrow> bool" where
  "AddrUtils_IsValid addr =
     (if sin_family addr \<noteq> AF_INET then False
      else if sin_port addr = 0 \<or> unat (sin_port addr) > 65535 then False
      else True)"

section \<open>Byte order\<close>

lemma ntohs_htons [simp]: "ntohs (htons w) = w"
  by (rule bit_word_eqI) (auto simp: ntohs_def htons_def bit_simps)

lemma htons_eq_0_iff [simp]: "htons w = 0 \<longleftrightarrow> w = 0"
proof
  assume "htons w = 0"
  then have "ntohs (htons w) = ntohs 0" by simp
  then show "w = 0" by (simp only: ntohs_htons) (simp add: ntohs_def)
qed (simp add: htons_def)

lemma uint16_not_above [simp]: "\<not> 65535 < unat (w :: uint16)"
proof -
  have "unat w < 2 ^ LENGTH(16)" by (rule unsigned_less)
  then show ?thesis by simp
qed

text \<open>An address made by \<^verbatim>\<open>GetTcpAddress\<close> or \<^verbatim>\<open>GetMyAddress\<close> is valid exactly when its port is not zero,
  whatever became of the text of the address, and the port read back from the address is the port
  it was made with.\<close>

lemma AddrUtils_IsValid_made [simp]:
  "AddrUtils_IsValid (AddrUtils_GetTcpAddress pton ip port) \<longleftrightarrow> port \<noteq> 0"
  "AddrUtils_IsValid (AddrUtils_GetMyAddress port) \<longleftrightarrow> port \<noteq> 0"
  by (simp_all add: AddrUtils_GetTcpAddress_def AddrUtils_GetMyAddress_def AddrUtils_IsValid_def)

lemma AddrUtils_port_roundtrip:
  "AddrUtils_GetSockName (Some (AddrUtils_GetTcpAddress pton ip port)) p = (True, port)"
  "AddrUtils_GetPeerName (Some (AddrUtils_GetMyAddress port)) p = (True, port)"
  by (simp_all add: AddrUtils_GetSockName_def AddrUtils_GetPeerName_def AddrUtils_GetTcpAddress_def
      AddrUtils_GetMyAddress_def)

section \<open>The helpers always return\<close>

lemma SocketUtils_results [simp]:
  "SocketUtils_CreateSocket sock s =
     Ok (sock, if sock = INVALID_SOCKET then SetLastError WSASOCKETW_FAILED s else s)"
  "SocketUtils_SetLinger res s =
     Ok (res \<noteq> SOCKET_ERROR, if res = SOCKET_ERROR then SetLastError WSA_SET_LINGER_FAILED s else s)"
  "SocketUtils_SetReuseAddress res s =
     Ok (res \<noteq> SOCKET_ERROR, if res = SOCKET_ERROR then SetLastError WSA_SET_REUSEADDR_FAILED s else s)"
  "SocketUtils_SetUpdateAcceptSocket res s =
     Ok (res \<noteq> SOCKET_ERROR, if res = SOCKET_ERROR then SetLastError WSA_SET_UPDATE_ACCEPT_CONTEXT_FAILED s else s)"
  "SocketUtils_Bind res s =
     Ok (res \<noteq> SOCKET_ERROR, if res = SOCKET_ERROR then SetLastError WSA_BIND_FAILED s else s)"
  "SocketUtils_BindAnyAddress res s =
     Ok (res \<noteq> SOCKET_ERROR, if res = SOCKET_ERROR then SetLastError WSA_BIND_ANYADDRESS_FAILED s else s)"
  "SocketUtils_Listen res s =
     Ok (res \<noteq> SOCKET_ERROR, if res = SOCKET_ERROR then SetLastError WSA_LISTEN_FAILED s else s)"
  by (simp_all add: SocketUtils_CreateSocket_def SocketUtils_SetLinger_def SocketUtils_SetReuseAddress_def
      SocketUtils_SetUpdateAcceptSocket_def SocketUtils_Bind_def SocketUtils_BindAnyAddress_def
      SocketUtils_Listen_def socket_check_results)

lemma SocketUtils_Close_result [simp]:
  "SocketUtils_Close res sock s =
     Ok (INVALID_SOCKET,
         if sock \<noteq> INVALID_SOCKET \<and> res = SOCKET_ERROR then SetLastError WSA_CLOSE_SOCKET_FAILED s else s)"
  by (cases "sock = INVALID_SOCKET") (simp_all add: SocketUtils_Close_def socket_check_results)

lemma SocketUtils_Init_returns: "\<exists>s'. SocketUtils_Init startup c a d sock res s = Ok s'"
  by (cases "sock = INVALID_SOCKET") (auto simp: SocketUtils_Init_def socket_check_results)

end
