(* ===== verification/Sessions.thy ===== *)
theory Sessions
  imports Completion_Events Sockets
begin

text \<open>
  Sessions: \<^verbatim>\<open>Session.h\<close>, \<^verbatim>\<open>Session.cpp\<close> and \<^verbatim>\<open>IOCPObject.h\<close> under \<^verbatim>\<open>src/MyNetworkLib/\<close>,
  and the data of the services, listeners and connectors that sessions refer to (\<^verbatim>\<open>Service.h\<close>,
  \<^verbatim>\<open>ClientServiceEx.h\<close>, \<^verbatim>\<open>Listener.h\<close>, \<^verbatim>\<open>Connector.h\<close>).

  The state is \<open>net\<close>: one service, the session objects by reference, and what the outside sees, a
  trace of the asynchronous calls posted to the system and of the virtual methods called, and the
  events of the posted calls that have not completed (\<open>nt_pending\<close>). A method runs without
  interruption here; \<open>Session_Send\<close> has its sending path among threads. What a system call returns is
  an argument \<open>io\<close>. The virtual \<^verbatim>\<open>OnRecv\<close> is an argument, which a \<^verbatim>\<open>PacketSession\<close> instantiates by its own;
  the other virtual methods, the application's, are only recorded, except that an application may
  keep a shared pointer of each session it is told of by \<^verbatim>\<open>OnConnected\<close> (\<open>nt_keep\<close>, \<open>nt_held\<close>).

  A session lives as long as somebody has a shared pointer to it: the service, an accept event or
  the application (\<open>session_alive\<close>). The state keeps the fields of a session that has died, but its
  events are members of it: \<open>Services\<close> makes it a fault to dispatch one of them.
\<close>

section \<open>Data\<close>

datatype ServiceType = ST_None | ST_Client | ST_Server

abbreviation (input) RECV_BUFFER_SIZE :: uint32 where "RECV_BUFFER_SIZE \<equiv> 65536"

record session =
  se_service :: bool
  se_socket :: uint64
  se_sessionId :: uint32
  se_connected :: bool
  se_sendEvent :: send_event
  se_recvEvent :: iocp_event
  se_disconnectEvent :: iocp_event
  se_recvBuffer :: recv_buffer
  se_sendQueue :: "wsabuf list"
  se_sending :: bool

text \<open>The listener owns its accept events.\<close>

record listener =
  ls_listenSocket :: uint64
  ls_acceptEvents :: "accept_event list"

record connector =
  cn_connectSocket :: uint64
  cn_session :: "nat option"
  cn_connectEvent :: iocp_event
  cn_connected :: bool

text \<open>The subclasses of \<^verbatim>\<open>Service\<close> with their own members. The set of a server is ordered by pointer.\<close>

datatype service_impl =
    ClientService "nat option" "connector option"
  | ServerService uint32 "nat list" "listener option"
  | ClientServiceEx "nat option list" "connector list"

record service =
  sv_serviceType :: ServiceType
  sv_iocpCore :: bool
  sv_addr :: sockaddr_in
  sv_sessionFactory :: bool
  sv_MAX_SESSION_COUNT :: uint32
  sv_onGoing :: bool
  sv_impl :: service_impl

datatype io_call =
    WSARecv uint64 nat uint32
  | WSASend uint64 "wsabuf list"
  | DisconnectEx uint64
  | AcceptEx uint64 uint64
  | ConnectEx uint64

text \<open>A posted call carries whether it is in progress or done, as opposed to failed.\<close>

datatype trace_item =
    Posted io_call bool
  | OnConnected nat
  | OnSend nat int32
  | OnRecv nat "recv_call list"
  | OnDisconnected nat
  | Sent nat uint16

record net =
  nt_session :: "nat \<Rightarrow> session"
  nt_sid :: uint32
  nt_service :: service
  nt_err :: err_state
  nt_trace :: "trace_item list"
  nt_pending :: "event_ref list"
  nt_keep :: bool
  nt_held :: "nat list"

record io_result =
  io_res :: int32
  io_error :: int32

abbreviation (input) upd_session :: "nat \<Rightarrow> (session \<Rightarrow> session) \<Rightarrow> net \<Rightarrow> net" where
  "upd_session r f n \<equiv> n\<lparr>nt_session := (nt_session n)(r := f (nt_session n r))\<rparr>"

definition trace :: "trace_item \<Rightarrow> net \<Rightarrow> net" where
  "trace x n = n\<lparr>nt_trace := nt_trace n @ [x]\<rparr>"

text \<open>A call is posted with an event, which is pending when the call does not fail.\<close>

definition post :: "event_ref \<Rightarrow> io_call \<Rightarrow> bool \<Rightarrow> net \<Rightarrow> net" where
  "post e c ok n = (trace (Posted c ok) n)\<lparr>nt_pending := if ok then nt_pending n @ [e] else nt_pending n\<rparr>"

text \<open>The shared pointers to a session.\<close>

fun service_holds :: "nat \<Rightarrow> service_impl \<Rightarrow> bool" where
  "service_holds r (ClientService s _) \<longleftrightarrow> s = Some r"
| "service_holds r (ServerService _ ss l) \<longleftrightarrow> r \<in> set ss \<or>
     (case l of None \<Rightarrow> False | Some x \<Rightarrow> Some r \<in> ae_session ` set (ls_acceptEvents x))"
| "service_holds r (ClientServiceEx ss _) \<longleftrightarrow> Some r \<in> set ss"

definition session_alive :: "nat \<Rightarrow> net \<Rightarrow> bool" where
  "session_alive r n \<longleftrightarrow> r \<in> set (nt_held n) \<or> service_holds r (sv_impl (nt_service n))"

section \<open>The session\<close>

definition Session_new :: "nat \<Rightarrow> uint64 \<Rightarrow> net \<Rightarrow> net outcome" where
  "Session_new r sock n =
     and_then (SocketUtils_CreateSocket sock (nt_err n)) (\<lambda>(sk, e).
       Ok (n\<lparr>nt_session := (nt_session n)(r :=
                \<lparr>se_service = False, se_socket = sk, se_sessionId = nt_sid n, se_connected = False,
                 se_sendEvent = SendEvent_new zeroed, se_recvEvent = RecvEvent_new zeroed,
                 se_disconnectEvent = DisconnectEvent_new zeroed,
                 se_recvBuffer = RecvBuffer_new RECV_BUFFER_SIZE, se_sendQueue = [], se_sending = False\<rparr>),
             nt_sid := nt_sid n + 1, nt_err := e\<rparr>))"

definition Session_destroy :: "nat \<Rightarrow> int32 \<Rightarrow> net \<Rightarrow> net outcome" where
  "Session_destroy r closeRes n =
     and_then (SocketUtils_Close closeRes (se_socket (nt_session n r)) (nt_err n)) (\<lambda>(sk, e).
       Ok ((upd_session r (se_socket_update (\<lambda>_. sk)) n)\<lparr>nt_err := e\<rparr>))"

text \<open>Shared pointers to the sessions \<open>rs\<close> have gone: those nobody else has are destroyed.\<close>

fun reap :: "nat list \<Rightarrow> (nat \<Rightarrow> int32) \<Rightarrow> net \<Rightarrow> net outcome" where
  "reap [] closeRes n = Ok n"
| "reap (r # rs) closeRes n =
     (if session_alive r n then reap rs closeRes n
      else and_then (Session_destroy r (closeRes r) n) (reap rs closeRes))"

definition Session_register_disconnect :: "nat \<Rightarrow> io_result \<Rightarrow> net \<Rightarrow> bool \<times> net" where
  "Session_register_disconnect r io n =
     (let n1 = upd_session r (se_disconnectEvent_update (arm (Session_obj r))) n;
          (ok, _) = WSACheckErrorExceptPending2 (io_res io \<noteq> 0) (io_error io) 0
      in (ok, post (DisconnectEvent_of r) (DisconnectEx (se_socket (nt_session n1 r))) ok n1))"

definition Session_disconnect :: "nat \<Rightarrow> io_result \<Rightarrow> net \<Rightarrow> net" where
  "Session_disconnect r io n =
     (if se_connected (nt_session n r) = False then n else snd (Session_register_disconnect r io n))"

definition Session_Disconnect :: "nat \<Rightarrow> io_result \<Rightarrow> net \<Rightarrow> bool \<times> net" where
  "Session_Disconnect r io n =
     (if se_connected (nt_session n r) = False then (False, n)
      else Session_register_disconnect r io (upd_session r (se_connected_update (\<lambda>_. False)) n))"

text \<open>The virtual \<^verbatim>\<open>Service::ReleaseSession\<close>, by subclass.\<close>

definition ClientService_ReleaseSession :: "nat option \<Rightarrow> bool \<times> nat option" where
  "ClientService_ReleaseSession sess = (if sess = None then (False, sess) else (True, None))"

definition ServerService_ReleaseSession :: "nat \<Rightarrow> nat list \<Rightarrow> bool \<times> nat list" where
  "ServerService_ReleaseSession r sessions = (r \<in> set sessions, remove1 r sessions)"

fun ClientServiceEx_ReleaseSession :: "nat \<Rightarrow> nat option list \<Rightarrow> bool \<times> nat option list" where
  "ClientServiceEx_ReleaseSession r [] = (False, [])"
| "ClientServiceEx_ReleaseSession r (x # xs) =
     (if x = Some r then (True, None # xs)
      else let (found, ys) = ClientServiceEx_ReleaseSession r xs in (found, x # ys))"

fun ReleaseSession :: "nat \<Rightarrow> service_impl \<Rightarrow> bool \<times> service_impl" where
  "ReleaseSession r (ClientService sess conn) =
     (let (ok, sess') = ClientService_ReleaseSession sess in (ok, ClientService sess' conn))"
| "ReleaseSession r (ServerService backlog sessions l) =
     (let (ok, sessions') = ServerService_ReleaseSession r sessions in (ok, ServerService backlog sessions' l))"
| "ReleaseSession r (ClientServiceEx sessions conns) =
     (let (ok, sessions') = ClientServiceEx_ReleaseSession r sessions in (ok, ClientServiceEx sessions' conns))"

definition Session_clear :: "nat \<Rightarrow> net \<Rightarrow> net outcome" where
  "Session_clear r n =
     (if \<not> se_service (nt_session n r) then Fault NullDereference
      else let (_, impl) = ReleaseSession r (sv_impl (nt_service n))
           in Ok (upd_session r (\<lambda>s. s\<lparr>se_service := False,
                        se_sendEvent := IOCPEvent_ReleaseIOCPObjectSPtr (se_sendEvent s),
                        se_recvEvent := IOCPEvent_ReleaseIOCPObjectSPtr (se_recvEvent s),
                        se_disconnectEvent := IOCPEvent_ReleaseIOCPObjectSPtr (se_disconnectEvent s),
                        se_sendQueue := [], se_connected := False, se_socket := INVALID_SOCKET\<rparr>)
                    (n\<lparr>nt_service := (nt_service n)\<lparr>sv_impl := impl\<rparr>\<rparr>)))"

definition Session_process_disconnect :: "nat \<Rightarrow> net \<Rightarrow> net outcome" where
  "Session_process_disconnect r n = and_then (Session_clear r n) (\<lambda>n1. Ok (trace (OnDisconnected r) n1))"

definition Session_register_recv :: "nat \<Rightarrow> io_result \<Rightarrow> net \<Rightarrow> net outcome" where
  "Session_register_recv r io n =
     (let s = nt_session n r
      in if se_connected s = False then Ok (Session_disconnect r io n)
         else let n1 = upd_session r (se_recvEvent_update (arm (Session_obj r))) n
              in and_then (RecvBuffer_WritePos (se_recvBuffer s)) (\<lambda>pos.
                let (ok, _) = WSACheckErrorExceptPending2 (io_res io \<noteq> SOCKET_ERROR) (io_error io) 0
                in Ok (post (RecvEvent_of r) (WSARecv (se_socket s) pos (RecvBuffer_FreeSize (se_recvBuffer s))) ok n1)))"

definition Session_register_send :: "nat \<Rightarrow> io_result \<Rightarrow> net \<Rightarrow> net" where
  "Session_register_send r io n =
     (let s = nt_session n r
      in if se_connected s = False then Session_disconnect r io n
         else let n1 = upd_session r (se_sendEvent_update (arm (Session_obj r))) n;
                  segments = sn_segments (se_sendEvent (nt_session n1 r)) @ se_sendQueue s;
                  n2 = upd_session r (\<lambda>s. s\<lparr>se_sendQueue := []\<rparr>) n1;
                  (ok, _) = WSACheckErrorExceptPending2 (io_res io \<noteq> SOCKET_ERROR) (io_error io) 0
              in upd_session r (\<lambda>s. s\<lparr>se_sendEvent := (se_sendEvent s)\<lparr>sn_segments := []\<rparr>, se_sending := False\<rparr>)
                   (post (SendEvent_of r) (WSASend (se_socket s) segments) ok n2))"

definition Session_send :: "nat \<Rightarrow> wsabuf list \<Rightarrow> io_result \<Rightarrow> net \<Rightarrow> net" where
  "Session_send r buffers io n =
     (if length buffers = 0 then n
      else let sendFlag = (se_sending (nt_session n r) = False);
               n1 = upd_session r (\<lambda>s. s\<lparr>se_sendQueue := se_sendQueue s @ buffers, se_sending := True\<rparr>) n
           in if sendFlag then Session_register_send r io n1 else n1)"

definition Session_process_send :: "nat \<Rightarrow> int32 \<Rightarrow> io_result \<Rightarrow> net \<Rightarrow> net" where
  "Session_process_send r numberOfBytesSent io n =
     (let n1 = upd_session r (se_sendEvent_update IOCPEvent_ReleaseIOCPObjectSPtr) n
      in if numberOfBytesSent = 0 then Session_disconnect r io n1 else trace (OnSend r numberOfBytesSent) n1)"

text \<open>\<open>onRecv\<close> is applied to the memory from \<^verbatim>\<open>DataPos()\<close> on; it may not return.\<close>

type_synonym on_recv = "ubyte list \<Rightarrow> uint32 \<Rightarrow> (recv_call list \<times> uint32) outcome option"

definition Session_process_recv :: "on_recv \<Rightarrow> nat \<Rightarrow> uint32 \<Rightarrow> io_result \<Rightarrow> net \<Rightarrow> net outcome option" where
  "Session_process_recv onRecv r numberOfBytesRecvd io n =
     (if numberOfBytesRecvd = 0 then Some (Ok (Session_disconnect r io n))
      else let b = se_recvBuffer (nt_session n r)
           in (case RecvBuffer_DataPos b of
                 Fault f \<Rightarrow> Some (Fault f)
               | Ok pos \<Rightarrow>
                   (case onRecv (drop pos (rb_buffer b)) numberOfBytesRecvd of
                      None \<Rightarrow> None
                    | Some (Fault f) \<Rightarrow> Some (Fault f)
                    | Some (Ok (calls, processLen)) \<Rightarrow>
                        let n1 = trace (OnRecv r calls) n
                        in if processLen = 0 then Some (Ok (Session_disconnect r io n1))
                           else Some (Session_register_recv r io n1))))"

definition Session_Dispatch ::
    "on_recv \<Rightarrow> EventType \<Rightarrow> nat \<Rightarrow> uint32 \<Rightarrow> io_result \<Rightarrow> net \<Rightarrow> net outcome option" where
  "Session_Dispatch onRecv ev r numberOfBytesTransferred io n =
     (case ev of
        EV_Recv \<Rightarrow> Session_process_recv onRecv r numberOfBytesTransferred io n
      | EV_Send \<Rightarrow> Some (Ok (Session_process_send r numberOfBytesTransferred io n))
      | EV_Disconnect \<Rightarrow> Some (Session_process_disconnect r n)
      | _ \<Rightarrow> Some (Ok n))"

definition Session_set_socket :: "nat \<Rightarrow> uint64 \<Rightarrow> net \<Rightarrow> net outcome" where
  "Session_set_socket r connectedSocket n =
     (if \<not> se_service (nt_session n r) then Fault NullDereference
      else let (code, e) = CheckError (sv_serviceType (nt_service n) = ST_Client)
                 APP_SESSION_SET_SOCKET_ALLOWED_ONLY_IN_CONNECTOR (nt_err n);
               n1 = n\<lparr>nt_err := e\<rparr>
           in if code \<noteq> 0 then Ok n1 else Ok (upd_session r (se_socket_update (\<lambda>_. connectedSocket)) n1))"

text \<open>The call of the virtual \<^verbatim>\<open>OnConnected\<close>.\<close>

definition Session_OnConnected :: "nat \<Rightarrow> net \<Rightarrow> net" where
  "Session_OnConnected r n =
     (trace (OnConnected r) n)\<lparr>nt_held := if nt_keep n then nt_held n @ [r] else nt_held n\<rparr>"

text \<open>\<^verbatim>\<open>_set_connected\<close> is called with the service that owns the session.\<close>

definition Session_set_connected :: "nat \<Rightarrow> uint64 \<Rightarrow> io_result \<Rightarrow> net \<Rightarrow> net outcome" where
  "Session_set_connected r connectedSocket io n =
     (let n1 = upd_session r (se_service_update (\<lambda>_. True)) n
      in and_then (if connectedSocket \<noteq> INVALID_SOCKET then Session_set_socket r connectedSocket n1 else Ok n1)
           (\<lambda>n2. let n3 = upd_session r (se_connected_update (\<lambda>_. True)) n2
                 in Session_register_recv r io (Session_OnConnected r n3)))"

text \<open>A receive completes: the system has stored the bytes at the write position, and the completion
  is dispatched.\<close>

definition recv_completion ::
    "on_recv \<Rightarrow> nat \<Rightarrow> ubyte list \<Rightarrow> io_result \<Rightarrow> net \<Rightarrow> net outcome option" where
  "recv_completion onRecv r bs io n =
     (case recv_bytes bs (se_recvBuffer (nt_session n r)) of
        Fault f \<Rightarrow> Some (Fault f)
      | Ok b \<Rightarrow> Session_Dispatch onRecv EV_Recv r (of_nat (length bs)) io
                 (upd_session r (se_recvBuffer_update (\<lambda>_. b)) n))"

fun recv_completions ::
    "on_recv \<Rightarrow> nat \<Rightarrow> (ubyte list \<times> io_result) list \<Rightarrow> net \<Rightarrow> net outcome option" where
  "recv_completions onRecv r [] n = Some (Ok n)"
| "recv_completions onRecv r ((bs, io) # xs) n =
     (case recv_completion onRecv r bs io n of
        Some (Ok n1) \<Rightarrow> recv_completions onRecv r xs n1
      | x \<Rightarrow> x)"

lemma Session_OnConnected_simps [simp]:
  "nt_session (Session_OnConnected r n) = nt_session n" "nt_service (Session_OnConnected r n) = nt_service n"
  "nt_trace (Session_OnConnected r n) = nt_trace n @ [OnConnected r]"
  "nt_pending (Session_OnConnected r n) = nt_pending n" "nt_keep (Session_OnConnected r n) = nt_keep n"
  "nt_held (Session_OnConnected r n) = nt_held n @ (if nt_keep n then [r] else [])"
  by (simp_all add: Session_OnConnected_def trace_def)

section \<open>Receiving\<close>

abbreviation (input) posted_ok :: "io_result \<Rightarrow> bool" where
  "posted_ok io \<equiv> io_res io \<noteq> SOCKET_ERROR \<or> io_error io = WSA_IO_PENDING"

lemma WSACheckErrorExceptPending2_ok:
  "fst (WSACheckErrorExceptPending2 c e l) \<longleftrightarrow> c \<or> e = WSA_IO_PENDING"
  by (simp add: WSACheckErrorExceptPending2_def)

text \<open>The receive buffer as the constructor made it: both positions at the start.\<close>

definition recv_ready :: "nat \<Rightarrow> net \<Rightarrow> bool" where
  "recv_ready r n \<longleftrightarrow> se_connected (nt_session n r) \<and>
     (let b = se_recvBuffer (nt_session n r)
      in rb_dataPos b = 0 \<and> rb_writePos b = 0 \<and> rb_bufferSize b = RECV_BUFFER_SIZE \<and>
         length (rb_buffer b) = 655360)"

lemma Session_new_ready:
  assumes "Session_new r sock n = Ok n'"
  shows "recv_ready r (upd_session r (se_connected_update (\<lambda>_. True)) n')"
  using assms by (auto simp: Session_new_def recv_ready_def RecvBuffer_new_def Let_def)

definition recv_posted :: "nat \<Rightarrow> io_result \<Rightarrow> net \<Rightarrow> trace_item" where
  "recv_posted r io n = Posted (WSARecv (se_socket (nt_session n r)) 0 RECV_BUFFER_SIZE) (posted_ok io)"

definition recv_armed :: "nat \<Rightarrow> io_result \<Rightarrow> net \<Rightarrow> net" where
  "recv_armed r io n =
     post (RecvEvent_of r) (WSARecv (se_socket (nt_session n r)) 0 RECV_BUFFER_SIZE) (posted_ok io)
       (upd_session r (se_recvEvent_update (arm (Session_obj r))) n)"

lemma Session_register_recv_ready:
  assumes "recv_ready r n"
  shows "Session_register_recv r io n = Ok (recv_armed r io n)"
  using assms
  by (auto simp: recv_ready_def Session_register_recv_def RecvBuffer_WritePos_def RecvBuffer_FreeSize_def
      recv_armed_def WSACheckErrorExceptPending2_def Let_def)

lemma recv_armed_simps [simp]:
  "nt_trace (recv_armed r io n) = nt_trace n @ [recv_posted r io n]"
  "nt_service (recv_armed r io n) = nt_service n"
  "recv_ready q (recv_armed r io n) = recv_ready q n"
  "se_socket (nt_session (recv_armed r io n) q) = se_socket (nt_session n q)"
  "se_recvBuffer (nt_session (recv_armed r io n) q) = se_recvBuffer (nt_session n q)"
  "se_connected (nt_session (recv_armed r io n) q) = se_connected (nt_session n q)"
  "se_service (nt_session (recv_armed r io n) q) = se_service (nt_session n q)"
  by (auto simp: recv_armed_def recv_posted_def post_def trace_def recv_ready_def)

lemma recv_ready_trace [simp]: "recv_ready r (trace x n) = recv_ready r n"
  by (simp add: recv_ready_def trace_def)

lemma recv_posted_trace [simp]: "recv_posted r io (trace x n) = recv_posted r io n"
  by (simp add: recv_posted_def trace_def)

text \<open>Each completion reaches the handler alone: whatever came before is overwritten.\<close>

lemma recv_completion_alone:
  assumes ready: "recv_ready r n" and bs: "bs \<noteq> []" "length bs \<le> 65536"
    and handler: "\<And>rest. onRecv (bs @ rest) (of_nat (length bs)) = Some (Ok (calls, of_nat (length bs)))"
  shows "\<exists>n'. recv_completion onRecv r bs io n = Some (Ok n') \<and> recv_ready r n' \<and>
    se_socket (nt_session n' r) = se_socket (nt_session n r) \<and>
    rb_buffer (se_recvBuffer (nt_session n' r)) =
      bs @ drop (length bs) (rb_buffer (se_recvBuffer (nt_session n r))) \<and>
    nt_trace n' = nt_trace n @ [OnRecv r calls, recv_posted r io n]"
proof -
  let ?b = "se_recvBuffer (nt_session n r)"
  let ?b1 = "?b\<lparr>rb_buffer := bs @ drop (length bs) (rb_buffer ?b)\<rparr>"
  let ?n1 = "upd_session r (se_recvBuffer_update (\<lambda>_. ?b1)) n"
  have len: "of_nat (length bs) \<noteq> (0 :: uint32)"
    using bs of_nat_word_inj [of "length bs" 0, where 'a = 32] by simp
  have "recv_bytes bs ?b = Ok ?b1"
    using ready bs(2) by (simp add: recv_ready_def recv_bytes_def RecvBuffer_WritePos_def store_bytes_def Let_def)
  moreover have "recv_ready r ?n1" using ready bs(2) by (auto simp: recv_ready_def Let_def)
  moreover from this have "RecvBuffer_DataPos ?b1 = Ok 0"
    by (simp add: recv_ready_def RecvBuffer_DataPos_def Let_def)
  ultimately show ?thesis
    using len handler [of "drop (length bs) (rb_buffer ?b)"]
    by (auto simp: recv_completion_def Session_Dispatch_def Session_process_recv_def Let_def
        Session_register_recv_ready) (simp_all add: trace_def recv_posted_def)
qed

text \<open>What a session needs of its \<^verbatim>\<open>OnRecv\<close>: on a batch of whole packets it returns, whatever follows
  in memory, and reports the calls \<open>calls\<close> and all bytes as processed.\<close>

locale packet_handler =
  fixes onRecv :: on_recv
    and calls :: "packet list \<Rightarrow> recv_call list"
  assumes deliver: "\<forall>p \<in> set ps. packet_ok p \<Longrightarrow> length (wire ps) < 2 ^ 32 \<Longrightarrow>
    onRecv (wire ps @ rest) (of_nat (length (wire ps))) = Some (Ok (calls ps, of_nat (length (wire ps))))"
begin

lemma recv_completions_deliver:
  assumes "recv_ready r n"
    and "\<forall>(ps, io) \<in> set batches. ps \<noteq> [] \<and> (\<forall>p \<in> set ps. packet_ok p) \<and> length (wire ps) \<le> 65536"
  shows "\<exists>n'. recv_completions onRecv r (map (\<lambda>(ps, io). (wire ps, io)) batches) n = Some (Ok n') \<and>
    recv_ready r n' \<and>
    nt_trace n' = nt_trace n @ concat (map (\<lambda>(ps, io). [OnRecv r (calls ps), recv_posted r io n]) batches)"
  using assms
proof (induction batches arbitrary: n)
  case (Cons x batches)
  obtain ps io where x: "x = (ps, io)" by (cases x)
  with Cons.prems have ps: "ps \<noteq> []" "\<forall>p \<in> set ps. packet_ok p" "length (wire ps) \<le> 65536" by auto
  then have "wire ps \<noteq> []" by (cases ps) (auto simp: packet_bytes_def header_bytes_def uint16_bytes_def)
  then obtain n1 where n1: "recv_completion onRecv r (wire ps) io n = Some (Ok n1)" "recv_ready r n1"
    "se_socket (nt_session n1 r) = se_socket (nt_session n r)"
    "nt_trace n1 = nt_trace n @ [OnRecv r (calls ps), recv_posted r io n]"
    using recv_completion_alone [OF Cons.prems(1), of "wire ps" onRecv "calls ps" io] deliver [OF ps(2)] ps(3)
    by auto
  from Cons.IH [OF n1(2)] Cons.prems(2) n1(1,3,4) show ?case
    by (auto simp: x recv_posted_def)
qed simp

end

interpretation PacketSession: packet_handler PacketSession_OnRecv "calls_of 0"
  by unfold_locales (rule PacketSession_OnRecv_wire)

section \<open>Sending\<close>

text \<open>A session between two sends, neither of which another thread interrupts.\<close>

definition send_idle :: "session \<Rightarrow> bool" where
  "send_idle s \<longleftrightarrow> \<not> se_sending s \<and> se_sendQueue s = [] \<and> sn_segments (se_sendEvent s) = []"

lemma Session_send_idle:
  assumes "se_connected (nt_session n r)" "send_idle (nt_session n r)" "bufs \<noteq> []"
  shows "nt_trace (Session_send r bufs io n) =
      nt_trace n @ [Posted (WSASend (se_socket (nt_session n r)) bufs) (posted_ok io)]"
    and "se_connected (nt_session (Session_send r bufs io n) r)" "send_idle (nt_session (Session_send r bufs io n) r)"
  using assms
  by (simp_all add: Session_send_def Session_register_send_def WSACheckErrorExceptPending2_def send_idle_def Let_def
      post_def trace_def)

section \<open>Services as registries of sessions\<close>

text \<open>What a session relies on when it leaves its service: exactly its own entry goes, and the answer
  tells whether there was one. A \<^verbatim>\<open>ServerService\<close> and a \<^verbatim>\<open>ClientServiceEx\<close> keep this; a \<^verbatim>\<open>ClientService\<close>,
  which has one session, releases that one whatever session asks.\<close>

locale session_registry =
  fixes members :: "'s \<Rightarrow> nat multiset"
    and release :: "nat \<Rightarrow> 's \<Rightarrow> bool \<times> 's"
  assumes release_found: "fst (release r s) \<longleftrightarrow> r \<in># members s"
    and release_members: "members (snd (release r s)) = members s - {#r#}"
begin

lemma release_again:
  assumes "count (members s) r \<le> 1"
  shows "\<not> fst (release r (snd (release r s)))"
  using assms by (simp add: release_found release_members not_in_iff)

lemma release_all: "members (fold (\<lambda>r s. snd (release r s)) rs s) = members s - mset rs"
  by (induction rs arbitrary: s) (simp_all add: release_members)

end

interpretation ServerService: session_registry mset ServerService_ReleaseSession
  by unfold_locales (auto simp: ServerService_ReleaseSession_def)

fun slots :: "nat option list \<Rightarrow> nat multiset" where
  "slots [] = {#}"
| "slots (None # xs) = slots xs"
| "slots (Some r # xs) = add_mset r (slots xs)"

interpretation ClientServiceEx: session_registry slots ClientServiceEx_ReleaseSession
proof
  show "fst (ClientServiceEx_ReleaseSession r xs) \<longleftrightarrow> r \<in># slots xs" for r xs
    by (induction xs rule: slots.induct) (auto simp: split_beta)
  show "slots (snd (ClientServiceEx_ReleaseSession r xs)) = slots xs - {#r#}" for r xs
    by (induction xs rule: slots.induct) (auto simp: split_beta)
qed

text \<open>A session that left a server is not found again.\<close>

lemma ServerService_released_once:
  "distinct ss \<Longrightarrow>
     \<not> fst (ServerService_ReleaseSession r (snd (ServerService_ReleaseSession r ss)))"
  by (rule ServerService.release_again) (simp add: distinct_count_atmost_1)

section \<open>Disconnecting\<close>

definition disconnect_posted :: "nat \<Rightarrow> net \<Rightarrow> net" where
  "disconnect_posted r n =
     post (DisconnectEvent_of r) (DisconnectEx (se_socket (nt_session n r))) True
       (upd_session r (se_disconnectEvent_update (arm (Session_obj r))) n)"

lemma Session_disconnect_connected:
  assumes "se_connected (nt_session n r)" and "io_res io \<noteq> 0"
  shows "Session_disconnect r io n = disconnect_posted r n"
  using assms
  by (simp add: Session_disconnect_def Session_register_disconnect_def WSACheckErrorExceptPending2_def
      disconnect_posted_def Let_def)

lemma disconnect_posted_simps [simp]:
  "nt_trace (disconnect_posted r n) = nt_trace n @ [Posted (DisconnectEx (se_socket (nt_session n r))) True]"
  "nt_service (disconnect_posted r n) = nt_service n"
  "se_socket (nt_session (disconnect_posted r n) q) = se_socket (nt_session n q)"
  "se_connected (nt_session (disconnect_posted r n) q) = se_connected (nt_session n q)"
  "se_service (nt_session (disconnect_posted r n) q) = se_service (nt_session n q)"
  by (auto simp: disconnect_posted_def post_def trace_def)

lemma nt_session_trace [simp]: "nt_session (trace x n) = nt_session n"
  by (simp add: trace_def)

lemma nt_trace_trace [simp]: "nt_trace (trace x n) = nt_trace n @ [x]"
  by (simp add: trace_def)

lemma Session_clear_result:
  "Session_clear r n =
     (if se_service (nt_session n r)
      then Ok (upd_session r (\<lambda>s. s\<lparr>se_service := False, se_sendQueue := [], se_connected := False,
                                    se_socket := INVALID_SOCKET\<rparr>)
             (n\<lparr>nt_service := (nt_service n)\<lparr>sv_impl := snd (ReleaseSession r (sv_impl (nt_service n)))\<rparr>\<rparr>))
      else Fault NullDereference)"
  by (simp add: Session_clear_def split_beta IOCPEvent_ReleaseIOCPObjectSPtr_def)

lemma Session_process_disconnect_twice:
  "Session_process_disconnect r n = Ok n' \<Longrightarrow> Session_process_disconnect r n' = Fault NullDereference"
  by (auto simp: Session_process_disconnect_def Session_clear_result split: if_splits)

text \<open>\<^verbatim>\<open>_clear\<close> forgets the socket without closing it: the destructor that follows has nothing to close.\<close>

lemma Session_destroy_after_clear:
  assumes "Session_process_disconnect r n = Ok n'"
  shows "\<exists>n''. Session_destroy r res n' = Ok n'' \<and> nt_err n'' = nt_err n' \<and>
    se_socket (nt_session n' r) = INVALID_SOCKET"
proof -
  have "se_socket (nt_session n' r) = INVALID_SOCKET"
    using assms by (auto simp: Session_process_disconnect_def Session_clear_result split: if_splits)
  then show ?thesis by (simp add: Session_destroy_def)
qed

section \<open>Destroying\<close>

text \<open>Destroying sessions always succeeds and touches nothing but their sockets and the last error.\<close>

definition net_kept :: "net \<Rightarrow> net \<Rightarrow> bool" where
  "net_kept n n' \<longleftrightarrow> nt_service n' = nt_service n \<and> nt_held n' = nt_held n \<and> nt_trace n' = nt_trace n \<and>
     nt_pending n' = nt_pending n \<and> nt_keep n' = nt_keep n \<and> nt_sid n' = nt_sid n \<and>
     (\<forall>q. (nt_session n' q)\<lparr>se_socket := 0\<rparr> = (nt_session n q)\<lparr>se_socket := 0\<rparr>)"

lemma net_kept_refl [simp]: "net_kept n n"
  by (simp add: net_kept_def)

lemma net_kept_trans: "net_kept n n1 \<Longrightarrow> net_kept n1 n2 \<Longrightarrow> net_kept n n2"
  by (simp add: net_kept_def)

lemma net_kept_session:
  assumes "net_kept n n'" and "\<And>s sk. f (s\<lparr>se_socket := sk\<rparr>) = f s"
  shows "f (nt_session n' q) = f (nt_session n q)"
proof -
  have "f ((nt_session n' q)\<lparr>se_socket := 0\<rparr>) = f ((nt_session n q)\<lparr>se_socket := 0\<rparr>)"
    using assms(1) by (simp add: net_kept_def)
  then show ?thesis by (simp add: assms(2))
qed

lemma Session_destroy_kept: "\<exists>n'. Session_destroy r res n = Ok n' \<and> net_kept n n'"
  by (simp add: Session_destroy_def net_kept_def)

lemma reap_kept: "reap rs closeRes n = Ok n' \<Longrightarrow> net_kept n n'"
proof (induction rs arbitrary: n)
  case (Cons r rs)
  then show ?case
    using Session_destroy_kept [of r "closeRes r" n] by (auto split: if_splits intro: net_kept_trans)
qed simp

lemma reap_returns: "\<exists>n'. reap rs closeRes n = Ok n'"
proof (induction rs arbitrary: n)
  case (Cons r rs)
  then show ?case using Session_destroy_kept [of r "closeRes r" n] by auto
qed simp

section \<open>Properties of sessions\<close>

text \<open>On a connected packet session, receive completions that each carry a batch of whole packets, in any
  number and of any sizes up to the buffer's, are all handled without a fault: each calls
  \<^verbatim>\<open>OnRecvPacket\<close> for exactly its own packets in order, and posts the next receive with the whole
  buffer from its start. The positions of the receive buffer never move: \<^verbatim>\<open>_process_recv\<close> uses neither
  \<^verbatim>\<open>Write\<close> nor \<^verbatim>\<open>Read\<close>, so nothing of one completion is there for the next.\<close>

theorem Session_recv_batches:
  assumes "recv_ready r n"
    and "\<forall>(ps, io) \<in> set batches. ps \<noteq> [] \<and> (\<forall>p \<in> set ps. packet_ok p) \<and> length (wire ps) \<le> 65536"
  shows "\<exists>n'. recv_completions PacketSession_OnRecv r (map (\<lambda>(ps, io). (wire ps, io)) batches) n = Some (Ok n') \<and>
    nt_trace n' = nt_trace n @ concat (map (\<lambda>(ps, io). [OnRecv r (calls_of 0 ps), recv_posted r io n]) batches) \<and>
    rb_dataPos (se_recvBuffer (nt_session n' r)) = 0 \<and> rb_writePos (se_recvBuffer (nt_session n' r)) = 0"
  using PacketSession.recv_completions_deliver [OF assms] by (auto simp: recv_ready_def Let_def)

text \<open>A server that has accepted one session.\<close>

definition demo_net :: net where
  "demo_net = \<lparr>nt_session = (\<lambda>_. \<lparr>se_service = True, se_socket = 5, se_sessionId = 1, se_connected = True,
       se_sendEvent = SendEvent_new zeroed, se_recvEvent = arm (Session_obj 0) (RecvEvent_new zeroed),
       se_disconnectEvent = DisconnectEvent_new zeroed,
       se_recvBuffer = RecvBuffer_new RECV_BUFFER_SIZE, se_sendQueue = [], se_sending = False\<rparr>),
     nt_sid = 2,
     nt_service = \<lparr>sv_serviceType = ST_Server, sv_iocpCore = True, sv_addr = AddrUtils_GetMyAddress 8080,
       sv_sessionFactory = True, sv_MAX_SESSION_COUNT = 10, sv_onGoing = True,
       sv_impl = ServerService 100 [0] (Some \<lparr>ls_listenSocket = 4,
         ls_acceptEvents = [AcceptEvent_SetSessionRef (Some 0) (arm Listener_obj (AcceptEvent_new zeroed))]\<rparr>)\<rparr>,
     nt_err = \<lparr>app_last_error = 0\<rparr>, nt_trace = [], nt_pending = [RecvEvent_of 0], nt_keep = False, nt_held = []\<rparr>"

lemma demo_net_ready: "recv_ready 0 demo_net"
  by (simp add: recv_ready_def demo_net_def RecvBuffer_new_def Let_def)

theorem Session_recv_batches_witness:
  "\<exists>n'. recv_completions PacketSession_OnRecv 0
       [(wire [(7, [1, 2]), (8, [])], \<lparr>io_res = 0, io_error = 0\<rparr>), (wire [(9, [3])], \<lparr>io_res = 0, io_error = 0\<rparr>)]
       demo_net = Some (Ok n') \<and>
     nt_trace n' = [OnRecv 0 [(4, 7), (10, 8)], Posted (WSARecv 5 0 65536) True,
                    OnRecv 0 [(4, 9)], Posted (WSARecv 5 0 65536) True]"
  using Session_recv_batches [OF demo_net_ready,
      of "[([(7, [1, 2]), (8, [])], \<lparr>io_res = 0, io_error = 0\<rparr>), ([(9, [3])], \<lparr>io_res = 0, io_error = 0\<rparr>)]"]
  by (auto simp: packet_ok_def recv_posted_def demo_net_def SOCKET_ERROR_def)

text \<open>\<^verbatim>\<open>Disconnect\<close> takes the connected flag down, so a second call posts nothing. \<^verbatim>\<open>_disconnect\<close>, which the
  handlers use for transfers of zero bytes, leaves the flag up: a receive and a send that complete
  with zero bytes post \<^verbatim>\<open>DisconnectEx\<close> twice. Its first completion clears the session, the second
  dereferences the service pointer that was just set to null.\<close>

theorem Session_double_disconnect:
  assumes "se_connected (nt_session n r)" and "se_service (nt_session n r)" and "io_res io \<noteq> 0"
  shows "(\<exists>n1. Session_Disconnect r io n = (True, n1) \<and> Session_Disconnect r io n1 = (False, n1)) \<and>
    (\<exists>n1 n2 n3. Session_Dispatch onRecv EV_Recv r 0 io n = Some (Ok n1) \<and>
      Session_Dispatch onRecv EV_Send r 0 io n1 = Some (Ok n2) \<and>
      nt_trace n2 = nt_trace n @ replicate 2 (Posted (DisconnectEx (se_socket (nt_session n r))) True) \<and>
      Session_Dispatch onRecv EV_Disconnect r 0 io n2 = Some (Ok n3) \<and>
      Session_Dispatch onRecv EV_Disconnect r 0 io n3 = Some (Fault NullDereference))"
proof
  show "\<exists>n1. Session_Disconnect r io n = (True, n1) \<and> Session_Disconnect r io n1 = (False, n1)"
    using assms
    by (simp add: Session_Disconnect_def Session_register_disconnect_def WSACheckErrorExceptPending2_def Let_def
        post_def trace_def)
  let ?n1 = "disconnect_posted r n"
  let ?n2 = "disconnect_posted r (upd_session r (se_sendEvent_update IOCPEvent_ReleaseIOCPObjectSPtr) ?n1)"
  obtain n3 where n3: "Session_process_disconnect r ?n2 = Ok n3"
    using assms(2) by (auto simp: Session_process_disconnect_def Session_clear_result)
  with assms Session_process_disconnect_twice [OF n3]
  show "\<exists>n1 n2 n3. Session_Dispatch onRecv EV_Recv r 0 io n = Some (Ok n1) \<and>
      Session_Dispatch onRecv EV_Send r 0 io n1 = Some (Ok n2) \<and>
      nt_trace n2 = nt_trace n @ replicate 2 (Posted (DisconnectEx (se_socket (nt_session n r))) True) \<and>
      Session_Dispatch onRecv EV_Disconnect r 0 io n2 = Some (Ok n3) \<and>
      Session_Dispatch onRecv EV_Disconnect r 0 io n3 = Some (Fault NullDereference)"
    by (intro exI [of _ ?n1] exI [of _ ?n2] exI [of _ n3])
       (simp add: Session_Dispatch_def Session_process_recv_def Session_process_send_def
          Session_disconnect_connected numeral_eq_Suc)
qed

theorem Session_double_disconnect_witness:
  "\<exists>n1 n2 n3. Session_Dispatch PacketSession_OnRecv EV_Recv 0 0 \<lparr>io_res = 1, io_error = 0\<rparr> demo_net = Some (Ok n1) \<and>
     Session_Dispatch PacketSession_OnRecv EV_Send 0 0 \<lparr>io_res = 1, io_error = 0\<rparr> n1 = Some (Ok n2) \<and>
     nt_trace n2 = replicate 2 (Posted (DisconnectEx 5) True) \<and>
     Session_Dispatch PacketSession_OnRecv EV_Disconnect 0 0 \<lparr>io_res = 1, io_error = 0\<rparr> n2 = Some (Ok n3) \<and>
     Session_Dispatch PacketSession_OnRecv EV_Disconnect 0 0 \<lparr>io_res = 1, io_error = 0\<rparr> n3 = Some (Fault NullDereference)"
  using Session_double_disconnect [of demo_net 0 "\<lparr>io_res = 1, io_error = 0\<rparr>" PacketSession_OnRecv]
  by (simp add: demo_net_def)

end
