(* ===== verification/Session_Agree.thy ===== *)
theory Session_Agree
  imports Session_Send Sessions
begin

text \<open>
  \<^verbatim>\<open>Session::_send\<close> and \<^verbatim>\<open>Session::_register_send\<close> (\<^verbatim>\<open>src/MyNetworkLib/Session.cpp\<close>) are modelled twice: as the
  function \<open>Session_send\<close> on the state of the whole library, and as a step relation of any number of
  threads on the fields they share. This theory shows that the two agree: a call that one thread
  makes alone in the second is the function of the first.
\<close>

section \<open>One call by one thread\<close>

text \<open>The thread queues the buffers and goes on until it is idle again.\<close>

definition send_call :: "nat \<Rightarrow> 'b list \<Rightarrow> 'b send_sys \<Rightarrow> 'b send_sys \<Rightarrow> bool" where
  "send_call t bufs s s' \<longleftrightarrow>
     (if bufs = [] then s' = s
      else \<exists>s1. send_step t s s1 \<and> ss_queued s1 = ss_queued s @ bufs \<and> (register_step t)\<^sup>*\<^sup>* s1 s' \<and> ss_pc s' t = S_Idle)"

inductive_simps register_at: "register_step t s s'"

text \<open>What \<^verbatim>\<open>_register_send\<close> has done when it returns, for a call that is posted or not.\<close>

definition registered :: "nat \<Rightarrow> bool \<Rightarrow> 'b send_sys \<Rightarrow> 'b send_sys" where
  "registered t ok s =
     (if \<not> ss_connected s then s\<lparr>ss_pc := (ss_pc s)(t := S_Idle)\<rparr>
      else s\<lparr>ss_queue := [], ss_sending := False, ss_segments := [],
             ss_inflight := (if ok then ss_inflight s + 1 else ss_inflight s),
             ss_pc := (ss_pc s)(t := S_Idle), ss_handed := ss_handed s @ ss_segments s @ ss_queue s,
             ss_reused := (ss_reused s \<or> 0 < ss_inflight s)\<rparr>)"

text \<open>The states a thread passes on its way through \<^verbatim>\<open>_register_send\<close> when nobody else moves.\<close>

fun passing :: "nat \<Rightarrow> bool \<Rightarrow> 'b send_sys \<Rightarrow> send_pc \<Rightarrow> 'b send_sys" where
  "passing t ok s S_Idle = registered t ok s"
| "passing t ok s S_Register = s"
| "passing t ok s S_Clear = s\<lparr>ss_pc := (ss_pc s)(t := S_Clear)\<rparr>"
| "passing t ok s S_Move = s\<lparr>ss_reused := (ss_reused s \<or> 0 < ss_inflight s), ss_pc := (ss_pc s)(t := S_Move)\<rparr>"
| "passing t ok s S_Send = s\<lparr>ss_queue := [], ss_segments := ss_segments s @ ss_queue s,
     ss_reused := (ss_reused s \<or> 0 < ss_inflight s), ss_pc := (ss_pc s)(t := S_Send)\<rparr>"
| "passing t ok s S_Sent = s\<lparr>ss_queue := [], ss_segments := ss_segments s @ ss_queue s,
     ss_inflight := (if ok then ss_inflight s + 1 else ss_inflight s), ss_handed := ss_handed s @ ss_segments s @ ss_queue s,
     ss_reused := (ss_reused s \<or> 0 < ss_inflight s), ss_pc := (ss_pc s)(t := S_Sent)\<rparr>"
| "passing t ok s S_Unflag = s\<lparr>ss_queue := [], ss_segments := [],
     ss_inflight := (if ok then ss_inflight s + 1 else ss_inflight s), ss_handed := ss_handed s @ ss_segments s @ ss_queue s,
     ss_reused := (ss_reused s \<or> 0 < ss_inflight s), ss_pc := (ss_pc s)(t := S_Unflag)\<rparr>"

lemma passing_step:
  assumes "register_step t (passing t ok s pc) s'" "ss_pc s t = S_Register" "pc = S_Register \<or> ss_connected s"
  shows "\<exists>ok' pc'. s' = passing t ok' s pc' \<and> (pc' = S_Register \<or> pc' = S_Idle \<or> ss_connected s)"
proof (cases pc)
  case S_Register
  with assms(1,2) have "s' = passing t ok s (if ss_connected s then S_Clear else S_Idle)"
    by (auto simp: register_at registered_def)
  then show ?thesis by (cases "ss_connected s") (metis (full_types))+
next
  case S_Clear
  with assms(1) have "s' = passing t ok s S_Move" by (auto simp: register_at)
  with assms(3) S_Clear show ?thesis by blast
next
  case S_Move
  with assms(1) have "s' = passing t ok s S_Send" by (auto simp: register_at)
  with assms(3) S_Move show ?thesis by blast
next
  case S_Send
  with assms(1) have "s' = passing t True s S_Sent \<or> s' = passing t False s S_Sent"
    by (auto simp: register_at split: if_splits)
  with assms(3) S_Send show ?thesis by blast
next
  case S_Sent
  with assms(1) have "s' = passing t ok s S_Unflag" by (auto simp: register_at)
  with assms(3) S_Sent show ?thesis by blast
next
  case S_Unflag
  with assms(1,3) have "s' = passing t ok s S_Idle" by (auto simp: register_at registered_def)
  then show ?thesis by blast
next
  case S_Idle
  with assms(1) show ?thesis by (auto simp: register_at registered_def split: if_splits)
qed

lemma passing_pc: "ss_pc s t = S_Register \<Longrightarrow> ss_pc (passing t ok s pc) t = pc"
  by (cases pc) (simp_all add: registered_def)

lemma register_run_ends:
  assumes "(register_step t)\<^sup>*\<^sup>* s s'" "ss_pc s t = S_Register" "ss_pc s' t = S_Idle"
  shows "\<exists>ok. s' = registered t ok s"
proof -
  have "\<exists>ok pc. s' = passing t ok s pc \<and> (pc = S_Register \<or> pc = S_Idle \<or> ss_connected s)"
    using assms(1)
  proof (induction rule: rtranclp_induct)
    case base
    show ?case by (intro exI [of _ True] exI [of _ S_Register]) simp
  next
    case (step s1 s2)
    then obtain ok pc where p: "s1 = passing t ok s pc" "pc = S_Register \<or> pc = S_Idle \<or> ss_connected s" by blast
    have "pc \<noteq> S_Idle" using step.hyps(2) passing_pc [OF assms(2), of ok pc] by (auto simp: register_at p(1))
    with passing_step [OF _ assms(2), of ok pc s2] step.hyps(2) p show ?case by blast
  qed
  then obtain ok pc where "s' = passing t ok s pc" by blast
  with passing_pc [OF assms(2), of ok pc] assms(3) show ?thesis by auto
qed

lemma register_run_exists:
  assumes "ss_pc s t = S_Register"
  shows "(register_step t)\<^sup>*\<^sup>* s (registered t ok s)"
proof (cases "ss_connected s")
  case True
  have "register_step t s (passing t ok s S_Clear)" using assms True by (simp add: register_at)
  moreover have "register_step t (passing t ok s S_Clear) (passing t ok s S_Move)"
    "register_step t (passing t ok s S_Move) (passing t ok s S_Send)"
    "register_step t (passing t ok s S_Sent) (passing t ok s S_Unflag)"
    "register_step t (passing t ok s S_Unflag) (registered t ok s)"
    by (simp_all add: register_at registered_def True)
  moreover have "register_step t (passing t ok s S_Send) (passing t ok s S_Sent)"
  proof -
    let ?p = "passing t ok s S_Send"
    have "passing t ok s S_Sent = ?p\<lparr>ss_handed := ss_handed ?p @ ss_segments ?p,
        ss_inflight := (if ok then ss_inflight ?p + 1 else ss_inflight ?p), ss_pc := (ss_pc ?p)(t := S_Sent)\<rparr>"
      by simp
    then show ?thesis using reg_wsasend [of ?p t ok] by (metis passing_pc assms)
  qed
  ultimately show ?thesis by (meson converse_rtranclp_into_rtranclp rtranclp.rtrancl_refl)
next
  case False
  then have "register_step t s (registered t ok s)" using assms by (simp add: register_at registered_def)
  then show ?thesis by blast
qed

text \<open>The result of a call in the machine.\<close>

definition called :: "nat \<Rightarrow> 'b list \<Rightarrow> bool \<Rightarrow> 'b send_sys \<Rightarrow> 'b send_sys" where
  "called t bufs ok s =
     (if bufs = [] then s
      else if ss_sending s then s\<lparr>ss_queue := ss_queue s @ bufs, ss_queued := ss_queued s @ bufs\<rparr>
      else registered t ok (s\<lparr>ss_queue := ss_queue s @ bufs, ss_queued := ss_queued s @ bufs,
                              ss_sending := True, ss_pc := (ss_pc s)(t := S_Register)\<rparr>))"

inductive_simps send_at: "send_step t s s'"

lemma send_call_iff:
  assumes "ss_pc s t = S_Idle"
  shows "send_call t bufs s s' \<longleftrightarrow> (\<exists>ok. s' = called t bufs ok s)"
proof (cases "bufs = [] \<or> ss_sending s")
  case True
  have "(register_step t)\<^sup>*\<^sup>* s1 s' \<longleftrightarrow> s' = s1" if "ss_pc s1 t = S_Idle" for s1 :: "'a send_sys"
    using that by (auto elim: converse_rtranclpE simp: register_at)
  with True assms show ?thesis by (auto simp: send_call_def called_def send_at)
next
  case False
  let ?s1 = "s\<lparr>ss_queue := ss_queue s @ bufs, ss_queued := ss_queued s @ bufs, ss_sending := True,
                ss_pc := (ss_pc s)(t := S_Register)\<rparr>"
  have s1: "send_step t s s1 \<and> ss_queued s1 = ss_queued s @ bufs \<longleftrightarrow> s1 = ?s1" for s1
    using False assms by (auto simp: send_at)
  have "send_call t bufs s s' \<longleftrightarrow>
      (\<exists>s1. (send_step t s s1 \<and> ss_queued s1 = ss_queued s @ bufs) \<and> (register_step t)\<^sup>*\<^sup>* s1 s' \<and> ss_pc s' t = S_Idle)"
    using False unfolding send_call_def by auto
  also have "\<dots> \<longleftrightarrow> (register_step t)\<^sup>*\<^sup>* ?s1 s' \<and> ss_pc s' t = S_Idle"
    unfolding s1 by blast
  also have "\<dots> \<longleftrightarrow> (\<exists>ok. s' = registered t ok ?s1)"
  proof
    show "\<exists>ok. s' = registered t ok ?s1" if "(register_step t)\<^sup>*\<^sup>* ?s1 s' \<and> ss_pc s' t = S_Idle"
      using register_run_ends [of t ?s1 s'] that by simp
    show "(register_step t)\<^sup>*\<^sup>* ?s1 s' \<and> ss_pc s' t = S_Idle" if ex: "\<exists>ok. s' = registered t ok ?s1"
    proof -
      obtain ok where ok: "s' = registered t ok ?s1" using ex by blast
      have "(register_step t)\<^sup>*\<^sup>* ?s1 s'" unfolding ok by (rule register_run_exists) simp
      moreover have "ss_pc s' t = S_Idle" unfolding ok by (simp add: registered_def)
      ultimately show ?thesis ..
    qed
  qed
  also have "\<dots> \<longleftrightarrow> (\<exists>ok. s' = called t bufs ok s)" using False by (simp add: called_def)
  finally show ?thesis .
qed

section \<open>Agreement\<close>

text \<open>The fields of session \<open>r\<close> that both models have.\<close>

definition agrees :: "nat \<Rightarrow> net \<Rightarrow> wsabuf send_sys \<Rightarrow> bool" where
  "agrees r n s \<longleftrightarrow> ss_queue s = se_sendQueue (nt_session n r) \<and> ss_sending s = se_sending (nt_session n r) \<and>
     ss_connected s = se_connected (nt_session n r) \<and> ss_segments s = sn_segments (se_sendEvent (nt_session n r)) \<and>
     ss_inflight s = count_list (nt_pending n) (SendEvent_of r)"

text \<open>The buffers a piece of the trace gives to \<^verbatim>\<open>WSASend\<close>.\<close>

fun wsasend_bufs :: "trace_item list \<Rightarrow> wsabuf list" where
  "wsasend_bufs [] = []"
| "wsasend_bufs (Posted (WSASend _ bs) _ # xs) = bs @ wsasend_bufs xs"
| "wsasend_bufs (_ # xs) = wsasend_bufs xs"

lemma Session_send_called:
  assumes "agrees r n s"
  shows "agrees r (Session_send r bufs io n) (called t bufs (posted_ok io) s)"
    and "\<exists>xs. nt_trace (Session_send r bufs io n) = nt_trace n @ xs \<and>
      ss_handed (called t bufs (posted_ok io) s) = ss_handed s @ wsasend_bufs xs"
  using assms
  by (auto simp: agrees_def Session_send_def Session_register_send_def Session_disconnect_def called_def registered_def
      WSACheckErrorExceptPending2_def post_def trace_def Let_def)

text \<open>C18. The two models of sending agree on a call that is not interrupted. From states with the same fields, the
  outcomes of a thread's call in the step relation are exactly, over all answers of \<^verbatim>\<open>WSASend\<close>, those of
  the function \<open>Session_send\<close>, with the same buffers given to \<^verbatim>\<open>WSASend\<close>.\<close>

theorem Session_send_equiv:
  assumes "agrees r n s" "ss_pc s t = S_Idle"
  shows "(\<forall>io. \<exists>s'. send_call t bufs s s' \<and> agrees r (Session_send r bufs io n) s' \<and>
      (\<exists>xs. nt_trace (Session_send r bufs io n) = nt_trace n @ xs \<and> ss_handed s' = ss_handed s @ wsasend_bufs xs)) \<and>
    (\<forall>s'. send_call t bufs s s' \<longrightarrow> (\<exists>io. agrees r (Session_send r bufs io n) s' \<and>
      (\<exists>xs. nt_trace (Session_send r bufs io n) = nt_trace n @ xs \<and> ss_handed s' = ss_handed s @ wsasend_bufs xs)))"
proof -
  note c = Session_send_called [OF assms(1), of bufs _ t]
  have io: "\<exists>io. posted_ok io = ok" for ok
    by (rule exI [of _ "if ok then \<lparr>io_res = 0, io_error = 0\<rparr> else \<lparr>io_res = SOCKET_ERROR, io_error = 0\<rparr>"])
       (simp add: SOCKET_ERROR_def WSA_IO_PENDING_def)
  have "\<exists>io. agrees r (Session_send r bufs io n) s' \<and>
      (\<exists>xs. nt_trace (Session_send r bufs io n) = nt_trace n @ xs \<and> ss_handed s' = ss_handed s @ wsasend_bufs xs)"
    if "send_call t bufs s s'" for s'
  proof -
    from that obtain ok where ok: "s' = called t bufs ok s" unfolding send_call_iff [OF assms(2)] by blast
    obtain i where "posted_ok i = ok" using io by blast
    with c [of i] ok show ?thesis by blast
  qed
  with c show ?thesis unfolding send_call_iff [OF assms(2)] by blast
qed

theorem Session_send_equiv_witness:
  "\<exists>s'. send_call 3 [\<lparr>wb_len = 4, wb_buf = (0, 0)\<rparr>] (ss_start\<lparr>ss_connected := True\<rparr>) s' \<and>
     ss_handed s' = [\<lparr>wb_len = 4, wb_buf = (0, 0)\<rparr>] \<and> agrees 0 (Session_send 0 [\<lparr>wb_len = 4, wb_buf = (0, 0)\<rparr>]
       \<lparr>io_res = 0, io_error = 0\<rparr> demo_net) s'"
proof -
  let ?b = "[\<lparr>wb_len = 4, wb_buf = (0, 0)\<rparr>]" and ?s = "ss_start\<lparr>ss_connected := True\<rparr>"
    and ?io = "\<lparr>io_res = 0, io_error = 0\<rparr>"
  have "agrees 0 demo_net ?s" "ss_pc ?s 3 = S_Idle" by (simp_all add: agrees_def demo_net_def ss_start_def)
  from Session_send_equiv [OF this, of ?b] obtain s' xs where s': "send_call 3 ?b ?s s'"
    "agrees 0 (Session_send 0 ?b ?io demo_net) s'" "nt_trace (Session_send 0 ?b ?io demo_net) = nt_trace demo_net @ xs"
    "ss_handed s' = ss_handed ?s @ wsasend_bufs xs"
    by blast
  have "nt_trace (Session_send 0 ?b ?io demo_net) = [Posted (WSASend 5 ?b) True]"
    by (simp add: Session_send_def Session_register_send_def demo_net_def WSACheckErrorExceptPending2_def post_def trace_def
        SOCKET_ERROR_def Let_def)
  with s' show ?thesis by (intro exI [of _ s']) (simp add: demo_net_def ss_start_def)
qed

end
