(* ===== verification/Flush_Threads.thy ===== *)
theory Flush_Threads
  imports Session_Send
begin

text \<open>
  \<^verbatim>\<open>PacketSession::Send\<close> and \<^verbatim>\<open>PacketSession::Flush\<close> (\<^verbatim>\<open>src/MyNetworkLib/PacketSession.cpp\<close>) by any number of threads, on top of
  the threads in \<^verbatim>\<open>Session::_send\<close> of \<open>Session_Send\<close>. \<^verbatim>\<open>Flush\<close> moves the reserved buffers out under the session's
  lock and calls \<^verbatim>\<open>_send\<close> after it has released the lock. Its first test, without the lock, decides only whether
  a thread goes on, so any thread may.

  The set \<open>F\<close> has the threads that call \<^verbatim>\<open>Flush\<close>. The field \<open>fl_all\<close> observes: all buffers \<^verbatim>\<open>Send\<close> has reserved, in
  the order of the lock.
\<close>

section \<open>Steps\<close>

record 'b flush_sys =
  fl_ss :: "'b send_sys"
  fl_reserved :: "'b list"
  fl_list :: "nat \<Rightarrow> 'b list"
  fl_all :: "'b list"

definition fl_init :: "'b flush_sys \<Rightarrow> bool" where
  "fl_init s \<longleftrightarrow> ss_init (fl_ss s) \<and> fl_reserved s = [] \<and> fl_list s = (\<lambda>_. []) \<and> fl_all s = []"

inductive flush_step :: "nat set \<Rightarrow> 'b flush_sys \<Rightarrow> 'b flush_sys \<Rightarrow> bool" for F :: "nat set" where
  fl_Send:
    "flush_step F s (s\<lparr>fl_reserved := fl_reserved s @ [b], fl_all := fl_all s @ [b]\<rparr>)"
| fl_take:
    "t \<in> F \<Longrightarrow> ss_pc (fl_ss s) t = S_Idle \<Longrightarrow> fl_list s t = [] \<Longrightarrow> fl_reserved s \<noteq> [] \<Longrightarrow>
     flush_step F s (s\<lparr>fl_list := (fl_list s)(t := fl_reserved s), fl_reserved := []\<rparr>)"
| fl_send:
    "fl_list s t \<noteq> [] \<Longrightarrow> send_step t (fl_ss s) ss \<Longrightarrow> ss_queued ss = ss_queued (fl_ss s) @ fl_list s t \<Longrightarrow>
     flush_step F s (s\<lparr>fl_ss := ss, fl_list := (fl_list s)(t := [])\<rparr>)"
| fl_register:
    "register_step t (fl_ss s) ss \<Longrightarrow> flush_step F s (s\<lparr>fl_ss := ss\<rparr>)"
| fl_session:
    "session_step (fl_ss s) ss \<Longrightarrow> flush_step F s (s\<lparr>fl_ss := ss\<rparr>)"

section \<open>The senders below\<close>

lemma flush_step_ss: "flush_step F s s' \<Longrightarrow> fl_ss s' = fl_ss s \<or> ss_step (fl_ss s) (fl_ss s')"
  by (induction rule: flush_step.cases) (auto simp: ss_step_def)

interpretation fl_below: simulation fl_init "flush_step F" "\<lambda>_. True" ss_init ss_step fl_ss for F
  by unfold_locales (auto simp: fl_init_def dest: flush_step_ss)

lemma other_steps_queued:
  "register_step t s s' \<Longrightarrow> ss_queued s' = ss_queued s" "session_step s s' \<Longrightarrow> ss_queued s' = ss_queued s"
  by (auto elim: register_step.cases session_step.cases)

section \<open>One thread that flushes\<close>

definition flush_inv :: "nat \<Rightarrow> 'b flush_sys \<Rightarrow> bool" where
  "flush_inv f s \<longleftrightarrow> (\<forall>t. t \<noteq> f \<longrightarrow> fl_list s t = []) \<and>
     ss_queued (fl_ss s) @ fl_list s f @ fl_reserved s = fl_all s"

lemma flush_inv_step:
  assumes "flush_inv f s" and "flush_step {f} s s'"
  shows "flush_inv f s'"
  using assms(2)
proof cases
  case (fl_send t ss)
  moreover have "t = f" using assms(1) fl_send(2) by (auto simp: flush_inv_def)
  ultimately show ?thesis using assms(1) by (auto simp: flush_inv_def)
qed (use assms(1) in \<open>auto simp: flush_inv_def other_steps_queued\<close>)

interpretation fl_one: invariant_system fl_init "flush_step {f}" "flush_inv f" for f
proof unfold_locales
  show "fl_init s \<Longrightarrow> flush_inv f s" for s by (simp add: fl_init_def ss_init_def flush_inv_def)
qed (rule flush_inv_step)

section \<open>Runs\<close>

datatype 'b fl_act = F_Send 'b | F_take nat | F_send nat | F_register nat | F_connect

fun fl_move :: "'b flush_sys \<Rightarrow> 'b fl_act \<Rightarrow> 'b flush_sys" where
  "fl_move s (F_Send b) = s\<lparr>fl_reserved := fl_reserved s @ [b], fl_all := fl_all s @ [b]\<rparr>"
| "fl_move s (F_take t) =
     (if ss_pc (fl_ss s) t = S_Idle \<and> fl_list s t = [] \<and> fl_reserved s \<noteq> []
      then s\<lparr>fl_list := (fl_list s)(t := fl_reserved s), fl_reserved := []\<rparr> else s)"
| "fl_move s (F_send t) =
     (if fl_list s t \<noteq> [] \<and> ss_pc (fl_ss s) t = S_Idle
      then s\<lparr>fl_ss := ss_move (fl_ss s) (A_send t (fl_list s t)), fl_list := (fl_list s)(t := [])\<rparr> else s)"
| "fl_move s (F_register t) = s\<lparr>fl_ss := ss_move (fl_ss s) (A_register t True)\<rparr>"
| "fl_move s F_connect = s\<lparr>fl_ss := ss_move (fl_ss s) A_connect\<rparr>"

lemma fl_move_step:
  assumes "\<forall>t. a = F_take t \<longrightarrow> t \<in> F"
  shows "fl_move s a = s \<or> flush_step F s (fl_move s a)"
proof (cases a)
  case (F_send t)
  then show ?thesis
    using fl_send [of s t _ F] send_flag [of "fl_ss s" t "fl_list s t"] send_queued [of "fl_ss s" t "fl_list s t"]
    by (cases "ss_sending (fl_ss s)") auto
next
  case (F_register t)
  have "s\<lparr>fl_ss := fl_ss s\<rparr> = s" by simp
  then show ?thesis using F_register ss_move_register [of "fl_ss s" t True] fl_register [of t s _ F]
    by (auto simp del: ss_move.simps)
next
  case F_connect
  then show ?thesis using fl_session [OF ses_set_connected, of F s] by simp
qed (use assms in \<open>auto intro: flush_step.intros\<close>)

lemma fl_run_reach:
  "reach start (flush_step F) s \<Longrightarrow> \<forall>t. F_take t \<in> set acts \<longrightarrow> t \<in> F \<Longrightarrow>
     reach start (flush_step F) (run_steps fl_move s acts)"
proof (induction acts arbitrary: s)
  case (Cons a acts)
  then have "fl_move s a = s \<or> flush_step F s (fl_move s a)" by (intro fl_move_step) simp
  then have "reach start (flush_step F) (fl_move s a)" using Cons.prems(1) by (metis reach_step)
  with Cons show ?case by simp
qed simp

definition fl_start :: "'b flush_sys" where
  "fl_start = \<lparr>fl_ss = ss_start, fl_reserved = [], fl_list = (\<lambda>_. []), fl_all = []\<rparr>"

lemma fl_start_reach: "reach fl_init (flush_step F) fl_start"
  by (rule reach_init) (simp add: fl_init_def fl_start_def ss_start_init)

text \<open>Thread 0 takes the first buffer, thread 1 the second; thread 1 is the first in \<^verbatim>\<open>_send\<close>.\<close>

abbreviation (input) overtaking :: "'b \<Rightarrow> 'b \<Rightarrow> 'b fl_act list" where
  "overtaking b c \<equiv> [F_connect, F_Send b, F_take 0, F_Send c, F_take 1, F_send 1] @ replicate 6 (F_register 1) @
     [F_send 0] @ replicate 6 (F_register 0)"

section \<open>Properties\<close>

text \<open>C12. When one thread flushes a session, whatever threads send on it and whenever the session connects or is
  cleared, the buffers go to \<^verbatim>\<open>WSASend\<close> in the order in which \<^verbatim>\<open>Send\<close> reserved them and at most once, and until
  \<^verbatim>\<open>_clear\<close> has run none is missing between those handed over, those on their way through \<^verbatim>\<open>_send\<close> and \<^verbatim>\<open>Flush\<close>, and
  those still reserved. With two threads that flush this is lost: the lists are taken under the lock but sent
  after it, so the packet that was sent later can overtake the earlier one.\<close>

theorem Flush_order:
  assumes "reach fl_init (flush_step {f}) s"
  shows "subseq (ss_handed (fl_ss s)) (fl_all s) \<and>
    (ss_cleared (fl_ss s) \<or>
       ss_handed (fl_ss s) @ ss_pending (fl_ss s) @ ss_queue (fl_ss s) @ fl_list s f @ fl_reserved s = fl_all s) \<and>
    (\<exists>s. reach fl_init (flush_step {0, 1}) s \<and> \<not> ss_cleared (fl_ss s) \<and> fl_all s = [b, c] \<and> ss_handed (fl_ss s) = [c, b])"
proof (intro conjI)
  have i: "flush_inv f s" using assms by (rule fl_one.reach_inv)
  have "ss_inv (fl_ss s)" using fl_below.reach_abs [OF assms] by (rule ss.reach_inv)
  then have h: "ss_history (fl_ss s)" by (simp add: ss_inv_def)
  have q: "ss_queued (fl_ss s) @ fl_list s f @ fl_reserved s = fl_all s" using i by (simp add: flush_inv_def)
  have "subseq (ss_handed (fl_ss s)) (ss_queued (fl_ss s))" using h by (auto simp: ss_history_def dest: subseq_drop_end)
  moreover have "subseq (ss_queued (fl_ss s)) (fl_all s)" unfolding q [symmetric] by (intro prefix_imp_subseq prefixI) simp
  ultimately show "subseq (ss_handed (fl_ss s)) (fl_all s)" by (rule subseq_order.trans)
  show "ss_cleared (fl_ss s) \<or>
      ss_handed (fl_ss s) @ ss_pending (fl_ss s) @ ss_queue (fl_ss s) @ fl_list s f @ fl_reserved s = fl_all s"
    using h unfolding q [symmetric] by (auto simp: ss_history_def)
  let ?s = "run_steps fl_move fl_start (overtaking b c)"
  have "reach fl_init (flush_step {0, 1}) ?s" by (rule fl_run_reach [OF fl_start_reach]) simp
  moreover have "\<not> ss_cleared (fl_ss ?s)" "fl_all ?s = [b, c]" "ss_handed (fl_ss ?s) = [c, b]"
    by (simp_all add: fl_start_def ss_start_def numeral_eq_Suc)
  ultimately show "\<exists>s. reach fl_init (flush_step {0, 1}) s \<and> \<not> ss_cleared (fl_ss s) \<and> fl_all s = [b, c] \<and>
      ss_handed (fl_ss s) = [c, b]" by blast
qed

theorem Flush_order_witness:
  "\<exists>s :: nat flush_sys. reach fl_init (flush_step {0}) s \<and> fl_all s = [7, 8] \<and> subseq (ss_handed (fl_ss s)) [7, 8] \<and>
     ss_handed (fl_ss s) = [7]"
proof -
  let ?s = "run_steps fl_move fl_start ([F_connect, F_Send (7 :: nat), F_take 0, F_send 0] @ replicate 6 (F_register 0) @ [F_Send 8])"
  have r: "reach fl_init (flush_step {0}) ?s" by (rule fl_run_reach [OF fl_start_reach]) simp
  have s: "fl_all ?s = [7, 8]" "ss_handed (fl_ss ?s) = [7]" by (simp_all add: fl_start_def ss_start_def numeral_eq_Suc)
  from Flush_order [OF r] have "subseq (ss_handed (fl_ss ?s)) (fl_all ?s)" by (rule conjunct1)
  with r s show ?thesis by (intro exI [of _ ?s]) simp
qed

end
