(* ===== verification/Packet_Link.thy ===== *)
theory Packet_Link
  imports Sessions "HOL-Library.Sublist"
begin

text \<open>
  Two hosts and the stream of bytes between them. The sender calls \<^verbatim>\<open>PacketSession::Send\<close> and \<^verbatim>\<open>Flush\<close>, which calls
  \<^verbatim>\<open>Session::_send\<close> (\<^verbatim>\<open>PacketSession.cpp\<close>, \<^verbatim>\<open>Session.cpp\<close> under \<^verbatim>\<open>src/MyNetworkLib/\<close>); the system reads the buffers
  of a \<^verbatim>\<open>WSASend\<close> some time after the call, when other threads may have reserved more of the same send
  buffers; the receiver gets bytes by completions of its \<^verbatim>\<open>WSARecv\<close>, handled in \<^verbatim>\<open>Session::_process_recv\<close> and
  \<^verbatim>\<open>PacketSession::OnRecv\<close>.

  The stream delivers whole packets with each completion, any number of them. \<^verbatim>\<open>OnRecv\<close> needs this: what it
  makes of a part of a packet is in \<open>Packets\<close>. The last four fields of the state are its history: the packets
  sent, those in the session's queue, those whose \<^verbatim>\<open>WSASend\<close> was accepted, and those that the receiver's
  \<^verbatim>\<open>OnRecvPacket\<close> has seen.
\<close>

section \<open>Steps\<close>

record link =
  lk_world :: sb_world
  lk_ps :: packet_session
  lk_net :: net
  lk_posted :: "wsabuf list"
  lk_transit :: "ubyte list"
  lk_peer :: net
  lk_sent :: "packet list"
  lk_queued :: "packet list"
  lk_accepted :: "packet list"
  lk_seen :: "packet list"

text \<open>What a handler finds at the place it is given: the size is in the header before the data.\<close>

definition packet_at :: "ubyte list \<Rightarrow> recv_call \<Rightarrow> packet" where
  "packet_at mem c =
     (snd c, case header_at mem (fst c - HEADER_SIZE) of
        Fault _ \<Rightarrow> []
      | Ok h \<Rightarrow> take (unat (ph_size h) - HEADER_SIZE) (drop (fst c) mem))"

text \<open>The buffers of the sends that a method had accepted, and the calls of \<^verbatim>\<open>OnRecvPacket\<close> it made.\<close>

definition sends_since :: "net \<Rightarrow> net \<Rightarrow> wsabuf list" where
  "sends_since n n' =
     concat (map (\<lambda>x. case x of Posted (WSASend _ bufs) True \<Rightarrow> bufs | _ \<Rightarrow> []) (drop (length (nt_trace n)) (nt_trace n')))"

definition calls_since :: "net \<Rightarrow> net \<Rightarrow> recv_call list" where
  "calls_since n n' = concat (map (\<lambda>x. case x of OnRecv _ calls \<Rightarrow> calls | _ \<Rightarrow> []) (drop (length (nt_trace n)) (nt_trace n')))"

definition failed_send :: "net \<Rightarrow> bool" where
  "failed_send n \<longleftrightarrow> (\<exists>s bufs. Posted (WSASend s bufs) False \<in> set (nt_trace n))"

definition link_init :: "nat \<Rightarrow> nat \<Rightarrow> link \<Rightarrow> bool" where
  "link_init r r' l \<longleftrightarrow> sw_inv (lk_world l) \<and> ps_reserved (lk_ps l) = [] \<and>
     se_connected (nt_session (lk_net l) r) \<and> send_idle (nt_session (lk_net l) r) \<and> recv_ready r' (lk_peer l) \<and>
     lk_posted l = [] \<and> lk_transit l = [] \<and> lk_sent l = [] \<and> lk_queued l = [] \<and> lk_accepted l = [] \<and> lk_seen l = []"

inductive link_step :: "nat \<Rightarrow> nat \<Rightarrow> link \<Rightarrow> link \<Rightarrow> bool" for r r' :: nat where
  link_send:
    "PacketSession_Send t (fst q) (Some (snd q)) (of_nat (length (snd q))) (lk_ps l) (lk_world l) s = Ok (p, w) \<Longrightarrow>
     length (snd q) < 2 ^ 16 \<Longrightarrow>
     link_step r r' l (l\<lparr>lk_ps := p, lk_world := w, lk_sent := lk_sent l @ [q], lk_queued := lk_queued l @ [q]\<rparr>)"
| link_other:
    "PacketSession_Send t (fst q) (Some (snd q)) (of_nat (length (snd q))) p0 (lk_world l) s = Ok (p, w) \<Longrightarrow>
     length (snd q) < 2 ^ 16 \<Longrightarrow>
     link_step r r' l (l\<lparr>lk_world := w\<rparr>)"
| link_flush:
    "PacketSession_Flush now1 now2 (lk_ps l) = (bufs, p) \<Longrightarrow> Session_send r bufs io (lk_net l) = a \<Longrightarrow>
     sends_since (lk_net l) a = sends \<Longrightarrow>
     link_step r r' l (l\<lparr>lk_ps := p, lk_net := a, lk_posted := lk_posted l @ sends,
       lk_queued := (if bufs = [] then lk_queued l else []),
       lk_accepted := lk_accepted l @ (if sends = [] then [] else lk_queued l)\<rparr>)"
| link_completed:
    "Session_Dispatch PacketSession_OnRecv EV_Send r k io (lk_net l) = Some (Ok a) \<Longrightarrow> k \<noteq> 0 \<Longrightarrow>
     link_step r r' l (l\<lparr>lk_net := a\<rparr>)"
| link_transmit:
    "lk_posted l = b # bs \<Longrightarrow>
     link_step r r' l (l\<lparr>lk_posted := bs, lk_transit := lk_transit l @ wsabuf_bytes (lk_world l) b\<rparr>)"
| link_receive:
    "lk_transit l = wire qs @ rest \<Longrightarrow> qs \<noteq> [] \<Longrightarrow> \<forall>q \<in> set qs. packet_ok q \<Longrightarrow> length (wire qs) \<le> 65536 \<Longrightarrow>
     recv_completion PacketSession_OnRecv r' (wire qs) io (lk_peer l) = Some (Ok b) \<Longrightarrow>
     link_step r r' l (l\<lparr>lk_transit := rest, lk_peer := b,
       lk_seen := lk_seen l @
         map (packet_at (rb_buffer (se_recvBuffer (nt_session b r')))) (calls_since (lk_peer l) b)\<rparr>)"

section \<open>Packets in the stream\<close>

text \<open>Where one packet of a stream ends is decided by its bytes.\<close>

lemma packet_bytes_prefix:
  assumes "packet_ok p" "packet_ok q" "packet_bytes p @ x = packet_bytes q @ y"
  shows "p = q \<and> x = y"
proof -
  have h: "header_at (packet_bytes p @ x) 0 = Ok (PacketHeader_new (fst p) (of_nat (4 + length (snd p))))" for p x
    using header_at_bytes [of "[]" _ "snd p @ x"] by (simp add: packet_bytes_def)
  from h [of p x] h [of q y] have "fst p = fst q" "(of_nat (4 + length (snd p)) :: uint16) = of_nat (4 + length (snd q))"
    unfolding assms(3) by (simp_all add: PacketHeader_new_def del: of_nat_add)
  moreover from this(2) have "length (snd p) = length (snd q)"
    using assms(1,2) of_nat_word_inj [of "4 + length (snd p)" "4 + length (snd q)", where 'a = 16]
    by (simp add: packet_ok_def)
  moreover from this have "packet_bytes p = packet_bytes q" "x = y" using assms(3) by (simp_all add: append_eq_append_conv)
  ultimately show ?thesis by (simp add: packet_bytes_def prod_eq_iff)
qed

lemma wire_prefix:
  assumes "\<forall>q \<in> set qs. packet_ok q" "\<forall>q \<in> set ms. packet_ok q" "wire qs @ x = wire ms"
  shows "\<exists>ms'. ms = qs @ ms' \<and> x = wire ms'"
  using assms
proof (induction qs arbitrary: ms)
  case (Cons q qs)
  then obtain m ms' where ms: "ms = m # ms'" by (cases ms) (auto simp: packet_bytes_def header_bytes_def uint16_bytes_def)
  then have "q = m \<and> wire qs @ x = wire ms'" using Cons.prems by (intro packet_bytes_prefix) simp_all
  then show ?case using Cons.IH [of ms'] Cons.prems ms by auto
qed simp

lemma wire_empty: "wire qs = [] \<longleftrightarrow> qs = []"
  by (cases qs) (auto simp: packet_bytes_def header_bytes_def uint16_bytes_def)

lemma packets_at:
  "\<forall>p \<in> set ps. packet_ok p \<Longrightarrow> mem = pre @ wire ps @ rest \<Longrightarrow> length pre = off \<Longrightarrow>
     map (packet_at mem) (calls_of off ps) = ps"
proof (induction ps arbitrary: pre off)
  case (Cons p ps)
  have "map (packet_at mem) (calls_of (off + 4 + length (snd p)) ps) = ps"
    using Cons.prems by (intro Cons.IH [of "pre @ packet_bytes p"]) simp_all
  moreover have "header_at mem off = Ok (PacketHeader_new (fst p) (of_nat (4 + length (snd p))))"
    using header_at_bytes [of pre _ "snd p @ wire ps @ rest"] Cons.prems(2,3) by (simp add: packet_bytes_def [of p])
  moreover have "unat (of_nat (4 + length (snd p)) :: uint16) = 4 + length (snd p)"
    using Cons.prems(1) by (intro unat_of_nat_small) (simp add: packet_ok_def)
  moreover have "take (length (snd p)) (drop (off + 4) mem) = snd p"
    using Cons.prems by (simp add: packet_bytes_def)
  ultimately show ?case by (simp add: packet_at_def [of mem "(off + 4, fst p)"] PacketHeader_new_def del: of_nat_add)
qed simp

lemma receive_whole:
  assumes "recv_ready r b" "qs \<noteq> []" "\<forall>q \<in> set qs. packet_ok q" "length (wire qs) \<le> 65536"
  shows "\<exists>b'. recv_completion PacketSession_OnRecv r (wire qs) io b = Some (Ok b') \<and> recv_ready r b' \<and>
    map (packet_at (rb_buffer (se_recvBuffer (nt_session b' r)))) (calls_since b b') = qs"
proof -
  have "wire qs \<noteq> []" using assms(2) wire_empty by blast
  moreover have "PacketSession_OnRecv (wire qs @ rest) (of_nat (length (wire qs))) =
      Some (Ok (calls_of 0 qs, of_nat (length (wire qs))))" for rest
    using assms(3,4) by (intro PacketSession_OnRecv_wire) simp_all
  ultimately obtain b' where b': "recv_completion PacketSession_OnRecv r (wire qs) io b = Some (Ok b')" "recv_ready r b'"
    "rb_buffer (se_recvBuffer (nt_session b' r)) = wire qs @ drop (length (wire qs)) (rb_buffer (se_recvBuffer (nt_session b r)))"
    "nt_trace b' = nt_trace b @ [OnRecv r (calls_of 0 qs), recv_posted r io b]"
    using recv_completion_alone [OF assms(1), of "wire qs" PacketSession_OnRecv "calls_of 0 qs" io] assms(4) by blast
  then have "calls_since b b' = calls_of 0 qs" by (simp add: calls_since_def recv_posted_def)
  moreover have "map (packet_at (rb_buffer (se_recvBuffer (nt_session b' r)))) (calls_of 0 qs) = qs"
    using packets_at [OF assms(3), of _ "[]"] b'(3) by simp
  ultimately show ?thesis using b'(1,2) by auto
qed

section \<open>The invariant\<close>

abbreviation (input) bytes_of :: "sb_world \<Rightarrow> wsabuf list \<Rightarrow> ubyte list" where
  "bytes_of w bufs \<equiv> concat (map (wsabuf_bytes w) bufs)"

definition sender_inv :: "nat \<Rightarrow> link \<Rightarrow> bool" where
  "sender_inv r l \<longleftrightarrow> sw_inv (lk_world l) \<and> (\<forall>b \<in> set (ps_reserved (lk_ps l) @ lk_posted l). wsabuf_in (lk_world l) b) \<and>
     (\<forall>q \<in> set (lk_accepted l @ lk_queued l). packet_ok q) \<and>
     bytes_of (lk_world l) (ps_reserved (lk_ps l)) = wire (lk_queued l) \<and>
     se_connected (nt_session (lk_net l) r) \<and> send_idle (nt_session (lk_net l) r)"

definition history_inv :: "link \<Rightarrow> bool" where
  "history_inv l \<longleftrightarrow> subseq (lk_accepted l @ lk_queued l) (lk_sent l) \<and>
     (\<not> failed_send (lk_net l) \<longrightarrow> lk_accepted l @ lk_queued l = lk_sent l)"

definition stream_inv :: "link \<Rightarrow> bool" where
  "stream_inv l \<longleftrightarrow>
     (\<exists>rest. lk_accepted l = lk_seen l @ rest \<and> lk_transit l @ bytes_of (lk_world l) (lk_posted l) = wire rest)"

definition link_inv :: "nat \<Rightarrow> nat \<Rightarrow> link \<Rightarrow> bool" where
  "link_inv r r' l \<longleftrightarrow> sender_inv r l \<and> history_inv l \<and> stream_inv l \<and> recv_ready r' (lk_peer l)"

lemma heap_kept_bytes:
  assumes "heap_kept w w'" "\<forall>b \<in> set bufs. wsabuf_in w b"
  shows "bytes_of w' bufs = bytes_of w bufs" "\<forall>b \<in> set bufs. wsabuf_in w' b"
proof -
  have "\<forall>b \<in> set bufs. wsabuf_bytes w' b = wsabuf_bytes w b \<and> wsabuf_in w' b"
    using heap_kept_wsabuf [OF assms(1)] assms(2) by blast
  then show "bytes_of w' bufs = bytes_of w bufs" "\<forall>b \<in> set bufs. wsabuf_in w' b"
    by (auto intro: arg_cong [where f = concat])
qed

text \<open>A packet of any session in the same send buffers.\<close>

lemma link_inv_world:
  assumes i: "link_inv r r' l" and w: "sw_inv w" "heap_kept (lk_world l) w"
  shows "link_inv r r' (l\<lparr>lk_world := w\<rparr>)"
proof -
  have "\<forall>b \<in> set (ps_reserved (lk_ps l)). wsabuf_in (lk_world l) b" "\<forall>b \<in> set (lk_posted l). wsabuf_in (lk_world l) b"
    using i by (auto simp: link_inv_def sender_inv_def)
  note k = heap_kept_bytes [OF w(2) this(1)] heap_kept_bytes [OF w(2) this(2)]
  show ?thesis
    using i w(1) k(2,4) by (auto simp: link_inv_def sender_inv_def history_inv_def stream_inv_def k(1,3))
qed

lemma link_inv_send:
  assumes i: "link_inv r r' l" and "length (snd q) < 2 ^ 16"
    and "PacketSession_Send t (fst q) (Some (snd q)) (of_nat (length (snd q))) (lk_ps l) (lk_world l) s = Ok (p, w)"
  shows "link_inv r r' (l\<lparr>lk_ps := p, lk_world := w, lk_sent := lk_sent l @ [q], lk_queued := lk_queued l @ [q]\<rparr>)"
proof -
  have "sw_inv (lk_world l)" using i by (simp add: link_inv_def sender_inv_def)
  note ok = PacketSession_Send_ok [OF this assms(2,3)]
  from ok(4) obtain buf where buf: "ps_reserved p = ps_reserved (lk_ps l) @ [buf]" "wsabuf_in w buf"
    "wsabuf_bytes w buf = packet_bytes q" by blast
  have "link_inv r r' (l\<lparr>lk_world := w\<rparr>)" using i ok(1,2) by (rule link_inv_world)
  then show ?thesis
    using buf ok(3) by (auto simp: link_inv_def sender_inv_def history_inv_def stream_inv_def list_emb_append_mono
        simp flip: append_assoc)
qed

lemma PacketSession_Flush_cases:
  assumes "PacketSession_Flush now1 now2 p = (bufs, p')"
  obtains "bufs = []" "p' = p" | "bufs = ps_reserved p" "bufs \<noteq> []" "ps_reserved p' = []"
  using assms by (auto simp: PacketSession_Flush_def Let_def split: if_splits)

lemma link_inv_flush:
  assumes i: "link_inv r r' l" and f: "PacketSession_Flush now1 now2 (lk_ps l) = (bufs, p)"
    and a: "Session_send r bufs io (lk_net l) = a" "sends_since (lk_net l) a = sends"
  shows "link_inv r r' (l\<lparr>lk_ps := p, lk_net := a, lk_posted := lk_posted l @ sends,
       lk_queued := (if bufs = [] then lk_queued l else []),
       lk_accepted := lk_accepted l @ (if sends = [] then [] else lk_queued l)\<rparr>)"
proof (cases rule: PacketSession_Flush_cases [OF f])
  case 1
  then have "a = lk_net l" using a(1) by (simp add: Session_send_def)
  then show ?thesis using 1 i a(2)
    by (simp add: sends_since_def link_inv_def sender_inv_def history_inv_def stream_inv_def)
next
  case 2
  have s: "se_connected (nt_session (lk_net l) r)" "send_idle (nt_session (lk_net l) r)"
    using i by (simp_all add: link_inv_def sender_inv_def)
  note sent = Session_send_idle [OF s 2(2), of io, unfolded a(1)]
  have sends: "sends = (if posted_ok io then bufs else [])" using a(2) sent(1) by (auto simp: sends_since_def)
  have fail: "failed_send a \<longleftrightarrow> failed_send (lk_net l) \<or> \<not> posted_ok io" using sent(1) by (auto simp: failed_send_def)
  obtain rest where rest: "lk_accepted l = lk_seen l @ rest"
    "lk_transit l @ bytes_of (lk_world l) (lk_posted l) = wire rest"
    using i by (auto simp: link_inv_def stream_inv_def)
  have q: "bytes_of (lk_world l) bufs = wire (lk_queued l)" using i 2(1) by (simp add: link_inv_def sender_inv_def)
  have h: "subseq (lk_accepted l) (lk_sent l)"
    using i subseq_order.trans [OF prefix_imp_subseq [OF prefixI [OF refl]]] by (fastforce simp: link_inv_def history_inv_def)
  show ?thesis
  proof (cases "posted_ok io")
    case True
    have "lk_transit l @ bytes_of (lk_world l) (lk_posted l @ bufs) = wire (rest @ lk_queued l)"
      using rest(2) q by (simp flip: append_assoc)
    then show ?thesis
      using True i 2 sent(2,3) rest(1) fail unfolding sends
      by (auto simp: link_inv_def sender_inv_def history_inv_def stream_inv_def simp del: map_append concat_append)
  next
    case False
    then show ?thesis
      using i 2 sent(2,3) rest fail h unfolding sends
      by (auto simp: link_inv_def sender_inv_def history_inv_def stream_inv_def)
  qed
qed

lemma link_inv_receive:
  assumes i: "link_inv r r' l" and t: "lk_transit l = wire qs @ rest" "qs \<noteq> []" "\<forall>q \<in> set qs. packet_ok q" "length (wire qs) \<le> 65536"
    and b: "recv_completion PacketSession_OnRecv r' (wire qs) io (lk_peer l) = Some (Ok b)"
  shows "link_inv r r' (l\<lparr>lk_transit := rest, lk_peer := b,
       lk_seen := lk_seen l @ map (packet_at (rb_buffer (se_recvBuffer (nt_session b r')))) (calls_since (lk_peer l) b)\<rparr>)"
proof -
  have "recv_ready r' (lk_peer l)" using i by (simp add: link_inv_def)
  from receive_whole [OF this t(2-4), of io] b have k: "recv_ready r' b"
    "map (packet_at (rb_buffer (se_recvBuffer (nt_session b r')))) (calls_since (lk_peer l) b) = qs" by auto
  obtain ms where ms: "lk_accepted l = lk_seen l @ ms" "wire qs @ rest @ bytes_of (lk_world l) (lk_posted l) = wire ms"
    using i t(1) by (auto simp: link_inv_def stream_inv_def)
  moreover have "\<forall>q \<in> set ms. packet_ok q" using i ms(1) by (simp add: link_inv_def sender_inv_def)
  ultimately obtain ms' where "ms = qs @ ms'" "rest @ bytes_of (lk_world l) (lk_posted l) = wire ms'"
    using wire_prefix [OF t(3)] by blast
  then show ?thesis
    using i k(1) ms(1) unfolding k(2) by (simp add: link_inv_def sender_inv_def history_inv_def stream_inv_def)
qed

lemma link_inv_step:
  assumes i: "link_inv r r' l" and "link_step r r' l l'"
  shows "link_inv r r' l'"
  using assms(2)
proof cases
  case (link_other t q p0 s p w)
  have "sw_inv (lk_world l)" using i by (simp add: link_inv_def sender_inv_def)
  from PacketSession_Send_ok(1,2) [OF this link_other(3,2)] show ?thesis
    unfolding link_other(1) by (rule link_inv_world [OF i])
next
  case (link_completed k io a)
  then have "nt_session a r = se_sendEvent_update IOCPEvent_ReleaseIOCPObjectSPtr (nt_session (lk_net l) r)"
    "nt_trace a = nt_trace (lk_net l) @ [OnSend r (k)]"
    by (auto simp: Session_Dispatch_def Session_process_send_def trace_def Let_def)
  then show ?thesis
    using i unfolding link_completed(1)
    by (auto simp: link_inv_def sender_inv_def history_inv_def stream_inv_def send_idle_def failed_send_def
        IOCPEvent_ReleaseIOCPObjectSPtr_def)
next
  case (link_transmit b bs)
  then show ?thesis using i by (auto simp: link_inv_def sender_inv_def history_inv_def stream_inv_def)
next
  case (link_send t q s p w)
  show ?thesis unfolding link_send(1) using i link_send(3,2) by (rule link_inv_send)
next
  case (link_flush now1 now2 bufs p io a sends)
  show ?thesis unfolding link_flush(1) using i link_flush(2-4) by (rule link_inv_flush)
next
  case (link_receive qs rest io b)
  show ?thesis unfolding link_receive(1) using i link_receive(2-6) by (rule link_inv_receive)
qed

interpretation lnk: invariant_system "link_init r r'" "link_step r r'" "link_inv r r'" for r r'
proof unfold_locales
  fix l
  assume "link_init r r' l"
  then show "link_inv r r' l" by (auto simp: link_init_def link_inv_def sender_inv_def history_inv_def stream_inv_def)
qed (rule link_inv_step)

section \<open>Delivery\<close>

text \<open>C5. In every reachable state of two connected hosts, whatever packets other sessions put into the same send
  buffers: the receiver has seen a prefix of the packets whose \<^verbatim>\<open>WSASend\<close> was accepted, each once, in order
  and with its own id and bytes, and the stream and the buffers not yet read hold exactly the bytes of the
  rest. Accepted packets were sent in this order; when no \<^verbatim>\<open>WSASend\<close> has failed, none is missing between
  those accepted and those still in the session's queue, and with nothing left anywhere the receiver has seen
  all. Whole packets in the stream can always be received: the handlers return without a fault.\<close>

theorem link_delivers:
  assumes "reach (link_init r r') (link_step r r') l"
  shows "(\<exists>rest. lk_accepted l = lk_seen l @ rest \<and>
      lk_transit l @ concat (map (wsabuf_bytes (lk_world l)) (lk_posted l)) = wire rest) \<and>
    subseq (lk_accepted l) (lk_sent l) \<and>
    (\<not> failed_send (lk_net l) \<longrightarrow> lk_accepted l @ lk_queued l = lk_sent l) \<and>
    (\<not> failed_send (lk_net l) \<and> lk_transit l = [] \<and> lk_posted l = [] \<and> ps_reserved (lk_ps l) = [] \<longrightarrow> lk_seen l = lk_sent l) \<and>
    (\<forall>qs rest io. lk_transit l = wire qs @ rest \<and> qs \<noteq> [] \<and> (\<forall>q \<in> set qs. packet_ok q) \<and> length (wire qs) \<le> 65536 \<longrightarrow>
      (\<exists>b. recv_completion PacketSession_OnRecv r' (wire qs) io (lk_peer l) = Some (Ok b)))"
proof -
  have i: "link_inv r r' l" using assms by (rule lnk.reach_inv)
  then have stream: "stream_inv l" and h: "history_inv l" and ready: "recv_ready r' (lk_peer l)"
    by (simp_all add: link_inv_def)
  have "subseq (lk_accepted l) (lk_sent l)"
    using h subseq_order.trans [OF prefix_imp_subseq [OF prefixI [OF refl]]] by (fastforce simp: history_inv_def)
  moreover have "lk_seen l = lk_sent l"
    if "\<not> failed_send (lk_net l)" "lk_transit l = []" "lk_posted l = []" "ps_reserved (lk_ps l) = []"
  proof -
    have "lk_accepted l = lk_seen l" using stream that(2,3) wire_empty by (auto simp: stream_inv_def)
    moreover have "lk_queued l = []"
      using i that(4) wire_empty [of "lk_queued l"] by (simp add: link_inv_def sender_inv_def)
    ultimately show ?thesis using h that(1) by (simp add: history_inv_def)
  qed
  moreover have "\<exists>b. recv_completion PacketSession_OnRecv r' (wire qs) io (lk_peer l) = Some (Ok b)"
    if "qs \<noteq> []" "\<forall>q \<in> set qs. packet_ok q" "length (wire qs) \<le> 65536" for qs io
    using receive_whole [OF ready that] by blast
  ultimately show ?thesis using stream h unfolding stream_inv_def history_inv_def by blast
qed

text \<open>One packet all the way.\<close>

definition demo_link :: link where
  "demo_link = \<lparr>lk_world = demo_world, lk_ps = PacketSession_new 0, lk_net = demo_net, lk_posted = [], lk_transit = [],
     lk_peer = demo_net, lk_sent = [], lk_queued = [], lk_accepted = [], lk_seen = []\<rparr>"

lemma demo_link_init: "link_init 0 0 demo_link"
  using demo_world_ok(1) demo_net_ready
  by (simp add: link_init_def demo_link_def PacketSession_new_def send_idle_def demo_net_def)

theorem link_delivers_witness:
  "\<exists>l. reach (link_init 0 0) (link_step 0 0) l \<and> lk_sent l = [(7, [1, 2])] \<and> lk_seen l = [(7, [1, 2])]"
proof -
  let ?R = "reach (link_init 0 0) (link_step 0 0)" and ?q = "(7, [1, 2]) :: packet"
  obtain p1 w1 where s: "PacketSession_Send 0 7 (Some [1, 2]) 2 (lk_ps demo_link) (lk_world demo_link) \<lparr>app_last_error = 0\<rparr> = Ok (p1, w1)"
    and tick: "ps_lastSendTick p1 = 0"
    using demo_send [of "\<lparr>app_last_error = 0\<rparr>"] by (auto simp: demo_link_def)
  have s': "PacketSession_Send 0 (fst ?q) (Some (snd ?q)) (of_nat (length (snd ?q))) (lk_ps demo_link) (lk_world demo_link)
      \<lparr>app_last_error = 0\<rparr> = Ok (p1, w1)" using s by simp
  have "sw_inv (lk_world demo_link)" "length (snd ?q) < 2 ^ 16" "ps_reserved (lk_ps demo_link) = []"
    using demo_world_ok(1) by (simp_all add: demo_link_def PacketSession_new_def)
  then obtain buf where buf: "ps_reserved p1 = [buf]" "wsabuf_bytes w1 buf = wire [?q]"
    using PacketSession_Send_ok(4) [OF _ _ s'] by auto
  define l1 where "l1 = demo_link\<lparr>lk_ps := p1, lk_world := w1, lk_sent := [?q], lk_queued := [?q]\<rparr>"
  have "link_step 0 0 demo_link l1"
    using link_send [OF s', of 0 0] by (simp add: l1_def demo_link_def)
  then have r1: "?R l1" using demo_link_init by (blast intro: reach.intros)
  let ?io = "\<lparr>io_res = 0, io_error = 0\<rparr>"
  obtain p2 where f: "PacketSession_Flush 5000 5000 p1 = ([buf], p2)" "ps_reserved p2 = []"
    using tick buf(1) by (simp add: PacketSession_Flush_def)
  define a where "a = Session_send 0 [buf] ?io demo_net"
  have a: "nt_trace a = [Posted (WSASend 5 [buf]) True]"
    unfolding a_def by (subst Session_send_idle(1)) (simp_all add: demo_net_def send_idle_def SOCKET_ERROR_def)
  define l2 where "l2 = l1\<lparr>lk_ps := p2, lk_net := a, lk_posted := [buf], lk_queued := [], lk_accepted := [?q]\<rparr>"
  have "sends_since demo_net a = [buf]" using a by (simp add: sends_since_def demo_net_def)
  then have "link_step 0 0 l1 l2"
    using link_flush [of 5000 5000 l1 "[buf]" p2 0 ?io a "[buf]" 0] f(1) by (simp add: l2_def l1_def demo_link_def a_def)
  then have r2: "?R l2" by (rule reach_step [OF r1])
  define l3 where "l3 = l2\<lparr>lk_posted := [], lk_transit := wire [?q]\<rparr>"
  have "link_step 0 0 l2 l3"
    using link_transmit [of l2 buf "[]" 0 0] buf(2) by (simp add: l3_def l2_def l1_def demo_link_def)
  then have r3: "?R l3" by (rule reach_step [OF r2])
  have q: "[?q] \<noteq> []" "\<forall>q \<in> set [?q]. packet_ok q" "length (wire [?q]) \<le> 65536" by (simp_all add: packet_ok_def)
  have p: "lk_peer l3 = demo_net" "lk_transit l3 = wire [?q] @ []" by (simp_all add: l3_def l2_def l1_def demo_link_def)
  obtain b where b: "recv_completion PacketSession_OnRecv 0 (wire [?q]) ?io (lk_peer l3) = Some (Ok b)"
    using receive_whole [OF demo_net_ready q] unfolding p(1) by blast
  obtain l4 where r4: "?R l4" and l4: "lk_transit l4 = []" "lk_posted l4 = []" "lk_ps l4 = p2" "lk_net l4 = a" "lk_sent l4 = [?q]"
    using reach_step [OF r3 link_receive [OF p(2) q b]] by (auto simp: l3_def l2_def l1_def)
  have "\<not> failed_send (lk_net l4)" using a by (simp add: failed_send_def l4)
  with link_delivers [OF r4] l4 f(2) r4 show ?thesis by auto
qed

end
