(* ===== verification/Services.thy ===== *)
theory Services
  imports Sessions
begin

text \<open>
  The completion port and what hangs on it: \<^verbatim>\<open>IOCPCore.h\<close>, \<^verbatim>\<open>IOCPCore.cpp\<close>, \<^verbatim>\<open>Service.h\<close>, \<^verbatim>\<open>Service.cpp\<close>,
  \<^verbatim>\<open>ClientServiceEx.h\<close>, \<^verbatim>\<open>ClientServiceEx.cpp\<close>, \<^verbatim>\<open>Listener.h\<close>, \<^verbatim>\<open>Listener.cpp\<close>, \<^verbatim>\<open>Connector.h\<close> and
  \<^verbatim>\<open>Connector.cpp\<close> under \<^verbatim>\<open>src/MyNetworkLib/\<close>.

  The operations act on the \<open>net\<close> of \<open>Sessions\<close>. The service, its listener and its connectors are the
  members of its \<open>service\<close> record. The results of the system calls, and the session object a call of
  the application's session factory makes, are arguments. \<^verbatim>\<open>RegisterAccept\<close> calls itself for as long as
  \<^verbatim>\<open>AcceptEx\<close> fails: it takes the list of results of its successive attempts and is \<open>None\<close> when the list
  ends before an attempt succeeds.
\<close>

section \<open>The completion port\<close>

definition INVALID_HANDLE_VALUE :: uint64 where "INVALID_HANDLE_VALUE = -1"

definition IOCPCore_new :: "uint64 \<Rightarrow> err_state \<Rightarrow> (uint64 \<times> err_state) outcome" where
  "IOCPCore_new handle e =
     (if handle = INVALID_HANDLE_VALUE
      then and_then (ASSERT_CRASH (handle \<noteq> INVALID_HANDLE_VALUE) e) (\<lambda>e1. Ok (handle, e1))
      else Ok (handle, e))"

text \<open>\<open>registered\<close>: \<^verbatim>\<open>CreateIoCompletionPort\<close> does not return null.\<close>

definition IOCPCore_RegisterHandle :: "bool \<Rightarrow> err_state \<Rightarrow> bool \<times> err_state" where
  "IOCPCore_RegisterHandle registered e =
     (let (code, e1) = CheckError registered APP_REGISTER_HANDLE_FAILED_IOCP_CORE e in (code = error_code NONE, e1))"

text \<open>A call through the service's \<^verbatim>\<open>_iocpCore\<close> pointer.\<close>

definition RegisterHandle :: "bool \<Rightarrow> net \<Rightarrow> (bool \<times> net) outcome" where
  "RegisterHandle registered n =
     (if \<not> sv_iocpCore (nt_service n) then Fault NullDereference
      else let (ok, e) = IOCPCore_RegisterHandle registered (nt_err n) in Ok (ok, n\<lparr>nt_err := e\<rparr>))"

section \<open>Services\<close>

definition Service_new :: "ServiceType \<Rightarrow> bool \<Rightarrow> sockaddr_in \<Rightarrow> bool \<Rightarrow> uint32 \<Rightarrow> service_impl \<Rightarrow> service" where
  "Service_new serviceType iocpCore sockAddr sessionFactory sessionCount impl =
     \<lparr>sv_serviceType = serviceType, sv_iocpCore = iocpCore, sv_addr = sockAddr, sv_sessionFactory = sessionFactory,
      sv_MAX_SESSION_COUNT = sessionCount, sv_onGoing = False, sv_impl = impl\<rparr>"

definition ClientService_new :: "bool \<Rightarrow> sockaddr_in \<Rightarrow> bool \<Rightarrow> service" where
  "ClientService_new iocpCore addr sessionFactory =
     Service_new ST_Client iocpCore addr sessionFactory 1 (ClientService None None)"

text \<open>The fourth argument of the constructor is the backlog and the fifth the session count.\<close>

definition ServerService_new :: "bool \<Rightarrow> sockaddr_in \<Rightarrow> bool \<Rightarrow> uint32 \<Rightarrow> uint32 \<Rightarrow> service" where
  "ServerService_new iocpCore addr sessionFactory backlog sessionCount =
     Service_new ST_Server iocpCore addr sessionFactory sessionCount (ServerService backlog [] None)"

definition ClientServiceEx_new :: "bool \<Rightarrow> sockaddr_in \<Rightarrow> bool \<Rightarrow> uint32 \<Rightarrow> service" where
  "ClientServiceEx_new iocpCore addr sessionFactory sessionCount =
     Service_new ST_Client iocpCore addr sessionFactory sessionCount (ClientServiceEx [] [])"

abbreviation (input) upd_service :: "(service \<Rightarrow> service) \<Rightarrow> net \<Rightarrow> net" where
  "upd_service f n \<equiv> n\<lparr>nt_service := f (nt_service n)\<rparr>"

abbreviation (input) set_impl :: "service_impl \<Rightarrow> net \<Rightarrow> net" where
  "set_impl x n \<equiv> upd_service (sv_impl_update (\<lambda>_. x)) n"

definition Service_destroy :: "service \<Rightarrow> service" where
  "Service_destroy sv = sv\<lparr>sv_iocpCore := False, sv_sessionFactory := False, sv_serviceType := ST_None\<rparr>"

text \<open>The condition checks all three \<^verbatim>\<open>Start\<close> methods begin with.\<close>

definition Start_checks :: "net \<Rightarrow> bool \<times> net" where
  "Start_checks n =
     (let sv = nt_service n;
          (c1, e1) = CheckError (sv_onGoing sv = False) APP_SERVICE_IS_ALREADY_STARTED (nt_err n)
      in if c1 \<noteq> error_code NONE then (False, n\<lparr>nt_err := e1\<rparr>)
      else let (c2, e2) = CheckError (sv_iocpCore sv) APP_SERVICE_IOCPCORE_NULLPTR e1
      in if c2 \<noteq> error_code NONE then (False, n\<lparr>nt_err := e2\<rparr>)
      else let (c3, e3) = CheckError (sv_sessionFactory sv) APP_SERVICE_SESSIONFACTORY_NULLPTR e2
      in if c3 \<noteq> error_code NONE then (False, n\<lparr>nt_err := e3\<rparr>)
      else let (c4, e4) = CheckError (AddrUtils_IsValid (sv_addr sv)) APP_SERVICE_SOCKADDR_INVALID e3
      in if c4 \<noteq> error_code NONE then (False, n\<lparr>nt_err := e4\<rparr>)
      else (True, n\<lparr>nt_err := e4\<rparr>))"

text \<open>What a call of the factory and of \<^verbatim>\<open>CreateIoCompletionPort\<close> yields: the new session and its socket,
  and whether its handle is registered; and what closing the socket of a session it replaces returns.
  The factory is the application's and may return null.\<close>

record new_session =
  ns_ref :: "nat option"
  ns_socket :: uint64
  ns_registered :: bool
  ns_close :: int32

definition call_sessionFactory :: "new_session \<Rightarrow> net \<Rightarrow> (nat option \<times> net) outcome" where
  "call_sessionFactory x n =
     (if \<not> sv_sessionFactory (nt_service n) then Fault BadFunctionCall
      else case ns_ref x of None \<Rightarrow> Ok (None, n)
           | Some r \<Rightarrow> and_then (Session_new r (ns_socket x) n) (\<lambda>n1. Ok (Some r, n1)))"

text \<open>\<^verbatim>\<open>RegisterHandle\<close> of a session calls \<^verbatim>\<open>GetHandle\<close> on it.\<close>

definition register_session :: "nat option \<Rightarrow> new_session \<Rightarrow> net \<Rightarrow> (bool \<times> net) outcome" where
  "register_session r x n = (if r = None then Fault NullDereference else RegisterHandle (ns_registered x) n)"

text \<open>The new session takes the place of the session the client had, if any.\<close>

definition ClientService_AddNewSession ::
    "nat option \<Rightarrow> connector option \<Rightarrow> new_session \<Rightarrow> net \<Rightarrow> (nat option \<times> net) outcome" where
  "ClientService_AddNewSession old conn x n =
     and_then (call_sessionFactory x n) (\<lambda>(r, n1).
     and_then (reap (case old of None \<Rightarrow> [] | Some q \<Rightarrow> [q]) (\<lambda>_. ns_close x)
         (set_impl (ClientService r conn) n1)) (\<lambda>n2.
     and_then (register_session r x n2) (\<lambda>(ok, n3).
       Ok (if ok = False then None else r, n3))))"

definition ServerService_AddNewSession ::
    "uint32 \<Rightarrow> nat list \<Rightarrow> listener option \<Rightarrow> new_session \<Rightarrow> net \<Rightarrow> (nat option \<times> net) outcome" where
  "ServerService_AddNewSession backlog sessions l x n =
     and_then (call_sessionFactory x n) (\<lambda>(r, n1).
     and_then (register_session r x n1) (\<lambda>(ok, n2).
       if ok = False then Ok (None, n2)
       else case r of None \<Rightarrow> Ok (None, n2)
            | Some s \<Rightarrow> Ok (Some s, set_impl (ServerService backlog
                               (if s \<in> set sessions then sessions else insort s sessions) l) n2)))"

definition ClientServiceEx_AddNewSession ::
    "nat option list \<Rightarrow> connector list \<Rightarrow> new_session \<Rightarrow> net \<Rightarrow> (nat option \<times> net) outcome" where
  "ClientServiceEx_AddNewSession sessions conns x n =
     and_then (call_sessionFactory x n) (\<lambda>(r, n1).
     and_then (register_session r x (set_impl (ClientServiceEx (sessions @ [r]) conns) n1)) (\<lambda>(ok, n2).
       Ok (if ok = False then None else r, n2)))"

text \<open>The virtual call.\<close>

definition AddNewSession :: "new_session \<Rightarrow> net \<Rightarrow> (nat option \<times> net) outcome" where
  "AddNewSession x n =
     (case sv_impl (nt_service n) of
        ClientService old conn \<Rightarrow> ClientService_AddNewSession old conn x n
      | ServerService backlog sessions l \<Rightarrow> ServerService_AddNewSession backlog sessions l x n
      | ClientServiceEx sessions conns \<Rightarrow> ClientServiceEx_AddNewSession sessions conns x n)"

section \<open>The connector\<close>

definition Connector_new :: "uint64 \<Rightarrow> net \<Rightarrow> (connector \<times> net) outcome" where
  "Connector_new sock n =
     and_then (AssertCrash_if (sv_serviceType (nt_service n) = ST_Client) APP_CONNECTOR_SERVICE_WAS_NOT_CLIENT (nt_err n))
       (\<lambda>e1. and_then (SocketUtils_CreateSocket sock e1) (\<lambda>(sk, e2).
          Ok (\<lparr>cn_connectSocket = sk, cn_session = None, cn_connectEvent = ConnectEvent_new zeroed, cn_connected = False\<rparr>, n\<lparr>nt_err := e2\<rparr>)))"

record connect_io =
  ci_socket :: uint64
  ci_registered :: bool
  ci_reuse :: int32
  ci_bind :: int32
  ci_connect :: io_result

text \<open>The connectors of a service by position; a \<^verbatim>\<open>ClientService\<close> has one at position 0.\<close>

fun get_connector :: "service_impl \<Rightarrow> nat \<Rightarrow> connector option" where
  "get_connector (ClientService s conn) k = (if k = 0 then conn else None)"
| "get_connector (ServerService _ _ _) k = None"
| "get_connector (ClientServiceEx ss conns) k = (if k < length conns then Some (conns ! k) else None)"

fun put_connector :: "nat \<Rightarrow> connector \<Rightarrow> service_impl \<Rightarrow> service_impl" where
  "put_connector k c (ClientService s conn) = ClientService s (Some c)"
| "put_connector k c (ServerService b ss l) = ServerService b ss l"
| "put_connector k c (ClientServiceEx ss conns) = ClientServiceEx ss (conns[k := c])"

text \<open>\<^verbatim>\<open>Connect\<close> of the connector at position \<open>k\<close>.\<close>

definition Connector_Connect :: "nat \<Rightarrow> connector \<Rightarrow> connect_io \<Rightarrow> net \<Rightarrow> (bool \<times> net) outcome" where
  "Connector_Connect k c io n =
     (if cn_connected c = True then Ok (False, n)
      else and_then (RegisterHandle (ci_registered io) n) (\<lambda>(registered, n1).
        if registered = False then Ok (False, n1)
        else and_then (SocketUtils_SetReuseAddress (ci_reuse io) (nt_err n1)) (\<lambda>(reuse, e2).
          if reuse = False then Ok (False, n1\<lparr>nt_err := e2\<rparr>)
          else and_then (SocketUtils_BindAnyAddress (ci_bind io) e2) (\<lambda>(bound, e3).
            if bound = False then Ok (False, n1\<lparr>nt_err := e3\<rparr>)
            else let c1 = c\<lparr>cn_connectEvent := arm (Connector_obj k) (cn_connectEvent c)\<rparr>;
                     (errCode, e4) = WSACheckErrorExceptPending (io_res (ci_connect io) \<noteq> 0)
                       (io_error (ci_connect io)) WSA_CONNECTEX_FAILED e3;
                     ok = (errCode = error_code NONE);
                     c2 = (if ok then c1
                           else c1\<lparr>cn_connectEvent := IOCPEvent_SetIOCPObjectSPtr None (cn_connectEvent c1)\<rparr>);
                     n4 = post (ConnectEvent_of k) (ConnectEx (cn_connectSocket c)) ok (n1\<lparr>nt_err := e4\<rparr>)
                 in Ok (ok, set_impl (put_connector k c2 (sv_impl (nt_service n4))) n4)))))"

definition Connector_processConnect :: "nat \<Rightarrow> connector \<Rightarrow> io_result \<Rightarrow> net \<Rightarrow> net outcome" where
  "Connector_processConnect k c io n =
     (let c1 = c\<lparr>cn_connectEvent := IOCPEvent_ReleaseIOCPObjectSPtr (cn_connectEvent c), cn_connected := True\<rparr>;
          n1 = set_impl (put_connector k c1 (sv_impl (nt_service n))) n
      in case cn_session c of None \<Rightarrow> Fault NullDereference
         | Some r \<Rightarrow> Session_set_connected r (cn_connectSocket c) io n1)"

definition Connector_Dispatch ::
    "nat \<Rightarrow> connector \<Rightarrow> EventType \<Rightarrow> new_session \<Rightarrow> io_result \<Rightarrow> net \<Rightarrow> net outcome" where
  "Connector_Dispatch k c ev x io n =
     (case ev of
        EV_Connect \<Rightarrow> and_then (AddNewSession x n) (\<lambda>(s, n1).
          let c1 = c\<lparr>cn_session := s,
                      cn_connectEvent := IOCPEvent_SetIOCPObjectSPtr (map_option Session_obj s) (cn_connectEvent c)\<rparr>
          in Connector_processConnect k c1 io (set_impl (put_connector k c1 (sv_impl (nt_service n1))) n1))
      | _ \<Rightarrow> Ok n)"

section \<open>The listener\<close>

abbreviation (input) MAX_ACCEPT_COUNT :: nat where "MAX_ACCEPT_COUNT \<equiv> 100"

definition Listener_new :: "uint64 \<Rightarrow> net \<Rightarrow> (listener \<times> net) outcome" where
  "Listener_new sock n =
     and_then (AssertCrash_if (sv_serviceType (nt_service n) = ST_Server) APP_LISTENER_SERVICE_WAS_NOT_SERVER (nt_err n))
       (\<lambda>e1. and_then (SocketUtils_CreateSocket sock e1) (\<lambda>(sk, e2).
          Ok (\<lparr>ls_listenSocket = sk, ls_acceptEvents = []\<rparr>, n\<lparr>nt_err := e2\<rparr>)))"

definition Listener_destroy :: "int32 \<Rightarrow> listener \<Rightarrow> net \<Rightarrow> (listener \<times> net) outcome" where
  "Listener_destroy closeRes l n =
     and_then (SocketUtils_Close closeRes (ls_listenSocket l) (nt_err n)) (\<lambda>(sk, e).
       Ok (\<lparr>ls_listenSocket = sk, ls_acceptEvents = []\<rparr>, n\<lparr>nt_err := e\<rparr>))"

fun get_listener :: "service_impl \<Rightarrow> listener option" where
  "get_listener (ServerService _ _ l) = l"
| "get_listener _ = None"

fun put_listener :: "listener \<Rightarrow> service_impl \<Rightarrow> service_impl" where
  "put_listener l (ServerService b ss _) = ServerService b ss (Some l)"
| "put_listener l x = x"

text \<open>An attempt to accept: the new session, and what \<^verbatim>\<open>AcceptEx\<close> returns.\<close>

record accept_io =
  ai_session :: new_session
  ai_accept :: io_result

text \<open>The first statements of \<^verbatim>\<open>RegisterAccept\<close>: the event is cleared and given the new session.\<close>

definition clear_accept_event :: "nat option \<Rightarrow> accept_event \<Rightarrow> accept_event" where
  "clear_accept_event s ev = AcceptEvent_SetSessionRef s (IOCPEvent_Clear ev)"

definition set_accept_event :: "nat \<Rightarrow> nat option \<Rightarrow> listener \<Rightarrow> listener" where
  "set_accept_event k s l =
     l\<lparr>ls_acceptEvents := (ls_acceptEvents l)[k := clear_accept_event s (ls_acceptEvents l ! k)]\<rparr>"

fun Listener_RegisterAccept ::
    "nat \<Rightarrow> accept_io list \<Rightarrow> net \<Rightarrow> (accept_io list \<times> net) outcome option" where
  "Listener_RegisterAccept k [] n = None"
| "Listener_RegisterAccept k (x # xs) n =
     (case AddNewSession (ai_session x) n of
        Fault f \<Rightarrow> Some (Fault f)
      | Ok (s, n1) \<Rightarrow>
          (case get_listener (sv_impl (nt_service n1)) of
             None \<Rightarrow> Some (Fault NullDereference)
           | Some l \<Rightarrow>
               let n2 = set_impl (put_listener (set_accept_event k s l) (sv_impl (nt_service n1))) n1
               in (case s of
                     None \<Rightarrow> Some (Fault NullDereference)
                   | Some r \<Rightarrow>
                       (case RecvBuffer_WritePos (se_recvBuffer (nt_session n2 r)) of
                          Fault f \<Rightarrow> Some (Fault f)
                        | Ok _ \<Rightarrow>
                            let (errCode, e) = WSACheckErrorExceptPending (io_res (ai_accept x) \<noteq> 0)
                                  (io_error (ai_accept x)) WSA_ACCEPTEX_FAILED (nt_err n2);
                                n3 = post (AcceptEvent_of k) (AcceptEx (ls_listenSocket l) (se_socket (nt_session n2 r)))
                                       (errCode = error_code NONE) (n2\<lparr>nt_err := e\<rparr>)
                            in if errCode \<noteq> error_code NONE then Listener_RegisterAccept k xs n3
                               else Some (Ok (xs, n3))))))"

record listen_io =
  li_socket :: uint64
  li_registered :: bool
  li_linger :: int32
  li_reuse :: int32
  li_bind :: int32
  li_listen :: int32

fun StartListen_accepts :: "nat \<Rightarrow> accept_io list \<Rightarrow> net \<Rightarrow> (accept_io list \<times> net) outcome option" where
  "StartListen_accepts 0 xs n = Some (Ok (xs, n))"
| "StartListen_accepts (Suc m) xs n =
     (case get_listener (sv_impl (nt_service n)) of
        None \<Rightarrow> Some (Fault NullDereference)
      | Some l \<Rightarrow>
          let k = length (ls_acceptEvents l);
              evt = IOCPEvent_SetIOCPObjectSPtr (Some Listener_obj) (AcceptEvent_new zeroed);
              n1 = set_impl (put_listener (l\<lparr>ls_acceptEvents := ls_acceptEvents l @ [evt]\<rparr>) (sv_impl (nt_service n))) n
          in (case Listener_RegisterAccept k xs n1 of
                None \<Rightarrow> None
              | Some (Fault f) \<Rightarrow> Some (Fault f)
              | Some (Ok (ys, n2)) \<Rightarrow> StartListen_accepts m ys n2))"

text \<open>The calls before the loop, each of which ends \<^verbatim>\<open>StartListen\<close> when it fails.\<close>

definition StartListen_socket :: "listen_io \<Rightarrow> net \<Rightarrow> (bool \<times> net) outcome" where
  "StartListen_socket io n =
     and_then (RegisterHandle (li_registered io) n) (\<lambda>(registered, n1).
       if registered = False then Ok (False, n1)
       else and_then (SocketUtils_SetLinger (li_linger io) (nt_err n1)) (\<lambda>(linger, e2).
         if linger = False then Ok (False, n1\<lparr>nt_err := e2\<rparr>)
         else and_then (SocketUtils_SetReuseAddress (li_reuse io) e2) (\<lambda>(reuse, e3).
           if reuse = False then Ok (False, n1\<lparr>nt_err := e3\<rparr>)
           else and_then (SocketUtils_Bind (li_bind io) e3) (\<lambda>(bound, e4).
             if bound = False then Ok (False, n1\<lparr>nt_err := e4\<rparr>)
             else and_then (SocketUtils_Listen (li_listen io) e4) (\<lambda>(listening, e5).
               Ok (listening, n1\<lparr>nt_err := e5\<rparr>))))))"

definition Listener_StartListen ::
    "listen_io \<Rightarrow> accept_io list \<Rightarrow> net \<Rightarrow> (bool \<times> net) outcome option" where
  "Listener_StartListen io xs n =
     (case StartListen_socket io n of
        Fault f \<Rightarrow> Some (Fault f)
      | Ok (ok, n1) \<Rightarrow>
          if ok = False then Some (Ok (False, n1))
          else (case StartListen_accepts MAX_ACCEPT_COUNT xs n1 of
                  None \<Rightarrow> None
                | Some (Fault f) \<Rightarrow> Some (Fault f)
                | Some (Ok (_, n2)) \<Rightarrow> Some (Ok (True, n2))))"

text \<open>The \<^verbatim>\<open>int\<close> that \<^verbatim>\<open>getpeername\<close> returns is stored in a \<^verbatim>\<open>bool\<close> before it is checked.\<close>

definition bool_int32 :: "int32 \<Rightarrow> int32" where
  "bool_int32 v = (if v \<noteq> 0 then 1 else 0)"

definition Listener_ProcessAccept ::
    "nat \<Rightarrow> int32 \<Rightarrow> int32 \<Rightarrow> io_result \<Rightarrow> accept_io list \<Rightarrow> net \<Rightarrow> (accept_io list \<times> net) outcome option" where
  "Listener_ProcessAccept k upd peer io xs n =
     (case get_listener (sv_impl (nt_service n)) of
        None \<Rightarrow> Some (Fault NullDereference)
      | Some l \<Rightarrow>
          (case (if k < length (ls_acceptEvents l) then AcceptEvent_GetSessionRef (ls_acceptEvents l ! k) else None) of
             None \<Rightarrow> Some (Fault NullDereference)
           | Some r \<Rightarrow>
               (case SocketUtils_SetUpdateAcceptSocket upd (nt_err n) of
                  Fault f \<Rightarrow> Some (Fault f)
                | Ok (ok, e1) \<Rightarrow>
                    if ok = False then Listener_RegisterAccept k xs (n\<lparr>nt_err := e1\<rparr>)
                    else (case WSACheckSocketError (bool_int32 peer) WSA_GET_PEER_NAME_FAILED True e1 of
                            Fault f \<Rightarrow> Some (Fault f)
                          | Ok (named, e2) \<Rightarrow>
                              if named = False then Listener_RegisterAccept k xs (n\<lparr>nt_err := e2\<rparr>)
                              else (case Session_set_connected r INVALID_SOCKET io (n\<lparr>nt_err := e2\<rparr>) of
                                      Fault f \<Rightarrow> Some (Fault f)
                                    | Ok n3 \<Rightarrow> Listener_RegisterAccept k xs n3)))))"

definition Listener_Dispatch ::
    "EventType \<Rightarrow> nat \<Rightarrow> int32 \<Rightarrow> int32 \<Rightarrow> io_result \<Rightarrow> accept_io list \<Rightarrow> net \<Rightarrow> net outcome option" where
  "Listener_Dispatch ev k upd peer io xs n =
     (case ev of
        EV_Accept \<Rightarrow> (case Listener_ProcessAccept k upd peer io xs n of
                        None \<Rightarrow> None
                      | Some (Fault f) \<Rightarrow> Some (Fault f)
                      | Some (Ok (_, n1)) \<Rightarrow> Some (Ok n1))
      | _ \<Rightarrow> Some (Ok n))"

section \<open>Starting and stopping services\<close>

definition finish_start :: "Errors \<Rightarrow> bool \<Rightarrow> net \<Rightarrow> bool \<times> net" where
  "finish_start err suc n =
     (let (code, e) = CheckError suc err (nt_err n)
      in if code \<noteq> error_code NONE then (False, n\<lparr>nt_err := e\<rparr>)
         else (True, upd_service (sv_onGoing_update (\<lambda>_. True)) (n\<lparr>nt_err := e\<rparr>)))"

definition ClientService_Start :: "connect_io \<Rightarrow> net \<Rightarrow> (bool \<times> net) outcome" where
  "ClientService_Start io n =
     (case Start_checks n of
        (False, n1) \<Rightarrow> Ok (False, n1)
      | (True, n1) \<Rightarrow>
          and_then (Connector_new (ci_socket io) n1) (\<lambda>(c, n2).
          and_then (Connector_Connect 0 c io (set_impl (put_connector 0 c (sv_impl (nt_service n2))) n2)) (\<lambda>(suc, n3).
            Ok (finish_start APP_CLIENTSERVICE_CONNECT_FAILED suc n3))))"

definition ServerService_Start :: "listen_io \<Rightarrow> accept_io list \<Rightarrow> net \<Rightarrow> (bool \<times> net) outcome option" where
  "ServerService_Start io xs n =
     (case Start_checks n of
        (False, n1) \<Rightarrow> Some (Ok (False, n1))
      | (True, n1) \<Rightarrow>
          (case Listener_new (li_socket io) n1 of
             Fault f \<Rightarrow> Some (Fault f)
           | Ok (l, n2) \<Rightarrow>
               (case Listener_StartListen io xs (set_impl (put_listener l (sv_impl (nt_service n2))) n2) of
                  None \<Rightarrow> None
                | Some (Fault f) \<Rightarrow> Some (Fault f)
                | Some (Ok (suc, n3)) \<Rightarrow> Some (Ok (finish_start APP_SERVERSERVICE_LISTEN_FAILED suc n3)))))"

text \<open>The loop of \<^verbatim>\<open>ClientServiceEx::Start\<close>, with \<open>m\<close> connections left to make.\<close>

fun ClientServiceEx_connect :: "nat \<Rightarrow> (nat \<Rightarrow> connect_io) \<Rightarrow> nat \<Rightarrow> net \<Rightarrow> (bool \<times> net) outcome" where
  "ClientServiceEx_connect 0 io i n = Ok (True, n)"
| "ClientServiceEx_connect (Suc m) io i n =
     and_then (Connector_new (ci_socket (io i)) n) (\<lambda>(c, n1).
     and_then (Connector_Connect (case sv_impl (nt_service n1) of ClientServiceEx _ conns \<Rightarrow> length conns | _ \<Rightarrow> 0) c (io i)
         (case sv_impl (nt_service n1) of
            ClientServiceEx ss conns \<Rightarrow> set_impl (ClientServiceEx ss (conns @ [c])) n1
          | _ \<Rightarrow> n1)) (\<lambda>(suc, n2).
       let (code, e) = CheckError suc APP_CLIENTSERVICE_CONNECT_FAILED (nt_err n2);
           n3 = n2\<lparr>nt_err := e\<rparr>
       in if code \<noteq> error_code NONE then Ok (False, n3)
          else ClientServiceEx_connect m io (i + 1) n3))"

definition ClientServiceEx_Start :: "(nat \<Rightarrow> connect_io) \<Rightarrow> net \<Rightarrow> (bool \<times> net) outcome" where
  "ClientServiceEx_Start io n =
     (case Start_checks n of
        (False, n1) \<Rightarrow> Ok (False, n1)
      | (True, n1) \<Rightarrow>
          and_then (ClientServiceEx_connect (unat (sv_MAX_SESSION_COUNT (nt_service n1))) io 0 n1) (\<lambda>(suc, n2).
            Ok (if suc = False then (False, n2) else (True, upd_service (sv_onGoing_update (\<lambda>_. True)) n2))))"

text \<open>\<^verbatim>\<open>Stop\<close>. A server disconnects its sessions; \<open>io r\<close> is the result for session \<open>r\<close>.\<close>

definition ServerService_ReleaseAllSessions :: "nat list \<Rightarrow> (nat \<Rightarrow> io_result) \<Rightarrow> net \<Rightarrow> net" where
  "ServerService_ReleaseAllSessions sessions io n =
     fold (\<lambda>r m. if se_connected (nt_session m r) = True then Session_disconnect r (io r) m else m) sessions n"

text \<open>The shared pointers are dropped after that; \<open>closeRes\<close> is what closing the sockets returns.\<close>

definition ServerService_Stop ::
    "uint32 \<Rightarrow> nat list \<Rightarrow> listener option \<Rightarrow> int32 \<Rightarrow> (nat \<Rightarrow> int32) \<Rightarrow> (nat \<Rightarrow> io_result) \<Rightarrow> net \<Rightarrow> (bool \<times> net) outcome" where
  "ServerService_Stop backlog sessions l listenRes closeRes io n =
     (let n1 = upd_service (sv_onGoing_update (\<lambda>_. False)) n
      in and_then (case l of None \<Rightarrow> Ok n1
                   | Some x \<Rightarrow> and_then (Listener_destroy listenRes x n1) (\<lambda>(_, n2). Ok n2)) (\<lambda>n2.
           let held = (case l of None \<Rightarrow> [] | Some x \<Rightarrow> List.map_filter ae_session (ls_acceptEvents x));
               n3 = set_impl (ServerService backlog sessions None) n2
           in and_then (reap held closeRes n3) (\<lambda>n4.
           let n5 = set_impl (ServerService backlog [] None) (ServerService_ReleaseAllSessions sessions io n4)
           in and_then (reap sessions closeRes n5) (\<lambda>n6. Ok (True, n6)))))"

definition ClientService_Stop :: "nat option \<Rightarrow> (nat \<Rightarrow> int32) \<Rightarrow> net \<Rightarrow> (bool \<times> net) outcome" where
  "ClientService_Stop s closeRes n =
     and_then (reap (case s of None \<Rightarrow> [] | Some r \<Rightarrow> [r]) closeRes (set_impl (ClientService None None) n)) (\<lambda>n1.
       Ok (True, upd_service (sv_onGoing_update (\<lambda>_. False)) n1))"

definition ClientServiceEx_Stop :: "nat option list \<Rightarrow> (nat \<Rightarrow> int32) \<Rightarrow> net \<Rightarrow> (bool \<times> net) outcome" where
  "ClientServiceEx_Stop ss closeRes n =
     and_then (reap (List.map_filter (\<lambda>s. s) ss) closeRes (set_impl (ClientServiceEx [] []) n)) (\<lambda>n1.
       Ok (True, upd_service (sv_onGoing_update (\<lambda>_. False)) n1))"

definition Service_Stop ::
    "int32 \<Rightarrow> (nat \<Rightarrow> int32) \<Rightarrow> (nat \<Rightarrow> io_result) \<Rightarrow> net \<Rightarrow> (bool \<times> net) outcome" where
  "Service_Stop listenRes closeRes io n =
     (case sv_impl (nt_service n) of
        ClientService s _ \<Rightarrow> ClientService_Stop s closeRes n
      | ServerService backlog sessions l \<Rightarrow> ServerService_Stop backlog sessions l listenRes closeRes io n
      | ClientServiceEx ss _ \<Rightarrow> ClientServiceEx_Stop ss closeRes n)"

fun ClientServiceEx_DisconnectAll :: "nat option list \<Rightarrow> (nat \<Rightarrow> io_result) \<Rightarrow> net \<Rightarrow> net outcome" where
  "ClientServiceEx_DisconnectAll [] io n = Ok n"
| "ClientServiceEx_DisconnectAll (None # ss) io n = Fault NullDereference"
| "ClientServiceEx_DisconnectAll (Some r # ss) io n =
     ClientServiceEx_DisconnectAll ss io (snd (Session_Disconnect r (io r) n))"

section \<open>Sending to sessions, counting sessions\<close>

text \<open>\<^verbatim>\<open>Send_\<close>, \<^verbatim>\<open>Broadcast\<close> and \<^verbatim>\<open>ClientServiceEx::Send\<close> call \<^verbatim>\<open>Session::Send\<close> on connected sessions; the call is
  recorded with the packet id.\<close>

definition send_if_connected :: "uint16 \<Rightarrow> nat option \<Rightarrow> net \<Rightarrow> net" where
  "send_if_connected i s n =
     (case s of None \<Rightarrow> n | Some r \<Rightarrow> if se_connected (nt_session n r) then trace (Sent r i) n else n)"

definition ClientService_Send :: "nat option \<Rightarrow> uint16 \<Rightarrow> net \<Rightarrow> net" where
  "ClientService_Send sess i n = send_if_connected i sess n"

definition ServerService_Broadcast :: "nat list \<Rightarrow> uint16 \<Rightarrow> net \<Rightarrow> net" where
  "ServerService_Broadcast sessions i n = fold (\<lambda>r. send_if_connected i (Some r)) sessions n"

definition ClientServiceEx_Send :: "nat option list \<Rightarrow> uint16 \<Rightarrow> net \<Rightarrow> net" where
  "ClientServiceEx_Send sessions i n = fold (send_if_connected i) sessions n"

definition ClientService_GetCurrentSessionCount :: "nat option \<Rightarrow> net \<Rightarrow> nat" where
  "ClientService_GetCurrentSessionCount sess n =
     (case sess of None \<Rightarrow> 0 | Some r \<Rightarrow> if se_connected (nt_session n r) = False then 0 else 1)"

definition ServerService_GetCurrentSessionCount :: "nat list \<Rightarrow> nat" where
  "ServerService_GetCurrentSessionCount sessions = length sessions"

definition ClientServiceEx_GetCurrentSessionCount :: "net \<Rightarrow> nat" where
  "ClientServiceEx_GetCurrentSessionCount n = unat (sv_MAX_SESSION_COUNT (nt_service n))"

section \<open>Dispatching completions\<close>

text \<open>A dequeued completion: its event, the number of bytes, and the results of the calls the handler
  will make.\<close>

record completion =
  cp_overlapped :: event_ref
  cp_bytes :: uint32
  cp_io :: io_result
  cp_update :: int32
  cp_peer :: int32
  cp_accepts :: "accept_io list"
  cp_new :: new_session
  cp_close :: int32

text \<open>The event an \<^verbatim>\<open>OVERLAPPED\<close> pointer points to, when the object it is a member of exists.\<close>

fun get_event :: "event_ref \<Rightarrow> net \<Rightarrow> iocp_event option" where
  "get_event (SendEvent_of r) n =
     (if session_alive r n then Some (iocp_event.truncate (se_sendEvent (nt_session n r))) else None)"
| "get_event (RecvEvent_of r) n = (if session_alive r n then Some (se_recvEvent (nt_session n r)) else None)"
| "get_event (DisconnectEvent_of r) n = (if session_alive r n then Some (se_disconnectEvent (nt_session n r)) else None)"
| "get_event (AcceptEvent_of k) n =
     (case get_listener (sv_impl (nt_service n)) of
        None \<Rightarrow> None
      | Some l \<Rightarrow> if k < length (ls_acceptEvents l) then Some (iocp_event.truncate (ls_acceptEvents l ! k)) else None)"
| "get_event (ConnectEvent_of k) n = map_option cn_connectEvent (get_connector (sv_impl (nt_service n)) k)"

text \<open>\<^verbatim>\<open>lock()\<close> of the event's weak pointer.\<close>

fun lock_object :: "iocp_object option \<Rightarrow> net \<Rightarrow> iocp_object option" where
  "lock_object None n = None"
| "lock_object (Some (Session_obj r)) n = (if session_alive r n then Some (Session_obj r) else None)"
| "lock_object (Some Listener_obj) n =
     (if get_listener (sv_impl (nt_service n)) = None then None else Some Listener_obj)"
| "lock_object (Some (Connector_obj k)) n =
     (if get_connector (sv_impl (nt_service n)) k = None then None else Some (Connector_obj k))"

text \<open>The virtual \<^verbatim>\<open>Dispatch\<close>. A listener casts the event it is given to an accept event.\<close>

fun accept_index :: "event_ref \<Rightarrow> nat option" where
  "accept_index (AcceptEvent_of k) = Some k"
| "accept_index _ = None"

definition IOCPObject_Dispatch ::
    "on_recv \<Rightarrow> iocp_object \<Rightarrow> EventType \<Rightarrow> completion \<Rightarrow> net \<Rightarrow> net outcome option" where
  "IOCPObject_Dispatch onRecv obj ev c n =
     (case obj of
        Session_obj r \<Rightarrow> Session_Dispatch onRecv ev r (cp_bytes c) (cp_io c) n
      | Listener_obj \<Rightarrow>
          (case accept_index (cp_overlapped c) of
             None \<Rightarrow> Some (Ok n)
           | Some k \<Rightarrow> Listener_Dispatch ev k (cp_update c) (cp_peer c) (cp_io c) (cp_accepts c) n)
      | Connector_obj k \<Rightarrow>
          (case get_connector (sv_impl (nt_service n)) k of
             None \<Rightarrow> Some (Fault NullDereference)
           | Some conn \<Rightarrow> Some (Connector_Dispatch k conn ev (cp_new c) (cp_io c) n)))"

text \<open>The statement that handles one completion. The pointer \<^verbatim>\<open>lock()\<close> made is dropped after it, which
  destroys a session that was released in the handler and that nobody else has.\<close>

definition dropped :: "iocp_object \<Rightarrow> nat list" where
  "dropped obj = (case obj of Session_obj r \<Rightarrow> [r] | _ \<Rightarrow> [])"

definition process_completion :: "on_recv \<Rightarrow> completion \<Rightarrow> net \<Rightarrow> net outcome option" where
  "process_completion onRecv c n =
     (let n0 = n\<lparr>nt_pending := remove1 (cp_overlapped c) (nt_pending n)\<rparr>
      in case get_event (cp_overlapped c) n0 of
           None \<Rightarrow> Some (Fault UseAfterFree)
         | Some ev \<Rightarrow>
             (case lock_object (ev_iocpObject ev) n0 of
                None \<Rightarrow> Some (Fault NullDereference)
              | Some obj \<Rightarrow>
                  (case IOCPObject_Dispatch onRecv obj (ev_eventType ev) c n0 of
                     Some (Ok n1) \<Rightarrow> Some (reap (dropped obj) (\<lambda>_. cp_close c) n1)
                   | x \<Rightarrow> x)))"

text \<open>What \<^verbatim>\<open>GetQueuedCompletionStatus\<close> returns: nothing, by time-out or failure of the port; \<^verbatim>\<open>FALSE\<close> with the event of a
  failed call that it has taken from the port; or a completion. The failed call is logged, no longer in flight,
  and its event is not dispatched.\<close>

datatype gqcs_result =
    GQCS_Nothing
  | GQCS_Failed event_ref
  | GQCS_Completed completion

definition IOCPCore_ProcessQueuedCompletionStatus ::
    "on_recv \<Rightarrow> gqcs_result \<Rightarrow> net \<Rightarrow> (bool \<times> net) outcome option" where
  "IOCPCore_ProcessQueuedCompletionStatus onRecv q n =
     (case q of
        GQCS_Nothing \<Rightarrow> Some (Ok (False, n))
      | GQCS_Failed e \<Rightarrow> Some (Ok (False, n\<lparr>nt_pending := remove1 e (nt_pending n)\<rparr>))
      | GQCS_Completed c \<Rightarrow> (case process_completion onRecv c n of
                    None \<Rightarrow> None
                  | Some (Fault f) \<Rightarrow> Some (Fault f)
                  | Some (Ok n1) \<Rightarrow> Some (Ok (True, n1))))"

fun dispatch_entries :: "on_recv \<Rightarrow> completion list \<Rightarrow> net \<Rightarrow> net outcome option" where
  "dispatch_entries onRecv [] n = Some (Ok n)"
| "dispatch_entries onRecv (c # cs) n =
     (case process_completion onRecv c n of
        Some (Ok n1) \<Rightarrow> dispatch_entries onRecv cs n1
      | x \<Rightarrow> x)"

text \<open>A failed \<^verbatim>\<open>GetQueuedCompletionStatusEx\<close>, by time-out or otherwise, is \<open>None\<close> and takes nothing from the port; the
  entries of failed calls are among those it returns.\<close>

abbreviation (input) MAX_ENTRY_COUNT :: nat where "MAX_ENTRY_COUNT \<equiv> 10"

definition IOCPCore_ProcessQueuedCompletionStatusEx ::
    "on_recv \<Rightarrow> completion list option \<Rightarrow> net \<Rightarrow> (bool \<times> net) outcome option" where
  "IOCPCore_ProcessQueuedCompletionStatusEx onRecv q n =
     (case q of
        None \<Rightarrow> Some (Ok (False, n))
      | Some cs \<Rightarrow> (case dispatch_entries onRecv (take MAX_ENTRY_COUNT cs) n of
                     None \<Rightarrow> None
                   | Some (Fault f) \<Rightarrow> Some (Fault f)
                   | Some (Ok n1) \<Rightarrow> Some (Ok (True, n1))))"

section \<open>Starting\<close>

text \<open>The first condition of \<^verbatim>\<open>Start\<close> that does not hold.\<close>

definition start_failure :: "net \<Rightarrow> Errors" where
  "start_failure n =
     (let sv = nt_service n
      in if sv_onGoing sv then APP_SERVICE_IS_ALREADY_STARTED
         else if \<not> sv_iocpCore sv then APP_SERVICE_IOCPCORE_NULLPTR
         else if \<not> sv_sessionFactory sv then APP_SERVICE_SESSIONFACTORY_NULLPTR
         else if \<not> AddrUtils_IsValid (sv_addr sv) then APP_SERVICE_SOCKADDR_INVALID
         else NONE)"

lemma Start_checks_result:
  "Start_checks n =
     (start_failure n = NONE,
      if start_failure n = NONE then n else n\<lparr>nt_err := SetLastError (start_failure n) (nt_err n)\<rparr>)"
  by (simp add: Start_checks_def start_failure_def CheckError_def Let_def del: error_code.simps)

definition connect_ok :: "connect_io \<Rightarrow> bool" where
  "connect_ok io \<longleftrightarrow> ci_registered io \<and> ci_reuse io \<noteq> SOCKET_ERROR \<and> ci_bind io \<noteq> SOCKET_ERROR \<and>
     (io_res (ci_connect io) \<noteq> 0 \<or> io_error (ci_connect io) \<in> {0, WSA_IO_PENDING})"

lemma RegisterHandle_result:
  "sv_iocpCore (nt_service n) \<Longrightarrow>
     RegisterHandle registered n =
       Ok (registered, if registered then n
                       else n\<lparr>nt_err := SetLastError APP_REGISTER_HANDLE_FAILED_IOCP_CORE (nt_err n)\<rparr>)"
  by (simp add: RegisterHandle_def IOCPCore_RegisterHandle_def CheckError_def del: error_code.simps)

lemma Connector_Connect_result:
  assumes "sv_iocpCore (nt_service n)" and "\<not> cn_connected c"
  shows "\<exists>n'. Connector_Connect k c io n = Ok (connect_ok io, n') \<and>
    sv_onGoing (nt_service n') = sv_onGoing (nt_service n)"
  using assms
  by (auto simp: Connector_Connect_def RegisterHandle_result connect_ok_def WSACheckErrorExceptPending_def
      post_def trace_def Let_def)

lemma finish_start_result:
  "finish_start e suc n =
     (suc \<or> e = NONE, if suc \<or> e = NONE then upd_service (sv_onGoing_update (\<lambda>_. True))
                                           (if suc then n else n\<lparr>nt_err := SetLastError e (nt_err n)\<rparr>)
                      else n\<lparr>nt_err := SetLastError e (nt_err n)\<rparr>)"
  by (simp add: finish_start_def CheckError_def del: error_code.simps)

section \<open>Accepting\<close>

text \<open>An attempt that goes well makes session \<open>q\<close>.\<close>

definition good_attempt :: "nat \<Rightarrow> accept_io \<Rightarrow> bool" where
  "good_attempt q x \<longleftrightarrow> ns_ref (ai_session x) = Some q \<and> ns_registered (ai_session x) \<and> io_res (ai_accept x) \<noteq> 0"

abbreviation (input) add_session :: "nat \<Rightarrow> nat list \<Rightarrow> nat list" where
  "add_session q ss \<equiv> (if q \<in> set ss then ss else insort q ss)"

lemma ServerService_AddNewSession_result:
  assumes "sv_iocpCore (nt_service n)" "sv_sessionFactory (nt_service n)"
    and "sv_impl (nt_service n) = ServerService b ss l" "ns_ref x = Some q" "ns_registered x"
  shows "\<exists>n'. AddNewSession x n = Ok (Some q, n') \<and>
    sv_impl (nt_service n') = ServerService b (add_session q ss) l \<and>
    (\<exists>s. nt_session n' = (nt_session n)(q := s) \<and> se_socket s = ns_socket x \<and>
         se_recvBuffer s = RecvBuffer_new RECV_BUFFER_SIZE) \<and>
    nt_trace n' = nt_trace n"
  using assms
  by (auto simp: AddNewSession_def ServerService_AddNewSession_def call_sessionFactory_def Session_new_def
      register_session_def RegisterHandle_result)

lemma Listener_RegisterAccept_good:
  assumes sv: "sv_iocpCore (nt_service n)" "sv_sessionFactory (nt_service n)"
    and impl: "sv_impl (nt_service n) = ServerService b ss (Some l)" and x: "good_attempt q x"
  shows "\<exists>n'. Listener_RegisterAccept k (x # xs) n = Some (Ok (xs, n')) \<and>
    sv_impl (nt_service n') =
      ServerService b (add_session q ss) (Some (set_accept_event k (Some q) l)) \<and>
    (\<exists>s. nt_session n' = (nt_session n)(q := s)) \<and>
    nt_trace n' = nt_trace n @ [Posted (AcceptEx (ls_listenSocket l) (ns_socket (ai_session x))) True]"
proof -
  from ServerService_AddNewSession_result [OF sv impl, of "ai_session x" q] x
  obtain n1 s where "AddNewSession (ai_session x) n = Ok (Some q, n1)"
    "sv_impl (nt_service n1) = ServerService b (add_session q ss) (Some l)"
    "nt_session n1 = (nt_session n)(q := s)" "se_socket s = ns_socket (ai_session x)"
    "se_recvBuffer s = RecvBuffer_new RECV_BUFFER_SIZE" "nt_trace n1 = nt_trace n"
    by (auto simp: good_attempt_def)
  then show ?thesis
    using x by (auto simp: good_attempt_def RecvBuffer_WritePos_def RecvBuffer_new_def
        WSACheckErrorExceptPending_def Let_def post_def trace_def)
qed

section \<open>Stopping\<close>

text \<open>After \<^verbatim>\<open>Stop\<close> a service of any kind is not running and holds neither sessions nor a listener nor
  connectors; a server has posted a disconnect for each of its connected sessions.\<close>

lemma ServerService_ReleaseAllSessions_trace:
  assumes "\<forall>r \<in> set ss. io_res (io r) \<noteq> 0"
  shows "nt_trace (ServerService_ReleaseAllSessions ss io n) = nt_trace n @
      map (\<lambda>r. Posted (DisconnectEx (se_socket (nt_session n r))) True) (filter (\<lambda>r. se_connected (nt_session n r)) ss)"
  using assms
  by (induction ss arbitrary: n)
     (simp_all add: ServerService_ReleaseAllSessions_def Session_disconnect_connected)

lemma nt_service_disconnect [simp]: "nt_service (Session_disconnect r io n) = nt_service n"
  by (simp add: Session_disconnect_def Session_register_disconnect_def post_def trace_def split_beta Let_def)

lemma ServerService_ReleaseAllSessions_service [simp]:
  "nt_service (ServerService_ReleaseAllSessions ss io n) = nt_service n"
  by (induction ss arbitrary: n) (simp_all add: ServerService_ReleaseAllSessions_def)

lemma Service_Stop_stopped:
  assumes "Service_Stop listenRes closeRes io n = Ok (b, n')"
  shows "b" and "\<not> sv_onGoing (nt_service n')"
    and "get_listener (sv_impl (nt_service n')) = None" and "get_connector (sv_impl (nt_service n')) k = None"
  using assms
  by (auto simp: Service_Stop_def ClientService_Stop_def ServerService_Stop_def ClientServiceEx_Stop_def
      Listener_destroy_def Let_def dest!: reap_kept simp: net_kept_def simp del: reap.simps split: service_impl.splits option.splits)

section \<open>Releasing slots\<close>

text \<open>\<^verbatim>\<open>DisconnectAll\<close> needs every slot filled; releasing any session of a \<^verbatim>\<open>ClientServiceEx\<close> empties one.\<close>

lemma ClientServiceEx_DisconnectAll_null:
  "ClientServiceEx_DisconnectAll ss io n = Fault NullDereference \<longleftrightarrow> None \<in> set ss"
  by (induction ss io n rule: ClientServiceEx_DisconnectAll.induct) auto

lemma ClientServiceEx_DisconnectAll_after_release:
  assumes "Some r \<in> set ss"
  shows "ClientServiceEx_DisconnectAll (snd (ClientServiceEx_ReleaseSession r ss)) io n = Fault NullDereference"
proof -
  have "None \<in> set (snd (ClientServiceEx_ReleaseSession r ss))"
    using assms by (induction ss) (auto simp: split_beta)
  then show ?thesis by (simp add: ClientServiceEx_DisconnectAll_null)
qed

section \<open>Properties of services\<close>

text \<open>\<^verbatim>\<open>ClientService::Start\<close> on a client service always returns. It answers true exactly when the service is not
  running, has a completion port and a session factory and a valid address, and every socket call up
  to \<^verbatim>\<open>ConnectEx\<close> succeeds or is pending; then, and only then, the service becomes running. When it
  answers false the last error is that of the first failed condition, or
  \<^verbatim>\<open>APP_CLIENTSERVICE_CONNECT_FAILED\<close> for any failure of the connector.\<close>

theorem ClientService_Start_result:
  assumes "sv_serviceType (nt_service n) = ST_Client" and "sv_impl (nt_service n) = ClientService s conn"
  shows "\<exists>n'. ClientService_Start io n = Ok (start_failure n = NONE \<and> connect_ok io, n') \<and>
    (sv_onGoing (nt_service n') \<longleftrightarrow> sv_onGoing (nt_service n) \<or> (start_failure n = NONE \<and> connect_ok io)) \<and>
    ((start_failure n = NONE \<and> connect_ok io) \<or>
     GetLastError (nt_err n') = error_code (if start_failure n \<noteq> NONE then start_failure n
                                            else APP_CLIENTSERVICE_CONNECT_FAILED))"
proof (cases "start_failure n = NONE")
  case False
  then show ?thesis
    by (simp add: ClientService_Start_def Start_checks_result GetLastError_def SetLastError_def)
next
  case True
  then have iocp: "sv_iocpCore (nt_service n)" by (auto simp: start_failure_def Let_def split: if_splits)
  obtain c e where c: "Connector_new (ci_socket io) n = Ok (c, n\<lparr>nt_err := e\<rparr>)" "\<not> cn_connected c"
    using assms(1) by (simp add: Connector_new_def AssertCrash_if_def)
  let ?n2 = "set_impl (put_connector 0 c (sv_impl (nt_service n))) (n\<lparr>nt_err := e\<rparr>)"
  obtain n3 where "Connector_Connect 0 c io ?n2 = Ok (connect_ok io, n3)"
    "sv_onGoing (nt_service n3) = sv_onGoing (nt_service ?n2)"
    using Connector_Connect_result [of ?n2 c 0 io] iocp c(2) by auto
  with True c(1) show ?thesis
    by (auto simp: ClientService_Start_def Start_checks_result finish_start_result GetLastError_def SetLastError_def)
qed

theorem ClientService_Start_result_witness:
  "\<exists>n'. ClientService_Start \<lparr>ci_socket = 3, ci_registered = True, ci_reuse = 0, ci_bind = 0,
         ci_connect = \<lparr>io_res = 0, io_error = 10061\<rparr>\<rparr>
       (demo_net\<lparr>nt_service := ClientService_new True (AddrUtils_GetMyAddress 8080) True\<rparr>) = Ok (False, n') \<and>
     GetLastError (nt_err n') = error_code APP_CLIENTSERVICE_CONNECT_FAILED"
proof -
  let ?n = "demo_net\<lparr>nt_service := ClientService_new True (AddrUtils_GetMyAddress 8080) True\<rparr>"
  let ?io = "\<lparr>ci_socket = 3, ci_registered = True, ci_reuse = 0, ci_bind = 0,
         ci_connect = \<lparr>io_res = 0, io_error = 10061\<rparr>\<rparr>"
  have "start_failure ?n = NONE"
    by (simp add: start_failure_def ClientService_new_def Service_new_def Let_def)
  moreover have "\<not> connect_ok ?io" by (simp add: connect_ok_def WSA_IO_PENDING_def)
  ultimately show ?thesis
    using ClientService_Start_result [of ?n None None ?io]
    by (auto simp: ClientService_new_def Service_new_def simp del: error_code.simps)
qed

text \<open>When \<^verbatim>\<open>ProcessAccept\<close> handles an accepted session whose socket could be updated, and the next
  \<^verbatim>\<open>AcceptEx\<close> is posted at the first attempt, the session is connected, its \<^verbatim>\<open>OnConnected\<close> is called and
  its first receive is posted into the whole empty buffer; the same event then waits with a new
  session, which the server has added to its sessions, and the other events are untouched, so the
  number of waiting events stays the same. The result of \<^verbatim>\<open>getpeername\<close> makes no difference.\<close>

theorem Listener_ProcessAccept_accepts:
  assumes "sv_iocpCore (nt_service n)" "sv_sessionFactory (nt_service n)"
    and "sv_impl (nt_service n) = ServerService b ss (Some l)"
    and "k < length (ls_acceptEvents l)" "ae_session (ls_acceptEvents l ! k) = Some r"
    and "recv_ready r (upd_session r (se_connected_update (\<lambda>_. True)) n)"
    and "upd \<noteq> SOCKET_ERROR" "good_attempt q x" "q \<noteq> r"
  shows "\<exists>n'. Listener_ProcessAccept k upd peer io (x # xs) n = Some (Ok (xs, n')) \<and>
    se_connected (nt_session n' r) \<and> se_service (nt_session n' r) \<and>
    sv_impl (nt_service n') =
      ServerService b (add_session q ss) (Some (set_accept_event k (Some q) l)) \<and>
    nt_trace n' = nt_trace n @ [OnConnected r, recv_posted r io n,
       Posted (AcceptEx (ls_listenSocket l) (ns_socket (ai_session x))) True]"
proof -
  let ?n1 = "Session_OnConnected r (upd_session r (\<lambda>s. s\<lparr>se_service := True, se_connected := True\<rparr>) n)"
  have "bool_int32 peer \<noteq> SOCKET_ERROR" by (simp add: bool_int32_def SOCKET_ERROR_def)
  moreover have posted: "recv_posted r io ?n1 = recv_posted r io n" by (simp add: recv_posted_def)
  have "recv_ready r ?n1" using assms(6) by (simp add: recv_ready_def Session_OnConnected_def)
  then have "Session_set_connected r INVALID_SOCKET io n = Ok (recv_armed r io ?n1)"
    by (simp add: Session_set_connected_def Session_register_recv_ready)
  moreover obtain n' where
    "Listener_RegisterAccept k (x # xs) (recv_armed r io ?n1) = Some (Ok (xs, n'))"
    "sv_impl (nt_service n') =
      ServerService b (add_session q ss) (Some (set_accept_event k (Some q) l))"
    "\<exists>s. nt_session n' = (nt_session (recv_armed r io ?n1))(q := s)"
    "nt_trace n' = nt_trace ?n1 @ [recv_posted r io n, Posted (AcceptEx (ls_listenSocket l) (ns_socket (ai_session x))) True]"
    using Listener_RegisterAccept_good [of "recv_armed r io ?n1" b ss l q x k xs] assms(1,2,3,8)
    by (auto simp: posted simp del: Listener_RegisterAccept.simps)
  ultimately show ?thesis
    using assms(3-5,7,9)
    by (auto simp: Listener_ProcessAccept_def AcceptEvent_GetSessionRef_def socket_check_results
        simp del: Listener_RegisterAccept.simps)
qed

theorem Listener_ProcessAccept_accepts_witness:
  "\<exists>n'. Listener_ProcessAccept 0 0 (-1) \<lparr>io_res = 0, io_error = 0\<rparr>
       [\<lparr>ai_session = \<lparr>ns_ref = Some 1, ns_socket = 6, ns_registered = True, ns_close = 0\<rparr>, ai_accept = \<lparr>io_res = 1, io_error = 0\<rparr>\<rparr>]
       demo_net = Some (Ok ([], n')) \<and>
     nt_trace n' = [OnConnected 0, Posted (WSARecv 5 0 65536) True, Posted (AcceptEx 4 6) True]"
proof -
  have "recv_ready 0 (upd_session 0 (se_connected_update (\<lambda>_. True)) demo_net)"
    using demo_net_ready by (simp add: recv_ready_def)
  from Listener_ProcessAccept_accepts [of demo_net 100 "[0]" "\<lparr>ls_listenSocket = 4, ls_acceptEvents = [AcceptEvent_SetSessionRef (Some 0) (arm Listener_obj (AcceptEvent_new zeroed))]\<rparr>"
      0 0 0 1 "\<lparr>ai_session = \<lparr>ns_ref = Some 1, ns_socket = 6, ns_registered = True, ns_close = 0\<rparr>, ai_accept = \<lparr>io_res = 1, io_error = 0\<rparr>\<rparr>"
      "-1" "\<lparr>io_res = 0, io_error = 0\<rparr>" "[]", OF _ _ _ _ _ this]
  show ?thesis
    by (auto simp: demo_net_def good_attempt_def SOCKET_ERROR_def recv_posted_def AcceptEvent_SetSessionRef_def)
qed

end
