(* ===== verification/Memory_Lifetime.thy ===== *)
theory Memory_Lifetime
  imports Memory_Pool
begin

text \<open>
  From the constructor of \<^verbatim>\<open>Memory\<close> to its destructor (\<^verbatim>\<open>src/MyNetworkLib/Memory.cpp\<close>): every block that
  was ever allocated is in use, on the list of its pool, or freed, so that the destructor of a memory
  none of whose blocks is in use frees everything. The claim of \<open>Memory_Pool\<close> that live blocks are
  apart is the first half; here the invariant of its allocator is extended and interpreted again.
\<close>

section \<open>Every block is accounted for\<close>

definition accounted :: "memory \<times> mem_heap \<Rightarrow> ((nat \<times> int) \<times> int32) list \<Rightarrow> bool" where
  "accounted mh L \<longleftrightarrow> (\<forall>i < length (snd mh). snd mh ! i \<noteq> None \<longrightarrow>
     i \<in> (\<lambda>x. fst (fst x)) ` set L \<or> (\<exists>j < length (mm_pools (fst mh)). i \<in> set (mp_list (mm_pools (fst mh) ! j))))"

definition mem_full :: "int32 \<Rightarrow> memory \<times> mem_heap \<Rightarrow> ((nat \<times> int) \<times> int32) list \<Rightarrow> bool" where
  "mem_full hdr mh L \<longleftrightarrow> mem_inv hdr mh L \<and> accounted mh L"

lemma accountedI:
  assumes "\<And>i. i < length h \<Longrightarrow> h ! i \<noteq> None \<Longrightarrow>
    i \<in> (\<lambda>x. fst (fst x)) ` set L \<or> (\<exists>j < length (mm_pools m). i \<in> set (mp_list (mm_pools m ! j)))"
  shows "accounted (m, h) L"
  using assms by (simp add: accounted_def)

lemma accountedD:
  assumes "accounted (m, h) L" and "i < length h" "h ! i \<noteq> None" "i \<notin> (\<lambda>x. fst (fst x)) ` set L"
  obtains j where "j < length (mm_pools m)" "i \<in> set (mp_list (mm_pools m ! j))"
  using assms by (auto simp: accounted_def)

text \<open>What \<^verbatim>\<open>Acquire\<close> takes from the pool is the block it returns, and it makes at most that one.\<close>

lemma MemoryPool_Acquire_takes:
  assumes "MemoryPool_Acquire avail p h s = Ok (i, p', h')"
  shows "set (mp_list p) \<subseteq> insert i (set (mp_list p'))"
    and "length h' \<le> Suc (length h)" and "length h' = Suc (length h) \<Longrightarrow> i = length h"
    and "\<And>k. k < length h \<Longrightarrow> h' ! k = h ! k"
  using assms
  by (auto simp: MemoryPool_Acquire_def aligned_malloc_def ASSERT_CRASH_def set_allocSize_def block_at_def
      nth_append split: list.splits if_splits)

lemma accounted_alloc:
  assumes inv: "mem_inv hdr (m, h) L" and acc: "accounted (m, h) L"
    and a: "Memory_Allocate hdr avail sz m h s = Ok (ptr, m', h')"
  shows "accounted (m', h') ((ptr, sz) # L)"
  using inv a
proof (cases rule: Memory_Allocate_cases)
  case big
  show ?thesis
  proof (rule accountedI)
    fix i assume i: "i < length h'" "h' ! i \<noteq> None"
    show "i \<in> (\<lambda>x. fst (fst x)) ` set ((ptr, sz) # L) \<or> (\<exists>j < length (mm_pools m'). i \<in> set (mp_list (mm_pools m' ! j)))"
    proof (cases "i = length h")
      case False
      with i big have "i < length h" "h ! i \<noteq> None" by (auto simp: nth_append)
      with acc big(3) show ?thesis by (auto simp: accounted_def)
    qed (simp add: big(2))
  qed
next
  case (pool j k p h1 b)
  note T = MemoryPool_Acquire_takes [OF pool(5)]
  have len: "length (mm_pools m) = 56" using mem_invD(2) [OF inv] .
  show ?thesis
  proof (rule accountedI)
    fix i assume i: "i < length h'" "h' ! i \<noteq> None"
    show "i \<in> (\<lambda>x. fst (fst x)) ` set ((ptr, sz) # L) \<or> (\<exists>l < length (mm_pools m'). i \<in> set (mp_list (mm_pools m' ! l)))"
    proof (cases "i = k")
      case False
      with i pool(10) T(2,3) have "i < length h" by (cases "length h1 = Suc (length h)") auto
      with False i pool(10) T(4) have "h ! i \<noteq> None" by simp
      with \<open>i < length h\<close> acc consider "i \<in> (\<lambda>x. fst (fst x)) ` set L"
        | l where "l < 56" "i \<in> set (mp_list (mm_pools m ! l))" 
        using len unfolding accounted_def by (metis fst_conv snd_conv)
      then show ?thesis
      proof cases
        case (2 l)
        then have "i \<in> set (mp_list (mm_pools m' ! l))"
          using T(1) False pool(1) len by (cases "l = j") (auto simp: pool(7))
        with 2(1) len show ?thesis by (auto simp: pool(7))
      qed auto
    qed (simp add: pool(6))
  qed
qed

lemma Memory_Release_cases:
  assumes "Memory_Release hdr (i, off) m h = Ok (m', h')"
  obtains (big) "m' = m" "h' = h[i := None]"
  | (pool) a j p b where "Memory_pool_for a m = Ok j" "m' = m\<lparr>mm_pools := (mm_pools m)[j := p]\<rparr>"
      "mp_list p = i # mp_list (mm_pools m ! j)" "h' = h[i := Some b]"
proof -
  obtain b where b: "block_at i h = Ok b"
    using assms by (auto simp: Memory_Release_def MemoryHeader_DetachHeader_def Let_def)
  show ?thesis
  proof (cases "mb_allocSize b > 8192")
    case True
    with big assms b show ?thesis
      by (simp add: Memory_Release_def MemoryHeader_DetachHeader_def Let_def aligned_free_def)
  next
    case False
    then obtain j p where "Memory_pool_for (mb_allocSize b) m = Ok j"
      "MemoryPool_Release i (mm_pools m ! j) h = Ok (p, h')" "m' = m\<lparr>mm_pools := (mm_pools m)[j := p]\<rparr>"
      using assms b by (auto simp: Memory_Release_def MemoryHeader_DetachHeader_def Let_def)
    with pool show ?thesis by (auto simp: MemoryPool_Release_def set_allocSize_def)
  qed
qed

lemma accounted_free:
  assumes inv: "mem_inv hdr (m, h) (xs @ ((i, off), sz) # ys)" and acc: "accounted (m, h) (xs @ ((i, off), sz) # ys)"
    and r: "Memory_Release hdr (i, off) m h = Ok (m', h')"
  shows "accounted (m', h') (xs @ ys)"
proof (rule accountedI)
  fix x assume x: "x < length h'" "h' ! x \<noteq> None"
  have old: "x \<in> (\<lambda>x. fst (fst x)) ` set (xs @ ys) \<or> (\<exists>j < length (mm_pools m). x \<in> set (mp_list (mm_pools m ! j)))"
    if "x < length h" "h ! x \<noteq> None" "x \<noteq> i"
    using acc that by (auto simp: accounted_def)
  from r show "x \<in> (\<lambda>x. fst (fst x)) ` set (xs @ ys) \<or> (\<exists>j < length (mm_pools m'). x \<in> set (mp_list (mm_pools m' ! j)))"
  proof (cases rule: Memory_Release_cases)
    case big
    with x have "x \<noteq> i" "h ! x \<noteq> None" "x < length h" by (cases "x = i"; simp)+
    with old big show ?thesis by auto
  next
    case (pool a j p b)
    have j: "j < length (mm_pools m)"
      using pool(1) Memory_pool_for_eq [OF mem_invD(1) [OF inv], of a] mem_invD(2) [OF inv] by (auto split: if_splits)
    have pools: "set (mp_list (mm_pools m ! l)) \<subseteq> set (mp_list (mm_pools m' ! l))" "i \<in> set (mp_list (mm_pools m' ! j))"
      for l using pool(2,3) j by (cases "l = j"; auto)+
    show ?thesis
    proof (cases "x = i")
      case True
      with pools(2) j show ?thesis by (auto simp: pool(2))
    next
      case False
      with old x pool(4) have "x \<in> (\<lambda>x. fst (fst x)) ` set (xs @ ys) \<or> (\<exists>j < length (mm_pools m). x \<in> set (mp_list (mm_pools m ! j)))"
        by simp
      then show ?thesis using pools(1) by (auto simp: pool(2))
    qed
  qed
qed

interpretation Full: allocator "mem_full hdr" "mem_alloc hdr avail s" "mem_free hdr" "mem_room hdr"
    "\<lambda>p q. fst p \<noteq> fst q"
proof
  fix mh :: "memory \<times> mem_heap" and L
  show "mem_room hdr p sz mh" if "mem_full hdr mh L" "(p, sz) \<in> set L" for p sz
    using that Memory.inv_room unfolding mem_full_def by blast
  show "sorted_wrt (\<lambda>x y. fst (fst x) \<noteq> fst (fst y)) L" if "mem_full hdr mh L"
    using that Memory.inv_apart unfolding mem_full_def by blast
  show "mem_full hdr mh' ((p, sz) # L)" if "mem_full hdr mh L" "mem_alloc hdr avail s sz mh = Ok (p, mh')" for sz p mh'
    using that mem_alloc_inv [of hdr mh L avail s sz p mh'] 
      accounted_alloc [of hdr "fst mh" "snd mh" L avail sz s p "fst mh'" "snd mh'"]
    by (simp add: mem_full_def mem_alloc_def split_beta)
  show "\<exists>mh'. mem_free hdr p mh = Ok mh' \<and> mem_full hdr mh' (xs @ ys)" if full: "mem_full hdr mh (xs @ (p, sz) # ys)" for xs p sz ys
  proof -
    obtain mh' where r: "mem_free hdr p mh = Ok mh'" "mem_inv hdr mh' (xs @ ys)"
      using full Memory.free_inv [of hdr mh xs p sz ys] by (auto simp: mem_full_def)
    then have "accounted mh' (xs @ ys)"
      using full accounted_free [of hdr "fst mh" "snd mh" xs "fst p" "snd p" sz ys "fst mh'" "snd mh'"]
      by (simp add: mem_full_def mem_free_def split_beta)
    with r show ?thesis by (auto simp: mem_full_def)
  qed
qed

lemma mem_full_new: "mem_full hdr (Memory_new, []) []"
  using Memory_new_inv by (simp add: mem_full_def accounted_def)

section \<open>The destructor\<close>

lemma frees_nth:
  "length (foldl (\<lambda>h i. aligned_free i h) h is) = length h"
  "i < length h \<Longrightarrow> foldl (\<lambda>h i. aligned_free i h) h is ! i = (if i \<in> set is then None else h ! i)"
  by (induction "is" arbitrary: h) (auto simp: aligned_free_def nth_list_update)

lemma pools_destroyed:
  "length (foldl (\<lambda>h p. MemoryPool_destroy p h) h ps) = length h"
  "i < length h \<Longrightarrow> foldl (\<lambda>h p. MemoryPool_destroy p h) h ps ! i =
     (if \<exists>p \<in> set ps. i \<in> set (mp_list p) then None else h ! i)"
  by (induction ps arbitrary: h) (auto simp: MemoryPool_destroy_def frees_nth)

lemma Memory_destroy_frees:
  assumes "mem_full hdr (m, h) []"
  shows "length (Memory_destroy m h) = length h \<and> (\<forall>i < length h. Memory_destroy m h ! i = None)"
  using assms
  by (auto simp: Memory_destroy_def pools_destroyed mem_full_def accounted_def)

section \<open>The life of a memory\<close>

text \<open>C23. Nothing leaks: after any run without fault, releasing the live pointers one after the other
  succeeds; then every pool counts no block in use and has as many blocks on its list as
  \<^verbatim>\<open>poolCount()\<close> says, and the destructor frees every block that was ever allocated.\<close>

theorem Memory_release_all:
  assumes "alloc_run (mem_alloc hdr avail s) (mem_free hdr) ops [] (Memory_new, []) = Ok (L, mh)"
  shows "\<exists>m h. alloc_run (mem_alloc hdr avail s) (mem_free hdr) (replicate (length L) (Op_Free 0)) L mh =
      Ok ([], m, h) \<and>
    (\<forall>p \<in> set (mm_pools m). mp_useCount p = 0 \<and> mp_poolCount p = of_nat (length (mp_list p))) \<and>
    (\<forall>i < length h. Memory_destroy m h ! i = None)"
proof -
  from Full.run_inv [OF mem_full_new assms] have "mem_full hdr mh L" .
  from Full.run_frees [OF this, of avail s]
  obtain m h where run: "alloc_run (mem_alloc hdr avail s) (mem_free hdr) (replicate (length L) (Op_Free 0)) L mh =
      Ok ([], m, h)" and inv: "mem_inv hdr (m, h) []" and full: "mem_full hdr (m, h) []"
    by (auto simp: mem_full_def)
  have "mp_useCount p = 0 \<and> mp_poolCount p = of_nat (length (mp_list p))" if "p \<in> set (mm_pools m)" for p
    using that mem_invD(2,3) [OF inv] by (auto simp: in_set_conv_nth pool_ok_def uses_def)
  with run Memory_destroy_frees [OF full] show ?thesis by blast
qed

theorem Memory_release_all_witness:
  "\<exists>m h. alloc_run (mem_alloc 16 True \<lparr>app_last_error = 0\<rparr>) (mem_free 16) [Op_Free 0]
     [((0, 16), 9000)] (Memory_new, [Some \<lparr>mb_size = 9016, mb_allocSize = 9016\<rparr>]) = Ok ([], m, h) \<and>
     (\<forall>i < length h. Memory_destroy m h ! i = None)"
proof -
  have "alloc_run (mem_alloc 16 True \<lparr>app_last_error = 0\<rparr>) (mem_free 16) [Op_Alloc 9000] [] (Memory_new, []) =
      Ok ([((0, 16), 9000)], Memory_new, [Some \<lparr>mb_size = 9016, mb_allocSize = 9016\<rparr>])"
    by (simp add: mem_alloc_def Memory_Allocate_fresh)
  from Memory_release_all [OF this] show ?thesis by auto
qed

end
