(* ===== verification/Core_Global.thy ===== *)
theory Core_Global
  imports Tasks Memory_Lifetime Sockets
begin

text \<open>
  The global objects of the library from \<^verbatim>\<open>InitNetCore\<close> to the end of the process: \<^verbatim>\<open>CoreGlobal.cpp\<close>, the
  destructors of \<^verbatim>\<open>SendBufferManager\<close> and \<^verbatim>\<open>Memory\<close> it runs, \<^verbatim>\<open>CoreLogger.h\<close> and the string conversion of
  \<^verbatim>\<open>Utils.h\<close>, under \<^verbatim>\<open>src/MyNetworkLib/\<close>. What the logger asks of the glog library is recorded as a list of
  calls; the conversion routine of the system is an argument.
\<close>

section \<open>CoreLogger\<close>

datatype LogSeverity = GLOG_INFO | GLOG_WARNING | GLOG_ERROR | GLOG_FATAL

datatype glog_call =
    InitGoogleLogging string
  | Set_logtostderr bool
  | SetLogDestination LogSeverity string
  | ShutdownGoogleLogging

record LoggerConfig =
  LogToStderr :: bool
  DirPath :: string
  InfoPathPrefix :: string
  ErrorPathPrefix :: string
  FatalPathPrefix :: string
  WarningPathPrefix :: string

abbreviation (input) LOG_TO_STDERR :: bool where "LOG_TO_STDERR \<equiv> False"
abbreviation (input) INFO_PATH :: string where "INFO_PATH \<equiv> ''INFO_''"
abbreviation (input) ERROR_PATH :: string where "ERROR_PATH \<equiv> ''ERROR_''"
abbreviation (input) FATAL_PATH :: string where "FATAL_PATH \<equiv> ''FATAL_''"
abbreviation (input) WARNING_PATH :: string where "WARNING_PATH \<equiv> ''WARNING_''"

definition CoreLogger_set_log_path :: "LogSeverity \<Rightarrow> string \<Rightarrow> string \<Rightarrow> glog_call" where
  "CoreLogger_set_log_path severity dirPath pathPrefix =
     (let fullPath = dirPath @ ''/'' @ pathPrefix in SetLogDestination severity fullPath)"

definition CoreLogger_new :: "string \<Rightarrow> glog_call list" where
  "CoreLogger_new name =
     [InitGoogleLogging name, Set_logtostderr LOG_TO_STDERR,
      SetLogDestination GLOG_INFO INFO_PATH, SetLogDestination GLOG_ERROR ERROR_PATH,
      SetLogDestination GLOG_WARNING WARNING_PATH, SetLogDestination GLOG_FATAL FATAL_PATH]"

definition CoreLogger_new_dir :: "string \<Rightarrow> string \<Rightarrow> glog_call list" where
  "CoreLogger_new_dir name logdir =
     [InitGoogleLogging name, Set_logtostderr LOG_TO_STDERR,
      CoreLogger_set_log_path GLOG_INFO logdir INFO_PATH, CoreLogger_set_log_path GLOG_ERROR logdir ERROR_PATH,
      CoreLogger_set_log_path GLOG_WARNING logdir WARNING_PATH, CoreLogger_set_log_path GLOG_FATAL logdir FATAL_PATH]"

text \<open>A null configuration is dereferenced.\<close>

definition CoreLogger_new_config :: "string \<Rightarrow> LoggerConfig option \<Rightarrow> glog_call list outcome" where
  "CoreLogger_new_config name config =
     (case config of
        None \<Rightarrow> Fault NullDereference
      | Some c \<Rightarrow> Ok
          [InitGoogleLogging name, Set_logtostderr (LogToStderr c),
           CoreLogger_set_log_path GLOG_INFO (DirPath c) (InfoPathPrefix c),
           CoreLogger_set_log_path GLOG_ERROR (DirPath c) (ErrorPathPrefix c),
           CoreLogger_set_log_path GLOG_WARNING (DirPath c) (WarningPathPrefix c),
           CoreLogger_set_log_path GLOG_FATAL (DirPath c) (FatalPathPrefix c)])"

definition CoreLogger_destroy :: "glog_call list" where
  "CoreLogger_destroy = [ShutdownGoogleLogging]"

section \<open>Utils\<close>

text \<open>\<open>convert w n size\<close> stands for \<^verbatim>\<open>WideCharToMultiByte\<close> on the string \<open>w\<close> with \<open>n\<close> characters and a
  destination of \<open>size\<close> bytes: the count it returns and the bytes it writes.\<close>

definition Utils_ToString :: "(uint16 list \<Rightarrow> int32 \<Rightarrow> int32 \<Rightarrow> int32 \<times> ubyte list) \<Rightarrow> uint16 list \<Rightarrow> ubyte list" where
  "Utils_ToString convert wstr =
     (if wstr = [] then []
      else let size_needed = fst (convert wstr (of_nat (length wstr)) 0);
               str = replicate (unat size_needed) 0;
               written = snd (convert wstr (of_nat (length wstr)) size_needed)
           in store_bytes str 0 written)"

definition Utils_ToString_ptr ::
    "(uint16 list \<Rightarrow> int32 \<Rightarrow> int32 \<Rightarrow> int32 \<times> ubyte list) \<Rightarrow> uint16 list option \<Rightarrow> ubyte list" where
  "Utils_ToString_ptr convert wchar =
     (case wchar of None \<Rightarrow> [] | Some w \<Rightarrow> Utils_ToString convert (takeWhile (\<lambda>c. c \<noteq> 0) w))"

section \<open>CoreGlobal\<close>

text \<open>The global pointers, the heap their objects allocate from, and the calls made to glog. The vector
  of the send buffer manager is part of \<open>cg_send\<close>, with the buffers and the thread-local references.\<close>

record 'j core_global =
  cg_GLogger :: bool
  cg_GMemory :: "memory option"
  cg_GSendBufferManager :: bool
  cg_GGlobalJobWorker :: "'j global_worker option"
  cg_heap :: mem_heap
  cg_send :: sb_world
  cg_glog :: "glog_call list"
  cg_errors :: "uint32 \<rightharpoonup> string"
  cg_err :: err_state

definition CoreGlobal_new :: "nat \<Rightarrow> err_state \<Rightarrow> 'j core_global" where
  "CoreGlobal_new threads e =
     \<lparr>cg_GLogger = False, cg_GMemory = None, cg_GSendBufferManager = False, cg_GGlobalJobWorker = None, cg_heap = [],
      cg_send = sw_init threads, cg_glog = [], cg_errors = Map.empty, cg_err = e\<rparr>"

text \<open>What the calls of the socket library answer. The flag of a new \<^verbatim>\<open>GlobalJobWorker\<close> is not initialised:
  \<open>flag\<close>.\<close>

record socket_init =
  si_startup :: int32
  si_connectEx :: int32
  si_acceptEx :: int32
  si_disconnectEx :: int32
  si_socket :: uint64
  si_close :: int32

text \<open>The two overloads of \<^verbatim>\<open>_init\<close> differ in the constructor of the logger.\<close>

definition init_after_logger :: "bool \<Rightarrow> socket_init \<Rightarrow> 'j core_global \<Rightarrow> 'j core_global outcome" where
  "init_after_logger flag io g =
     and_then (SocketUtils_Init (si_startup io) (si_connectEx io) (si_acceptEx io) (si_disconnectEx io)
                 (si_socket io) (si_close io) (cg_err g)) (\<lambda>e.
       Ok (g\<lparr>cg_GMemory := Some Memory_new, cg_GSendBufferManager := True, cg_send := (cg_send g)\<lparr>sw_pool := []\<rparr>,
             cg_GGlobalJobWorker := Some \<lparr>gw_reservableQueue = [], gw_executingReservables = flag, gw_jobQueue = LockQueue_new\<rparr>,
             cg_errors := InitErrorMap (cg_errors g), cg_err := e\<rparr>))"

definition CoreGlobal_init :: "string \<Rightarrow> string \<Rightarrow> bool \<Rightarrow> socket_init \<Rightarrow> 'j core_global \<Rightarrow> 'j core_global outcome" where
  "CoreGlobal_init argv0 logdir flag io g =
     init_after_logger flag io (g\<lparr>cg_GLogger := True, cg_glog := cg_glog g @ CoreLogger_new_dir argv0 logdir\<rparr>)"

definition CoreGlobal_init_config ::
    "string \<Rightarrow> LoggerConfig option \<Rightarrow> bool \<Rightarrow> socket_init \<Rightarrow> 'j core_global \<Rightarrow> 'j core_global outcome" where
  "CoreGlobal_init_config argv0 config flag io g =
     and_then (CoreLogger_new_config argv0 config) (\<lambda>calls.
       init_after_logger flag io (g\<lparr>cg_GLogger := True, cg_glog := cg_glog g @ calls\<rparr>))"

definition InitNetCore where "InitNetCore = CoreGlobal_init"
definition InitNetCore_config where "InitNetCore_config = CoreGlobal_init_config"

text \<open>Destroying the vector of the manager releases its references from the first on. With the last
  reference to a buffer goes its deleter \<^verbatim>\<open>_push\<close>, which appends to the vector that is being destroyed.\<close>

fun destroy_buffers :: "nat list \<Rightarrow> sb_world \<Rightarrow> unit outcome" where
  "destroy_buffers [] w = Ok ()"
| "destroy_buffers (i # is) w =
     (if Some i \<in> set (sw_tls w) \<or> i \<in> set is then destroy_buffers is w else Fault UseAfterFree)"

definition SendBufferManager_destroy :: "sb_world \<Rightarrow> sb_world outcome" where
  "SendBufferManager_destroy w =
     and_then (destroy_buffers (sw_pool w) w) (\<lambda>_. Ok (w\<lparr>sw_pool := []\<rparr>))"

definition CoreGlobal_destroy :: "int32 \<Rightarrow> 'j core_global \<Rightarrow> 'j core_global outcome" where
  "CoreGlobal_destroy cleanup g =
     (let g1 = g\<lparr>cg_GGlobalJobWorker := None\<rparr>
      in and_then (if cg_GSendBufferManager g1 then SendBufferManager_destroy (cg_send g1) else Ok (cg_send g1)) (\<lambda>w.
         let g2 = g1\<lparr>cg_GSendBufferManager := False, cg_send := w\<rparr>;
             g3 = g2\<lparr>cg_GMemory := None,
                     cg_heap := (case cg_GMemory g2 of None \<Rightarrow> cg_heap g2 | Some m \<Rightarrow> Memory_destroy m (cg_heap g2))\<rparr>;
             g4 = g3\<lparr>cg_GLogger := False, cg_glog := cg_glog g3 @ (if cg_GLogger g3 then CoreLogger_destroy else [])\<rparr>
         in and_then (SocketUtils_Clear cleanup (cg_err g4)) (\<lambda>(_, e). Ok (g4\<lparr>cg_err := e\<rparr>))))"

text \<open>When \<^verbatim>\<open>main\<close> returns, the thread-local variables of its thread are destroyed before the static
  object \<^verbatim>\<open>GCoreGlobal\<close>.\<close>

definition exit_main :: "nat \<Rightarrow> int32 \<Rightarrow> 'j core_global \<Rightarrow> 'j core_global outcome" where
  "exit_main t cleanup g = CoreGlobal_destroy cleanup (g\<lparr>cg_send := exit_tls_SendBuffer t (cg_send g)\<rparr>)"

section \<open>Start-up\<close>

text \<open>The constructor with a directory is the one with a configuration of the default prefixes.\<close>

lemma CoreLogger_new_dir_config:
  "CoreLogger_new_config name (Some \<lparr>LogToStderr = LOG_TO_STDERR, DirPath = d, InfoPathPrefix = INFO_PATH,
      ErrorPathPrefix = ERROR_PATH, FatalPathPrefix = FATAL_PATH, WarningPathPrefix = WARNING_PATH\<rparr>) =
   Ok (CoreLogger_new_dir name d)"
  by (simp add: CoreLogger_new_config_def CoreLogger_new_dir_def)

lemma init_after_logger_returns:
  "\<exists>e. init_after_logger flag io g =
     Ok (g\<lparr>cg_GMemory := Some Memory_new, cg_GSendBufferManager := True, cg_send := (cg_send g)\<lparr>sw_pool := []\<rparr>,
           cg_GGlobalJobWorker := Some \<lparr>gw_reservableQueue = [], gw_executingReservables = flag, gw_jobQueue = LockQueue_new\<rparr>,
           cg_errors := InitErrorMap (cg_errors g), cg_err := e\<rparr>)"
proof -
  obtain e where "SocketUtils_Init (si_startup io) (si_connectEx io) (si_acceptEx io) (si_disconnectEx io)
      (si_socket io) (si_close io) (cg_err g) = Ok e" using SocketUtils_Init_returns by blast
  then show ?thesis by (auto simp: init_after_logger_def)
qed

text \<open>Initialisation always completes, whatever the socket library answers, and leaves every error
  code with its name.\<close>

lemma CoreGlobal_init_returns:
  "\<exists>g. CoreGlobal_init argv0 logdir flag io (CoreGlobal_new threads e) = Ok g \<and> cg_GMemory g = Some Memory_new \<and>
     cg_GSendBufferManager g \<and> cg_send g = sw_init threads \<and> GetErrorName (cg_errors g) (error_code c) = error_name c"
  using init_after_logger_returns [of flag io "(CoreGlobal_new threads e)
      \<lparr>cg_GLogger := True, cg_glog := cg_glog (CoreGlobal_new threads e) @ CoreLogger_new_dir argv0 logdir\<rparr>"]
  by (auto simp: CoreGlobal_init_def CoreGlobal_new_def sw_init_def GetErrorName_code)

text \<open>The two calls of the conversion routine fit together when the first returns the size of what the
  second writes.\<close>

lemma Utils_ToString_result:
  assumes "convert w (of_nat (length w)) 0 = (of_nat (length u), [])"
    and "convert w (of_nat (length w)) (of_nat (length u)) = (of_nat (length u), u)"
    and "w \<noteq> []" "length u < 2 ^ 31"
  shows "Utils_ToString convert w = u"
  using assms by (simp add: Utils_ToString_def store_bytes_def unat_of_nat_small)

section \<open>The end of the process\<close>

lemma destroy_buffers_distinct:
  assumes "distinct is" "\<forall>i \<in> set is. Some i \<notin> set (sw_tls w)"
  shows "destroy_buffers is w = (if is = [] then Ok () else Fault UseAfterFree)"
  using assms by (cases "is") auto

text \<open>Once the other threads have ended, all references are in the vector when the manager is destroyed.\<close>

lemma SendBufferManager_destroy_last:
  assumes inv: "sw_inv w" and "\<forall>u < length (sw_tls w). sw_tls w ! u = None"
  shows "SendBufferManager_destroy w = (if sw_pool w = [] then Ok w else Fault UseAfterFree)"
proof -
  have "Some i \<notin> set (sw_tls w)" for i using assms(2) by (auto simp: in_set_conv_nth)
  with inv show ?thesis
    by (auto simp: SendBufferManager_destroy_def destroy_buffers_distinct sw_inv_def held_ids_def)
qed

lemma exit_main_world:
  assumes inv: "sw_inv w" and t: "t < length (sw_tls w)" and others: "\<forall>u < length (sw_tls w). u \<noteq> t \<longrightarrow> sw_tls w ! u = None"
  shows "sw_inv (exit_tls_SendBuffer t w)" and "\<forall>u < length (sw_tls w). sw_tls (exit_tls_SendBuffer t w) ! u = None"
    and "length (sw_tls (exit_tls_SendBuffer t w)) = length (sw_tls w)"
    and "sw_pool (exit_tls_SendBuffer t w) = [] \<longleftrightarrow> sw_pool w = [] \<and> TLS_SendBuffer t w = None"
proof -
  let ?w = "exit_tls_SendBuffer t w"
  show "sw_inv ?w" using set_TLS_inv [OF inv t, of None] by (simp add: exit_tls_SendBuffer_def)
  have tls: "sw_tls ?w = (sw_tls w)[t := None]"
    by (simp add: exit_tls_SendBuffer_def)
  then show none: "\<forall>u < length (sw_tls w). sw_tls ?w ! u = None" and "length (sw_tls ?w) = length (sw_tls w)"
    using others t by (auto simp: nth_list_update)
  have "mset (held_ids ?w) = mset (held_ids w)"
    using set_TLS_held [OF t, of None] inv by (simp add: exit_tls_SendBuffer_def sw_inv_def)
  moreover have "List.map_filter id (sw_tls ?w) = []"
    using none by (auto simp: List.map_filter_def filter_empty_conv in_set_conv_nth tls)
  moreover have "List.map_filter id (sw_tls w) = [] \<longleftrightarrow> TLS_SendBuffer t w = None"
    using others t nth_mem [OF t] by (force simp: List.map_filter_def filter_empty_conv in_set_conv_nth TLS_SendBuffer_def)
  ultimately show "sw_pool ?w = [] \<longleftrightarrow> sw_pool w = [] \<and> TLS_SendBuffer t w = None"
    by (auto simp: held_ids_def)
qed

text \<open>C32. When the process ends after its other threads, the destruction of the global objects succeeds
  only if no thread ever took a send buffer: then every object is gone and glog is
  shut down. If a task manager ever existed, the main thread's buffer is back in the pool by then,
  and the destructor of \<^verbatim>\<open>SendBufferManager\<close> runs the deleter \<^verbatim>\<open>_push\<close>, which appends to the vector that is
  being destroyed.\<close>

theorem exit_main_result:
  assumes "cg_GSendBufferManager g" "cg_GLogger g" and "sw_inv (cg_send g)" and "t < length (sw_tls (cg_send g))"
    and "\<forall>u < length (sw_tls (cg_send g)). u \<noteq> t \<longrightarrow> sw_tls (cg_send g) ! u = None"
  shows "(if sw_pool (cg_send g) = [] \<and> TLS_SendBuffer t (cg_send g) = None
    then \<exists>g'. exit_main t cleanup g = Ok g' \<and> \<not> cg_GLogger g' \<and> cg_GMemory g' = None \<and> \<not> cg_GSendBufferManager g' \<and>
        cg_GGlobalJobWorker g' = None \<and> cg_glog g' = cg_glog g @ [ShutdownGoogleLogging]
    else exit_main t cleanup g = Fault UseAfterFree)"
proof -
  let ?w = "exit_tls_SendBuffer t (cg_send g)"
  note W = exit_main_world [OF assms(3-5)]
  have "SendBufferManager_destroy ?w = (if sw_pool ?w = [] then Ok ?w else Fault UseAfterFree)"
    by (rule SendBufferManager_destroy_last [OF W(1)]) (use W(2,3) in simp)
  moreover obtain b e where "SocketUtils_Clear cleanup (cg_err g) = Ok (b, e)"
    by (auto simp: SocketUtils_Clear_def socket_check_results)
  ultimately show ?thesis
    using W(4) assms(1,2) by (auto simp: exit_main_def CoreGlobal_destroy_def CoreLogger_destroy_def Let_def)
qed

text \<open>A program that initialises the library and has a task manager, on its only thread.\<close>

definition small_program :: "unit core_global" where
  "small_program = (CoreGlobal_new 1 \<lparr>app_last_error = 0\<rparr>)\<lparr>cg_GLogger := True, cg_GSendBufferManager := True,
     cg_send := tls_send (snd (TaskManager_new 0 (tls_initial 1)))\<rparr>"

theorem exit_main_result_witness:
  "exit_main 0 0 small_program = Fault UseAfterFree \<and>
   (\<exists>g'. exit_main 0 0 (small_program\<lparr>cg_send := sw_init 1\<rparr>) = Ok g' \<and> \<not> cg_GLogger g')"
proof
  have w: "cg_send small_program = \<lparr>sw_heap = [SendBuffer_new], sw_pool = [], sw_tls = [Some 0]\<rparr>"
    by (simp add: small_program_def TaskManager_new_def TaskManager_get_new_task_id_def TaskManager_init_tls_def
        init_tls_SendBuffer_def SendBufferManager_Pop_def set_TLS_SendBuffer_def TLS_SendBuffer_def release_sptr_def
        tls_initial_def sw_init_def Let_def)
  have "sw_inv (cg_send small_program)"
    by (simp add: w sw_inv_def held_ids_def List.map_filter_simps)
  moreover have "cg_GSendBufferManager small_program" "cg_GLogger small_program" by (simp_all add: small_program_def)
  ultimately show "exit_main 0 0 small_program = Fault UseAfterFree"
    using exit_main_result [of small_program 0 0] by (simp add: w TLS_SendBuffer_def)
  show "\<exists>g'. exit_main 0 0 (small_program\<lparr>cg_send := sw_init 1\<rparr>) = Ok g' \<and> \<not> cg_GLogger g'"
    using exit_main_result [of "small_program\<lparr>cg_send := sw_init 1\<rparr>" 0 0] sw_inv_init [of 1]
    by (auto simp: sw_init_def TLS_SendBuffer_def small_program_def)
qed

end
