(* ===== verification/FlatBuffers_Interface.thy ===== *)
theory FlatBuffers_Interface
  imports Packets
begin

text \<open>
  What the packet types under \<^verbatim>\<open>src/includes/fbs/\<close> use of the FlatBuffers library, which is not part of the
  repository: the operations of \<^verbatim>\<open>FlatBufferBuilder\<close>, \<^verbatim>\<open>Table\<close> and \<^verbatim>\<open>Verifier\<close> as a record of functions that
  the definitions of \<open>Packet_Types\<close> take as an argument, and what the library's documentation says of
  them as three predicates. An offset, a pointer into a buffer, a builder and a verifier are
  values of types that only the library knows. The last section has functions that satisfy the
  predicates; they stand for the library in examples.
\<close>

section \<open>The operations\<close>

text \<open>The struct of \<^verbatim>\<open>Test_generated.h\<close>; a float is its 32 bits. Scalars are stored in the order of the
  platform, which is that of the format, so that \<^verbatim>\<open>EndianScalar\<close> changes nothing.\<close>

record vec3 =
  v3_x :: uint32
  v3_y :: uint32
  v3_z :: uint32

text \<open>\<open>AddElement\<close> and \<open>GetField\<close> are templates; the widths are the ones the packet types use. A pointer
  in a table is \<open>None\<close> when it is null. \<open>VerifyTable\<close> and \<open>VerifyBuffer\<close> call the \<^verbatim>\<open>Verify\<close> method of the
  table type.\<close>

record ('b, 'o, 'p, 'v) flatbuffers =
  fb_null :: 'o
  fb_CreateString :: "string \<Rightarrow> 'b \<Rightarrow> 'o \<times> 'b"
  fb_CreateVector :: "ubyte list \<Rightarrow> 'b \<Rightarrow> 'o \<times> 'b"
  fb_StartTable :: "'b \<Rightarrow> 'o \<times> 'b"
  fb_AddElement8 :: "uint16 \<Rightarrow> ubyte \<Rightarrow> ubyte \<Rightarrow> 'b \<Rightarrow> 'b"
  fb_AddElement16 :: "uint16 \<Rightarrow> uint16 \<Rightarrow> uint16 \<Rightarrow> 'b \<Rightarrow> 'b"
  fb_AddElement32 :: "uint16 \<Rightarrow> uint32 \<Rightarrow> uint32 \<Rightarrow> 'b \<Rightarrow> 'b"
  fb_AddStruct :: "uint16 \<Rightarrow> vec3 option \<Rightarrow> 'b \<Rightarrow> 'b"
  fb_AddOffset :: "uint16 \<Rightarrow> 'o \<Rightarrow> 'b \<Rightarrow> 'b"
  fb_EndTable :: "'o \<Rightarrow> 'b \<Rightarrow> 'o \<times> 'b"
  fb_Finish :: "'o \<Rightarrow> 'b \<Rightarrow> 'b"
  fb_FinishSizePrefixed :: "'o \<Rightarrow> 'b \<Rightarrow> 'b"
  fb_buffer :: "'b \<Rightarrow> ubyte list"
  fb_GetRoot :: "ubyte list \<Rightarrow> 'p"
  fb_GetSizePrefixedRoot :: "ubyte list \<Rightarrow> 'p"
  fb_GetField8 :: "uint16 \<Rightarrow> ubyte \<Rightarrow> 'p \<Rightarrow> ubyte"
  fb_GetField16 :: "uint16 \<Rightarrow> uint16 \<Rightarrow> 'p \<Rightarrow> uint16"
  fb_GetField32 :: "uint16 \<Rightarrow> uint32 \<Rightarrow> 'p \<Rightarrow> uint32"
  fb_GetStruct :: "uint16 \<Rightarrow> 'p \<Rightarrow> vec3 option"
  fb_GetPointer :: "uint16 \<Rightarrow> 'p \<Rightarrow> 'p option"
  fb_String :: "'p \<Rightarrow> string"
  fb_Vector :: "'p \<Rightarrow> ubyte list"
  fv_VerifyTableStart :: "'p \<Rightarrow> 'v \<Rightarrow> bool \<times> 'v"
  fv_VerifyField :: "nat \<Rightarrow> uint16 \<Rightarrow> nat \<Rightarrow> 'p \<Rightarrow> 'v \<Rightarrow> bool \<times> 'v"
  fv_VerifyOffset :: "uint16 \<Rightarrow> 'p \<Rightarrow> 'v \<Rightarrow> bool \<times> 'v"
  fv_VerifyString :: "'p option \<Rightarrow> 'v \<Rightarrow> bool \<times> 'v"
  fv_VerifyVector :: "'p option \<Rightarrow> 'v \<Rightarrow> bool \<times> 'v"
  fv_VerifyTable :: "('p \<Rightarrow> 'v \<Rightarrow> bool \<times> 'v) \<Rightarrow> 'p option \<Rightarrow> 'v \<Rightarrow> bool \<times> 'v"
  fv_VerifyBuffer :: "('p \<Rightarrow> 'v \<Rightarrow> bool \<times> 'v) \<Rightarrow> 'v \<Rightarrow> bool \<times> 'v"
  fv_VerifySizePrefixedBuffer :: "('p \<Rightarrow> 'v \<Rightarrow> bool \<times> 'v) \<Rightarrow> 'v \<Rightarrow> bool \<times> 'v"
  fv_EndTable :: "'v \<Rightarrow> bool \<times> 'v"

section \<open>What the library promises\<close>

text \<open>The values in a buffer; a table has the fields that were stored, the last one first.\<close>

datatype fb_value =
    V8 ubyte
  | V16 uint16
  | V32 uint32
  | VStruct vec3
  | VStr string
  | VVec "ubyte list"
  | VTab "(uint16 \<times> fb_value) list"

type_synonym fb_fields = "(uint16 \<times> fb_value) list"

text \<open>What a builder holds: the finished objects by their offset, and the table that is being built,
  with the offset at which it starts. Objects are made one after the other, never inside a table.\<close>

record 'o built =
  bt_object :: "'o \<Rightarrow> fb_value option"
  bt_open :: "('o \<times> fb_fields) option"
  bt_finished :: bool

definition idle :: "'o built \<Rightarrow> bool" where
  "idle t \<longleftrightarrow> bt_open t = None \<and> \<not> bt_finished t"

text \<open>A new object has an offset of its own, which is not null.\<close>

definition created :: "'o \<Rightarrow> fb_value \<Rightarrow> 'o built \<Rightarrow> 'o \<Rightarrow> 'o built \<Rightarrow> bool" where
  "created null v t p t' \<longleftrightarrow> p \<noteq> null \<and> bt_object t p = None \<and> t' = t\<lparr>bt_object := (bt_object t)(p \<mapsto> v)\<rparr>"

text \<open>A table under construction with the fields \<open>fs\<close>; \<open>t\<close> is what was there before it.\<close>

definition opened :: "'o built \<Rightarrow> 'o \<Rightarrow> fb_fields \<Rightarrow> 'o built \<Rightarrow> bool" where
  "opened t s fs t' \<longleftrightarrow> idle t \<and> t' = t\<lparr>bt_open := Some (s, fs)\<rparr>"

text \<open>A scalar that equals its default, a null struct and a null offset are not stored.\<close>

definition stored :: "bool \<Rightarrow> uint16 \<Rightarrow> fb_value \<Rightarrow> fb_fields \<Rightarrow> fb_fields" where
  "stored c vt v fs = (if c then (vt, v) # fs else fs)"

definition stored_struct :: "uint16 \<Rightarrow> vec3 option \<Rightarrow> fb_fields \<Rightarrow> fb_fields" where
  "stored_struct vt x fs = (case x of None \<Rightarrow> fs | Some v \<Rightarrow> (vt, VStruct v) # fs)"

text \<open>The offset of an object that may be missing.\<close>

definition offset_of :: "'o \<Rightarrow> 'o built \<Rightarrow> fb_value option \<Rightarrow> 'o \<Rightarrow> bool" where
  "offset_of null t v p \<longleftrightarrow> (case v of None \<Rightarrow> p = null | Some x \<Rightarrow> p \<noteq> null \<and> bt_object t p = Some x)"

definition stored_object :: "uint16 \<Rightarrow> fb_value option \<Rightarrow> fb_fields \<Rightarrow> fb_fields" where
  "stored_object vt v fs = (case v of None \<Rightarrow> fs | Some x \<Rightarrow> (vt, x) # fs)"

text \<open>\<^verbatim>\<open>FlatBufferBuilder\<close>, as long as its buffer does not reach the largest size.\<close>

definition builder_contract :: "('b, 'o, 'p, 'v) flatbuffers \<Rightarrow> ('b \<Rightarrow> 'o built) \<Rightarrow> bool" where
  "builder_contract fb view \<longleftrightarrow>
     (\<forall>b s. idle (view b) \<longrightarrow>
        created (fb_null fb) (VStr s) (view b) (fst (fb_CreateString fb s b)) (view (snd (fb_CreateString fb s b)))) \<and>
     (\<forall>b xs. idle (view b) \<longrightarrow>
        created (fb_null fb) (VVec xs) (view b) (fst (fb_CreateVector fb xs b)) (view (snd (fb_CreateVector fb xs b)))) \<and>
     (\<forall>b. idle (view b) \<longrightarrow> opened (view b) (fst (fb_StartTable fb b)) [] (view (snd (fb_StartTable fb b)))) \<and>
     (\<forall>b t s fs. opened t s fs (view b) \<longrightarrow>
        (\<forall>vt x d. opened t s (stored (x \<noteq> d) vt (V8 x) fs) (view (fb_AddElement8 fb vt x d b))) \<and>
        (\<forall>vt x d. opened t s (stored (x \<noteq> d) vt (V16 x) fs) (view (fb_AddElement16 fb vt x d b))) \<and>
        (\<forall>vt x d. opened t s (stored (x \<noteq> d) vt (V32 x) fs) (view (fb_AddElement32 fb vt x d b))) \<and>
        (\<forall>vt x. opened t s (stored_struct vt x fs) (view (fb_AddStruct fb vt x b))) \<and>
        (\<forall>vt p v. offset_of (fb_null fb) t v p \<longrightarrow> opened t s (stored_object vt v fs) (view (fb_AddOffset fb vt p b))) \<and>
        created (fb_null fb) (VTab fs) t (fst (fb_EndTable fb s b)) (view (snd (fb_EndTable fb s b))))"

text \<open>\<^verbatim>\<open>Table\<close>: \<open>val\<close> is what a pointer points at. An accessor of the type of the field returns what was
  stored, or the default (a null pointer) when nothing was.\<close>

fun field8 :: "ubyte \<Rightarrow> fb_value option \<Rightarrow> ubyte option" where
  "field8 d None = Some d"
| "field8 d (Some (V8 x)) = Some x"
| "field8 d _ = None"

fun field16 :: "uint16 \<Rightarrow> fb_value option \<Rightarrow> uint16 option" where
  "field16 d None = Some d"
| "field16 d (Some (V16 x)) = Some x"
| "field16 d _ = None"

fun field32 :: "uint32 \<Rightarrow> fb_value option \<Rightarrow> uint32 option" where
  "field32 d None = Some d"
| "field32 d (Some (V32 x)) = Some x"
| "field32 d _ = None"

fun field_struct :: "fb_value option \<Rightarrow> vec3 option option" where
  "field_struct None = Some None"
| "field_struct (Some (VStruct x)) = Some (Some x)"
| "field_struct _ = None"

fun field_object :: "fb_value option \<Rightarrow> fb_value option option" where
  "field_object None = Some None"
| "field_object (Some (VStr s)) = Some (Some (VStr s))"
| "field_object (Some (VVec xs)) = Some (Some (VVec xs))"
| "field_object (Some (VTab fs)) = Some (Some (VTab fs))"
| "field_object _ = None"

definition reader_contract :: "('b, 'o, 'p, 'v) flatbuffers \<Rightarrow> ('p \<Rightarrow> fb_value) \<Rightarrow> bool" where
  "reader_contract fb val \<longleftrightarrow>
     (\<forall>p fs vt. val p = VTab fs \<longrightarrow>
        (\<forall>d. field8 d (map_of fs vt) \<in> {None, Some (fb_GetField8 fb vt d p)}) \<and>
        (\<forall>d. field16 d (map_of fs vt) \<in> {None, Some (fb_GetField16 fb vt d p)}) \<and>
        (\<forall>d. field32 d (map_of fs vt) \<in> {None, Some (fb_GetField32 fb vt d p)}) \<and>
        field_struct (map_of fs vt) \<in> {None, Some (fb_GetStruct fb vt p)} \<and>
        field_object (map_of fs vt) \<in> {None, Some (map_option val (fb_GetPointer fb vt p))}) \<and>
     (\<forall>p s. val p = VStr s \<longrightarrow> fb_String fb p = s) \<and>
     (\<forall>p xs. val p = VVec xs \<longrightarrow> fb_Vector fb p = xs)"

text \<open>\<^verbatim>\<open>Finish\<close> and \<^verbatim>\<open>GetRoot\<close>: the finished buffer is read whatever follows it in memory.\<close>

definition buffer_contract :: "('b, 'o, 'p, 'v) flatbuffers \<Rightarrow> ('b \<Rightarrow> 'o built) \<Rightarrow> ('p \<Rightarrow> fb_value) \<Rightarrow> bool" where
  "buffer_contract fb view val \<longleftrightarrow>
     (\<forall>b p fs rest. idle (view b) \<longrightarrow> bt_object (view b) p = Some (VTab fs) \<longrightarrow>
        val (fb_GetRoot fb (fb_buffer fb (fb_Finish fb p b) @ rest)) = VTab fs \<and>
        val (fb_GetSizePrefixedRoot fb (fb_buffer fb (fb_FinishSizePrefixed fb p b) @ rest)) = VTab fs)"

text \<open>The contracts as rules.\<close>

lemma builder_create:
  assumes "builder_contract fb view" and "idle (view b)"
  shows "created (fb_null fb) (VStr s) (view b) (fst (fb_CreateString fb s b)) (view (snd (fb_CreateString fb s b)))"
    and "created (fb_null fb) (VVec xs) (view b) (fst (fb_CreateVector fb xs b)) (view (snd (fb_CreateVector fb xs b)))"
    and "opened (view b) (fst (fb_StartTable fb b)) [] (view (snd (fb_StartTable fb b)))"
  using assms by (simp_all add: builder_contract_def)

lemma builder_add:
  assumes "builder_contract fb view" and "opened t s fs (view b)"
  shows "opened t s (stored (x \<noteq> d) vt (V8 x) fs) (view (fb_AddElement8 fb vt x d b))"
    and "opened t s (stored (y \<noteq> e) vt (V16 y) fs) (view (fb_AddElement16 fb vt y e b))"
    and "opened t s (stored (z \<noteq> g) vt (V32 z) fs) (view (fb_AddElement32 fb vt z g b))"
    and "opened t s (stored_struct vt u fs) (view (fb_AddStruct fb vt u b))"
    and "offset_of (fb_null fb) t v p \<Longrightarrow> opened t s (stored_object vt v fs) (view (fb_AddOffset fb vt p b))"
    and "created (fb_null fb) (VTab fs) t (fst (fb_EndTable fb s b)) (view (snd (fb_EndTable fb s b)))"
  using assms by (simp_all add: builder_contract_def)

lemma idle_created: "created null v t p t' \<Longrightarrow> idle t' = idle t"
  by (simp add: created_def idle_def)

lemma created_offset: "created null v t p t' \<Longrightarrow> offset_of null t' (Some v) p"
  by (simp add: created_def offset_of_def)

lemma created_keeps: "created null v t p t' \<Longrightarrow> offset_of null t w q \<Longrightarrow> offset_of null t' w q"
  by (auto simp: created_def offset_of_def split: option.splits)

lemma offset_of_None [simp]: "offset_of null t None null"
  by (simp add: offset_of_def)

text \<open>Reading back what was stored.\<close>

lemmas stored_defs = stored_def stored_struct_def stored_object_def

lemma reader_fields:
  assumes "reader_contract fb val" "val p = VTab fs"
  shows "field8 d (map_of fs vt) = Some x \<Longrightarrow> fb_GetField8 fb vt d p = x"
    and "field16 e (map_of fs vt) = Some y \<Longrightarrow> fb_GetField16 fb vt e p = y"
    and "field32 g (map_of fs vt) = Some z \<Longrightarrow> fb_GetField32 fb vt g p = z"
    and "field_struct (map_of fs vt) = Some u \<Longrightarrow> fb_GetStruct fb vt p = u"
    and "field_object (map_of fs vt) = Some v \<Longrightarrow> map_option val (fb_GetPointer fb vt p) = v"
proof -
  from assms have "field8 d (map_of fs vt) \<in> {None, Some (fb_GetField8 fb vt d p)}"
    "field16 e (map_of fs vt) \<in> {None, Some (fb_GetField16 fb vt e p)}"
    "field32 g (map_of fs vt) \<in> {None, Some (fb_GetField32 fb vt g p)}"
    "field_struct (map_of fs vt) \<in> {None, Some (fb_GetStruct fb vt p)}"
    "field_object (map_of fs vt) \<in> {None, Some (map_option val (fb_GetPointer fb vt p))}"
    by (simp_all add: reader_contract_def)
  then show "field8 d (map_of fs vt) = Some x \<Longrightarrow> fb_GetField8 fb vt d p = x"
    "field16 e (map_of fs vt) = Some y \<Longrightarrow> fb_GetField16 fb vt e p = y"
    "field32 g (map_of fs vt) = Some z \<Longrightarrow> fb_GetField32 fb vt g p = z"
    "field_struct (map_of fs vt) = Some u \<Longrightarrow> fb_GetStruct fb vt p = u"
    "field_object (map_of fs vt) = Some v \<Longrightarrow> map_option val (fb_GetPointer fb vt p) = v" by auto
qed

lemma reader_string:
  assumes "reader_contract fb val" "val p = VTab fs" "map_of fs vt = map_option VStr s"
  shows "map_option (fb_String fb) (fb_GetPointer fb vt p) = s"
proof -
  have "map_option val (fb_GetPointer fb vt p) = map_option VStr s"
    using assms(3) by (intro reader_fields(5) [OF assms(1,2)]) (cases s; simp)
  then show ?thesis using assms(1) by (cases s) (auto simp: reader_contract_def)
qed

lemma reader_vector:
  assumes "reader_contract fb val" "val p = VTab fs" "map_of fs vt = map_option VVec s"
  shows "map_option (fb_Vector fb) (fb_GetPointer fb vt p) = s"
proof -
  have "map_option val (fb_GetPointer fb vt p) = map_option VVec s"
    using assms(3) by (intro reader_fields(5) [OF assms(1,2)]) (cases s; simp)
  then show ?thesis using assms(1) by (cases s) (auto simp: reader_contract_def)
qed

lemma buffer_root:
  assumes "buffer_contract fb view val" "idle (view b)" "offset_of (fb_null fb) (view b) (Some (VTab fs)) p"
  shows "val (fb_GetRoot fb (fb_buffer fb (fb_Finish fb p b) @ rest)) = VTab fs"
    and "val (fb_GetSizePrefixedRoot fb (fb_buffer fb (fb_FinishSizePrefixed fb p b) @ rest)) = VTab fs"
  using assms by (simp_all add: buffer_contract_def offset_of_def)

section \<open>Functions that keep the contracts\<close>

text \<open>A simple encoding: each value with a tag, strings and vectors with a mark before each byte.\<close>

definition uint32_bytes :: "uint32 \<Rightarrow> ubyte list" where
  "uint32_bytes w = uint16_bytes (ucast w) @ uint16_bytes (ucast (drop_bit 16 w))"

definition bytes_uint32 :: "ubyte list \<Rightarrow> uint32" where
  "bytes_uint32 bs = ucast (bytes_uint16 (bs ! 0) (bs ! 1)) OR push_bit 16 (ucast (bytes_uint16 (bs ! 2) (bs ! 3)))"

lemma bytes_uint32_bytes [simp]: "bytes_uint32 (uint32_bytes w @ rest) = w"
  by (simp add: uint32_bytes_def uint16_bytes_def bytes_uint32_def)
    (rule bit_word_eqI; auto simp: bit_simps)

lemma length_uint_bytes [simp]: "length (uint16_bytes v) = 2" "length (uint32_bytes w) = 4"
  by (simp_all add: uint32_bytes_def uint16_bytes_def)

lemma bytes_uint16_append [simp]: "bytes_uint16 ((uint16_bytes v @ rest) ! 0) ((uint16_bytes v @ rest) ! 1) = v"
  by (simp add: uint16_bytes_def)

definition enc_bytes :: "ubyte list \<Rightarrow> ubyte list" where
  "enc_bytes bs = concat (map (\<lambda>b. [1, b]) bs) @ [0]"

fun dec_bytes :: "ubyte list \<Rightarrow> ubyte list \<times> ubyte list" where
  "dec_bytes (m # b # bs) = (if m = 1 then apfst (Cons b) (dec_bytes bs) else ([], b # bs))"
| "dec_bytes bs = ([], [])"

lemma dec_enc_bytes [simp]: "dec_bytes (enc_bytes bs @ rest) = (bs, rest)"
proof (induction bs)
  case Nil
  then show ?case by (cases rest) (simp_all add: enc_bytes_def)
qed (simp add: enc_bytes_def)

definition char_byte :: "char \<Rightarrow> ubyte" where
  "char_byte c = of_nat (of_char c)"

definition byte_char :: "ubyte \<Rightarrow> char" where
  "byte_char b = char_of (unat b)"

lemma byte_char_byte [simp]: "byte_char (char_byte c) = c"
proof -
  have "of_char c < (256 :: nat)" by simp
  then show ?thesis by (simp add: byte_char_def char_byte_def unat_of_nat)
qed

fun enc_value :: "fb_value \<Rightarrow> ubyte list" where
  "enc_value (V8 x) = [1, x]"
| "enc_value (V16 x) = 2 # uint16_bytes x"
| "enc_value (V32 x) = 3 # uint32_bytes x"
| "enc_value (VStruct v) = 4 # uint32_bytes (v3_x v) @ uint32_bytes (v3_y v) @ uint32_bytes (v3_z v)"
| "enc_value (VStr s) = 5 # enc_bytes (map char_byte s)"
| "enc_value (VVec xs) = 6 # enc_bytes xs"
| "enc_value (VTab fs) = 7 # concat (map (\<lambda>(k, v). 1 # uint16_bytes k @ enc_value v) fs) @ [0]"

definition take_uint32 :: "ubyte list \<Rightarrow> uint32 \<times> ubyte list" where
  "take_uint32 bs = (bytes_uint32 bs, drop 4 bs)"

lemma take_uint32_bytes [simp]: "take_uint32 (uint32_bytes w @ rest) = (w, rest)"
  by (simp add: take_uint32_def)

fun dec_value :: "nat \<Rightarrow> ubyte list \<Rightarrow> fb_value \<times> ubyte list"
  and dec_fields :: "nat \<Rightarrow> ubyte list \<Rightarrow> fb_fields \<times> ubyte list" where
  "dec_value (Suc n) (m # bs) =
     (if m = 1 then (V8 (hd bs), tl bs)
      else if m = 2 then (V16 (bytes_uint16 (bs ! 0) (bs ! 1)), drop 2 bs)
      else if m = 3 then apfst V32 (take_uint32 bs)
      else if m = 4 then
        (let (x, b1) = take_uint32 bs; (y, b2) = take_uint32 b1; (z, b3) = take_uint32 b2
         in (VStruct \<lparr>v3_x = x, v3_y = y, v3_z = z\<rparr>, b3))
      else if m = 5 then apfst (\<lambda>xs. VStr (map byte_char xs)) (dec_bytes bs)
      else if m = 6 then apfst VVec (dec_bytes bs)
      else apfst VTab (dec_fields n bs))"
| "dec_value _ bs = (VTab [], [])"
| "dec_fields (Suc n) (m # bs) =
     (if m = 1 then
        (let (v, b1) = dec_value n (drop 2 bs); (fs, b2) = dec_fields n b1
         in ((bytes_uint16 (bs ! 0) (bs ! 1), v) # fs, b2))
      else ([], bs))"
| "dec_fields _ bs = ([], [])"

definition enc_fields :: "fb_fields \<Rightarrow> ubyte list" where
  "enc_fields fs = concat (map (\<lambda>(k, v). 1 # uint16_bytes k @ enc_value v) fs) @ [0]"

lemma enc_fields_simps [simp]:
  "enc_fields [] = [0]" "enc_fields ((k, v) # fs) = 1 # uint16_bytes k @ enc_value v @ enc_fields fs"
  "enc_value (VTab fs) = 7 # enc_fields fs"
  by (simp_all add: enc_fields_def)

declare enc_value.simps(7) [simp del]

lemma dec_enc_fields:
  assumes "\<forall>(k, w) \<in> set fs. \<forall>n rest. length (enc_value w) \<le> n \<longrightarrow> dec_value n (enc_value w @ rest) = (w, rest)"
    and "length (enc_fields fs) \<le> n"
  shows "dec_fields n (enc_fields fs @ rest) = (fs, rest)"
  using assms
proof (induction fs arbitrary: n rest)
  case Nil
  then show ?case by (cases n) simp_all
next
  case (Cons kw fs)
  obtain k w where kw: "kw = (k, w)" by fastforce
  then obtain m where m: "n = Suc m" "length (enc_value w) \<le> m" "length (enc_fields fs) \<le> m"
    using Cons.prems(2) by (cases n) auto
  have "dec_value m (enc_value w @ enc_fields fs @ rest) = (w, enc_fields fs @ rest)"
    using Cons.prems(1) kw m(2) by auto
  moreover have "dec_fields m (enc_fields fs @ rest) = (fs, rest)"
    using Cons.prems(1) m(3) by (intro Cons.IH) auto
  ultimately show ?case by (simp add: kw m(1) uint16_bytes_def)
qed

lemma dec_enc_value:
  "length (enc_value v) \<le> n \<Longrightarrow> dec_value n (enc_value v @ rest) = (v, rest)"
proof (induction v arbitrary: n rest)
  case (VTab fs)
  then obtain m where m: "n = Suc m" "length (enc_fields fs) \<le> m" by (cases n) auto
  have "\<forall>(k, w) \<in> set fs. \<forall>n rest. length (enc_value w) \<le> n \<longrightarrow> dec_value n (enc_value w @ rest) = (w, rest)"
    using VTab.IH by fastforce
  then show ?case using dec_enc_fields [of fs m rest] m by simp
next
  case (VStr s)
  then show ?case by (cases n) (simp_all add: comp_def)
qed (case_tac n; simp add: uint16_bytes_def)+

text \<open>A builder that keeps its objects as values; the object at position \<open>k\<close> has the offset \<open>k + 1\<close>.\<close>

record plain_builder =
  pb_objects :: "fb_value list"
  pb_open :: "(nat \<times> fb_fields) option"
  pb_buffer :: "ubyte list option"

definition plain_object :: "fb_value list \<Rightarrow> nat \<Rightarrow> fb_value option" where
  "plain_object vs p = (if 0 < p \<and> p \<le> length vs then Some (vs ! (p - 1)) else None)"

definition plain_view :: "plain_builder \<Rightarrow> nat built" where
  "plain_view b = \<lparr>bt_object = plain_object (pb_objects b),
     bt_open = pb_open b, bt_finished = (pb_buffer b \<noteq> None)\<rparr>"

definition plain_new :: plain_builder where
  "plain_new = \<lparr>pb_objects = [], pb_open = None, pb_buffer = None\<rparr>"

definition plain_create :: "fb_value \<Rightarrow> plain_builder \<Rightarrow> nat \<times> plain_builder" where
  "plain_create v b = (length (pb_objects b) + 1, b\<lparr>pb_objects := pb_objects b @ [v]\<rparr>)"

definition plain_add :: "(fb_fields \<Rightarrow> fb_fields) \<Rightarrow> plain_builder \<Rightarrow> plain_builder" where
  "plain_add f b = b\<lparr>pb_open := map_option (apsnd f) (pb_open b)\<rparr>"

definition plain_finish :: "(ubyte list \<Rightarrow> ubyte list) \<Rightarrow> nat \<Rightarrow> plain_builder \<Rightarrow> plain_builder" where
  "plain_finish f p b = b\<lparr>pb_buffer := Some (f (enc_value (pb_objects b ! (p - 1))))\<rparr>"

definition plain_field :: "uint16 \<Rightarrow> fb_value \<Rightarrow> fb_value option" where
  "plain_field vt p = (case p of VTab fs \<Rightarrow> map_of fs vt | _ \<Rightarrow> None)"

definition plain_read :: "ubyte list \<Rightarrow> fb_value" where
  "plain_read bs = fst (dec_value (length bs) bs)"

definition plain_flatbuffers :: "(plain_builder, nat, fb_value, unit) flatbuffers" where
  "plain_flatbuffers =
     \<lparr>fb_null = 0,
      fb_CreateString = (\<lambda>s. plain_create (VStr s)),
      fb_CreateVector = (\<lambda>xs. plain_create (VVec xs)),
      fb_StartTable = (\<lambda>b. (0, b\<lparr>pb_open := Some (0, [])\<rparr>)),
      fb_AddElement8 = (\<lambda>vt x d. plain_add (stored (x \<noteq> d) vt (V8 x))),
      fb_AddElement16 = (\<lambda>vt x d. plain_add (stored (x \<noteq> d) vt (V16 x))),
      fb_AddElement32 = (\<lambda>vt x d. plain_add (stored (x \<noteq> d) vt (V32 x))),
      fb_AddStruct = (\<lambda>vt x. plain_add (stored_struct vt x)),
      fb_AddOffset = (\<lambda>vt p b. plain_add (stored_object vt (bt_object (plain_view b) p)) b),
      fb_EndTable = (\<lambda>s b. plain_create (VTab (case pb_open b of None \<Rightarrow> [] | Some (_, fs) \<Rightarrow> fs)) (b\<lparr>pb_open := None\<rparr>)),
      fb_Finish = plain_finish id,
      fb_FinishSizePrefixed = plain_finish (\<lambda>bs. uint32_bytes (of_nat (length bs)) @ bs),
      fb_buffer = (\<lambda>b. case pb_buffer b of None \<Rightarrow> [] | Some bs \<Rightarrow> bs),
      fb_GetRoot = plain_read,
      fb_GetSizePrefixedRoot = (\<lambda>bs. plain_read (drop 4 bs)),
      fb_GetField8 = (\<lambda>vt d p. case field8 d (plain_field vt p) of Some x \<Rightarrow> x | None \<Rightarrow> d),
      fb_GetField16 = (\<lambda>vt d p. case field16 d (plain_field vt p) of Some x \<Rightarrow> x | None \<Rightarrow> d),
      fb_GetField32 = (\<lambda>vt d p. case field32 d (plain_field vt p) of Some x \<Rightarrow> x | None \<Rightarrow> d),
      fb_GetStruct = (\<lambda>vt p. case field_struct (plain_field vt p) of Some x \<Rightarrow> x | None \<Rightarrow> None),
      fb_GetPointer = (\<lambda>vt p. case field_object (plain_field vt p) of Some x \<Rightarrow> x | None \<Rightarrow> None),
      fb_String = (\<lambda>p. case p of VStr s \<Rightarrow> s | _ \<Rightarrow> []),
      fb_Vector = (\<lambda>p. case p of VVec xs \<Rightarrow> xs | _ \<Rightarrow> []),
      fv_VerifyTableStart = (\<lambda>_ v. (True, v)), fv_VerifyField = (\<lambda>_ _ _ _ v. (True, v)),
      fv_VerifyOffset = (\<lambda>_ _ v. (True, v)), fv_VerifyString = (\<lambda>_ v. (True, v)), fv_VerifyVector = (\<lambda>_ v. (True, v)),
      fv_VerifyTable = (\<lambda>f p v. case p of None \<Rightarrow> (True, v) | Some q \<Rightarrow> f q v),
      fv_VerifyBuffer = (\<lambda>f v. (True, v)), fv_VerifySizePrefixedBuffer = (\<lambda>f v. (True, v)),
      fv_EndTable = (\<lambda>v. (True, v))\<rparr>"

lemma plain_object_append: "plain_object (vs @ [v]) = (plain_object vs)(length vs + 1 \<mapsto> v)"
  by (rule ext) (auto simp: plain_object_def nth_append)

lemma plain_create_created:
  "created 0 v (plain_view b) (fst (plain_create v b)) (plain_view (snd (plain_create v b)))"
  by (simp add: created_def plain_create_def plain_view_def plain_object_append)
    (simp add: plain_object_def)

lemma plain_add_opened:
  "opened t s fs (plain_view b) \<Longrightarrow> opened t s (f fs) (plain_view (plain_add f b))"
  by (cases t) (auto simp: opened_def plain_add_def plain_view_def)

lemma plain_builder_contract: "builder_contract plain_flatbuffers plain_view"
proof -
  have obj: "bt_object (plain_view b) p = v" if "opened t s fs (plain_view b)" "offset_of 0 t v p" for b t s fs v p
    using that by (cases t) (auto simp: opened_def offset_of_def plain_view_def plain_object_def split: option.splits if_splits)
  have close: "created 0 (VTab fs) t (fst (plain_create (VTab gs) (b\<lparr>pb_open := None\<rparr>)))
      (plain_view (snd (plain_create (VTab gs) (b\<lparr>pb_open := None\<rparr>))))"
    if "opened t s fs (plain_view b)" "gs = (case pb_open b of None \<Rightarrow> [] | Some (_, fs) \<Rightarrow> fs)" for b t s fs gs
  proof -
    have "plain_view (b\<lparr>pb_open := None\<rparr>) = t" "gs = fs"
      using that by (cases t; auto simp: opened_def plain_view_def idle_def)+
    then show ?thesis using plain_create_created [of "VTab fs" "b\<lparr>pb_open := None\<rparr>"] by simp
  qed
  have start: "opened (plain_view b) 0 [] (plain_view (b\<lparr>pb_open := Some (0, [])\<rparr>))" if "idle (plain_view b)" for b
    using that by (auto simp: opened_def plain_view_def)
  show ?thesis
    unfolding builder_contract_def plain_flatbuffers_def
    by (simp add: plain_create_created plain_add_opened start close obj)
qed

lemma plain_reader_contract: "reader_contract plain_flatbuffers id"
  unfolding reader_contract_def plain_flatbuffers_def
  by (simp add: plain_field_def option.map_id split: option.split)

lemma plain_read_enc: "plain_read (enc_value v @ rest) = v"
  by (simp add: plain_read_def dec_enc_value)

lemma plain_buffer_contract: "buffer_contract plain_flatbuffers plain_view id"
  unfolding buffer_contract_def plain_flatbuffers_def
  by (auto simp: plain_finish_def plain_view_def plain_object_def plain_read_enc split: if_splits)

lemma plain_new_idle [simp]: "idle (plain_view plain_new)"
  by (simp add: idle_def plain_view_def plain_new_def)

end
