(* ===== verification/Packet_Types.thy ===== *)
theory Packet_Types
  imports FlatBuffers_Interface
begin

text \<open>
  The packet types that the FlatBuffers compiler made of \<^verbatim>\<open>Packet.fbs\<close>, \<^verbatim>\<open>Test.fbs\<close> and \<^verbatim>\<open>Test2.fbs\<close>:
  \<^verbatim>\<open>Packet_generated.h\<close>, \<^verbatim>\<open>Test_generated.h\<close> and \<^verbatim>\<open>Test2_generated.h\<close> under \<^verbatim>\<open>src/includes/fbs/\<close> (the files under
  \<^verbatim>\<open>src/commons/fbs/\<close> are the same). Each table has its accessors, its builder, its creating functions and
  its \<^verbatim>\<open>Verify\<close> method; the library is the argument \<open>fb\<close>. A builder object is the pair of its \<^verbatim>\<open>start_\<close> and
  the \<^verbatim>\<open>FlatBufferBuilder\<close> it refers to. A \<^verbatim>\<open>const char *\<close> is \<open>None\<close> or the characters before its zero.

  The theorems are the round trips: what a creating function was given is what the accessors read
  from the finished buffer.
\<close>

section \<open>Definitions\<close>

subsection \<open>Packet.fbs\<close>

definition VT_MSG :: uint16 where "VT_MSG = 4"
definition VT_NUMBER :: uint16 where "VT_NUMBER = 6"

definition TestPacket_msg :: "('b, 'o, 'p, 'v) flatbuffers \<Rightarrow> 'p \<Rightarrow> 'p option" where
  "TestPacket_msg fb p = fb_GetPointer fb VT_MSG p"

definition TestPacket_number :: "('b, 'o, 'p, 'v) flatbuffers \<Rightarrow> 'p \<Rightarrow> int32" where
  "TestPacket_number fb p = fb_GetField32 fb VT_NUMBER 0 p"

text \<open>The calls of a \<^verbatim>\<open>Verify\<close> method, joined by \<^verbatim>\<open>&&\<close>.\<close>

fun verify_all :: "('v \<Rightarrow> bool \<times> 'v) list \<Rightarrow> 'v \<Rightarrow> bool \<times> 'v" where
  "verify_all [] v = (True, v)"
| "verify_all (f # fs) v = (let (ok, v1) = f v in if ok then verify_all fs v1 else (False, v1))"

definition TestPacket_Verify :: "('b, 'o, 'p, 'v) flatbuffers \<Rightarrow> 'p \<Rightarrow> 'v \<Rightarrow> bool \<times> 'v" where
  "TestPacket_Verify fb p = verify_all
     [fv_VerifyTableStart fb p,
      fv_VerifyOffset fb VT_MSG p,
      fv_VerifyString fb (TestPacket_msg fb p),
      fv_VerifyField fb 4 VT_NUMBER 4 p,
      fv_EndTable fb]"

definition TestPacketBuilder_new :: "('b, 'o, 'p, 'v) flatbuffers \<Rightarrow> 'b \<Rightarrow> 'o \<times> 'b" where
  "TestPacketBuilder_new fb b = fb_StartTable fb b"

definition TestPacketBuilder_add_msg :: "('b, 'o, 'p, 'v) flatbuffers \<Rightarrow> 'o \<Rightarrow> 'o \<times> 'b \<Rightarrow> 'o \<times> 'b" where
  "TestPacketBuilder_add_msg fb msg = apsnd (fb_AddOffset fb VT_MSG msg)"

definition TestPacketBuilder_add_number :: "('b, 'o, 'p, 'v) flatbuffers \<Rightarrow> int32 \<Rightarrow> 'o \<times> 'b \<Rightarrow> 'o \<times> 'b" where
  "TestPacketBuilder_add_number fb number = apsnd (fb_AddElement32 fb VT_NUMBER number 0)"

definition TestPacketBuilder_Finish :: "('b, 'o, 'p, 'v) flatbuffers \<Rightarrow> 'o \<times> 'b \<Rightarrow> 'o \<times> 'b" where
  "TestPacketBuilder_Finish fb x = fb_EndTable fb (fst x) (snd x)"

definition CreateTestPacket :: "('b, 'o, 'p, 'v) flatbuffers \<Rightarrow> 'o \<Rightarrow> int32 \<Rightarrow> 'b \<Rightarrow> 'o \<times> 'b" where
  "CreateTestPacket fb msg number b =
     TestPacketBuilder_Finish fb
       (TestPacketBuilder_add_msg fb msg
         (TestPacketBuilder_add_number fb number
           (TestPacketBuilder_new fb b)))"

definition CreateStringDirect :: "('b, 'o, 'p, 'v) flatbuffers \<Rightarrow> string option \<Rightarrow> 'b \<Rightarrow> 'o \<times> 'b" where
  "CreateStringDirect fb s b = (case s of None \<Rightarrow> (fb_null fb, b) | Some x \<Rightarrow> fb_CreateString fb x b)"

definition CreateTestPacketDirect ::
    "('b, 'o, 'p, 'v) flatbuffers \<Rightarrow> string option \<Rightarrow> int32 \<Rightarrow> 'b \<Rightarrow> 'o \<times> 'b" where
  "CreateTestPacketDirect fb msg number b =
     (let (msg', b1) = CreateStringDirect fb msg b in CreateTestPacket fb msg' number b1)"

definition GetTestPacket :: "('b, 'o, 'p, 'v) flatbuffers \<Rightarrow> ubyte list \<Rightarrow> 'p" where
  "GetTestPacket fb buf = fb_GetRoot fb buf"

definition GetSizePrefixedTestPacket :: "('b, 'o, 'p, 'v) flatbuffers \<Rightarrow> ubyte list \<Rightarrow> 'p" where
  "GetSizePrefixedTestPacket fb buf = fb_GetSizePrefixedRoot fb buf"

definition VerifyTestPacketBuffer :: "('b, 'o, 'p, 'v) flatbuffers \<Rightarrow> 'v \<Rightarrow> bool \<times> 'v" where
  "VerifyTestPacketBuffer fb v = fv_VerifyBuffer fb (TestPacket_Verify fb) v"

definition VerifySizePrefixedTestPacketBuffer :: "('b, 'o, 'p, 'v) flatbuffers \<Rightarrow> 'v \<Rightarrow> bool \<times> 'v" where
  "VerifySizePrefixedTestPacketBuffer fb v = fv_VerifySizePrefixedBuffer fb (TestPacket_Verify fb) v"

definition FinishTestPacketBuffer :: "('b, 'o, 'p, 'v) flatbuffers \<Rightarrow> 'o \<Rightarrow> 'b \<Rightarrow> 'b" where
  "FinishTestPacketBuffer fb root b = fb_Finish fb root b"

definition FinishSizePrefixedTestPacketBuffer :: "('b, 'o, 'p, 'v) flatbuffers \<Rightarrow> 'o \<Rightarrow> 'b \<Rightarrow> 'b" where
  "FinishSizePrefixedTestPacketBuffer fb root b = fb_FinishSizePrefixed fb root b"

subsection \<open>Test.fbs\<close>

type_synonym Color = ubyte

definition Color_Red :: Color where "Color_Red = 1"
definition Color_Green :: Color where "Color_Green = 2"
definition Color_Blue :: Color where "Color_Blue = 3"

definition EnumValuesColor :: "Color list" where
  "EnumValuesColor = [Color_Red, Color_Green, Color_Blue]"

definition EnumNamesColor :: "string option list" where
  "EnumNamesColor = [Some ''Red'', Some ''Green'', Some ''Blue'', None]"

text \<open>\<^verbatim>\<open>IsOutRange\<close> compares values of the enumeration, which is signed here.\<close>

definition EnumNameColor :: "Color \<Rightarrow> string option" where
  "EnumNameColor e =
     (if sint e < sint Color_Red \<or> sint Color_Blue < sint e then Some []
      else EnumNamesColor ! unat ((scast e :: uint64) - scast Color_Red))"

definition Vec3_default :: vec3 where
  "Vec3_default = \<lparr>v3_x = 0, v3_y = 0, v3_z = 0\<rparr>"

definition Vec3_new :: "uint32 \<Rightarrow> uint32 \<Rightarrow> uint32 \<Rightarrow> vec3" where
  "Vec3_new x y z = \<lparr>v3_x = x, v3_y = y, v3_z = z\<rparr>"

text \<open>\<^verbatim>\<open>EndianScalar\<close> changes nothing on the machines the library runs on.\<close>

definition Vec3_x :: "vec3 \<Rightarrow> uint32" where "Vec3_x v = v3_x v"
definition Vec3_y :: "vec3 \<Rightarrow> uint32" where "Vec3_y v = v3_y v"
definition Vec3_z :: "vec3 \<Rightarrow> uint32" where "Vec3_z v = v3_z v"

definition VT_FRIENDLY :: uint16 where "VT_FRIENDLY = 4"
definition VT_CPOS :: uint16 where "VT_CPOS = 6"
definition VT_HP :: uint16 where "VT_HP = 8"
definition VT_CNAME :: uint16 where "VT_CNAME = 10"
definition VT_DROPS :: uint16 where "VT_DROPS = 12"
definition VT_COLOR :: uint16 where "VT_COLOR = 14"

definition Creature_friendly :: "('b, 'o, 'p, 'v) flatbuffers \<Rightarrow> 'p \<Rightarrow> bool" where
  "Creature_friendly fb p \<longleftrightarrow> fb_GetField8 fb VT_FRIENDLY 0 p \<noteq> 0"

definition Creature_pos :: "('b, 'o, 'p, 'v) flatbuffers \<Rightarrow> 'p \<Rightarrow> vec3 option" where
  "Creature_pos fb p = fb_GetStruct fb VT_CPOS p"

definition Creature_hp :: "('b, 'o, 'p, 'v) flatbuffers \<Rightarrow> 'p \<Rightarrow> uint16" where
  "Creature_hp fb p = fb_GetField16 fb VT_HP 1000 p"

definition Creature_name :: "('b, 'o, 'p, 'v) flatbuffers \<Rightarrow> 'p \<Rightarrow> 'p option" where
  "Creature_name fb p = fb_GetPointer fb VT_CNAME p"

definition Creature_drops :: "('b, 'o, 'p, 'v) flatbuffers \<Rightarrow> 'p \<Rightarrow> 'p option" where
  "Creature_drops fb p = fb_GetPointer fb VT_DROPS p"

definition Creature_color :: "('b, 'o, 'p, 'v) flatbuffers \<Rightarrow> 'p \<Rightarrow> Color" where
  "Creature_color fb p = fb_GetField8 fb VT_COLOR 3 p"

definition Creature_Verify :: "('b, 'o, 'p, 'v) flatbuffers \<Rightarrow> 'p \<Rightarrow> 'v \<Rightarrow> bool \<times> 'v" where
  "Creature_Verify fb p = verify_all
     [fv_VerifyTableStart fb p,
      fv_VerifyField fb 1 VT_FRIENDLY 1 p,
      fv_VerifyField fb 12 VT_CPOS 4 p,
      fv_VerifyField fb 2 VT_HP 2 p,
      fv_VerifyOffset fb VT_CNAME p,
      fv_VerifyString fb (Creature_name fb p),
      fv_VerifyOffset fb VT_DROPS p,
      fv_VerifyVector fb (Creature_drops fb p),
      fv_VerifyField fb 1 VT_COLOR 1 p,
      fv_EndTable fb]"

definition CreatureBuilder_new :: "('b, 'o, 'p, 'v) flatbuffers \<Rightarrow> 'b \<Rightarrow> 'o \<times> 'b" where
  "CreatureBuilder_new fb b = fb_StartTable fb b"

definition CreatureBuilder_add_friendly :: "('b, 'o, 'p, 'v) flatbuffers \<Rightarrow> bool \<Rightarrow> 'o \<times> 'b \<Rightarrow> 'o \<times> 'b" where
  "CreatureBuilder_add_friendly fb friendly = apsnd (fb_AddElement8 fb VT_FRIENDLY (of_bool friendly) 0)"

definition CreatureBuilder_add_pos :: "('b, 'o, 'p, 'v) flatbuffers \<Rightarrow> vec3 option \<Rightarrow> 'o \<times> 'b \<Rightarrow> 'o \<times> 'b" where
  "CreatureBuilder_add_pos fb pos = apsnd (fb_AddStruct fb VT_CPOS pos)"

definition CreatureBuilder_add_hp :: "('b, 'o, 'p, 'v) flatbuffers \<Rightarrow> uint16 \<Rightarrow> 'o \<times> 'b \<Rightarrow> 'o \<times> 'b" where
  "CreatureBuilder_add_hp fb hp = apsnd (fb_AddElement16 fb VT_HP hp 1000)"

definition CreatureBuilder_add_name :: "('b, 'o, 'p, 'v) flatbuffers \<Rightarrow> 'o \<Rightarrow> 'o \<times> 'b \<Rightarrow> 'o \<times> 'b" where
  "CreatureBuilder_add_name fb name = apsnd (fb_AddOffset fb VT_CNAME name)"

definition CreatureBuilder_add_drops :: "('b, 'o, 'p, 'v) flatbuffers \<Rightarrow> 'o \<Rightarrow> 'o \<times> 'b \<Rightarrow> 'o \<times> 'b" where
  "CreatureBuilder_add_drops fb drops = apsnd (fb_AddOffset fb VT_DROPS drops)"

definition CreatureBuilder_add_color :: "('b, 'o, 'p, 'v) flatbuffers \<Rightarrow> Color \<Rightarrow> 'o \<times> 'b \<Rightarrow> 'o \<times> 'b" where
  "CreatureBuilder_add_color fb color = apsnd (fb_AddElement8 fb VT_COLOR color 3)"

definition CreatureBuilder_Finish :: "('b, 'o, 'p, 'v) flatbuffers \<Rightarrow> 'o \<times> 'b \<Rightarrow> 'o \<times> 'b" where
  "CreatureBuilder_Finish fb x = fb_EndTable fb (fst x) (snd x)"

definition CreateCreature ::
    "('b, 'o, 'p, 'v) flatbuffers \<Rightarrow> bool \<Rightarrow> vec3 option \<Rightarrow> uint16 \<Rightarrow> 'o \<Rightarrow> 'o \<Rightarrow> Color \<Rightarrow> 'b \<Rightarrow> 'o \<times> 'b" where
  "CreateCreature fb friendly pos hp name drops color b =
     CreatureBuilder_Finish fb
       (CreatureBuilder_add_friendly fb friendly
         (CreatureBuilder_add_color fb color
           (CreatureBuilder_add_hp fb hp
             (CreatureBuilder_add_pos fb pos
               (CreatureBuilder_add_name fb name
                 (CreatureBuilder_add_drops fb drops
                   (CreatureBuilder_new fb b)))))))"

definition CreateVectorDirect :: "('b, 'o, 'p, 'v) flatbuffers \<Rightarrow> ubyte list option \<Rightarrow> 'b \<Rightarrow> 'o \<times> 'b" where
  "CreateVectorDirect fb s b = (case s of None \<Rightarrow> (fb_null fb, b) | Some x \<Rightarrow> fb_CreateVector fb x b)"

definition CreateCreatureDirect ::
    "('b, 'o, 'p, 'v) flatbuffers \<Rightarrow> bool \<Rightarrow> vec3 option \<Rightarrow> uint16 \<Rightarrow> string option \<Rightarrow> ubyte list option \<Rightarrow> Color \<Rightarrow> 'b \<Rightarrow> 'o \<times> 'b" where
  "CreateCreatureDirect fb friendly pos hp name drops color b =
     (let (name', b1) = CreateStringDirect fb name b;
          (drops', b2) = CreateVectorDirect fb drops b1
      in CreateCreature fb friendly pos hp name' drops' color b2)"

definition GetCreature :: "('b, 'o, 'p, 'v) flatbuffers \<Rightarrow> ubyte list \<Rightarrow> 'p" where
  "GetCreature fb buf = fb_GetRoot fb buf"

definition GetSizePrefixedCreature :: "('b, 'o, 'p, 'v) flatbuffers \<Rightarrow> ubyte list \<Rightarrow> 'p" where
  "GetSizePrefixedCreature fb buf = fb_GetSizePrefixedRoot fb buf"

definition VerifyCreatureBuffer :: "('b, 'o, 'p, 'v) flatbuffers \<Rightarrow> 'v \<Rightarrow> bool \<times> 'v" where
  "VerifyCreatureBuffer fb v = fv_VerifyBuffer fb (Creature_Verify fb) v"

definition VerifySizePrefixedCreatureBuffer :: "('b, 'o, 'p, 'v) flatbuffers \<Rightarrow> 'v \<Rightarrow> bool \<times> 'v" where
  "VerifySizePrefixedCreatureBuffer fb v = fv_VerifySizePrefixedBuffer fb (Creature_Verify fb) v"

definition FinishCreatureBuffer :: "('b, 'o, 'p, 'v) flatbuffers \<Rightarrow> 'o \<Rightarrow> 'b \<Rightarrow> 'b" where
  "FinishCreatureBuffer fb root b = fb_Finish fb root b"

definition FinishSizePrefixedCreatureBuffer :: "('b, 'o, 'p, 'v) flatbuffers \<Rightarrow> 'o \<Rightarrow> 'b \<Rightarrow> 'b" where
  "FinishSizePrefixedCreatureBuffer fb root b = fb_FinishSizePrefixed fb root b"

subsection \<open>Test2.fbs\<close>

type_synonym Jobs = ubyte

definition Jobs_NONE :: Jobs where "Jobs_NONE = 0"
definition Jobs_Magician :: Jobs where "Jobs_Magician = 1"
definition Jobs_Warrior :: Jobs where "Jobs_Warrior = 2"

definition EnumValuesJobs :: "Jobs list" where
  "EnumValuesJobs = [Jobs_NONE, Jobs_Magician, Jobs_Warrior]"

definition EnumNamesJobs :: "string option list" where
  "EnumNamesJobs = [Some ''NONE'', Some ''Magician'', Some ''Warrior'', None]"

definition EnumNameJobs :: "Jobs \<Rightarrow> string option" where
  "EnumNameJobs e = (if e < Jobs_NONE \<or> Jobs_Warrior < e then Some [] else EnumNamesJobs ! unat e)"

text \<open>The tables of the union.\<close>

definition VT_MAGIC :: uint16 where "VT_MAGIC = 4"

definition Magician_magic :: "('b, 'o, 'p, 'v) flatbuffers \<Rightarrow> 'p \<Rightarrow> int32" where
  "Magician_magic fb p = fb_GetField32 fb VT_MAGIC 0 p"

definition Magician_Verify :: "('b, 'o, 'p, 'v) flatbuffers \<Rightarrow> 'p \<Rightarrow> 'v \<Rightarrow> bool \<times> 'v" where
  "Magician_Verify fb p = verify_all [fv_VerifyTableStart fb p, fv_VerifyField fb 4 VT_MAGIC 4 p, fv_EndTable fb]"

definition MagicianBuilder_new :: "('b, 'o, 'p, 'v) flatbuffers \<Rightarrow> 'b \<Rightarrow> 'o \<times> 'b" where
  "MagicianBuilder_new fb b = fb_StartTable fb b"

definition MagicianBuilder_add_magic :: "('b, 'o, 'p, 'v) flatbuffers \<Rightarrow> int32 \<Rightarrow> 'o \<times> 'b \<Rightarrow> 'o \<times> 'b" where
  "MagicianBuilder_add_magic fb magic = apsnd (fb_AddElement32 fb VT_MAGIC magic 0)"

definition MagicianBuilder_Finish :: "('b, 'o, 'p, 'v) flatbuffers \<Rightarrow> 'o \<times> 'b \<Rightarrow> 'o \<times> 'b" where
  "MagicianBuilder_Finish fb x = fb_EndTable fb (fst x) (snd x)"

definition CreateMagician :: "('b, 'o, 'p, 'v) flatbuffers \<Rightarrow> int32 \<Rightarrow> 'b \<Rightarrow> 'o \<times> 'b" where
  "CreateMagician fb magic b = MagicianBuilder_Finish fb (MagicianBuilder_add_magic fb magic (MagicianBuilder_new fb b))"

definition VT_ATTACK :: uint16 where "VT_ATTACK = 4"

definition Warrior_attack :: "('b, 'o, 'p, 'v) flatbuffers \<Rightarrow> 'p \<Rightarrow> uint16" where
  "Warrior_attack fb p = fb_GetField16 fb VT_ATTACK 0 p"

definition Warrior_Verify :: "('b, 'o, 'p, 'v) flatbuffers \<Rightarrow> 'p \<Rightarrow> 'v \<Rightarrow> bool \<times> 'v" where
  "Warrior_Verify fb p = verify_all [fv_VerifyTableStart fb p, fv_VerifyField fb 2 VT_ATTACK 2 p, fv_EndTable fb]"

definition WarriorBuilder_new :: "('b, 'o, 'p, 'v) flatbuffers \<Rightarrow> 'b \<Rightarrow> 'o \<times> 'b" where
  "WarriorBuilder_new fb b = fb_StartTable fb b"

definition WarriorBuilder_add_attack :: "('b, 'o, 'p, 'v) flatbuffers \<Rightarrow> uint16 \<Rightarrow> 'o \<times> 'b \<Rightarrow> 'o \<times> 'b" where
  "WarriorBuilder_add_attack fb attack = apsnd (fb_AddElement16 fb VT_ATTACK attack 0)"

definition WarriorBuilder_Finish :: "('b, 'o, 'p, 'v) flatbuffers \<Rightarrow> 'o \<times> 'b \<Rightarrow> 'o \<times> 'b" where
  "WarriorBuilder_Finish fb x = fb_EndTable fb (fst x) (snd x)"

definition CreateWarrior :: "('b, 'o, 'p, 'v) flatbuffers \<Rightarrow> uint16 \<Rightarrow> 'b \<Rightarrow> 'o \<times> 'b" where
  "CreateWarrior fb attack b = WarriorBuilder_Finish fb (WarriorBuilder_add_attack fb attack (WarriorBuilder_new fb b))"

definition VerifyJobs :: "('b, 'o, 'p, 'v) flatbuffers \<Rightarrow> 'p option \<Rightarrow> Jobs \<Rightarrow> 'v \<Rightarrow> bool \<times> 'v" where
  "VerifyJobs fb obj type v =
     (if type = Jobs_NONE then (True, v)
      else if type = Jobs_Magician then fv_VerifyTable fb (Magician_Verify fb) obj v
      else if type = Jobs_Warrior then fv_VerifyTable fb (Warrior_Verify fb) obj v
      else (True, v))"

text \<open>The two vectors by their elements; a null vector is \<open>None\<close>.\<close>

fun VerifyJobsVector_loop :: "('b, 'o, 'p, 'v) flatbuffers \<Rightarrow> ('p option \<times> Jobs) list \<Rightarrow> 'v \<Rightarrow> bool \<times> 'v" where
  "VerifyJobsVector_loop fb [] v = (True, v)"
| "VerifyJobsVector_loop fb ((obj, type) # xs) v =
     (let (ok, v1) = VerifyJobs fb obj type v in if \<not> ok then (False, v1) else VerifyJobsVector_loop fb xs v1)"

definition VerifyJobsVector ::
    "('b, 'o, 'p, 'v) flatbuffers \<Rightarrow> 'p option list option \<Rightarrow> Jobs list option \<Rightarrow> 'v \<Rightarrow> bool \<times> 'v" where
  "VerifyJobsVector fb vals types v =
     (if vals = None \<or> types = None then (vals = None \<and> types = None, v)
      else if length (the vals) \<noteq> length (the types) then (False, v)
      else VerifyJobsVector_loop fb (zip (the vals) (the types)) v)"

text \<open>The root table.\<close>

definition VT_PNAME :: uint16 where "VT_PNAME = 4"
definition VT_PPOS :: uint16 where "VT_PPOS = 6"
definition VT_JOB_TYPE :: uint16 where "VT_JOB_TYPE = 8"
definition VT_JOB :: uint16 where "VT_JOB = 10"

definition Player_name :: "('b, 'o, 'p, 'v) flatbuffers \<Rightarrow> 'p \<Rightarrow> 'p option" where
  "Player_name fb p = fb_GetPointer fb VT_PNAME p"

definition Player_pos :: "('b, 'o, 'p, 'v) flatbuffers \<Rightarrow> 'p \<Rightarrow> vec3 option" where
  "Player_pos fb p = fb_GetStruct fb VT_PPOS p"

definition Player_job_type :: "('b, 'o, 'p, 'v) flatbuffers \<Rightarrow> 'p \<Rightarrow> Jobs" where
  "Player_job_type fb p = fb_GetField8 fb VT_JOB_TYPE 0 p"

definition Player_job :: "('b, 'o, 'p, 'v) flatbuffers \<Rightarrow> 'p \<Rightarrow> 'p option" where
  "Player_job fb p = fb_GetPointer fb VT_JOB p"

definition Player_job_as_Magician :: "('b, 'o, 'p, 'v) flatbuffers \<Rightarrow> 'p \<Rightarrow> 'p option" where
  "Player_job_as_Magician fb p = (if Player_job_type fb p = Jobs_Magician then Player_job fb p else None)"

definition Player_job_as_Warrior :: "('b, 'o, 'p, 'v) flatbuffers \<Rightarrow> 'p \<Rightarrow> 'p option" where
  "Player_job_as_Warrior fb p = (if Player_job_type fb p = Jobs_Warrior then Player_job fb p else None)"

definition Player_Verify :: "('b, 'o, 'p, 'v) flatbuffers \<Rightarrow> 'p \<Rightarrow> 'v \<Rightarrow> bool \<times> 'v" where
  "Player_Verify fb p = verify_all
     [fv_VerifyTableStart fb p,
      fv_VerifyOffset fb VT_PNAME p,
      fv_VerifyString fb (Player_name fb p),
      fv_VerifyField fb 12 VT_PPOS 4 p,
      fv_VerifyField fb 1 VT_JOB_TYPE 1 p,
      fv_VerifyOffset fb VT_JOB p,
      VerifyJobs fb (Player_job fb p) (Player_job_type fb p),
      fv_EndTable fb]"

definition PlayerBuilder_new :: "('b, 'o, 'p, 'v) flatbuffers \<Rightarrow> 'b \<Rightarrow> 'o \<times> 'b" where
  "PlayerBuilder_new fb b = fb_StartTable fb b"

definition PlayerBuilder_add_name :: "('b, 'o, 'p, 'v) flatbuffers \<Rightarrow> 'o \<Rightarrow> 'o \<times> 'b \<Rightarrow> 'o \<times> 'b" where
  "PlayerBuilder_add_name fb name = apsnd (fb_AddOffset fb VT_PNAME name)"

definition PlayerBuilder_add_pos :: "('b, 'o, 'p, 'v) flatbuffers \<Rightarrow> vec3 option \<Rightarrow> 'o \<times> 'b \<Rightarrow> 'o \<times> 'b" where
  "PlayerBuilder_add_pos fb pos = apsnd (fb_AddStruct fb VT_PPOS pos)"

definition PlayerBuilder_add_job_type :: "('b, 'o, 'p, 'v) flatbuffers \<Rightarrow> Jobs \<Rightarrow> 'o \<times> 'b \<Rightarrow> 'o \<times> 'b" where
  "PlayerBuilder_add_job_type fb job_type = apsnd (fb_AddElement8 fb VT_JOB_TYPE job_type 0)"

definition PlayerBuilder_add_job :: "('b, 'o, 'p, 'v) flatbuffers \<Rightarrow> 'o \<Rightarrow> 'o \<times> 'b \<Rightarrow> 'o \<times> 'b" where
  "PlayerBuilder_add_job fb job = apsnd (fb_AddOffset fb VT_JOB job)"

definition PlayerBuilder_Finish :: "('b, 'o, 'p, 'v) flatbuffers \<Rightarrow> 'o \<times> 'b \<Rightarrow> 'o \<times> 'b" where
  "PlayerBuilder_Finish fb x = fb_EndTable fb (fst x) (snd x)"

definition CreatePlayer ::
    "('b, 'o, 'p, 'v) flatbuffers \<Rightarrow> 'o \<Rightarrow> vec3 option \<Rightarrow> Jobs \<Rightarrow> 'o \<Rightarrow> 'b \<Rightarrow> 'o \<times> 'b" where
  "CreatePlayer fb name pos job_type job b =
     PlayerBuilder_Finish fb
       (PlayerBuilder_add_job_type fb job_type
         (PlayerBuilder_add_name fb name
           (PlayerBuilder_add_pos fb pos
             (PlayerBuilder_add_job fb job
               (PlayerBuilder_new fb b)))))"

definition CreatePlayerDirect ::
    "('b, 'o, 'p, 'v) flatbuffers \<Rightarrow> string option \<Rightarrow> vec3 option \<Rightarrow> Jobs \<Rightarrow> 'o \<Rightarrow> 'b \<Rightarrow> 'o \<times> 'b" where
  "CreatePlayerDirect fb name pos job_type job b =
     (let (name', b1) = CreateStringDirect fb name b in CreatePlayer fb name' pos job_type job b1)"

definition GetPlayer :: "('b, 'o, 'p, 'v) flatbuffers \<Rightarrow> ubyte list \<Rightarrow> 'p" where
  "GetPlayer fb buf = fb_GetRoot fb buf"

definition GetSizePrefixedPlayer :: "('b, 'o, 'p, 'v) flatbuffers \<Rightarrow> ubyte list \<Rightarrow> 'p" where
  "GetSizePrefixedPlayer fb buf = fb_GetSizePrefixedRoot fb buf"

definition VerifyPlayerBuffer :: "('b, 'o, 'p, 'v) flatbuffers \<Rightarrow> 'v \<Rightarrow> bool \<times> 'v" where
  "VerifyPlayerBuffer fb v = fv_VerifyBuffer fb (Player_Verify fb) v"

definition VerifySizePrefixedPlayerBuffer :: "('b, 'o, 'p, 'v) flatbuffers \<Rightarrow> 'v \<Rightarrow> bool \<times> 'v" where
  "VerifySizePrefixedPlayerBuffer fb v = fv_VerifySizePrefixedBuffer fb (Player_Verify fb) v"

definition FinishPlayerBuffer :: "('b, 'o, 'p, 'v) flatbuffers \<Rightarrow> 'o \<Rightarrow> 'b \<Rightarrow> 'b" where
  "FinishPlayerBuffer fb root b = fb_Finish fb root b"

definition FinishSizePrefixedPlayerBuffer :: "('b, 'o, 'p, 'v) flatbuffers \<Rightarrow> 'o \<Rightarrow> 'b \<Rightarrow> 'b" where
  "FinishSizePrefixedPlayerBuffer fb root b = fb_FinishSizePrefixed fb root b"

section \<open>What the creating functions leave in the builder\<close>

lemma CreateStringDirect_offset:
  assumes "builder_contract fb view" "idle (view b)"
  shows "offset_of (fb_null fb) (view (snd (CreateStringDirect fb s b))) (map_option VStr s) (fst (CreateStringDirect fb s b))"
    and "idle (view (snd (CreateStringDirect fb s b)))"
    and "offset_of (fb_null fb) (view b) w q \<Longrightarrow> offset_of (fb_null fb) (view (snd (CreateStringDirect fb s b))) w q"
  using assms(2) created_offset [OF builder_create(1) [OF assms]] created_keeps [OF builder_create(1) [OF assms]]
    idle_created [OF builder_create(1) [OF assms]]
  by (simp_all add: CreateStringDirect_def split: option.split)

lemma CreateVectorDirect_offset:
  assumes "builder_contract fb view" "idle (view b)"
  shows "offset_of (fb_null fb) (view (snd (CreateVectorDirect fb s b))) (map_option VVec s) (fst (CreateVectorDirect fb s b))"
    and "idle (view (snd (CreateVectorDirect fb s b)))"
    and "offset_of (fb_null fb) (view b) w q \<Longrightarrow> offset_of (fb_null fb) (view (snd (CreateVectorDirect fb s b))) w q"
  using assms(2) created_offset [OF builder_create(2) [OF assms]] created_keeps [OF builder_create(2) [OF assms]]
    idle_created [OF builder_create(2) [OF assms]]
  by (simp_all add: CreateVectorDirect_def split: option.split)

text \<open>The fields of each table.\<close>

definition TestPacket_fields :: "fb_value option \<Rightarrow> int32 \<Rightarrow> fb_fields" where
  "TestPacket_fields msg number = stored_object VT_MSG msg (stored (number \<noteq> 0) VT_NUMBER (V32 number) [])"

definition Creature_fields ::
    "bool \<Rightarrow> vec3 option \<Rightarrow> uint16 \<Rightarrow> fb_value option \<Rightarrow> fb_value option \<Rightarrow> Color \<Rightarrow> fb_fields" where
  "Creature_fields friendly pos hp name drops color =
     stored (of_bool friendly \<noteq> (0 :: ubyte)) VT_FRIENDLY (V8 (of_bool friendly))
       (stored (color \<noteq> 3) VT_COLOR (V8 color)
         (stored (hp \<noteq> 1000) VT_HP (V16 hp)
           (stored_struct VT_CPOS pos (stored_object VT_CNAME name (stored_object VT_DROPS drops [])))))"

definition Player_fields :: "fb_value option \<Rightarrow> vec3 option \<Rightarrow> Jobs \<Rightarrow> fb_value option \<Rightarrow> fb_fields" where
  "Player_fields name pos job_type job =
     stored (job_type \<noteq> 0) VT_JOB_TYPE (V8 job_type)
       (stored_object VT_PNAME name (stored_struct VT_PPOS pos (stored_object VT_JOB job [])))"

lemma CreateTestPacket_created:
  assumes c: "builder_contract fb view" and i: "idle (view b)" and m: "offset_of (fb_null fb) (view b) mv msg"
  shows "created (fb_null fb) (VTab (TestPacket_fields mv number)) (view b)
    (fst (CreateTestPacket fb msg number b)) (view (snd (CreateTestPacket fb msg number b)))"
proof -
  note o1 = builder_add(3) [OF c builder_create(3) [OF c i]]
  note o2 = builder_add(5) [OF c o1 m]
  show ?thesis
    using builder_add(6) [OF c o2]
    by (simp add: CreateTestPacket_def TestPacketBuilder_Finish_def TestPacketBuilder_add_msg_def
        TestPacketBuilder_add_number_def TestPacketBuilder_new_def TestPacket_fields_def)
qed

lemma CreateCreature_created:
  assumes c: "builder_contract fb view" and i: "idle (view b)"
    and n: "offset_of (fb_null fb) (view b) nv name" and d: "offset_of (fb_null fb) (view b) dv drops"
  shows "created (fb_null fb) (VTab (Creature_fields friendly pos hp nv dv color)) (view b)
    (fst (CreateCreature fb friendly pos hp name drops color b))
    (view (snd (CreateCreature fb friendly pos hp name drops color b)))"
proof -
  note o1 = builder_add(5) [OF c builder_create(3) [OF c i] d]
  note o2 = builder_add(5) [OF c o1 n]
  note o3 = builder_add(4) [OF c o2]
  note o4 = builder_add(2) [OF c o3]
  note o5 = builder_add(1) [OF c o4]
  note o6 = builder_add(1) [OF c o5]
  show ?thesis
    using builder_add(6) [OF c o6]
    by (simp only: CreateCreature_def CreatureBuilder_Finish_def CreatureBuilder_add_drops_def CreatureBuilder_add_name_def
        CreatureBuilder_add_pos_def CreatureBuilder_add_hp_def CreatureBuilder_add_color_def CreatureBuilder_add_friendly_def
        CreatureBuilder_new_def Creature_fields_def fst_apsnd snd_apsnd)
qed

lemma CreatePlayer_created:
  assumes c: "builder_contract fb view" and i: "idle (view b)"
    and n: "offset_of (fb_null fb) (view b) nv name" and j: "offset_of (fb_null fb) (view b) jv job"
  shows "created (fb_null fb) (VTab (Player_fields nv pos job_type jv)) (view b)
    (fst (CreatePlayer fb name pos job_type job b)) (view (snd (CreatePlayer fb name pos job_type job b)))"
proof -
  note o1 = builder_add(5) [OF c builder_create(3) [OF c i] j]
  note o2 = builder_add(4) [OF c o1]
  note o3 = builder_add(5) [OF c o2 n]
  note o4 = builder_add(1) [OF c o3]
  show ?thesis
    using builder_add(6) [OF c o4]
    by (simp only: CreatePlayer_def PlayerBuilder_Finish_def PlayerBuilder_add_job_def PlayerBuilder_add_pos_def
        PlayerBuilder_add_name_def PlayerBuilder_add_job_type_def PlayerBuilder_new_def Player_fields_def fst_apsnd snd_apsnd)
qed

lemma CreateMagician_created:
  assumes c: "builder_contract fb view" and i: "idle (view b)"
  shows "created (fb_null fb) (VTab (stored (magic \<noteq> 0) VT_MAGIC (V32 magic) [])) (view b)
    (fst (CreateMagician fb magic b)) (view (snd (CreateMagician fb magic b)))"
  using builder_add(6) [OF c builder_add(3) [OF c builder_create(3) [OF c i]]]
  by (simp only: CreateMagician_def MagicianBuilder_Finish_def MagicianBuilder_add_magic_def MagicianBuilder_new_def
      fst_apsnd snd_apsnd)

lemma CreateWarrior_created:
  assumes c: "builder_contract fb view" and i: "idle (view b)"
  shows "created (fb_null fb) (VTab (stored (attack \<noteq> 0) VT_ATTACK (V16 attack) [])) (view b)
    (fst (CreateWarrior fb attack b)) (view (snd (CreateWarrior fb attack b)))"
  using builder_add(6) [OF c builder_add(2) [OF c builder_create(3) [OF c i]]]
  by (simp only: CreateWarrior_def WarriorBuilder_Finish_def WarriorBuilder_add_attack_def WarriorBuilder_new_def
      fst_apsnd snd_apsnd)

section \<open>What the accessors read\<close>

lemmas vt_defs = VT_MSG_def VT_NUMBER_def VT_FRIENDLY_def VT_CPOS_def VT_HP_def VT_CNAME_def VT_DROPS_def VT_COLOR_def
  VT_MAGIC_def VT_ATTACK_def VT_PNAME_def VT_PPOS_def VT_JOB_TYPE_def VT_JOB_def

lemmas field_defs = TestPacket_fields_def Creature_fields_def Player_fields_def stored_defs vt_defs

lemma TestPacket_reads:
  assumes r: "reader_contract fb val" and p: "val p = VTab (TestPacket_fields (map_option VStr msg) number)"
  shows "map_option (fb_String fb) (TestPacket_msg fb p) = msg" and "TestPacket_number fb p = number"
  unfolding TestPacket_msg_def TestPacket_number_def
  by (rule reader_string [OF r p], simp add: field_defs split: option.split)
    (rule reader_fields(3) [OF r p], simp add: field_defs split: option.split)

lemma Creature_reads:
  assumes r: "reader_contract fb val"
    and p: "val p = VTab (Creature_fields friendly pos hp (map_option VStr name) (map_option VVec drops) color)"
  shows "Creature_friendly fb p = friendly" and "Creature_pos fb p = pos" and "Creature_hp fb p = hp"
    and "map_option (fb_String fb) (Creature_name fb p) = name"
    and "map_option (fb_Vector fb) (Creature_drops fb p) = drops" and "Creature_color fb p = color"
proof -
  have "fb_GetField8 fb VT_FRIENDLY 0 p = of_bool friendly"
    by (rule reader_fields(1) [OF r p]) (auto simp: field_defs split: option.split)
  then show "Creature_friendly fb p = friendly" by (simp add: Creature_friendly_def)
  show "Creature_pos fb p = pos" unfolding Creature_pos_def
    by (rule reader_fields(4) [OF r p]) (auto simp: field_defs split: option.split)
  show "Creature_hp fb p = hp" unfolding Creature_hp_def
    by (rule reader_fields(2) [OF r p]) (auto simp: field_defs split: option.split)
  show "map_option (fb_String fb) (Creature_name fb p) = name" unfolding Creature_name_def
    by (rule reader_string [OF r p]) (auto simp: field_defs split: option.split)
  show "map_option (fb_Vector fb) (Creature_drops fb p) = drops" unfolding Creature_drops_def
    by (rule reader_vector [OF r p]) (auto simp: field_defs split: option.split)
  show "Creature_color fb p = color" unfolding Creature_color_def
    by (rule reader_fields(1) [OF r p]) (auto simp: field_defs split: option.split)
qed

lemma Player_reads:
  assumes r: "reader_contract fb val"
    and p: "val p = VTab (Player_fields (map_option VStr name) pos job_type (map_option VTab job))"
  shows "map_option (fb_String fb) (Player_name fb p) = name" and "Player_pos fb p = pos"
    and "Player_job_type fb p = job_type" and "map_option val (Player_job fb p) = map_option VTab job"
proof -
  show "map_option (fb_String fb) (Player_name fb p) = name" unfolding Player_name_def
    by (rule reader_string [OF r p]) (auto simp: field_defs split: option.split)
  show "Player_pos fb p = pos" unfolding Player_pos_def
    by (rule reader_fields(4) [OF r p]) (auto simp: field_defs split: option.split)
  show "Player_job_type fb p = job_type" unfolding Player_job_type_def
    by (rule reader_fields(1) [OF r p]) (auto simp: field_defs split: option.split)
  show "map_option val (Player_job fb p) = map_option VTab job" unfolding Player_job_def
    by (rule reader_fields(5) [OF r p]) (auto simp: field_defs split: option.split)
qed

section \<open>Round trips\<close>

lemma created_root:
  assumes b: "buffer_contract fb view val" and k: "created (fb_null fb) (VTab fs) t (fst x) (view (snd x))"
    and i: "idle t" and x: "x = (root, b1)"
  shows "val (fb_GetRoot fb (fb_buffer fb (fb_Finish fb root b1) @ rest)) = VTab fs"
    and "val (fb_GetSizePrefixedRoot fb (fb_buffer fb (fb_FinishSizePrefixed fb root b1) @ rest)) = VTab fs"
  using buffer_root [OF b] idle_created [OF k] created_offset [OF k] i by (simp_all add: x)

lemma CreateTestPacketDirect_root:
  assumes c: "builder_contract fb view" and b: "buffer_contract fb view val" and i: "idle (view b)"
    and x: "CreateTestPacketDirect fb msg number b = (root, b1)"
  shows "val (GetTestPacket fb (fb_buffer fb (FinishTestPacketBuffer fb root b1) @ rest)) =
      VTab (TestPacket_fields (map_option VStr msg) number)"
    and "val (GetSizePrefixedTestPacket fb (fb_buffer fb (FinishSizePrefixedTestPacketBuffer fb root b1) @ rest)) =
      VTab (TestPacket_fields (map_option VStr msg) number)"
proof -
  note n = CreateStringDirect_offset [OF c i]
  have "CreateTestPacket fb (fst (CreateStringDirect fb msg b)) number (snd (CreateStringDirect fb msg b)) = (root, b1)"
    using x by (simp add: CreateTestPacketDirect_def split_beta)
  note k = created_root [OF b CreateTestPacket_created [OF c n(2) n(1)] n(2) this]
  show "val (GetTestPacket fb (fb_buffer fb (FinishTestPacketBuffer fb root b1) @ rest)) =
      VTab (TestPacket_fields (map_option VStr msg) number)"
    "val (GetSizePrefixedTestPacket fb (fb_buffer fb (FinishSizePrefixedTestPacketBuffer fb root b1) @ rest)) =
      VTab (TestPacket_fields (map_option VStr msg) number)"
    unfolding GetTestPacket_def FinishTestPacketBuffer_def GetSizePrefixedTestPacket_def
        FinishSizePrefixedTestPacketBuffer_def by (fact k)+
qed

lemma CreateCreatureDirect_root:
  assumes c: "builder_contract fb view" and b: "buffer_contract fb view val" and i: "idle (view b)"
    and x: "CreateCreatureDirect fb friendly pos hp name drops color b = (root, b1)"
  shows "val (GetCreature fb (fb_buffer fb (FinishCreatureBuffer fb root b1) @ rest)) =
      VTab (Creature_fields friendly pos hp (map_option VStr name) (map_option VVec drops) color)"
proof -
  let ?n = "CreateStringDirect fb name b"
  let ?d = "CreateVectorDirect fb drops (snd ?n)"
  note n = CreateStringDirect_offset [OF c i]
  note d = CreateVectorDirect_offset [OF c n(2)]
  have "CreateCreature fb friendly pos hp (fst ?n) (fst ?d) color (snd ?d) = (root, b1)"
    using x by (simp add: CreateCreatureDirect_def split_beta)
  note k = created_root [OF b CreateCreature_created [OF c d(2) d(3) [OF n(1)] d(1)] d(2) this]
  show ?thesis unfolding GetCreature_def FinishCreatureBuffer_def by (fact k)
qed

lemma CreatePlayerDirect_root:
  assumes c: "builder_contract fb view" and b: "buffer_contract fb view val" and i: "idle (view b)"
    and j: "offset_of (fb_null fb) (view b) jv job"
    and x: "CreatePlayerDirect fb name pos job_type job b = (root, b1)"
  shows "val (GetPlayer fb (fb_buffer fb (FinishPlayerBuffer fb root b1) @ rest)) =
      VTab (Player_fields (map_option VStr name) pos job_type jv)"
proof -
  let ?n = "CreateStringDirect fb name b"
  note n = CreateStringDirect_offset [OF c i]
  have "CreatePlayer fb (fst ?n) pos job_type job (snd ?n) = (root, b1)"
    using x by (simp add: CreatePlayerDirect_def split_beta)
  note k = created_root [OF b CreatePlayer_created [OF c n(2) n(1) n(3) [OF j]] n(2) this]
  show ?thesis unfolding GetPlayer_def FinishPlayerBuffer_def by (fact k)
qed

text \<open>A test packet survives the trip: whatever follows the finished buffer in memory, the accessors read
  the message and the number that \<^verbatim>\<open>CreateTestPacketDirect\<close> was given, a missing message as a null
  pointer and a number that equals the default included; the same with a size prefix.\<close>

theorem TestPacket_roundtrip:
  assumes "builder_contract fb view" and "reader_contract fb val" and "buffer_contract fb view val"
    and "idle (view b)" and "CreateTestPacketDirect fb msg number b = (root, b1)"
    and "p \<in> {GetTestPacket fb (fb_buffer fb (FinishTestPacketBuffer fb root b1) @ rest),
              GetSizePrefixedTestPacket fb (fb_buffer fb (FinishSizePrefixedTestPacketBuffer fb root b1) @ rest)}"
  shows "map_option (fb_String fb) (TestPacket_msg fb p) = msg \<and> TestPacket_number fb p = number"
proof -
  have "val p = VTab (TestPacket_fields (map_option VStr msg) number)"
    using CreateTestPacketDirect_root [OF assms(1,3,4,5)] assms(6) by auto
  from TestPacket_reads [OF assms(2) this] show ?thesis by simp
qed

theorem TestPacket_roundtrip_witness:
  "\<exists>root b p. CreateTestPacketDirect plain_flatbuffers (Some ''hi'') 100 plain_new = (root, b) \<and>
     p = GetTestPacket plain_flatbuffers
           (fb_buffer plain_flatbuffers (FinishTestPacketBuffer plain_flatbuffers root b) @ [7, 7]) \<and>
     map_option (fb_String plain_flatbuffers) (TestPacket_msg plain_flatbuffers p) = Some ''hi'' \<and>
     TestPacket_number plain_flatbuffers p = 100"
proof (cases "CreateTestPacketDirect plain_flatbuffers (Some ''hi'') 100 plain_new")
  case (Pair root b)
  from TestPacket_roundtrip [OF plain_builder_contract plain_reader_contract plain_buffer_contract plain_new_idle this,
      OF insertI1, of "[7, 7]"] Pair
  show ?thesis by blast
qed

text \<open>A creature survives the trip with all six of its fields.\<close>

theorem Creature_roundtrip:
  assumes "builder_contract fb view" and "reader_contract fb val" and "buffer_contract fb view val"
    and "idle (view b)" and "CreateCreatureDirect fb friendly pos hp name drops color b = (root, b1)"
    and "p = GetCreature fb (fb_buffer fb (FinishCreatureBuffer fb root b1) @ rest)"
  shows "Creature_friendly fb p = friendly \<and> Creature_pos fb p = pos \<and> Creature_hp fb p = hp \<and>
    map_option (fb_String fb) (Creature_name fb p) = name \<and> map_option (fb_Vector fb) (Creature_drops fb p) = drops \<and>
    Creature_color fb p = color"
  unfolding assms(6)
  by (intro conjI Creature_reads [OF assms(2) CreateCreatureDirect_root [OF assms(1,3,4,5)]])

theorem Creature_roundtrip_witness:
  "\<exists>root b p. CreateCreatureDirect plain_flatbuffers True (Some Vec3_default) 1000 None (Some [1, 2]) Color_Green plain_new = (root, b) \<and>
     p = GetCreature plain_flatbuffers
           (fb_buffer plain_flatbuffers (FinishCreatureBuffer plain_flatbuffers root b) @ []) \<and>
     Creature_hp plain_flatbuffers p = 1000 \<and> Creature_name plain_flatbuffers p = None \<and>
     Creature_color plain_flatbuffers p = Color_Green"
proof (cases "CreateCreatureDirect plain_flatbuffers True (Some Vec3_default) 1000 None (Some [1, 2]) Color_Green plain_new")
  case (Pair root b)
  from Creature_roundtrip [OF plain_builder_contract plain_reader_contract plain_buffer_contract plain_new_idle this refl,
      of "[]"] Pair
  show ?thesis by simp
qed

text \<open>C20. A player survives the trip with its job: a magician is read as a magician with its magic and not as a
  warrior, and the other way round.\<close>

theorem Player_roundtrip:
  assumes "builder_contract fb view" and "reader_contract fb val" and "buffer_contract fb view val" and "idle (view b)"
    and "if t = Jobs_Magician then CreateMagician fb magic b = (job, b1)
         else t = Jobs_Warrior \<and> CreateWarrior fb attack b = (job, b1)"
    and "CreatePlayerDirect fb name pos t job b1 = (root, b2)"
    and "p = GetPlayer fb (fb_buffer fb (FinishPlayerBuffer fb root b2) @ rest)"
  shows "map_option (fb_String fb) (Player_name fb p) = name \<and> Player_pos fb p = pos \<and> Player_job_type fb p = t \<and>
    map_option (Magician_magic fb) (Player_job_as_Magician fb p) = (if t = Jobs_Magician then Some magic else None) \<and>
    map_option (Warrior_attack fb) (Player_job_as_Warrior fb p) = (if t = Jobs_Warrior then Some attack else None)"
proof -
  define fs where "fs = (if t = Jobs_Magician then stored (magic \<noteq> 0) VT_MAGIC (V32 magic) []
    else stored (attack \<noteq> 0) VT_ATTACK (V16 attack) [])"
  have k: "created (fb_null fb) (VTab fs) (view b) job (view b1)"
    using CreateMagician_created [OF assms(1,4), of magic] CreateWarrior_created [OF assms(1,4), of attack] assms(5)
    by (auto simp: fs_def split: if_splits)
  have b1: "idle (view b1)" using idle_created [OF k] assms(4) by simp
  have "val p = VTab (Player_fields (map_option VStr name) pos t (map_option VTab (Some fs)))"
    using CreatePlayerDirect_root [OF assms(1,3) b1 created_offset [OF k] assms(6)] assms(7) by simp
  note P = Player_reads [OF assms(2) this]
  then obtain q where q: "Player_job fb p = Some q" "val q = VTab fs" by auto
  have "t = Jobs_Magician \<Longrightarrow> Magician_magic fb q = magic"
    unfolding Magician_magic_def by (rule reader_fields(3) [OF assms(2) q(2)]) (simp add: fs_def field_defs)
  moreover have "t = Jobs_Warrior \<Longrightarrow> Warrior_attack fb q = attack"
    unfolding Warrior_attack_def
    by (rule reader_fields(2) [OF assms(2) q(2)]) (simp add: fs_def field_defs Jobs_Magician_def Jobs_Warrior_def)
  ultimately show ?thesis
    using P q(1) by (auto simp: Player_job_as_Magician_def Player_job_as_Warrior_def Jobs_Magician_def Jobs_Warrior_def)
qed

theorem Player_roundtrip_witness:
  "\<exists>job b1 root b2 p. CreateWarrior plain_flatbuffers 30 plain_new = (job, b1) \<and>
     CreatePlayerDirect plain_flatbuffers (Some ''a'') None Jobs_Warrior job b1 = (root, b2) \<and>
     p = GetPlayer plain_flatbuffers (fb_buffer plain_flatbuffers (FinishPlayerBuffer plain_flatbuffers root b2) @ []) \<and>
     Player_job_as_Magician plain_flatbuffers p = None \<and>
     map_option (Warrior_attack plain_flatbuffers) (Player_job_as_Warrior plain_flatbuffers p) = Some 30"
proof -
  obtain job b1 where j: "CreateWarrior plain_flatbuffers 30 plain_new = (job, b1)" by fastforce
  obtain root b2 where x: "CreatePlayerDirect plain_flatbuffers (Some ''a'') None Jobs_Warrior job b1 = (root, b2)" by fastforce
  from Player_roundtrip [OF plain_builder_contract plain_reader_contract plain_buffer_contract plain_new_idle _ x refl,
      of 0 30 "[]"] j x
  show ?thesis by (simp add: Jobs_Magician_def Jobs_Warrior_def)
qed

section \<open>Names and unions\<close>

lemma all_ubyte:
  assumes "\<forall>e \<in> set (map of_nat [0..<256]). P e"
  shows "P (e :: ubyte)"
proof -
  have "unat e < 2 ^ LENGTH(8)" by (rule unsigned_less)
  then have "of_nat (unat e) \<in> (set (map of_nat [0..<256]) :: ubyte set)"
    unfolding set_map by (intro imageI) simp
  with assms have "P (of_nat (unat e))" by (rule bspec)
  then show ?thesis by simp
qed

text \<open>The name tables: each value of the enumeration has its name, every other number the empty string; the
  null pointer at the end of a table is never read.\<close>

theorem EnumNameColor_result:
  "EnumNameColor e =
     Some (if e = Color_Red then ''Red'' else if e = Color_Green then ''Green'' else if e = Color_Blue then ''Blue'' else [])"
proof -
  have "\<forall>e \<in> set (map of_nat [0..<256]). EnumNameColor e =
     Some (if e = Color_Red then ''Red'' else if e = Color_Green then ''Green'' else if e = Color_Blue then ''Blue'' else [])"
    by code_simp
  then show ?thesis by (rule all_ubyte)
qed

theorem EnumNameJobs_result:
  "EnumNameJobs e =
     Some (if e = Jobs_NONE then ''NONE'' else if e = Jobs_Magician then ''Magician'' else if e = Jobs_Warrior then ''Warrior'' else [])"
proof -
  have "\<forall>e \<in> set (map of_nat [0..<256]). EnumNameJobs e =
     Some (if e = Jobs_NONE then ''NONE'' else if e = Jobs_Magician then ''Magician'' else if e = Jobs_Warrior then ''Warrior'' else [])"
    by code_simp
  then show ?thesis by (rule all_ubyte)
qed

text \<open>Two vectors of a union verify when both are missing, or when they have the same length and the elements
  verify one after the other; elements of an unknown type always do.\<close>

theorem VerifyJobsVector_result:
  "VerifyJobsVector fb vals types v =
     (case (vals, types) of
        (None, None) \<Rightarrow> (True, v)
      | (Some xs, Some ts) \<Rightarrow> if length xs = length ts then verify_all (map2 (VerifyJobs fb) xs ts) v else (False, v)
      | _ \<Rightarrow> (False, v))"
proof -
  have "VerifyJobsVector_loop fb zs v = verify_all (map (\<lambda>(obj, type). VerifyJobs fb obj type) zs) v" for zs v
    by (induction fb zs v rule: VerifyJobsVector_loop.induct) (auto split: prod.split)
  then show ?thesis by (simp add: VerifyJobsVector_def split: option.split)
qed

end
