(* ===== verification/Test_Programs.thy ===== *)
theory Test_Programs
  imports Services Core_Global Packet_Types
begin

text \<open>
  The two programs that come with the library, \<^verbatim>\<open>src/TestServer/\<close> and \<^verbatim>\<open>src/TestClient/\<close>: the packet manager
  and its handler, the session classes with their callbacks, the session manager, and what \<^verbatim>\<open>main\<close> and
  the threads it starts do in one round. They use the library as it is modelled in \<open>Services\<close>, \<open>Packets\<close>
  and \<open>Jobs\<close>; the state adds what a \<^verbatim>\<open>PacketSession\<close> has beside its \<^verbatim>\<open>Session\<close> (\<open>ta_ps\<close>) and the lines the
  programs print or log. The sessions of the session manager are the ones the application holds
  (\<open>nt_held\<close>). \<open>parse\<close> is how the handler reads the message and the number of a packet and \<open>build\<close> the
  buffer that is made of a message; \<open>TestPacket_parse\<close> and \<open>TestPacket_build\<close> are these two with the packet
  type of \<open>Packet_Types\<close>.
\<close>

section \<open>Packets\<close>

datatype handler = TestPacketHandler

datatype app_output =
    Out_Packet string int32
  | Out_NoRegisteredId uint16
  | Out_PeerNameFailed
  | Out_UpdateFailed
  | Out_OnConnected uint32 "ubyte list"
  | Out_Disconnected uint32

type_synonym packet_parser = "ubyte list \<Rightarrow> (string \<times> int32) outcome"

text \<open>The handler does not verify the buffer and does not check the pointer to the message; \<^verbatim>\<open>c_str\<close> ends at
  the first zero.\<close>

definition TestPacket_parse :: "('b, 'o, 'p, 'v) flatbuffers \<Rightarrow> packet_parser" where
  "TestPacket_parse fb pkt =
     (let p = GetTestPacket fb pkt
      in case TestPacket_msg fb p of None \<Rightarrow> Fault NullDereference
         | Some m \<Rightarrow> Ok (takeWhile (\<lambda>c. c \<noteq> CHR 0x00) (fb_String fb m), TestPacket_number fb p))"

definition run_handler :: "handler \<Rightarrow> packet_parser \<Rightarrow> ubyte list \<Rightarrow> app_output outcome" where
  "run_handler h parse pkt =
     (case h of TestPacketHandler \<Rightarrow> and_then (parse pkt) (\<lambda>(msg, number). Ok (Out_Packet msg number)))"

definition PacketManager_init :: "uint16 \<rightharpoonup> handler" where
  "PacketManager_init = Map.empty(1 \<mapsto> TestPacketHandler)"

definition PacketManager_Dispatch :: "packet_parser \<Rightarrow> (uint16 \<rightharpoonup> handler) \<Rightarrow> uint16 \<Rightarrow> ubyte list \<Rightarrow> app_output outcome" where
  "PacketManager_Dispatch parse handlers i ptr =
     (case handlers i of Some h \<Rightarrow> run_handler h parse ptr | None \<Rightarrow> Ok (Out_NoRegisteredId i))"

text \<open>The buffer of a message: what \<^verbatim>\<open>GetTestPacket\<close> of both programs does with a new builder.\<close>

definition TestPacket_build :: "('b, 'o, 'p, 'v) flatbuffers \<Rightarrow> 'b \<Rightarrow> string \<Rightarrow> ubyte list" where
  "TestPacket_build fb builder msg =
     (let (msg_os, b1) = fb_CreateString fb msg builder;
          (pkt, b2) = CreateTestPacket fb msg_os 100 b1
      in fb_buffer fb (fb_Finish fb pkt b2))"

text \<open>The builder's memory is given back when the function returns; the bytes stay until the block is
  used again. The server's version has an 8-bit size, the client's a 16-bit size.\<close>

definition TestServer_GetTestPacket :: "(string \<Rightarrow> ubyte list) \<Rightarrow> string \<Rightarrow> ubyte list \<times> ubyte" where
  "TestServer_GetTestPacket build msg = (build msg, of_nat (length (build msg)))"

definition TestClient_GetTestPacket :: "(string \<Rightarrow> ubyte list) \<Rightarrow> string \<Rightarrow> ubyte list \<times> uint16" where
  "TestClient_GetTestPacket build msg = (build msg, of_nat (length (build msg)))"

section \<open>Sessions and their manager\<close>

datatype app_job = FlushSessions

record test_app =
  ta_net :: net
  ta_ps :: "nat \<Rightarrow> packet_session"
  ta_world :: sb_world
  ta_ip :: "nat \<Rightarrow> ubyte list"
  ta_worker :: "app_job global_worker"
  ta_off :: bool
  ta_out :: "app_output list"

abbreviation (input) print :: "app_output list \<Rightarrow> test_app \<Rightarrow> test_app" where
  "print xs a \<equiv> a\<lparr>ta_out := ta_out a @ xs\<rparr>"

definition SessionManager_AddSession :: "nat \<Rightarrow> net \<Rightarrow> net" where
  "SessionManager_AddSession r n = n\<lparr>nt_held := nt_held n @ [r]\<rparr>"

text \<open>What \<^verbatim>\<open>GetPeerName\<close> yields: the address, and the wide string written for it.\<close>

record peer =
  pe_name :: "sockaddr_in option"
  pe_addr :: "uint16 list"
  pe_convert :: "uint16 list \<Rightarrow> int32 \<Rightarrow> int32 \<Rightarrow> int32 \<times> ubyte list"

definition print_peer :: "peer \<Rightarrow> nat \<Rightarrow> test_app \<Rightarrow> test_app" where
  "print_peer x r a =
     (let (ok, _) = AddrUtils_GetPeerName (pe_name x) 0;
          a1 = (if ok = False then print [Out_PeerNameFailed] a else a);
          ip = Utils_ToString_ptr (pe_convert x) (Some (if ok then pe_addr x else []))
      in print [Out_OnConnected (se_sessionId (nt_session (ta_net a1) r)) ip] (a1\<lparr>ta_ip := (ta_ip a1)(r := ip)\<rparr>))"

definition ClientSession_OnConnected :: "peer \<Rightarrow> nat \<Rightarrow> test_app \<Rightarrow> test_app" where
  "ClientSession_OnConnected x r a =
     (let a1 = print_peer x r a in a1\<lparr>ta_net := SessionManager_AddSession r (ta_net a1)\<rparr>)"

definition update_and_print_peer :: "int32 \<Rightarrow> peer \<Rightarrow> nat \<Rightarrow> test_app \<Rightarrow> test_app outcome" where
  "update_and_print_peer upd x r a =
     and_then (SocketUtils_SetUpdateConnectContext upd (nt_err (ta_net a))) (\<lambda>(ok, e).
       let a1 = a\<lparr>ta_net := (ta_net a)\<lparr>nt_err := e\<rparr>\<rparr>;
           a2 = (if ok = False then print [Out_UpdateFailed] a1 else a1)
       in Ok (print_peer x r a2))"

definition ServerSession_OnConnected :: "int32 \<Rightarrow> peer \<Rightarrow> nat \<Rightarrow> test_app \<Rightarrow> test_app outcome" where
  "ServerSession_OnConnected upd x r a =
     and_then (update_and_print_peer upd x r a) (\<lambda>a1.
       Ok (a1\<lparr>ta_net := SessionManager_AddSession r (ta_net a1)\<rparr>))"

definition ClientSession_OnRecvPacket :: "packet_parser \<Rightarrow> ubyte list \<Rightarrow> uint16 \<Rightarrow> test_app \<Rightarrow> test_app outcome" where
  "ClientSession_OnRecvPacket parse buffer i a =
     and_then (PacketManager_Dispatch parse PacketManager_init i buffer) (\<lambda>x. Ok (print [x] a))"

definition ClientSession_OnDisconnected :: "nat \<Rightarrow> test_app \<Rightarrow> test_app" where
  "ClientSession_OnDisconnected r a = print [Out_Disconnected (se_sessionId (nt_session (ta_net a) r))] a"

text \<open>\<^verbatim>\<open>Flush\<close> of one session: the two readings of the clock, and the result of \<^verbatim>\<open>WSASend\<close>.\<close>

record flush_io =
  fl_now1 :: uint64
  fl_now2 :: uint64
  fl_send :: io_result

definition session_Flush :: "flush_io \<Rightarrow> nat \<Rightarrow> test_app \<Rightarrow> test_app" where
  "session_Flush x r a =
     (let (list, p) = PacketSession_Flush (fl_now1 x) (fl_now2 x) (ta_ps a r)
      in a\<lparr>ta_ps := (ta_ps a)(r := p), ta_net := Session_send r list (fl_send x) (ta_net a)\<rparr>)"

definition SessionManager_FlushSessions :: "(nat \<Rightarrow> flush_io) \<Rightarrow> test_app \<Rightarrow> test_app" where
  "SessionManager_FlushSessions io a =
     fold (\<lambda>r a. if se_connected (nt_session (ta_net a) r) then session_Flush (io r) r a else a)
       (nt_held (ta_net a)) a"

section \<open>The server's rounds\<close>

text \<open>\<^verbatim>\<open>Broadcast\<close> with the \<^verbatim>\<open>Send\<close> of the sessions written out, by thread \<open>t\<close>.\<close>

fun broadcast :: "nat \<Rightarrow> uint16 \<Rightarrow> ubyte list \<Rightarrow> uint16 \<Rightarrow> nat list \<Rightarrow> test_app \<Rightarrow> test_app outcome" where
  "broadcast t i data sz [] a = Ok a"
| "broadcast t i data sz (r # rs) a =
     (if se_connected (nt_session (ta_net a) r)
      then and_then (PacketSession_Send t i (Some data) sz (ta_ps a r) (ta_world a) (nt_err (ta_net a)))
             (\<lambda>(p, w). broadcast t i data sz rs (a\<lparr>ta_ps := (ta_ps a)(r := p), ta_world := w\<rparr>))
      else broadcast t i data sz rs a)"

definition server_sessions :: "net \<Rightarrow> nat list" where
  "server_sessions n = (case sv_impl (nt_service n) of ServerService _ ss _ \<Rightarrow> ss | _ \<Rightarrow> [])"

text \<open>One round of the input loop of \<^verbatim>\<open>main\<close>, on thread \<open>t\<close>.\<close>

definition TestServer_input :: "nat \<Rightarrow> (string \<Rightarrow> ubyte list) \<Rightarrow> string \<Rightarrow> test_app \<Rightarrow> test_app outcome" where
  "TestServer_input t build msg a =
     (if msg = ''stop'' then Ok (a\<lparr>ta_off := True\<rparr>)
      else let (ptr, sz) = TestServer_GetTestPacket build msg
           in broadcast t 1 ptr (ucast sz) (server_sessions (ta_net a)) a)"

text \<open>The callbacks a handler of the library made, as they appear at the end of the trace. The library
  model has already added the session to the ones that are held.\<close>

fun app_callback :: "packet_parser \<Rightarrow> (nat \<Rightarrow> peer) \<Rightarrow> trace_item \<Rightarrow> test_app \<Rightarrow> test_app outcome" where
  "app_callback parse peers (OnConnected r) a = Ok (print_peer (peers r) r a)"
| "app_callback parse peers (OnRecv r calls) a =
     fold_ok (\<lambda>(pos, i). ClientSession_OnRecvPacket parse
             (drop (unat (rb_dataPos (se_recvBuffer (nt_session (ta_net a) r))) + pos)
               (rb_buffer (se_recvBuffer (nt_session (ta_net a) r)))) i) calls a"
| "app_callback parse peers (OnDisconnected r) a = Ok (ClientSession_OnDisconnected r a)"
| "app_callback parse peers x a = Ok a"

text \<open>A completion with the bytes that the system has stored for it.\<close>

record app_completion =
  ac_completion :: completion
  ac_stored :: "ubyte list"

definition store_received :: "app_completion \<Rightarrow> net \<Rightarrow> net outcome" where
  "store_received x n =
     (case cp_overlapped (ac_completion x) of
        RecvEvent_of r \<Rightarrow> and_then (recv_bytes (ac_stored x) (se_recvBuffer (nt_session n r)))
          (\<lambda>b. Ok (upd_session r (se_recvBuffer_update (\<lambda>_. b)) n))
      | _ \<Rightarrow> Ok n)"

fun process_entries ::
    "packet_parser \<Rightarrow> (nat \<Rightarrow> peer) \<Rightarrow> app_completion list \<Rightarrow> test_app \<Rightarrow> test_app outcome option" where
  "process_entries parse peers [] a = Some (Ok a)"
| "process_entries parse peers (x # xs) a =
     (case store_received x (ta_net a) of
        Fault f \<Rightarrow> Some (Fault f)
      | Ok n0 \<Rightarrow>
          (case process_completion PacketSession_OnRecv (ac_completion x) n0 of
             None \<Rightarrow> None
           | Some (Fault f) \<Rightarrow> Some (Fault f)
           | Some (Ok n1) \<Rightarrow>
               (case fold_ok (app_callback parse peers) (drop (length (nt_trace n0)) (nt_trace n1)) (a\<lparr>ta_net := n1\<rparr>) of
                  Fault f \<Rightarrow> Some (Fault f)
                | Ok a1 \<Rightarrow> process_entries parse peers xs a1)))"

text \<open>A reserved job that is due is pushed to the session manager, which runs it at once: the threads of
  the server execute no other job. A serializer that \<^verbatim>\<open>DoWorkJob\<close> takes from the global queue has no job
  left.\<close>

definition run_reserved :: "(nat \<Rightarrow> flush_io) \<Rightarrow> (nat \<times> app_job) list \<Rightarrow> test_app \<Rightarrow> test_app" where
  "run_reserved io calls a = fold (\<lambda>(_, FlushSessions) a. SessionManager_FlushSessions io a) calls a"

record round_io =
  ro_entries :: "app_completion list"
  ro_peers :: "nat \<Rightarrow> peer"
  ro_start :: uint64
  ro_clock :: "nat \<Rightarrow> uint64"
  ro_now :: uint64
  ro_flush :: "nat \<Rightarrow> flush_io"

definition TestServer_round :: "packet_parser \<Rightarrow> round_io \<Rightarrow> test_app \<Rightarrow> test_app outcome option" where
  "TestServer_round parse x a =
     (case process_entries parse (ro_peers x) (take MAX_ENTRY_COUNT (ro_entries x)) a of
        Some (Ok a1) \<Rightarrow>
          (case GlobalJobWorker_DoJobs (ro_clock x) (\<lambda>_ _ q. q) DEFAULT_EXECUTION_TICKCOUNT (ro_start x)
                  (gw_jobQueue (ta_worker a1)) of
             None \<Rightarrow> None
           | Some (_, q) \<Rightarrow>
               (let (calls, g) = TaskManagerEx_CheckReservedJob (\<lambda>_. True) (ro_now x) ((ta_worker a1)\<lparr>gw_jobQueue := q\<rparr>)
                in Some (Ok (run_reserved (ro_flush x) calls (a1\<lparr>ta_worker := g\<rparr>)))))
      | y \<Rightarrow> y)"

text \<open>\<^verbatim>\<open>main\<close> before its input loop reserves one run of \<^verbatim>\<open>FlushSessions\<close>.\<close>

definition TestServer_reserve :: "uint64 \<Rightarrow> test_app \<Rightarrow> test_app" where
  "TestServer_reserve now a =
     a\<lparr>ta_worker := snd (JobSerializer_PushReservableJob now 100 FlushSessions 0 (ta_worker a))\<rparr>"

datatype server_event = Worker_round round_io | Input string

fun TestServer_run ::
    "nat \<Rightarrow> packet_parser \<Rightarrow> (string \<Rightarrow> ubyte list) \<Rightarrow> server_event list \<Rightarrow> test_app \<Rightarrow> test_app outcome option" where
  "TestServer_run t parse build [] a = Some (Ok a)"
| "TestServer_run t parse build (Worker_round x # es) a =
     (case TestServer_round parse x a of Some (Ok a1) \<Rightarrow> TestServer_run t parse build es a1 | y \<Rightarrow> y)"
| "TestServer_run t parse build (Input msg # es) a =
     (case TestServer_input t build msg a of
        Ok a1 \<Rightarrow> TestServer_run t parse build es a1 | Fault f \<Rightarrow> Some (Fault f))"

text \<open>\<^verbatim>\<open>main\<close> after its loop, when the threads have been joined.\<close>

definition TestServer_stop ::
    "int32 \<Rightarrow> (nat \<Rightarrow> int32) \<Rightarrow> (nat \<Rightarrow> io_result) \<Rightarrow> test_app \<Rightarrow> test_app outcome" where
  "TestServer_stop listenRes closeRes io a =
     and_then (Service_Stop listenRes closeRes io (ta_net a)) (\<lambda>(_, n). Ok (a\<lparr>ta_net := n\<rparr>))"

section \<open>The client's rounds\<close>

fun send_to_connected :: "nat \<Rightarrow> uint16 \<Rightarrow> ubyte list \<Rightarrow> uint16 \<Rightarrow> nat option list \<Rightarrow> test_app \<Rightarrow> test_app outcome" where
  "send_to_connected t i data sz [] a = Ok a"
| "send_to_connected t i data sz (None # rs) a = send_to_connected t i data sz rs a"
| "send_to_connected t i data sz (Some r # rs) a =
     (if se_connected (nt_session (ta_net a) r)
      then and_then (PacketSession_Send t i (Some data) sz (ta_ps a r) (ta_world a) (nt_err (ta_net a)))
             (\<lambda>(p, w). send_to_connected t i data sz rs (a\<lparr>ta_ps := (ta_ps a)(r := p), ta_world := w\<rparr>))
      else send_to_connected t i data sz rs a)"

definition client_sessions :: "net \<Rightarrow> nat option list" where
  "client_sessions n = (case sv_impl (nt_service n) of ClientServiceEx ss _ \<Rightarrow> ss | _ \<Rightarrow> [])"

definition TestClient_input ::
    "nat \<Rightarrow> (string \<Rightarrow> ubyte list) \<Rightarrow> (nat \<Rightarrow> io_result) \<Rightarrow> string \<Rightarrow> test_app \<Rightarrow> test_app outcome" where
  "TestClient_input t build io msg a =
     (if msg = ''stop''
      then and_then (ClientServiceEx_DisconnectAll (client_sessions (ta_net a)) io (ta_net a))
             (\<lambda>n. Ok (a\<lparr>ta_net := n, ta_off := True\<rparr>))
      else let (ptr, sz) = TestClient_GetTestPacket build msg
           in send_to_connected t 1 ptr sz (client_sessions (ta_net a)) a)"

text \<open>The thread that waits for completions and the one that flushes, in one round.\<close>

fun client_callback :: "packet_parser \<Rightarrow> int32 \<Rightarrow> (nat \<Rightarrow> peer) \<Rightarrow> trace_item list \<Rightarrow> test_app \<Rightarrow> test_app outcome" where
  "client_callback parse upd peers [] a = Ok a"
| "client_callback parse upd peers (x # xs) a =
     and_then (case x of OnConnected r \<Rightarrow> update_and_print_peer upd (peers r) r a | _ \<Rightarrow> app_callback parse peers x a)
       (client_callback parse upd peers xs)"

definition TestClient_iocp_round ::
    "packet_parser \<Rightarrow> int32 \<Rightarrow> (nat \<Rightarrow> peer) \<Rightarrow> app_completion option \<Rightarrow> test_app \<Rightarrow> test_app outcome option" where
  "TestClient_iocp_round parse upd peers q a =
     (case q of
        None \<Rightarrow> Some (Ok a)
      | Some x \<Rightarrow>
          (case store_received x (ta_net a) of
             Fault f \<Rightarrow> Some (Fault f)
           | Ok n0 \<Rightarrow>
               (case process_completion PacketSession_OnRecv (ac_completion x) n0 of
                  None \<Rightarrow> None
                | Some (Fault f) \<Rightarrow> Some (Fault f)
                | Some (Ok n1) \<Rightarrow>
                    Some (client_callback parse upd peers (drop (length (nt_trace n0)) (nt_trace n1)) (a\<lparr>ta_net := n1\<rparr>)))))"

definition TestClient_flush_round :: "(nat \<Rightarrow> flush_io) \<Rightarrow> test_app \<Rightarrow> test_app" where
  "TestClient_flush_round io a = SessionManager_FlushSessions io a"

section \<open>Receiving packets\<close>

text \<open>The library model tells an application that keeps its sessions of a new one in the way the
  session classes do.\<close>

lemma OnConnected_adds:
  "nt_keep n \<Longrightarrow> Session_OnConnected r n = SessionManager_AddSession r (trace (OnConnected r) n)"
  by (simp add: Session_OnConnected_def SessionManager_AddSession_def trace_def)

definition packet_output :: "(ubyte list \<Rightarrow> string \<times> int32) \<Rightarrow> packet \<Rightarrow> app_output" where
  "packet_output contents q =
     (if fst q = 1 then (case contents (snd q) of (msg, number) \<Rightarrow> Out_Packet msg number) else Out_NoRegisteredId (fst q))"

lemma Dispatch_output:
  assumes "fst q = 1 \<Longrightarrow> parse (snd q @ rest) = Ok (contents (snd q))"
  shows "PacketManager_Dispatch parse PacketManager_init (fst q) (snd q @ rest) = Ok (packet_output contents q)"
  using assms by (simp add: split_beta PacketManager_Dispatch_def PacketManager_init_def run_handler_def packet_output_def)

lemma OnRecvPacket_calls:
  assumes "mem = pre @ wire qs @ rest" and "length pre = off"
    and "\<And>q tail. q \<in> set qs \<Longrightarrow> fst q = 1 \<Longrightarrow> parse (snd q @ tail) = Ok (contents (snd q))"
  shows "fold_ok (\<lambda>(pos, i). ClientSession_OnRecvPacket parse (drop pos mem) i) (calls_of off qs) a =
    Ok (print (map (packet_output contents) qs) a)"
  using assms
proof (induction qs arbitrary: pre off a)
  case (Cons q qs)
  let ?a = "print [packet_output contents q] a"
  have "drop (off + 4) mem = snd q @ wire qs @ rest"
    using Cons.prems(1,2) by (simp add: packet_bytes_def [of q])
  then have "ClientSession_OnRecvPacket parse (drop (off + 4) mem) (fst q) a = Ok ?a"
    using Dispatch_output [of q parse "wire qs @ rest" contents] Cons.prems(3) [of q]
    by (simp add: ClientSession_OnRecvPacket_def)
  moreover have "fold_ok (\<lambda>(pos, i). ClientSession_OnRecvPacket parse (drop pos mem) i)
      (calls_of (off + 4 + length (snd q)) qs) ?a = Ok (print (map (packet_output contents) qs) ?a)"
    using Cons.prems by (intro Cons.IH [of "pre @ packet_bytes q"]) simp_all
  ultimately show ?case by simp
qed simp

text \<open>A completed receive of whole packets on a session that is alive.\<close>

lemma process_received:
  assumes ready: "recv_ready r n" and qs: "qs \<noteq> []" "\<forall>q \<in> set qs. packet_ok q" "length (wire qs) \<le> 65536"
    and ev: "ev_eventType (se_recvEvent (nt_session n r)) = EV_Recv"
      "ev_iocpObject (se_recvEvent (nt_session n r)) = Some (Session_obj r)"
    and alive: "session_alive r n" and c: "cp_overlapped c = RecvEvent_of r" "cp_bytes c = of_nat (length (wire qs))"
    and n0: "store_received \<lparr>ac_completion = c, ac_stored = wire qs\<rparr> n = Ok n0"
  shows "\<exists>n1. process_completion PacketSession_OnRecv c n0 = Some (Ok n1) \<and>
    nt_trace n1 = nt_trace n0 @ [OnRecv r (calls_of 0 qs), recv_posted r (cp_io c) n] \<and>
    rb_dataPos (se_recvBuffer (nt_session n1 r)) = 0 \<and>
    (\<exists>rest. rb_buffer (se_recvBuffer (nt_session n1 r)) = wire qs @ rest)"
proof -
  let ?b = "se_recvBuffer (nt_session n r)"
  let ?b1 = "?b\<lparr>rb_buffer := wire qs @ drop (length (wire qs)) (rb_buffer ?b)\<rparr>"
  let ?n1 = "(upd_session r (se_recvBuffer_update (\<lambda>_. ?b1)) n)\<lparr>nt_pending := remove1 (RecvEvent_of r) (nt_pending n)\<rparr>"
  let ?n2 = "recv_armed r (cp_io c) (trace (OnRecv r (calls_of 0 qs)) ?n1)"
  have "recv_bytes (wire qs) ?b = Ok ?b1"
    using ready qs(3) by (simp add: recv_ready_def recv_bytes_def RecvBuffer_WritePos_def store_bytes_def Let_def)
  then have n0': "n0 = upd_session r (se_recvBuffer_update (\<lambda>_. ?b1)) n"
    using n0 c(1) by (simp add: store_received_def)
  have ready1: "recv_ready r ?n1" using ready qs(3) by (auto simp: recv_ready_def Let_def)
  then have pos: "RecvBuffer_DataPos ?b1 = Ok 0" by (simp add: recv_ready_def RecvBuffer_DataPos_def Let_def)
  have "wire qs \<noteq> []" using qs(1) by (cases qs) (auto simp: packet_bytes_def header_bytes_def uint16_bytes_def)
  then have len: "of_nat (length (wire qs)) \<noteq> (0 :: uint32)"
    using qs(3) of_nat_word_inj [of "length (wire qs)" 0, where 'a = 32] by simp
  have "Session_Dispatch PacketSession_OnRecv EV_Recv r (cp_bytes c) (cp_io c) ?n1 = Some (Ok ?n2)"
    using pos len PacketSession_OnRecv_wire [OF qs(2)] qs(3) ready1
    by (simp add: Session_Dispatch_def Session_process_recv_def c(2) Session_register_recv_ready)
  moreover have "session_alive r ?n2" "session_alive r ?n1"
    using alive by (simp_all add: session_alive_def recv_armed_def post_def trace_def)
  ultimately have "process_completion PacketSession_OnRecv c n0 = Some (Ok ?n2)"
    using ev by (simp add: process_completion_def n0' c(1) IOCPObject_Dispatch_def dropped_def)
  then show ?thesis
    using ready by (intro exI [of _ ?n2]) (simp add: n0' trace_def recv_posted_def recv_ready_def Let_def)
qed

lemma process_entries_received:
  assumes "recv_ready r (ta_net a)" and "qs \<noteq> []" "\<forall>q \<in> set qs. packet_ok q" "length (wire qs) \<le> 65536"
    and "ev_eventType (se_recvEvent (nt_session (ta_net a) r)) = EV_Recv"
      "ev_iocpObject (se_recvEvent (nt_session (ta_net a) r)) = Some (Session_obj r)"
    and "session_alive r (ta_net a)" and "cp_overlapped c = RecvEvent_of r" "cp_bytes c = of_nat (length (wire qs))"
  obtains n1 rest where
    "process_entries parse peers [\<lparr>ac_completion = c, ac_stored = wire qs\<rparr>] a =
       Some (fold_ok (\<lambda>(pos, i). ClientSession_OnRecvPacket parse (drop pos (wire qs @ rest)) i) (calls_of 0 qs) (a\<lparr>ta_net := n1\<rparr>))"
    "nt_trace n1 = nt_trace (ta_net a) @ [OnRecv r (calls_of 0 qs), recv_posted r (cp_io c) (ta_net a)]"
proof -
  have "\<exists>b. recv_bytes (wire qs) (se_recvBuffer (nt_session (ta_net a) r)) = Ok b"
    using assms(1,4) by (simp add: recv_ready_def recv_bytes_def RecvBuffer_WritePos_def Let_def)
  then obtain n0 where n0: "store_received \<lparr>ac_completion = c, ac_stored = wire qs\<rparr> (ta_net a) = Ok n0"
    and tr: "nt_trace n0 = nt_trace (ta_net a)"
    using assms(8) by (auto simp: store_received_def)
  obtain n1 rest where n1: "process_completion PacketSession_OnRecv c n0 = Some (Ok n1)"
    "nt_trace n1 = nt_trace n0 @ [OnRecv r (calls_of 0 qs), recv_posted r (cp_io c) (ta_net a)]"
    "rb_dataPos (se_recvBuffer (nt_session n1 r)) = 0" "rb_buffer (se_recvBuffer (nt_session n1 r)) = wire qs @ rest"
    using process_received [OF assms n0] by blast
  let ?f = "fold_ok (\<lambda>(pos, i). ClientSession_OnRecvPacket parse (drop pos (wire qs @ rest)) i) (calls_of 0 qs) (a\<lparr>ta_net := n1\<rparr>)"
  have "process_entries parse peers [\<lparr>ac_completion = c, ac_stored = wire qs\<rparr>] a = Some ?f"
    using n0 n1 by (cases ?f) (simp_all add: recv_posted_def)
  with n1(2) tr that show ?thesis by simp
qed

text \<open>When a receive completes on a live session of the test server with the bytes of whole packets, the
  worker handles it without a fault: it prints one line for each packet in order, the message and the
  number for packets with id 1 and the id for all others, and posts the next receive. The hypothesis
  on \<open>parse\<close> is what the FlatBuffers accessors promise: they read the buffer whatever follows it.\<close>

theorem TestServer_receives:
  assumes "recv_ready r (ta_net a)" and "qs \<noteq> []" "\<forall>q \<in> set qs. packet_ok q" "length (wire qs) \<le> 65536"
    and "ev_eventType (se_recvEvent (nt_session (ta_net a) r)) = EV_Recv"
      "ev_iocpObject (se_recvEvent (nt_session (ta_net a) r)) = Some (Session_obj r)"
    and "session_alive r (ta_net a)" and "cp_overlapped c = RecvEvent_of r" "cp_bytes c = of_nat (length (wire qs))"
    and "\<And>q tail. q \<in> set qs \<Longrightarrow> fst q = 1 \<Longrightarrow> parse (snd q @ tail) = Ok (contents (snd q))"
  shows "\<exists>a'. process_entries parse peers [\<lparr>ac_completion = c, ac_stored = wire qs\<rparr>] a = Some (Ok a') \<and>
    ta_out a' = ta_out a @ map (packet_output contents) qs \<and>
    nt_trace (ta_net a') = nt_trace (ta_net a) @ [OnRecv r (calls_of 0 qs), recv_posted r (cp_io c) (ta_net a)]"
proof (rule process_entries_received [OF assms(1-9), of parse peers])
  fix n1 rest
  assume n1: "process_entries parse peers [\<lparr>ac_completion = c, ac_stored = wire qs\<rparr>] a =
      Some (fold_ok (\<lambda>(pos, i). ClientSession_OnRecvPacket parse (drop pos (wire qs @ rest)) i) (calls_of 0 qs) (a\<lparr>ta_net := n1\<rparr>))"
    "nt_trace n1 = nt_trace (ta_net a) @ [OnRecv r (calls_of 0 qs), recv_posted r (cp_io c) (ta_net a)]"
  let ?a = "a\<lparr>ta_net := n1\<rparr>"
  have "fold_ok (\<lambda>(pos, i). ClientSession_OnRecvPacket parse (drop pos (wire qs @ rest)) i) (calls_of 0 qs) ?a =
      Ok (print (map (packet_output contents) qs) ?a)"
    using OnRecvPacket_calls [of "wire qs @ rest" "[]" qs rest 0 parse contents ?a] assms(10) by simp
  with n1 show ?thesis by simp
qed

definition demo_app :: test_app where
  "demo_app = \<lparr>ta_net = demo_net, ta_ps = (\<lambda>_. PacketSession_new 0), ta_world = demo_world, ta_ip = (\<lambda>_. []),
     ta_worker = \<lparr>gw_reservableQueue = [], gw_executingReservables = False, gw_jobQueue = LockQueue_new\<rparr>,
     ta_off = False, ta_out = []\<rparr>"

definition demo_recv :: "uint32 \<Rightarrow> completion" where
  "demo_recv n = \<lparr>cp_overlapped = RecvEvent_of 0, cp_bytes = n, cp_io = \<lparr>io_res = 0, io_error = 0\<rparr>, cp_update = 0, cp_peer = 0,
     cp_accepts = [], cp_new = \<lparr>ns_ref = None, ns_socket = 0, ns_registered = False, ns_close = 0\<rparr>, cp_close = 0\<rparr>"

lemma demo_app_ready:
  "recv_ready 0 (ta_net demo_app)" "session_alive 0 (ta_net demo_app)" "ta_out demo_app = []"
  "ev_eventType (se_recvEvent (nt_session (ta_net demo_app) 0)) = EV_Recv"
  "ev_iocpObject (se_recvEvent (nt_session (ta_net demo_app) 0)) = Some (Session_obj 0)"
  "cp_overlapped (demo_recv m) = RecvEvent_of 0" "cp_bytes (demo_recv m) = m"
  by (simp add: demo_app_def demo_net_ready) (simp_all add: demo_app_def session_alive_def demo_net_def demo_recv_def)

theorem TestServer_receives_witness:
  "\<exists>a'. process_entries (\<lambda>bs. Ok (''hi'', ucast (hd bs))) (\<lambda>_. undefined)
       [\<lparr>ac_completion = demo_recv 11, ac_stored = wire [(1, [100, 2]), (9, [3])]\<rparr>] demo_app = Some (Ok a') \<and>
     ta_out a' = [Out_Packet ''hi'' 100, Out_NoRegisteredId 9]"
  using TestServer_receives [OF demo_app_ready(1) _ _ _ demo_app_ready(4,5,2,6), of "[(1, [100, 2]), (9, [3])]" 11
      "\<lambda>bs. Ok (''hi'', ucast (hd bs))" "\<lambda>bs. (''hi'', ucast (hd bs))" "\<lambda>_. undefined"]
  by (auto simp: packet_ok_def demo_app_ready packet_output_def simp del: process_entries.simps)

section \<open>Messages from one program to the other\<close>

lemma TestPacket_build_root:
  assumes c: "builder_contract fb view" and b: "buffer_contract fb view val" and i: "idle (view b)"
  shows "val (GetTestPacket fb (TestPacket_build fb b msg @ rest)) = VTab (TestPacket_fields (Some (VStr msg)) 100)"
proof -
  obtain m b1 where m: "fb_CreateString fb msg b = (m, b1)" by fastforce
  obtain p b2 where p: "CreateTestPacket fb m 100 b1 = (p, b2)" by fastforce
  note k = builder_create(1) [OF c i, of msg, unfolded m fst_conv snd_conv]
  have i1: "idle (view b1)" using idle_created [OF k] i by simp
  from created_root(1) [OF b CreateTestPacket_created [OF c i1 created_offset [OF k]] i1 p]
  show ?thesis by (simp add: TestPacket_build_def m p GetTestPacket_def)
qed

lemma TestPacket_parse_fields:
  assumes r: "reader_contract fb val" and v: "val (GetTestPacket fb buf) = VTab (TestPacket_fields (map_option VStr msg) number)"
  shows "TestPacket_parse fb buf =
    (case msg of None \<Rightarrow> Fault NullDereference | Some m \<Rightarrow> Ok (takeWhile (\<lambda>c. c \<noteq> CHR 0x00) m, number))"
  using TestPacket_reads [OF r v] by (auto simp: TestPacket_parse_def Let_def split: option.split)

lemma TestPacket_parse_build:
  assumes "builder_contract fb view" and "reader_contract fb val" and "buffer_contract fb view val" and "idle (view b)"
  shows "TestPacket_parse fb (TestPacket_build fb b msg @ rest) = Ok (takeWhile (\<lambda>c. c \<noteq> CHR 0x00) msg, 100)"
  using TestPacket_parse_fields [of fb val _ "Some msg" 100] assms TestPacket_build_root by fastforce

text \<open>C19. From one program to the other: when a receive completes on a live session with the packets that
  \<^verbatim>\<open>GetTestPacket\<close> made of some messages, the handler logs the messages in order, each up to its first
  zero character, with the number 100, and the next receive is posted.\<close>

theorem TestServer_logs_messages:
  assumes "builder_contract fb view" and "reader_contract fb val" and "buffer_contract fb view val" and "idle (view b)"
    and "qs = map (\<lambda>m. (1, TestPacket_build fb b m)) msgs"
    and "recv_ready r (ta_net a)" and "msgs \<noteq> []" "\<forall>q \<in> set qs. packet_ok q" "length (wire qs) \<le> 65536"
    and "ev_eventType (se_recvEvent (nt_session (ta_net a) r)) = EV_Recv"
      "ev_iocpObject (se_recvEvent (nt_session (ta_net a) r)) = Some (Session_obj r)"
    and "session_alive r (ta_net a)" and "cp_overlapped c = RecvEvent_of r" "cp_bytes c = of_nat (length (wire qs))"
  shows "\<exists>a'. process_entries (TestPacket_parse fb) peers [\<lparr>ac_completion = c, ac_stored = wire qs\<rparr>] a = Some (Ok a') \<and>
    ta_out a' = ta_out a @ map (\<lambda>m. Out_Packet (takeWhile (\<lambda>c. c \<noteq> CHR 0x00) m) 100) msgs \<and>
    recv_posted r (cp_io c) (ta_net a) \<in> set (nt_trace (ta_net a'))"
proof (rule process_entries_received [OF assms(6) _ assms(8-14), of "TestPacket_parse fb" peers])
  show "qs \<noteq> []" using assms(5,7) by simp
next
  fix n1 rest
  assume n1: "process_entries (TestPacket_parse fb) peers [\<lparr>ac_completion = c, ac_stored = wire qs\<rparr>] a =
      Some (fold_ok (\<lambda>(pos, i). ClientSession_OnRecvPacket (TestPacket_parse fb) (drop pos (wire qs @ rest)) i) (calls_of 0 qs)
        (a\<lparr>ta_net := n1\<rparr>))"
    "nt_trace n1 = nt_trace (ta_net a) @ [OnRecv r (calls_of 0 qs), recv_posted r (cp_io c) (ta_net a)]"
  define contents where "contents = (\<lambda>x. case TestPacket_parse fb x of Ok y \<Rightarrow> y | Fault _ \<Rightarrow> ([], 0))"
  note parse = TestPacket_parse_build [OF assms(1-4)]
  have c: "contents (TestPacket_build fb b m) = (takeWhile (\<lambda>c. c \<noteq> CHR 0x00) m, 100)" for m
    using parse [of m "[]"] by (simp add: contents_def)
  then have "TestPacket_parse fb (snd q @ tail) = Ok (contents (snd q))" if "q \<in> set qs" for q tail
    using that assms(5) parse by auto
  then have "fold_ok (\<lambda>(pos, i). ClientSession_OnRecvPacket (TestPacket_parse fb) (drop pos (wire qs @ rest)) i) (calls_of 0 qs)
      (a\<lparr>ta_net := n1\<rparr>) = Ok (print (map (packet_output contents) qs) (a\<lparr>ta_net := n1\<rparr>))"
    by (intro OnRecvPacket_calls [of _ "[]" _ rest]) simp_all
  with n1 c show ?thesis by (simp add: assms(5) packet_output_def comp_def)
qed

lemma OnRecvPacket_stops:
  assumes "mem = wire (pre @ q # qs2) @ rest" and "fst q = 1" and "\<And>tail. parse (snd q @ tail) = Fault f"
    and "\<And>q tail. q \<in> set pre \<Longrightarrow> fst q = 1 \<Longrightarrow> parse (snd q @ tail) = Ok (contents (snd q))"
  shows "fold_ok (\<lambda>(pos, i). ClientSession_OnRecvPacket parse (drop pos mem) i) (calls_of 0 (pre @ q # qs2)) a = Fault f"
proof -
  let ?f = "\<lambda>(pos, i). ClientSession_OnRecvPacket parse (drop pos mem) i"
  have "fold_ok ?f (calls_of 0 pre) a = Ok (print (map (packet_output contents) pre) a)"
    using assms(1,4) by (intro OnRecvPacket_calls [of _ "[]" _ "packet_bytes q @ wire qs2 @ rest"]) simp_all
  moreover have "drop (length (wire pre) + 4) mem = snd q @ wire qs2 @ rest"
    using assms(1) by (simp add: packet_bytes_def [of q])
  ultimately show ?thesis
    using assms(2,3) by (simp add: calls_of_append fold_ok_append ClientSession_OnRecvPacket_def PacketManager_Dispatch_def
        PacketManager_init_def run_handler_def)
qed

text \<open>A peer can stop the program: a well-formed packet with id 1 whose message is missing makes the handler
  read through a null pointer, whatever comes before and after it.\<close>

theorem TestServer_null_message:
  assumes "builder_contract fb view" and "reader_contract fb val" and "buffer_contract fb view val" and "idle (view b)"
    and "CreateTestPacketDirect fb None number b = (root, b1)"
    and "qs = map (\<lambda>m. (1, TestPacket_build fb b m)) msgs @ (1, fb_buffer fb (FinishTestPacketBuffer fb root b1)) # qs2"
    and "recv_ready r (ta_net a)" and "\<forall>q \<in> set qs. packet_ok q" "length (wire qs) \<le> 65536"
    and "ev_eventType (se_recvEvent (nt_session (ta_net a) r)) = EV_Recv"
      "ev_iocpObject (se_recvEvent (nt_session (ta_net a) r)) = Some (Session_obj r)"
    and "session_alive r (ta_net a)" and "cp_overlapped c = RecvEvent_of r" "cp_bytes c = of_nat (length (wire qs))"
  shows "process_entries (TestPacket_parse fb) peers [\<lparr>ac_completion = c, ac_stored = wire qs\<rparr>] a =
    Some (Fault NullDereference)"
proof (rule process_entries_received [OF assms(7) _ assms(8-14), of "TestPacket_parse fb" peers])
  show "qs \<noteq> []" using assms(6) by simp
next
  fix n1 rest
  assume n1: "process_entries (TestPacket_parse fb) peers [\<lparr>ac_completion = c, ac_stored = wire qs\<rparr>] a =
      Some (fold_ok (\<lambda>(pos, i). ClientSession_OnRecvPacket (TestPacket_parse fb) (drop pos (wire qs @ rest)) i) (calls_of 0 qs)
        (a\<lparr>ta_net := n1\<rparr>))"
  have "TestPacket_parse fb (fb_buffer fb (FinishTestPacketBuffer fb root b1) @ tail) = Fault NullDereference" for tail
    using TestPacket_parse_fields [of fb val _ None number] assms(2) CreateTestPacketDirect_root(1) [OF assms(1,3-5)] by simp
  moreover have "TestPacket_parse fb (snd q @ tail) = Ok ((\<lambda>x. case TestPacket_parse fb x of Ok y \<Rightarrow> y | Fault _ \<Rightarrow> ([], 0)) (snd q))"
    if "q \<in> set (map (\<lambda>m. (1, TestPacket_build fb b m)) msgs)" for q :: packet and tail
    using that TestPacket_parse_build [OF assms(1-4)] TestPacket_parse_build [OF assms(1-4), of _ "[]"] by auto
  ultimately have "fold_ok (\<lambda>(pos, i). ClientSession_OnRecvPacket (TestPacket_parse fb) (drop pos (wire qs @ rest)) i)
      (calls_of 0 qs) (a\<lparr>ta_net := n1\<rparr>) = Fault NullDereference"
    unfolding assms(6) by (intro OnRecvPacket_stops [OF refl]) simp_all
  with n1 show ?thesis by simp
qed

lemma demo_build:
  "TestPacket_build plain_flatbuffers plain_new ''hi'' = [7, 1, 4, 0, 5, 1, 104, 1, 105, 0, 1, 6, 0, 3, 100, 0, 0, 0, 0]"
  by code_simp

theorem TestServer_logs_messages_witness:
  "\<exists>a'. process_entries (TestPacket_parse plain_flatbuffers) (\<lambda>_. undefined)
       [\<lparr>ac_completion = demo_recv 46, ac_stored = wire (map (\<lambda>m. (1, TestPacket_build plain_flatbuffers plain_new m)) [''hi'', ''hi''])\<rparr>]
       demo_app = Some (Ok a') \<and>
     ta_out a' = [Out_Packet ''hi'' 100, Out_Packet ''hi'' 100]"
  using TestServer_logs_messages [OF plain_builder_contract plain_reader_contract plain_buffer_contract plain_new_idle refl
      demo_app_ready(1) _ _ _ demo_app_ready(4,5,2,6), of "[''hi'', ''hi'']" 46 "\<lambda>_. undefined"]
  by (auto simp: packet_ok_def demo_build demo_app_ready simp del: process_entries.simps)

theorem TestServer_null_message_witness:
  "\<exists>root b1. CreateTestPacketDirect plain_flatbuffers None 5 plain_new = (root, b1) \<and>
     process_entries (TestPacket_parse plain_flatbuffers) (\<lambda>_. undefined)
       [\<lparr>ac_completion = demo_recv 14, ac_stored = wire [(1, fb_buffer plain_flatbuffers (FinishTestPacketBuffer plain_flatbuffers root b1))]\<rparr>]
       demo_app = Some (Fault NullDereference)"
proof -
  obtain root b1 where x: "CreateTestPacketDirect plain_flatbuffers None 5 plain_new = (root, b1)" by fastforce
  have "(let (root, b1) = CreateTestPacketDirect plain_flatbuffers None 5 plain_new
      in fb_buffer plain_flatbuffers (FinishTestPacketBuffer plain_flatbuffers root b1)) = [7, 1, 6, 0, 3, 5, 0, 0, 0, 0]"
    by code_simp
  then have "fb_buffer plain_flatbuffers (FinishTestPacketBuffer plain_flatbuffers root b1) = [7, 1, 6, 0, 3, 5, 0, 0, 0, 0]"
    by (simp add: x)
  then show ?thesis
    using x TestServer_null_message [OF plain_builder_contract plain_reader_contract plain_buffer_contract plain_new_idle x refl
      demo_app_ready(1) _ _ demo_app_ready(4,5,2,6), of "[]" "[]" 14 "\<lambda>_. undefined"]
    by (simp add: packet_ok_def demo_app_ready del: process_entries.simps)
qed

section \<open>Flushing\<close>

text \<open>The callbacks leave the queues of the sessions and the reserved jobs alone.\<close>

lemma app_callback_fields:
  "app_callback parse peers x a = Ok a' \<Longrightarrow> (ta_ps a', ta_worker a') = (ta_ps a, ta_worker a)"
proof (induction parse peers x a rule: app_callback.induct)
  case (2 parse peers r calls a)
  have "(ta_ps t, ta_worker t) = (ta_ps s, ta_worker s)"
    if "(\<lambda>(pos, i). ClientSession_OnRecvPacket parse (f pos) i) c s = Ok t" for f :: "nat \<Rightarrow> ubyte list" and c s t
    using that by (auto simp: ClientSession_OnRecvPacket_def split: prod.splits)
  from fold_ok_inv [where g = "\<lambda>b. (ta_ps b, ta_worker b)", OF this] 2 show ?case by simp
qed (auto simp: print_peer_def ClientSession_OnDisconnected_def Let_def split: prod.splits)

lemma process_entries_fields:
  "process_entries parse peers xs a = Some (Ok a') \<Longrightarrow> ta_ps a' = ta_ps a \<and> ta_worker a' = ta_worker a"
proof (induction parse peers xs a rule: process_entries.induct)
  case (2 parse peers x xs a)
  then obtain n0 n1 a1 where s: "store_received x (ta_net a) = Ok n0"
    "process_completion PacketSession_OnRecv (ac_completion x) n0 = Some (Ok n1)"
    "fold_ok (app_callback parse peers) (drop (length (nt_trace n0)) (nt_trace n1)) (a\<lparr>ta_net := n1\<rparr>) = Ok a1"
    "process_entries parse peers xs a1 = Some (Ok a')"
    by (auto split: outcome.splits option.splits)
  have "(ta_ps a1, ta_worker a1) = (ta_ps (a\<lparr>ta_net := n1\<rparr>), ta_worker (a\<lparr>ta_net := n1\<rparr>))"
    by (rule fold_ok_inv [where g = "\<lambda>b. (ta_ps b, ta_worker b)", OF app_callback_fields s(3)])
  with "2.IH" [OF s(1,2) refl s(3,4)] show ?case by simp
qed simp

lemma broadcast_appends:
  "broadcast t i data sz rs a = Ok a' \<Longrightarrow>
     ta_worker a' = ta_worker a \<and> (\<exists>new. ps_reserved (ta_ps a' r) = ps_reserved (ta_ps a r) @ new)"
proof (induction t i data sz rs a rule: broadcast.induct)
  case (2 t i data sz q rs a)
  show ?case
  proof (cases "se_connected (nt_session (ta_net a) q)")
    case True
    with "2.prems" obtain p w where p: "PacketSession_Send t i (Some data) sz (ta_ps a q) (ta_world a) (nt_err (ta_net a)) = Ok (p, w)"
      and rest: "broadcast t i data sz rs (a\<lparr>ta_ps := (ta_ps a)(q := p), ta_world := w\<rparr>) = Ok a'" by auto
    from p obtain buf where "ps_reserved p = ps_reserved (ta_ps a q) @ [buf]" by (auto simp: PacketSession_Send_def)
    with "2.IH"(1) [OF True rest] show ?thesis by auto
  next
    case False
    with "2.IH"(2) "2.prems" show ?thesis by auto
  qed
qed simp

lemma TestServer_input_appends:
  "TestServer_input t build msg a = Ok a' \<Longrightarrow>
     ta_worker a' = ta_worker a \<and> (\<exists>new. ps_reserved (ta_ps a' r) = ps_reserved (ta_ps a r) @ new)"
  by (auto simp: TestServer_input_def TestServer_GetTestPacket_def dest: broadcast_appends split: if_splits)

lemma FlushSessions_worker [simp]: "ta_worker (SessionManager_FlushSessions io a) = ta_worker a"
proof -
  have "ta_worker (fold (\<lambda>r a. if se_connected (nt_session (ta_net a) r) then session_Flush (io r) r a else a) rs a) =
      ta_worker a" for rs
    by (induction rs arbitrary: a) (auto simp: session_Flush_def split: prod.splits)
  then show ?thesis by (simp add: SessionManager_FlushSessions_def)
qed

lemma run_reserved_worker: "ta_worker (run_reserved io calls a) = ta_worker a"
  by (induction calls arbitrary: a) (auto simp: run_reserved_def split: app_job.split)

text \<open>Without reserved jobs a round flushes nothing.\<close>

lemma CheckReservedJob_none:
  "gw_reservableQueue g = [] \<Longrightarrow> GlobalJobWorker_CheckReservedJob alive now g = (calls, g') \<Longrightarrow>
     calls = [] \<and> gw_reservableQueue g' = []"
  by (auto simp: GlobalJobWorker_CheckReservedJob_def pq_pop_while_eq split: if_splits)

lemma TestServer_round_idle:
  assumes "gw_reservableQueue (ta_worker a) = []" and "TestServer_round parse x a = Some (Ok a')"
  shows "ta_ps a' = ta_ps a \<and> gw_reservableQueue (ta_worker a') = []"
proof -
  obtain a1 ex q calls g where "process_entries parse (ro_peers x) (take MAX_ENTRY_COUNT (ro_entries x)) a = Some (Ok a1)"
    and g: "GlobalJobWorker_CheckReservedJob (\<lambda>_. True) (ro_now x) ((ta_worker a1)\<lparr>gw_jobQueue := q\<rparr>) = (calls, g)"
    and a': "a' = run_reserved (ro_flush x) calls (a1\<lparr>ta_worker := g\<rparr>)"
    using assms(2)
    by (auto simp: TestServer_round_def TaskManagerEx_CheckReservedJob_def split: option.splits outcome.splits prod.splits)
  then have "ta_ps a1 = ta_ps a" "ta_worker a1 = ta_worker a" by (simp_all add: process_entries_fields)
  moreover from this have "calls = [] \<and> gw_reservableQueue g = []" using CheckReservedJob_none [OF _ g] assms(1) by simp
  ultimately show ?thesis by (simp add: a' run_reserved_def)
qed

lemma TestServer_run_idle:
  "gw_reservableQueue (ta_worker a) = [] \<Longrightarrow> TestServer_run t parse build es a = Some (Ok a') \<Longrightarrow>
     \<exists>new. ps_reserved (ta_ps a' r) = ps_reserved (ta_ps a r) @ new"
proof (induction t parse build es a rule: TestServer_run.induct)
  case (2 t parse build x es a)
  then obtain a1 where a1: "TestServer_round parse x a = Some (Ok a1)" "TestServer_run t parse build es a1 = Some (Ok a')"
    by (auto split: option.splits outcome.splits)
  with "2.IH" TestServer_round_idle [OF "2.prems"(1) a1(1)] show ?case by auto
next
  case (3 t parse build msg es a)
  then obtain a1 where a1: "TestServer_input t build msg a = Ok a1" "TestServer_run t parse build es a1 = Some (Ok a')"
    by (auto split: outcome.splits)
  with "3.IH" TestServer_input_appends [OF a1(1), of r] "3.prems"(1) show ?case by auto
qed simp

definition demo_round :: round_io where
  "demo_round = \<lparr>ro_entries = [], ro_peers = (\<lambda>_. undefined), ro_start = 0, ro_clock = (\<lambda>_. 0), ro_now = 200,
     ro_flush = (\<lambda>_. \<lparr>fl_now1 = 200, fl_now2 = 200, fl_send = \<lparr>io_res = 0, io_error = 0\<rparr>\<rparr>)\<rparr>"

text \<open>C40. The test server reserves one run of \<^verbatim>\<open>FlushSessions\<close> when it starts, and nothing reserves another:
  once the round in which it is due is over, no packet leaves the queue of a session any more, however
  many messages are broadcast and however many rounds the workers make.\<close>

theorem TestServer_flush_once:
  assumes "gw_reservableQueue (ta_worker a) = []" "\<not> gw_executingReservables (ta_worker a)"
    and "TestServer_round parse x (TestServer_reserve now a) = Some (Ok a1)" and "100 + now \<le> ro_now x"
    and "TestServer_run t parse build es a1 = Some (Ok a2)"
  shows "\<exists>new. ps_reserved (ta_ps a2 r) = ps_reserved (ta_ps a1 r) @ new"
proof -
  let ?a = "TestServer_reserve now a"
  have w: "ta_worker ?a = (ta_worker a)\<lparr>gw_reservableQueue := [ReservableJob_new (100 + now) FlushSessions 0]\<rparr>"
    using assms(1) by (simp add: TestServer_reserve_def JobSerializer_PushReservableJob_def
        GlobalJobWorker_AddReservableJob_def Let_def)
  obtain b q calls g where b: "process_entries parse (ro_peers x) (take MAX_ENTRY_COUNT (ro_entries x)) ?a = Some (Ok b)"
    and g: "GlobalJobWorker_CheckReservedJob (\<lambda>_. True) (ro_now x) ((ta_worker b)\<lparr>gw_jobQueue := q\<rparr>) = (calls, g)"
    and a1: "a1 = run_reserved (ro_flush x) calls (b\<lparr>ta_worker := g\<rparr>)"
    using assms(3)
    by (auto simp: TestServer_round_def TaskManagerEx_CheckReservedJob_def split: option.splits outcome.splits prod.splits)
  have "gw_reservableQueue g = []"
    using g assms(2,4) process_entries_fields [OF b]
    by (auto simp: w GlobalJobWorker_CheckReservedJob_def pq_pop_while_eq ReservableJob_new_def)
  then show ?thesis using TestServer_run_idle [OF _ assms(5)] by (simp add: a1 run_reserved_worker)
qed

theorem TestServer_flush_once_witness:
  "\<exists>a1 a2 new. TestServer_round (\<lambda>_. Ok ([], 0)) demo_round (TestServer_reserve 50 demo_app) = Some (Ok a1) \<and>
     TestServer_run 0 (\<lambda>_. Ok ([], 0)) (\<lambda>_. [1, 2]) [Input ''stop'', Worker_round demo_round] a1 = Some (Ok a2) \<and>
     ps_reserved (ta_ps a2 0) = ps_reserved (ta_ps a1 0) @ new"
proof -
  have round: "\<exists>b. TestServer_round parse demo_round a = Some (Ok b) \<and> gw_jobQueue (ta_worker b) = LockQueue_new"
    if "gw_jobQueue (ta_worker a) = LockQueue_new" for parse a
  proof -
    have "GlobalJobWorker_DoJobs (\<lambda>_. 0) (\<lambda>_ _ q. q) 64 0 LockQueue_new = Some ([], LockQueue_new)"
      by (simp add: GlobalJobWorker_DoJobs_def DoJobs_loop.simps GlobalJobWorker_PopJobSerializer_def
          LockQueue_TryPop_def LockQueue_new_def)
    then show ?thesis
      using that by (auto simp: TestServer_round_def demo_round_def TaskManagerEx_CheckReservedJob_def
          GlobalJobWorker_CheckReservedJob_def run_reserved_worker split: prod.splits)
  qed
  obtain a1 where a1: "TestServer_round (\<lambda>_. Ok ([], 0)) demo_round (TestServer_reserve 50 demo_app) = Some (Ok a1)"
    "gw_jobQueue (ta_worker a1) = LockQueue_new"
    using round [of "TestServer_reserve 50 demo_app" "\<lambda>_. Ok ([], 0)"]
    by (auto simp: TestServer_reserve_def demo_app_def JobSerializer_PushReservableJob_def
        GlobalJobWorker_AddReservableJob_def Let_def)
  obtain a2 where "TestServer_run 0 (\<lambda>_. Ok ([], 0)) (\<lambda>_. [1, 2]) [Input ''stop'', Worker_round demo_round] a1 = Some (Ok a2)"
    using round [of "a1\<lparr>ta_off := True\<rparr>" "\<lambda>_. Ok ([], 0)"] a1(2) by (auto simp: TestServer_input_def)
  with a1(1) TestServer_flush_once [OF _ _ a1(1) _ this, of 0] show ?thesis
    by (auto simp: demo_app_def demo_round_def)
qed

text \<open>The size of the server's packet is cut to 8 bits.\<close>

lemma TestServer_packet_truncated:
  "unat (snd (TestServer_GetTestPacket build msg)) = length (build msg) mod 256"
  "length (build msg) < 2 ^ 16 \<Longrightarrow> unat (snd (TestClient_GetTestPacket build msg)) = length (build msg)"
  by (simp_all add: TestServer_GetTestPacket_def TestClient_GetTestPacket_def unat_of_nat)

section \<open>What a flush sends\<close>

lemma Session_send_others:
  "q \<noteq> r \<Longrightarrow> nt_session (Session_send r bufs io n) q = nt_session n q"
  by (auto simp: Session_send_def Session_register_send_def Session_disconnect_def Session_register_disconnect_def
      WSACheckErrorExceptPending2_def post_def trace_def Let_def split: prod.splits)

definition flush_posts :: "(nat \<Rightarrow> flush_io) \<Rightarrow> test_app \<Rightarrow> nat \<Rightarrow> trace_item list" where
  "flush_posts io a r =
     (let s = nt_session (ta_net a) r; bufs = fst (PacketSession_Flush (fl_now1 (io r)) (fl_now2 (io r)) (ta_ps a r))
      in if se_connected s \<and> bufs \<noteq> [] then [Posted (WSASend (se_socket s) bufs) (posted_ok (fl_send (io r)))] else [])"

lemma session_Flush_frame:
  assumes "se_connected (nt_session (ta_net a) r)" "send_idle (nt_session (ta_net a) r)"
  shows "nt_trace (ta_net (session_Flush (io r) r a)) = nt_trace (ta_net a) @ flush_posts io a r"
    and "q \<noteq> r \<Longrightarrow> nt_session (ta_net (session_Flush (io r) r a)) q = nt_session (ta_net a) q"
    and "q \<noteq> r \<Longrightarrow> ta_ps (session_Flush (io r) r a) q = ta_ps a q"
proof -
  obtain bufs p where f: "PacketSession_Flush (fl_now1 (io r)) (fl_now2 (io r)) (ta_ps a r) = (bufs, p)" by fastforce
  then have a': "session_Flush (io r) r a = a\<lparr>ta_ps := (ta_ps a)(r := p), ta_net := Session_send r bufs (fl_send (io r)) (ta_net a)\<rparr>"
    by (simp add: session_Flush_def)
  show "nt_trace (ta_net (session_Flush (io r) r a)) = nt_trace (ta_net a) @ flush_posts io a r"
    using assms f by (cases "bufs = []") (auto simp: a' flush_posts_def Session_send_idle, simp add: Session_send_def)
  show "q \<noteq> r \<Longrightarrow> nt_session (ta_net (session_Flush (io r) r a)) q = nt_session (ta_net a) q"
    "q \<noteq> r \<Longrightarrow> ta_ps (session_Flush (io r) r a) q = ta_ps a q"
    by (simp_all add: a' Session_send_others)
qed

lemma flush_fold:
  assumes "distinct rs" "\<forall>r \<in> set rs. se_connected (nt_session (ta_net a) r) \<longrightarrow> send_idle (nt_session (ta_net a) r)"
  shows "nt_trace (ta_net (fold (\<lambda>r a. if se_connected (nt_session (ta_net a) r) then session_Flush (io r) r a else a) rs a)) =
    nt_trace (ta_net a) @ concat (map (flush_posts io a) rs)"
  using assms
proof (induction rs arbitrary: a)
  case (Cons r rs)
  show ?case
  proof (cases "se_connected (nt_session (ta_net a) r)")
    case True
    let ?a = "session_Flush (io r) r a"
    have idle: "send_idle (nt_session (ta_net a) r)" using Cons.prems(2) True by simp
    note F = session_Flush_frame [OF True idle]
    have same: "nt_session (ta_net ?a) q = nt_session (ta_net a) q" "flush_posts io ?a q = flush_posts io a q" if "q \<in> set rs" for q
    proof -
      have "q \<noteq> r" using Cons.prems(1) that by auto
      with F show "nt_session (ta_net ?a) q = nt_session (ta_net a) q" "flush_posts io ?a q = flush_posts io a q"
        by (simp_all add: flush_posts_def)
    qed
    have "map (flush_posts io ?a) rs = map (flush_posts io a) rs" using same(2) by simp
    with Cons.IH [of ?a] Cons.prems same(1) True F(1) [of io] show ?thesis by simp
  next
    case False
    with Cons show ?thesis by (simp add: flush_posts_def)
  qed
qed simp

text \<open>One call of \<^verbatim>\<open>FlushSessions\<close> when no session is in the middle of sending: it posts, in the order in
  which the sessions were added, one \<^verbatim>\<open>WSASend\<close> for each connected session whose \<^verbatim>\<open>Flush\<close> finds packets to
  send, with exactly these buffers, and nothing else.\<close>

theorem FlushSessions_posts:
  assumes "distinct (nt_held (ta_net a))"
    and "\<forall>r \<in> set (nt_held (ta_net a)). se_connected (nt_session (ta_net a) r) \<longrightarrow> send_idle (nt_session (ta_net a) r)"
  shows "nt_trace (ta_net (SessionManager_FlushSessions io a)) =
    nt_trace (ta_net a) @ concat (map (flush_posts io a) (nt_held (ta_net a)))"
  unfolding SessionManager_FlushSessions_def by (rule flush_fold [OF assms])

theorem FlushSessions_posts_witness:
  "nt_trace (ta_net (SessionManager_FlushSessions (\<lambda>_. \<lparr>fl_now1 = 2000, fl_now2 = 2000, fl_send = \<lparr>io_res = 0, io_error = 0\<rparr>\<rparr>)
      (demo_app\<lparr>ta_net := demo_net\<lparr>nt_held := [0]\<rparr>,
         ta_ps := (\<lambda>_. \<lparr>ps_reserved = [\<lparr>wb_len = 6, wb_buf = (0, 0)\<rparr>], ps_reservedSendBytes = 6, ps_lastSendTick = 0\<rparr>)\<rparr>))) =
   [Posted (WSASend 5 [\<lparr>wb_len = 6, wb_buf = (0, 0)\<rparr>]) True]"
  by (subst FlushSessions_posts)
    (simp_all add: demo_app_def demo_net_def send_idle_def flush_posts_def PacketSession_Flush_def SOCKET_ERROR_def
      SendEvent_new_def SendEvent_Init_def)

end
