(* ===== verification/Session_System.thy ===== *)
theory Session_System
  imports Services
begin

text \<open>
  What the running systems of a server and of a client share: their sessions. Between two steps a
  session has the receive buffer its constructor made and events of the right types; each call that
  is in flight for it was posted with an event that points at the session; at most one receive is in
  flight (\<open>session_inv\<close>). A method of a session changes that session only and adds calls of it (\<open>touch\<close>).

  The locale \<open>service_system\<close> says what the invariant of a service must allow the sessions to do, and
  has the steps of the sessions preserve both invariants; the theories \<open>Server_System\<close> and \<open>Client_System\<close>
  interpret it.
\<close>

section \<open>The invariant\<close>

text \<open>Before a receive completes, the system has stored the bytes at the write position.\<close>

definition system_stores :: "event_ref \<Rightarrow> ubyte list \<Rightarrow> net \<Rightarrow> net outcome" where
  "system_stores e bs n =
     (case e of
        RecvEvent_of r \<Rightarrow> and_then (recv_bytes bs (se_recvBuffer (nt_session n r))) (\<lambda>b.
          Ok (upd_session r (se_recvBuffer_update (\<lambda>_. b)) n))
      | _ \<Rightarrow> Ok n)"

fun session_of :: "event_ref \<Rightarrow> nat option" where
  "session_of (SendEvent_of r) = Some r"
| "session_of (RecvEvent_of r) = Some r"
| "session_of (DisconnectEvent_of r) = Some r"
| "session_of _ = None"

text \<open>A reference that the factory may return: no such session exists, and no call of one that did
  exist is in flight.\<close>

definition unused :: "nat \<Rightarrow> net \<Rightarrow> bool" where
  "unused r n \<longleftrightarrow> \<not> session_alive r n \<and> Some r \<notin> session_of ` set (nt_pending n)"

definition recv_start :: "session \<Rightarrow> bool" where
  "recv_start s \<longleftrightarrow>
     (let b = se_recvBuffer s
      in rb_dataPos b = 0 \<and> rb_writePos b = 0 \<and> rb_bufferSize b = RECV_BUFFER_SIZE \<and> length (rb_buffer b) = 655360)"

definition typed :: "session \<Rightarrow> bool" where
  "typed s \<longleftrightarrow> ev_eventType (se_sendEvent s) = EV_Send \<and> ev_eventType (se_recvEvent s) = EV_Recv \<and>
     ev_eventType (se_disconnectEvent s) = EV_Disconnect"

fun armed :: "event_ref \<Rightarrow> net \<Rightarrow> bool" where
  "armed (SendEvent_of r) n \<longleftrightarrow> ev_iocpObject (se_sendEvent (nt_session n r)) = Some (Session_obj r)"
| "armed (RecvEvent_of r) n \<longleftrightarrow> ev_iocpObject (se_recvEvent (nt_session n r)) = Some (Session_obj r)"
| "armed (DisconnectEvent_of r) n \<longleftrightarrow> ev_iocpObject (se_disconnectEvent (nt_session n r)) = Some (Session_obj r)"
| "armed _ n \<longleftrightarrow> True"

text \<open>A session that waits to be connected: nothing of it is in flight and the application does not have it.\<close>

definition waiting :: "nat \<Rightarrow> net \<Rightarrow> bool" where
  "waiting r n \<longleftrightarrow> \<not> se_connected (nt_session n r) \<and> Some r \<notin> session_of ` set (nt_pending n) \<and> r \<notin> set (nt_held n)"

definition session_inv :: "net \<Rightarrow> bool" where
  "session_inv n \<longleftrightarrow>
     (\<forall>r. count_list (nt_pending n) (RecvEvent_of r) \<le> 1) \<and>
     (\<forall>e \<in> set (nt_pending n). armed e n) \<and>
     (\<forall>r. session_alive r n \<longrightarrow> typed (nt_session n r) \<and> recv_start (nt_session n r)) \<and>
     (nt_keep n \<longrightarrow> (\<forall>r. session_alive r n \<and> se_connected (nt_session n r) \<or>
                         Some r \<in> session_of ` set (nt_pending n) \<longrightarrow> r \<in> set (nt_held n)))"

section \<open>What the methods of a session change\<close>

text \<open>A method of session \<open>r\<close> changes that session only and posts calls with its events, at most \<open>c\<close> of
  them receives, and only when it is connected.\<close>

definition touch :: "nat \<Rightarrow> nat \<Rightarrow> net \<Rightarrow> net \<Rightarrow> bool" where
  "touch c r n n' \<longleftrightarrow> nt_service n' = nt_service n \<and> nt_keep n' = nt_keep n \<and> nt_held n' = nt_held n \<and>
     (\<forall>q. q \<noteq> r \<longrightarrow> nt_session n' q = nt_session n q) \<and>
     se_recvBuffer (nt_session n' r) = se_recvBuffer (nt_session n r) \<and>
     (typed (nt_session n r) \<longrightarrow> typed (nt_session n' r)) \<and>
     (se_connected (nt_session n' r) \<longrightarrow> se_connected (nt_session n r)) \<and>
     (\<exists>es. nt_pending n' = nt_pending n @ es \<and> session_of ` set es \<subseteq> {Some r} \<and> count_list es (RecvEvent_of r) \<le> c \<and>
        (es \<noteq> [] \<longrightarrow> se_connected (nt_session n r)) \<and> (\<forall>e. armed e n \<or> e \<in> set es \<longrightarrow> armed e n'))"

lemma touch_refl [simp]: "touch c r n n"
  by (simp add: touch_def)

lemma touch_trans:
  assumes "touch c r n n1" and "touch d r n1 n2"
  shows "touch (c + d) r n n2"
proof -
  obtain es where es: "nt_pending n1 = nt_pending n @ es" "session_of ` set es \<subseteq> {Some r}"
    "count_list es (RecvEvent_of r) \<le> c" "es \<noteq> [] \<longrightarrow> se_connected (nt_session n r)"
    "\<forall>e. armed e n \<or> e \<in> set es \<longrightarrow> armed e n1"
    using assms(1) by (auto simp: touch_def)
  obtain fs where fs: "nt_pending n2 = nt_pending n1 @ fs" "session_of ` set fs \<subseteq> {Some r}"
    "count_list fs (RecvEvent_of r) \<le> d" "fs \<noteq> [] \<longrightarrow> se_connected (nt_session n1 r)"
    "\<forall>e. armed e n1 \<or> e \<in> set fs \<longrightarrow> armed e n2"
    using assms(2) by (auto simp: touch_def)
  have conn: "se_connected (nt_session n1 r) \<longrightarrow> se_connected (nt_session n r)"
    using assms(1) by (simp add: touch_def)
  have "\<exists>gs. nt_pending n2 = nt_pending n @ gs \<and> session_of ` set gs \<subseteq> {Some r} \<and>
      count_list gs (RecvEvent_of r) \<le> c + d \<and> (gs \<noteq> [] \<longrightarrow> se_connected (nt_session n r)) \<and>
      (\<forall>e. armed e n \<or> e \<in> set gs \<longrightarrow> armed e n2)"
    using es fs conn by (intro exI [of _ "es @ fs"]) auto
  then show ?thesis using assms by (auto simp: touch_def)
qed

lemma touch_mono: "touch c r n n' \<Longrightarrow> c \<le> d \<Longrightarrow> touch d r n n'"
  by (auto simp: touch_def)

lemma touch_trace [simp]: "touch c r n (trace x n)"
  by (auto simp: touch_def trace_def elim: armed.elims)

text \<open>To post a call with an event that was just pointed at the session.\<close>

lemma armed_frame:
  assumes "\<And>q. ev_iocpObject (se_sendEvent (nt_session n' q)) = ev_iocpObject (se_sendEvent (nt_session n q))"
    and "\<And>q. ev_iocpObject (se_recvEvent (nt_session n' q)) = ev_iocpObject (se_recvEvent (nt_session n q))"
    and "\<And>q. ev_iocpObject (se_disconnectEvent (nt_session n' q)) = ev_iocpObject (se_disconnectEvent (nt_session n q))"
  shows "armed e n' = armed e n"
  using assms by (cases e) auto

lemma touch_register_disconnect:
  assumes "se_connected (nt_session n r)"
  shows "touch 0 r n (snd (Session_register_disconnect r io n))"
proof -
  let ?n' = "snd (Session_register_disconnect r io n)"
  have "armed e n \<or> e = DisconnectEvent_of r \<longrightarrow> armed e ?n'" for e
    by (cases e) (auto simp: Session_register_disconnect_def Let_def split_beta post_def)
  then show ?thesis
    using assms by (auto simp: touch_def Session_register_disconnect_def Let_def split_beta post_def trace_def typed_def)
qed

lemma touch_disconnect: "touch c r n (Session_disconnect r io n)"
  by (auto simp: Session_disconnect_def intro: touch_register_disconnect touch_mono)

lemma touch_Disconnect: "touch c r n (snd (Session_Disconnect r io n))"
proof (cases "se_connected (nt_session n r)")
  case True
  let ?n' = "snd (Session_Disconnect r io n)"
  have "armed e n \<or> e = DisconnectEvent_of r \<longrightarrow> armed e ?n'" for e
    using True by (cases e) (auto simp: Session_Disconnect_def Session_register_disconnect_def Let_def split_beta post_def)
  then show ?thesis
    using True
    by (auto simp: touch_def Session_Disconnect_def Session_register_disconnect_def Let_def split_beta post_def
        trace_def typed_def)
qed (simp add: Session_Disconnect_def)

lemma touch_register_send: "touch 0 r n (Session_register_send r io n)"
proof (cases "se_connected (nt_session n r)")
  case True
  let ?n' = "Session_register_send r io n"
  have "armed e n \<or> e = SendEvent_of r \<longrightarrow> armed e ?n'" for e
    using True by (cases e) (auto simp: Session_register_send_def Let_def split_beta post_def)
  then show ?thesis
    using True by (auto simp: touch_def Session_register_send_def Let_def split_beta post_def trace_def typed_def)
qed (simp add: Session_register_send_def touch_disconnect)

lemma touch_register_recv:
  assumes "Session_register_recv r io n = Ok n'"
  shows "touch 1 r n n'"
proof (cases "se_connected (nt_session n r)")
  case True
  then have "armed e n \<or> e = RecvEvent_of r \<longrightarrow> armed e n'" for e
    using assms by (cases e) (auto simp: Session_register_recv_def Let_def split_beta post_def)
  then show ?thesis
    using assms True
    by (auto simp: touch_def Session_register_recv_def Let_def split_beta post_def trace_def typed_def)
next
  case False
  then have "n' = Session_disconnect r io n" using assms by (simp add: Session_register_recv_def)
  then show ?thesis by (simp add: touch_disconnect)
qed

text \<open>To change what no other part looks at.\<close>

lemma touch_quiet:
  assumes "\<And>s. se_recvBuffer (f s) = se_recvBuffer s" "\<And>s. typed (f s) = typed s" "\<And>s. se_connected (f s) = se_connected s"
    and "\<And>s. ev_iocpObject (se_sendEvent (f s)) = ev_iocpObject (se_sendEvent s)"
    and "\<And>s. ev_iocpObject (se_recvEvent (f s)) = ev_iocpObject (se_recvEvent s)"
    and "\<And>s. ev_iocpObject (se_disconnectEvent (f s)) = ev_iocpObject (se_disconnectEvent s)"
  shows "touch 0 r n (upd_session r f n)"
proof -
  have "armed e (upd_session r f n) = armed e n" for e using assms(4-6) by (intro armed_frame) simp_all
  then show ?thesis using assms(1-3) by (simp add: touch_def)
qed

lemma touch_send: "touch 0 r n (Session_send r bufs io n)"
proof -
  let ?f = "\<lambda>s. s\<lparr>se_sendQueue := se_sendQueue s @ bufs, se_sending := True\<rparr>"
  have q: "touch 0 r n (upd_session r ?f n)" by (rule touch_quiet) (simp_all add: typed_def)
  then show ?thesis
    using touch_trans [OF q touch_register_send] by (auto simp: Session_send_def Let_def)
qed

lemma touch_process_send: "touch 0 r n (Session_process_send r m io n)"
proof -
  let ?n1 = "upd_session r (se_sendEvent_update IOCPEvent_ReleaseIOCPObjectSPtr) n"
  have "touch 0 r n ?n1" by (rule touch_quiet) (simp_all add: typed_def)
  from touch_trans [OF this touch_disconnect, of 0] touch_trans [OF this touch_trace, of 0]
  show ?thesis by (simp add: Session_process_send_def Let_def)
qed

lemma touch_process_recv:
  assumes "Session_process_recv onRecv r m io n = Some (Ok n')"
  shows "touch 1 r n n'"
proof -
  have disc: "touch 1 r n (Session_disconnect r io (trace x n))" for x
    using touch_trans [OF touch_trace [of 0 r n x] touch_disconnect [of 1]] by simp
  have recv: "Session_register_recv r io (trace x n) = Ok n2 \<Longrightarrow> touch 1 r n n2" for x n2
    using touch_trans [OF touch_trace [of 0 r n x] touch_register_recv] by simp
  show ?thesis
    using assms disc recv
    by (auto simp: Session_process_recv_def touch_disconnect Let_def split: if_splits outcome.splits option.splits)
qed

section \<open>Preservation by the methods of a session\<close>

lemma session_alive_service:
  "nt_service n' = nt_service n \<Longrightarrow> nt_held n' = nt_held n \<Longrightarrow> session_alive q n' = session_alive q n"
  by (simp add: session_alive_def)

lemma touchE:
  assumes "touch c r n n'"
  obtains es where "nt_service n' = nt_service n" "nt_keep n' = nt_keep n" "nt_held n' = nt_held n"
    "\<And>q. q \<noteq> r \<Longrightarrow> nt_session n' q = nt_session n q"
    "se_recvBuffer (nt_session n' r) = se_recvBuffer (nt_session n r)"
    "typed (nt_session n r) \<Longrightarrow> typed (nt_session n' r)"
    "se_connected (nt_session n' r) \<Longrightarrow> se_connected (nt_session n r)"
    "nt_pending n' = nt_pending n @ es" "session_of ` set es \<subseteq> {Some r}"
    "count_list es (RecvEvent_of r) \<le> c" "es \<noteq> [] \<Longrightarrow> se_connected (nt_session n r)"
    "\<And>e. armed e n \<or> e \<in> set es \<Longrightarrow> armed e n'"
  using assms unfolding touch_def by blast

lemma session_invE:
  assumes "session_inv n"
  obtains "\<And>r. count_list (nt_pending n) (RecvEvent_of r) \<le> 1"
    "\<And>e. e \<in> set (nt_pending n) \<Longrightarrow> armed e n"
    "\<And>r. session_alive r n \<Longrightarrow> typed (nt_session n r)" "\<And>r. session_alive r n \<Longrightarrow> recv_start (nt_session n r)"
    "\<And>r. nt_keep n \<Longrightarrow> session_alive r n \<Longrightarrow> se_connected (nt_session n r) \<Longrightarrow> r \<in> set (nt_held n)"
    "\<And>r. nt_keep n \<Longrightarrow> Some r \<in> session_of ` set (nt_pending n) \<Longrightarrow> r \<in> set (nt_held n)"
  using assms unfolding session_inv_def by blast

lemma touch_session_inv:
  assumes t: "touch c r n n'" and i: "session_inv n" and r: "session_alive r n"
    and c: "count_list (nt_pending n) (RecvEvent_of r) + c \<le> 1"
  shows "session_inv n'"
proof (rule touchE [OF t], rule session_invE [OF i])
  fix es
  assume a: "nt_service n' = nt_service n" "nt_keep n' = nt_keep n" "nt_held n' = nt_held n"
    "\<And>q. q \<noteq> r \<Longrightarrow> nt_session n' q = nt_session n q"
    "se_recvBuffer (nt_session n' r) = se_recvBuffer (nt_session n r)"
    "typed (nt_session n r) \<Longrightarrow> typed (nt_session n' r)"
    "se_connected (nt_session n' r) \<Longrightarrow> se_connected (nt_session n r)"
    and es: "nt_pending n' = nt_pending n @ es" "session_of ` set es \<subseteq> {Some r}"
    "count_list es (RecvEvent_of r) \<le> c" "es \<noteq> [] \<Longrightarrow> se_connected (nt_session n r)"
    "\<And>e. armed e n \<or> e \<in> set es \<Longrightarrow> armed e n'"
    and inv: "\<And>r. count_list (nt_pending n) (RecvEvent_of r) \<le> 1"
    "\<And>e. e \<in> set (nt_pending n) \<Longrightarrow> armed e n"
    "\<And>r. session_alive r n \<Longrightarrow> typed (nt_session n r)" "\<And>r. session_alive r n \<Longrightarrow> recv_start (nt_session n r)"
    "\<And>r. nt_keep n \<Longrightarrow> session_alive r n \<Longrightarrow> se_connected (nt_session n r) \<Longrightarrow> r \<in> set (nt_held n)"
    "\<And>r. nt_keep n \<Longrightarrow> Some r \<in> session_of ` set (nt_pending n) \<Longrightarrow> r \<in> set (nt_held n)"
  have alive: "session_alive q n' = session_alive q n" for q
    by (rule session_alive_service [OF a(1,3)])
  have other: "e \<notin> set es" if "session_of e \<noteq> Some r" for e
    using es(2) that by auto
  have "count_list (nt_pending n') (RecvEvent_of q) \<le> 1" for q
    using other [of "RecvEvent_of q"] inv(1) [of q] es(1,3) c by (cases "q = r") (simp_all add: count_list_0_iff)
  moreover have "e \<in> set (nt_pending n') \<Longrightarrow> armed e n'" for e
    using es(1,5) inv(2) by auto
  moreover have "session_alive q n' \<Longrightarrow> typed (nt_session n' q) \<and> recv_start (nt_session n' q)" for q
    using inv(3,4) a(4-6) unfolding alive by (cases "q = r") (simp_all add: recv_start_def)
  moreover have "q \<in> set (nt_held n')" if "nt_keep n'" "session_alive q n'" "se_connected (nt_session n' q)" for q
    using that a(2,3,4,7) inv(5) unfolding alive by (cases "q = r") auto
  moreover have "q \<in> set (nt_held n')" if "nt_keep n'" "Some q \<in> session_of ` set (nt_pending n')" for q
  proof (cases "Some q \<in> session_of ` set es")
    case True
    then have "q = r" "es \<noteq> []" using es(2) by auto
    then show ?thesis using that(1) inv(5) [OF _ r] es(4) a(2,3) by simp
  qed (use that es(1) inv(6) a(2,3) in auto)
  ultimately show ?thesis unfolding session_inv_def by blast
qed

section \<open>Preservation by the system and the port\<close>

lemma dequeue_session_inv:
  assumes "session_inv n"
  shows "session_inv (n\<lparr>nt_pending := remove1 e (nt_pending n)\<rparr>)"
proof (rule session_invE [OF assms])
  let ?n' = "n\<lparr>nt_pending := remove1 e (nt_pending n)\<rparr>"
  assume inv: "\<And>r. count_list (nt_pending n) (RecvEvent_of r) \<le> 1"
    "\<And>e. e \<in> set (nt_pending n) \<Longrightarrow> armed e n"
    "\<And>r. session_alive r n \<Longrightarrow> typed (nt_session n r)" "\<And>r. session_alive r n \<Longrightarrow> recv_start (nt_session n r)"
    "\<And>r. nt_keep n \<Longrightarrow> session_alive r n \<Longrightarrow> se_connected (nt_session n r) \<Longrightarrow> r \<in> set (nt_held n)"
    "\<And>r. nt_keep n \<Longrightarrow> Some r \<in> session_of ` set (nt_pending n) \<Longrightarrow> r \<in> set (nt_held n)"
  have sub: "set (remove1 e (nt_pending n)) \<subseteq> set (nt_pending n)" by (rule set_remove1_subset)
  have "armed d ?n' = armed d n" for d by (rule armed_frame) simp_all
  moreover have "session_alive q ?n' = session_alive q n" for q by (simp add: session_alive_def)
  moreover have "count_list (remove1 e (nt_pending n)) (RecvEvent_of r) \<le> 1" for r
    using inv(1) [of r] by simp
  moreover have "Some r \<in> session_of ` set (remove1 e (nt_pending n)) \<Longrightarrow> Some r \<in> session_of ` set (nt_pending n)" for r
    using sub by blast
  ultimately show ?thesis
    using inv(2-6) sub unfolding session_inv_def by auto
qed

lemma stores_keeps:
  assumes "system_stores e bs n = Ok n'"
  shows "nt_service n' = nt_service n" "nt_held n' = nt_held n" "nt_pending n' = nt_pending n" "nt_keep n' = nt_keep n"
    "se_connected (nt_session n' q) = se_connected (nt_session n q)" "typed (nt_session n' q) = typed (nt_session n q)"
    "recv_start (nt_session n q) \<Longrightarrow> recv_start (nt_session n' q)" "waiting q n' = waiting q n"
  using assms
  by (auto simp: system_stores_def recv_bytes_def recv_start_def store_bytes_def typed_def Let_def RecvBuffer_WritePos_def waiting_def
      split: event_ref.splits if_splits)

lemma stores_session_inv:
  assumes "system_stores e bs n = Ok n'" and "session_inv n"
  shows "session_inv n'"
proof -
  note keep = stores_keeps [OF assms(1)]
  have "armed d n' = armed d n" for d
    using assms(1) by (intro armed_frame) (auto simp: system_stores_def split: event_ref.splits)
  then show ?thesis using assms(2) keep by (simp add: session_inv_def session_alive_service [OF keep(1,2)])
qed

lemma kept_session_inv:
  assumes "net_kept n n'" and "session_inv n"
  shows "session_inv n'"
proof -
  have keep: "nt_service n' = nt_service n" "nt_held n' = nt_held n" "nt_pending n' = nt_pending n" "nt_keep n' = nt_keep n"
    using assms(1) by (simp_all add: net_kept_def)
  have fields: "se_connected (nt_session n' q) = se_connected (nt_session n q)" "typed (nt_session n' q) = typed (nt_session n q)"
    "recv_start (nt_session n' q) = recv_start (nt_session n q)" for q
    by (rule net_kept_session [OF assms(1)]; simp add: typed_def recv_start_def)+
  have "armed d n' = armed d n" for d
    by (intro armed_frame; rule net_kept_session [OF assms(1)]; simp)
  then show ?thesis
    using assms(2) keep fields by (simp add: session_inv_def session_alive_service [OF keep(1,2)])
qed

lemma kept_waiting: "net_kept n n' \<Longrightarrow> waiting q n' = waiting q n"
  using net_kept_session [of n n' se_connected q] by (simp add: waiting_def net_kept_def)

text \<open>The end of a session: the service gives up its pointer.\<close>

lemma ReleaseSession_holds:
  "service_holds q (snd (ReleaseSession r impl)) \<Longrightarrow> service_holds q impl"
proof (cases impl)
  case (ClientServiceEx ss conns)
  have "Some q \<in> set (snd (ClientServiceEx_ReleaseSession r ss)) \<Longrightarrow> Some q \<in> set ss"
    by (induction ss) (auto split: if_splits prod.splits)
  then show "service_holds q (snd (ReleaseSession r impl)) \<Longrightarrow> service_holds q impl"
    by (simp add: ClientServiceEx split_beta)
qed (auto simp: ClientService_ReleaseSession_def ServerService_ReleaseSession_def dest: in_set_remove1 [THEN iffD1, rotated] notin_set_remove1
     split: if_splits)

lemma clear_session_inv:
  assumes "Session_clear r n = Ok n'" and "session_inv n"
  shows "session_inv n'"
proof -
  let ?f = "\<lambda>s. s\<lparr>se_service := False, se_sendQueue := [], se_connected := False, se_socket := INVALID_SOCKET\<rparr>"
  have n': "n' = upd_session r ?f (n\<lparr>nt_service := (nt_service n)\<lparr>sv_impl := snd (ReleaseSession r (sv_impl (nt_service n)))\<rparr>\<rparr>)"
    using assms(1) by (auto simp: Session_clear_result split: if_splits)
  have "session_alive q n' \<Longrightarrow> session_alive q n" for q
    using ReleaseSession_holds by (auto simp: n' session_alive_def)
  moreover have "armed d n' = armed d n" for d by (rule armed_frame) (simp_all add: n')
  ultimately show ?thesis
    using assms(2) unfolding session_inv_def by (auto simp: n' typed_def recv_start_def split: if_splits)
qed

text \<open>A new session, which the service may hold and for which nothing is in flight.\<close>

lemma session_inv_new:
  assumes i: "session_inv n" and u: "unused r n" and same: "\<And>q. q \<noteq> r \<Longrightarrow> nt_session n' q = nt_session n q"
    and alive: "\<And>q. session_alive q n' \<Longrightarrow> session_alive q n \<or> q = r"
    and new: "typed (nt_session n' r)" "recv_start (nt_session n' r)" "\<not> se_connected (nt_session n' r)"
    and keep: "nt_keep n' = nt_keep n" "nt_held n' = nt_held n"
    and pend: "nt_pending n' = nt_pending n @ es" "session_of ` set es \<subseteq> {None}"
  shows "session_inv n'"
proof (rule session_invE [OF i])
  assume inv: "\<And>r. count_list (nt_pending n) (RecvEvent_of r) \<le> 1"
    "\<And>e. e \<in> set (nt_pending n) \<Longrightarrow> armed e n"
    "\<And>r. session_alive r n \<Longrightarrow> typed (nt_session n r)" "\<And>r. session_alive r n \<Longrightarrow> recv_start (nt_session n r)"
    "\<And>r. nt_keep n \<Longrightarrow> session_alive r n \<Longrightarrow> se_connected (nt_session n r) \<Longrightarrow> r \<in> set (nt_held n)"
    "\<And>r. nt_keep n \<Longrightarrow> Some r \<in> session_of ` set (nt_pending n) \<Longrightarrow> r \<in> set (nt_held n)"
  have "armed e n'" if "e \<in> set (nt_pending n)" for e
  proof -
    have "session_of e \<noteq> Some r" using u that by (auto simp: unused_def image_iff)
    then show ?thesis using inv(2) [OF that] same by (cases e) auto
  qed
  moreover have "armed e n'" if "e \<in> set es" for e
    using pend(2) that by (cases e) auto
  ultimately have "e \<in> set (nt_pending n') \<Longrightarrow> armed e n'" for e using pend(1) by auto
  moreover have "count_list es (RecvEvent_of q) = 0" for q using pend(2) by (force simp: count_list_0_iff)
  then have "count_list (nt_pending n') (RecvEvent_of q) \<le> 1" for q using inv(1) pend(1) by simp
  moreover have "session_alive q n' \<Longrightarrow> typed (nt_session n' q) \<and> recv_start (nt_session n' q)" for q
    using alive [of q] inv(3,4) same new(1,2) by (cases "q = r") auto
  moreover have "q \<in> set (nt_held n')" if "nt_keep n'" "session_alive q n'" "se_connected (nt_session n' q)" for q
    using that alive [of q] inv(5) same new(3) keep by (cases "q = r") auto
  moreover have "Some q \<in> session_of ` set (nt_pending n') \<Longrightarrow> Some q \<in> session_of ` set (nt_pending n)" for q
    using pend by auto
  ultimately show ?thesis
    using inv(6) keep unfolding session_inv_def by (metis (no_types))
qed

section \<open>Preservation by the start of a session\<close>

text \<open>\<^verbatim>\<open>_set_connected\<close> up to the first receive.\<close>

definition joined :: "nat \<Rightarrow> net \<Rightarrow> net \<Rightarrow> bool" where
  "joined r n m \<longleftrightarrow> nt_service m = nt_service n \<and> nt_pending m = nt_pending n \<and> nt_keep m = nt_keep n \<and>
     nt_held m = nt_held n @ (if nt_keep n then [r] else []) \<and> (\<forall>q. q \<noteq> r \<longrightarrow> nt_session m q = nt_session n q) \<and>
     (\<exists>sk. nt_session m r = (nt_session n r)\<lparr>se_service := True, se_socket := sk, se_connected := True\<rparr>)"

lemma set_connected_joined:
  assumes "Session_set_connected r sock io n = Ok n'"
  obtains m where "joined r n m" "touch 1 r m n'" "nt_trace m = nt_trace n @ [OnConnected r]"
proof -
  obtain n2 where n2: "(if sock \<noteq> INVALID_SOCKET then Session_set_socket r sock (upd_session r (se_service_update (\<lambda>_. True)) n)
        else Ok (upd_session r (se_service_update (\<lambda>_. True)) n)) = Ok n2"
    and reg: "Session_register_recv r io (Session_OnConnected r (upd_session r (se_connected_update (\<lambda>_. True)) n2)) = Ok n'"
    using assms unfolding Session_set_connected_def Let_def and_then_Ok_iff by blast
  let ?m = "Session_OnConnected r (upd_session r (se_connected_update (\<lambda>_. True)) n2)"
  have same: "\<exists>sk. s\<lparr>se_service := True\<rparr> = s\<lparr>se_service := True, se_socket := sk\<rparr>" for s :: session
    by (rule exI [of _ "se_socket s"]) (cases s; simp)
  have "nt_service n2 = nt_service n \<and> nt_pending n2 = nt_pending n \<and> nt_keep n2 = nt_keep n \<and> nt_held n2 = nt_held n \<and>
      nt_trace n2 = nt_trace n \<and> (\<forall>q. q \<noteq> r \<longrightarrow> nt_session n2 q = nt_session n q) \<and>
      (\<exists>sk. nt_session n2 r = (nt_session n r)\<lparr>se_service := True, se_socket := sk\<rparr>)"
    using n2 by (auto simp: Session_set_socket_def CheckError_def Let_def same split: if_splits prod.splits)
  then obtain sk where n2': "nt_service n2 = nt_service n" "nt_pending n2 = nt_pending n" "nt_keep n2 = nt_keep n"
    "nt_held n2 = nt_held n" "nt_trace n2 = nt_trace n" "\<forall>q. q \<noteq> r \<longrightarrow> nt_session n2 q = nt_session n q"
    "nt_session n2 r = (nt_session n r)\<lparr>se_service := True, se_socket := sk\<rparr>" by blast
  have "joined r n ?m" using n2' by (auto simp: joined_def)
  moreover have "touch 1 r ?m n'" using reg by (rule touch_register_recv)
  moreover have "nt_trace ?m = nt_trace n @ [OnConnected r]" using n2' by simp
  ultimately show ?thesis by (rule that)
qed

lemma joined_alive: "joined r n m \<Longrightarrow> session_alive r n \<Longrightarrow> session_alive q m = session_alive q n"
  by (auto simp: joined_def session_alive_def)

lemma set_connected_session_inv:
  assumes c: "Session_set_connected r sock io n = Ok n'" and i: "session_inv n" and r: "waiting r n" "session_alive r n"
  shows "session_inv n'"
proof (rule set_connected_joined [OF c])
  fix m
  assume m: "joined r n m" "touch 1 r m n'"
  then obtain sk where j: "nt_service m = nt_service n" "nt_pending m = nt_pending n" "nt_keep m = nt_keep n"
    "nt_held m = nt_held n @ (if nt_keep n then [r] else [])" "\<And>q. q \<noteq> r \<Longrightarrow> nt_session m q = nt_session n q"
    "nt_session m r = (nt_session n r)\<lparr>se_service := True, se_socket := sk, se_connected := True\<rparr>"
    by (auto simp: joined_def)
  note alive = joined_alive [OF m(1) r(2)]
  have f: "typed (nt_session m q) = typed (nt_session n q)" "recv_start (nt_session m q) = recv_start (nt_session n q)" for q
    using j(5,6) by (cases "q = r"; simp add: typed_def recv_start_def)+
  have "armed e m = armed e n" for e
    by (rule armed_frame) (case_tac "q = r"; simp add: j(5,6))+
  moreover have "q \<in> set (nt_held m)" if "nt_keep m" "session_alive q m" "se_connected (nt_session m q)" for q
    using that i alive j(3-5) by (cases "q = r") (auto simp: session_inv_def)
  ultimately have "session_inv m"
    using i unfolding session_inv_def alive f j(2) by (auto simp: j(3,4))
  moreover have "count_list (nt_pending m) (RecvEvent_of r) + 1 \<le> 1"
    using r(1) j(2) by (force simp: waiting_def count_list_0_iff)
  ultimately show ?thesis using touch_session_inv [OF m(2)] r(2) alive by blast
qed

lemma joined_waiting:
  assumes "joined r n m" "touch c r m n'" "waiting q n" "q \<noteq> r"
  shows "waiting q n'"
proof (rule touchE [OF assms(2)])
  fix es
  assume e: "nt_held n' = nt_held m" "\<And>q. q \<noteq> r \<Longrightarrow> nt_session n' q = nt_session m q" "nt_pending n' = nt_pending m @ es"
    "session_of ` set es \<subseteq> {Some r}"
  have "Some q \<notin> session_of ` set es" using e(4) assms(4) by auto
  then show ?thesis using assms(1,3,4) e(1-3) by (auto simp: waiting_def joined_def image_Un)
qed

lemma joined_unused:
  assumes "joined r n m" "touch c r m n'" "session_alive r n" "unused q n"
  shows "unused q n'"
proof (rule touchE [OF assms(2)])
  fix es
  assume e: "nt_service n' = nt_service m" "nt_held n' = nt_held m" "nt_pending n' = nt_pending m @ es"
    "session_of ` set es \<subseteq> {Some r}"
  have "q \<noteq> r" using assms(3,4) by (auto simp: unused_def)
  then have "Some q \<notin> session_of ` set es" using e(4) by auto
  moreover have "\<not> session_alive q n'"
    using assms(4) joined_alive [OF assms(1,3)] session_alive_service [OF e(1,2), of q] unfolding unused_def by blast
  ultimately show ?thesis using assms(1,4) by (simp add: unused_def e(3) image_Un joined_def)
qed

lemma trace_session_inv [simp]: "session_inv (trace x n) \<longleftrightarrow> session_inv n"
proof -
  have "armed e (trace x n) = armed e n" for e by (rule armed_frame) simp_all
  moreover have "session_alive r (trace x n) = session_alive r n" for r by (simp add: session_alive_def trace_def)
  ultimately show ?thesis by (simp add: session_inv_def) (simp add: trace_def)
qed

text \<open>What the dispatch of a completion of a session finds.\<close>

lemma session_completion_object:
  assumes "session_inv n" "e \<in> set (nt_pending n)" "session_of e = Some r"
    and "get_event e (n\<lparr>nt_pending := p\<rparr>) = Some ev" "lock_object (ev_iocpObject ev) (n\<lparr>nt_pending := p\<rparr>) = Some obj"
  shows "obj = Session_obj r"
proof -
  have "armed e n" using assms(1,2) by (simp add: session_inv_def)
  then show ?thesis using assms(3-5) by (cases e) (auto simp: iocp_event.defs split: if_splits)
qed

section \<open>What a service must allow its sessions\<close>

locale service_system =
  fixes inv :: "net \<Rightarrow> bool"
  assumes inv_touch: "touch c r n n' \<Longrightarrow> inv n \<Longrightarrow> inv n'"
    and inv_kept: "net_kept n n' \<Longrightarrow> inv n \<Longrightarrow> inv n'"
    and inv_trace: "inv n \<Longrightarrow> inv (trace x n)"
    and inv_stores: "system_stores e bs n = Ok n' \<Longrightarrow> inv n \<Longrightarrow> inv n'"
    and inv_clear: "Session_clear r n = Ok n' \<Longrightarrow> inv n \<Longrightarrow> inv n'"
    and inv_dequeue: "inv n \<Longrightarrow> session_of e = Some r \<Longrightarrow> inv (n\<lparr>nt_pending := remove1 e (nt_pending n)\<rparr>)"
begin

lemma touch_both:
  assumes "touch c r n n'" "inv n" "session_inv n" "session_alive r n" "count_list (nt_pending n) (RecvEvent_of r) + c \<le> 1"
  shows "inv n' \<and> session_inv n'"
  using inv_touch [OF assms(1,2)] touch_session_inv [OF assms(1,3,4,5)] by blast

lemma touch0_both:
  assumes "touch 0 r n n'" "inv n" "session_inv n" "session_alive r n"
  shows "inv n' \<and> session_inv n'"
  using touch_both [OF assms] assms(3) by (simp add: session_inv_def)

lemma stores_both:
  "system_stores e bs n = Ok n' \<Longrightarrow> inv n \<Longrightarrow> session_inv n \<Longrightarrow> inv n' \<and> session_inv n'"
  using inv_stores stores_session_inv by blast

lemma dispatch_both:
  assumes d: "Session_Dispatch onRecv ev r m io n = Some (Ok n')" and a: "inv n" and i: "session_inv n"
    and r: "session_alive r n" "ev = EV_Recv \<Longrightarrow> RecvEvent_of r \<notin> set (nt_pending n)"
  shows "inv n' \<and> session_inv n'"
proof (cases ev)
  case EV_Recv
  then have "touch 1 r n n'" using d by (intro touch_process_recv) (simp add: Session_Dispatch_def)
  then show ?thesis using touch_both [OF _ a i r(1)] r(2) [OF EV_Recv] by (simp add: count_list_0_iff)
next
  case EV_Disconnect
  then obtain n1 where n1: "Session_clear r n = Ok n1" "n' = trace (OnDisconnected r) n1"
    using d by (auto simp: Session_Dispatch_def Session_process_disconnect_def)
  then show ?thesis using inv_clear a clear_session_inv i inv_trace by simp
next
  case EV_Send
  then have "n' = Session_process_send r m io n" using d by (simp add: Session_Dispatch_def)
  then show ?thesis using touch0_both [OF touch_process_send a i r(1)] by simp
qed (use d a i in \<open>simp_all add: Session_Dispatch_def\<close>)

text \<open>The completion of a call of a session, dispatched.\<close>

lemma completion_both:
  assumes e: "e \<in> set (nt_pending n)" "session_of e = Some r" and a: "inv n" and i: "session_inv n"
    and g: "get_event e (n\<lparr>nt_pending := remove1 e (nt_pending n)\<rparr>) = Some ev"
    and d: "Session_Dispatch onRecv (ev_eventType ev) r m io (n\<lparr>nt_pending := remove1 e (nt_pending n)\<rparr>) = Some (Ok n')"
  shows "inv n' \<and> session_inv n'"
proof -
  let ?n0 = "n\<lparr>nt_pending := remove1 e (nt_pending n)\<rparr>"
  have i0: "session_inv ?n0" by (rule dequeue_session_inv [OF i])
  have alive: "session_alive r ?n0" using g e(2) by (cases e) (auto split: if_splits)
  then have "typed (nt_session n r)" using i0 by (simp add: session_inv_def)
  then have "ev_eventType ev = EV_Recv \<Longrightarrow> e = RecvEvent_of r"
    using g e(2) by (cases e) (auto simp: typed_def iocp_event.defs split: if_splits)
  moreover have "count_list (nt_pending n) (RecvEvent_of r) \<le> 1" using i by (simp add: session_inv_def)
  then have "e = RecvEvent_of r \<Longrightarrow> RecvEvent_of r \<notin> set (remove1 e (nt_pending n))"
    by (subst count_list_0_iff [symmetric]) simp
  ultimately show ?thesis
    by (intro dispatch_both [OF d inv_dequeue [OF a e(2)] i0 alive]) simp
qed

lemma process_both:
  assumes e: "cp_overlapped c \<in> set (nt_pending n)" "session_of (cp_overlapped c) = Some r" and a: "inv n" and i: "session_inv n"
    and p: "process_completion onRecv c n = Some (Ok n')"
  shows "inv n' \<and> session_inv n'"
proof -
  let ?e = "cp_overlapped c"
  let ?n0 = "n\<lparr>nt_pending := remove1 ?e (nt_pending n)\<rparr>"
  obtain ev obj n1 where g: "get_event ?e ?n0 = Some ev" and l: "lock_object (ev_iocpObject ev) ?n0 = Some obj"
    and d: "IOCPObject_Dispatch onRecv obj (ev_eventType ev) c ?n0 = Some (Ok n1)"
    and reap: "reap (dropped obj) (\<lambda>_. cp_close c) n1 = Ok n'"
    using p by (auto simp: process_completion_def Let_def split: option.splits outcome.splits)
  have "obj = Session_obj r" by (rule session_completion_object [OF i e g l])
  with d completion_both [OF e a i g] have "inv n1 \<and> session_inv n1" by (simp add: IOCPObject_Dispatch_def)
  then show ?thesis using inv_kept kept_session_inv reap_kept [OF reap] by blast
qed

lemma send_both:
  "inv n \<Longrightarrow> session_inv n \<Longrightarrow> session_alive r n \<Longrightarrow> inv (Session_send r bufs io n) \<and> session_inv (Session_send r bufs io n)"
  by (rule touch0_both [OF touch_send])

lemma disconnect_both:
  "inv n \<Longrightarrow> session_inv n \<Longrightarrow> session_alive r n \<Longrightarrow>
     inv (snd (Session_Disconnect r io n)) \<and> session_inv (snd (Session_Disconnect r io n))"
  by (rule touch0_both [OF touch_Disconnect])

end

text \<open>The object that posted a call, and the type its event has.\<close>

fun poster :: "event_ref \<Rightarrow> iocp_object" where
  "poster (SendEvent_of r) = Session_obj r"
| "poster (RecvEvent_of r) = Session_obj r"
| "poster (DisconnectEvent_of r) = Session_obj r"
| "poster (AcceptEvent_of _) = Listener_obj"
| "poster (ConnectEvent_of k) = Connector_obj k"

fun event_type :: "event_ref \<Rightarrow> EventType" where
  "event_type (SendEvent_of _) = EV_Send"
| "event_type (RecvEvent_of _) = EV_Recv"
| "event_type (DisconnectEvent_of _) = EV_Disconnect"
| "event_type (AcceptEvent_of _) = EV_Accept"
| "event_type (ConnectEvent_of _) = EV_Connect"

lemma poster_session: "session_of e = Some r \<Longrightarrow> poster e = Session_obj r"
  by (cases e) simp_all

lemma session_event_found:
  assumes "session_inv n" "e \<in> set (nt_pending n)" "session_of e = Some r" "session_alive r n"
  shows "\<exists>ev. get_event e n = Some ev \<and> ev_eventType ev = event_type e \<and>
    lock_object (ev_iocpObject ev) n = Some (Session_obj r)"
proof -
  have "armed e n" "typed (nt_session n r)" using assms by (auto simp: session_inv_def)
  then show ?thesis using assms(3,4) by (cases e) (auto simp: typed_def iocp_event.defs)
qed

text \<open>A completion of the examples.\<close>

abbreviation (input) demo_completion :: completion where
  "demo_completion \<equiv> \<lparr>cp_overlapped = RecvEvent_of 0, cp_bytes = 0, cp_io = \<lparr>io_res = 1, io_error = 0\<rparr>, cp_update = 0,
     cp_peer = 0, cp_accepts = [], cp_new = \<lparr>ns_ref = None, ns_socket = 0, ns_registered = False, ns_close = 0\<rparr>, cp_close = 0\<rparr>"

end
