(* ===== verification/Server_System.thy ===== *)
theory Server_System
  imports Session_System
begin

text \<open>
  A running server as a system of steps: the completion of any posted call that has not completed
  yet, dispatched by \<^verbatim>\<open>IOCPCore::ProcessQueuedCompletionStatusEx\<close> (\<^verbatim>\<open>src/MyNetworkLib/IOCPCore.cpp\<close>), which the
  test server polls and which dispatches failed calls too, with zero bytes, to the handlers of \<^verbatim>\<open>Session.cpp\<close>
  and \<^verbatim>\<open>Listener.cpp\<close>, and the calls of the application to \<^verbatim>\<open>Session::_send\<close> and
  \<^verbatim>\<open>Session::Disconnect\<close>, in any order. What the calls of a handler return is arbitrary; the session
  factory makes a new object each time. A server polled with \<^verbatim>\<open>ProcessQueuedCompletionStatus\<close>, which drops failed
  calls, is not covered: \<open>Client_System\<close> has that polling function.

  The invariant \<open>server_inv\<close> says which calls are in flight and that their events, sessions and
  buffers are as the handlers expect them; what it says of the sessions is in \<open>Session_System\<close>.
\<close>

section \<open>Steps\<close>

definition new_refs :: "accept_io list \<Rightarrow> nat list" where
  "new_refs xs = List.map_filter (\<lambda>x. ns_ref (ai_session x)) xs"

definition fresh_attempts :: "accept_io list \<Rightarrow> net \<Rightarrow> bool" where
  "fresh_attempts xs n \<longleftrightarrow> distinct (new_refs xs) \<and> (\<forall>r \<in> set (new_refs xs). unused r n)"

inductive server_step :: "on_recv \<Rightarrow> net \<Rightarrow> net \<Rightarrow> bool" for onRecv :: on_recv where
  step_completion:
    "cp_overlapped c \<in> set (nt_pending n) \<Longrightarrow> fresh_attempts (cp_accepts c) n \<Longrightarrow>
     system_stores (cp_overlapped c) bs n = Ok n1 \<Longrightarrow>
     process_completion onRecv c n1 = Some (Ok n') \<Longrightarrow> server_step onRecv n n'"
| step_send: "session_alive r n \<Longrightarrow> server_step onRecv n (Session_send r bufs io n)"
| step_disconnect: "session_alive r n \<Longrightarrow> server_step onRecv n (snd (Session_Disconnect r io n))"

inductive_cases server_stepE: "server_step onRecv n n'"

section \<open>The invariant\<close>

definition accept_events :: "net \<Rightarrow> accept_event list" where
  "accept_events n = (case get_listener (sv_impl (nt_service n)) of None \<Rightarrow> [] | Some l \<Rightarrow> ls_acceptEvents l)"

definition accept_inv :: "nat set \<Rightarrow> net \<Rightarrow> bool" where
  "accept_inv K n \<longleftrightarrow>
     (\<exists>b ss l. sv_impl (nt_service n) = ServerService b ss (Some l) \<and> sorted ss \<and> distinct ss) \<and>
     sv_iocpCore (nt_service n) \<and> sv_sessionFactory (nt_service n) \<and> sv_serviceType (nt_service n) = ST_Server \<and>
     K \<subseteq> {..<length (accept_events n)} \<and>
     (\<forall>ev \<in> set (accept_events n). ev_eventType ev = EV_Accept \<and> ev_iocpObject ev = Some Listener_obj) \<and>
     (\<forall>k \<in> K. \<exists>r. ae_session (accept_events n ! k) = Some r \<and> waiting r n) \<and>
     inj_on (\<lambda>k. ae_session (accept_events n ! k)) K \<and>
     (\<forall>k. count_list (nt_pending n) (AcceptEvent_of k) = (if k \<in> K then 1 else 0)) \<and>
     (\<forall>k. ConnectEvent_of k \<notin> set (nt_pending n))"

text \<open>\<open>K\<close>: the accept events whose call is in flight. While the server runs, that is all \<open>m\<close> of them.\<close>

definition server_inv :: "nat \<Rightarrow> net \<Rightarrow> bool" where
  "server_inv m n \<longleftrightarrow> accept_inv {..<m} n \<and> session_inv n \<and> length (accept_events n) = m"

section \<open>Preservation by the methods of a session\<close>

lemma accept_events_service: "nt_service n' = nt_service n \<Longrightarrow> accept_events n' = accept_events n"
  by (simp add: accept_events_def)

lemma touch_accept_events: "touch c r n n' \<Longrightarrow> accept_events n' = accept_events n"
  by (rule accept_events_service) (simp add: touch_def)

lemma accept_inv_mono:
  assumes i: "accept_inv K n" and sv: "nt_service n' = nt_service n"
    and w: "\<And>k r. k \<in> K \<Longrightarrow> ae_session (accept_events n ! k) = Some r \<Longrightarrow> waiting r n \<Longrightarrow> waiting r n'"
    and c: "\<And>k. count_list (nt_pending n') (AcceptEvent_of k) = count_list (nt_pending n) (AcceptEvent_of k)"
    and d: "\<And>k. ConnectEvent_of k \<in> set (nt_pending n') \<Longrightarrow> ConnectEvent_of k \<in> set (nt_pending n)"
  shows "accept_inv K n'"
proof -
  have "\<forall>k \<in> K. \<exists>r. ae_session (accept_events n ! k) = Some r \<and> waiting r n'"
    using i w unfolding accept_inv_def by meson
  then show ?thesis
    using i c d unfolding accept_inv_def sv accept_events_service [OF sv] by (elim conjE) (intro conjI, simp_all, blast)
qed

lemma touch_accept_inv:
  assumes t: "touch c r n n'" and i: "accept_inv K n"
  shows "accept_inv K n'"
proof (rule touchE [OF t])
  fix es
  assume a: "nt_service n' = nt_service n" "nt_held n' = nt_held n" "\<And>q. q \<noteq> r \<Longrightarrow> nt_session n' q = nt_session n q"
    "se_connected (nt_session n' r) \<Longrightarrow> se_connected (nt_session n r)" "nt_pending n' = nt_pending n @ es"
    "session_of ` set es \<subseteq> {Some r}" "es \<noteq> [] \<Longrightarrow> se_connected (nt_session n r)"
  have "waiting q n'" if "waiting q n" for q
  proof (cases "q = r")
    case True
    then have "es = []" using that a(7) by (auto simp: waiting_def)
    then show ?thesis using True that a(2,4,5) by (auto simp: waiting_def)
  next
    case False
    then have "Some q \<notin> session_of ` set es" using a(6) by auto
    then show ?thesis using False that a(2,3,5) by (simp add: waiting_def image_Un)
  qed
  moreover have "count_list es (AcceptEvent_of k) = 0" "ConnectEvent_of k \<notin> set es" for k
    using a(6) by (force simp: count_list_0_iff)+
  ultimately show ?thesis
    using a(1,5) by (intro accept_inv_mono [OF i]) auto
qed

section \<open>Preservation by the system and the port\<close>

lemma dequeue_accept_inv:
  assumes "accept_inv K n"
  shows "accept_inv (K - {k. e = AcceptEvent_of k}) (n\<lparr>nt_pending := remove1 e (nt_pending n)\<rparr>)"
proof -
  let ?n' = "n\<lparr>nt_pending := remove1 e (nt_pending n)\<rparr>"
  have "waiting q n \<Longrightarrow> waiting q ?n'" for q
    using set_remove1_subset [of e "nt_pending n"] by (auto simp: waiting_def)
  then have "\<forall>k \<in> K - {k. e = AcceptEvent_of k}. \<exists>r. ae_session (accept_events n ! k) = Some r \<and> waiting r ?n'"
    using assms unfolding accept_inv_def by (meson DiffD1)
  moreover have "inj_on (\<lambda>k. ae_session (accept_events n ! k)) (K - {k. e = AcceptEvent_of k})"
    using assms unfolding accept_inv_def by (meson Diff_subset inj_on_subset)
  moreover have "accept_events ?n' = accept_events n" by (simp add: accept_events_def)
  ultimately show ?thesis
    using assms unfolding accept_inv_def by (elim conjE) (intro conjI, auto dest: notin_set_remove1)
qed

lemma stores_accept_inv:
  assumes "system_stores e bs n = Ok n'" and "accept_inv K n"
  shows "accept_inv K n'"
  using stores_keeps [OF assms(1)] by (intro accept_inv_mono [OF assms(2)]) simp_all

lemma kept_accept_inv:
  assumes "net_kept n n'" and "accept_inv K n"
  shows "accept_inv K n'"
  using assms(1) kept_waiting [OF assms(1)] by (intro accept_inv_mono [OF assms(2)]) (simp_all add: net_kept_def)

text \<open>The end of a session.\<close>

lemma clear_accept_inv:
  assumes c: "Session_clear r n = Ok n'" and a: "accept_inv K n"
  shows "accept_inv K n'" and "accept_events n' = accept_events n"
proof -
  obtain b ss l where impl: "sv_impl (nt_service n) = ServerService b ss (Some l)" "sorted ss" "distinct ss"
    using a by (auto simp: accept_inv_def)
  let ?f = "\<lambda>s. s\<lparr>se_service := False, se_sendQueue := [], se_connected := False, se_socket := INVALID_SOCKET\<rparr>"
  let ?sv = "(nt_service n)\<lparr>sv_impl := ServerService b (remove1 r ss) (Some l)\<rparr>"
  have n': "n' = upd_session r ?f (n\<lparr>nt_service := ?sv\<rparr>)"
    using c by (auto simp: Session_clear_result impl ServerService_ReleaseSession_def split: if_splits)
  show ev: "accept_events n' = accept_events n" by (simp add: n' accept_events_def impl)
  have "waiting q n \<Longrightarrow> waiting q n'" for q by (auto simp: n' waiting_def)
  then have "\<forall>k \<in> K. \<exists>r. ae_session (accept_events n ! k) = Some r \<and> waiting r n'"
    using a unfolding accept_inv_def by meson
  then show "accept_inv K n'"
    using a impl(2,3) unfolding accept_inv_def ev by (elim conjE) (intro conjI, auto simp: n' sorted_remove1)
qed

lemma trace_accept_inv [simp]:
  "accept_inv K (trace x n) \<longleftrightarrow> accept_inv K n" "accept_events (trace x n) = accept_events n"
  by (simp_all add: accept_inv_def accept_events_def waiting_def trace_def)

interpretation serv: service_system "\<lambda>n. accept_inv K n \<and> length (accept_events n) = m" for K m
proof
  fix n n' :: net and c r e bs x
  show "touch c r n n' \<Longrightarrow> accept_inv K n \<and> length (accept_events n) = m \<Longrightarrow> accept_inv K n' \<and> length (accept_events n') = m"
    using touch_accept_inv [of c r n n' K] touch_accept_events [of c r n n'] by simp
  show "net_kept n n' \<Longrightarrow> accept_inv K n \<and> length (accept_events n) = m \<Longrightarrow> accept_inv K n' \<and> length (accept_events n') = m"
    using kept_accept_inv [of n n' K] accept_events_service [of n' n] by (simp add: net_kept_def)
  show "accept_inv K n \<and> length (accept_events n) = m \<Longrightarrow> accept_inv K (trace x n) \<and> length (accept_events (trace x n)) = m"
    by simp
  show "system_stores e bs n = Ok n' \<Longrightarrow> accept_inv K n \<and> length (accept_events n) = m \<Longrightarrow>
      accept_inv K n' \<and> length (accept_events n') = m"
    using stores_accept_inv [of e bs n n' K] stores_keeps(1) [of e bs n n'] accept_events_service [of n' n] by simp
  show "Session_clear r n = Ok n' \<Longrightarrow> accept_inv K n \<and> length (accept_events n) = m \<Longrightarrow>
      accept_inv K n' \<and> length (accept_events n') = m"
    using clear_accept_inv [of r n n' K] by simp
  show "accept_inv K n \<and> length (accept_events n) = m \<Longrightarrow> session_of e = Some r \<Longrightarrow>
      accept_inv K (n\<lparr>nt_pending := remove1 e (nt_pending n)\<rparr>) \<and>
      length (accept_events (n\<lparr>nt_pending := remove1 e (nt_pending n)\<rparr>)) = m"
    using dequeue_accept_inv [of K n e] by (cases e) (simp_all add: accept_events_def)
qed

section \<open>Preservation by accepting\<close>

lemma AddNewSession_server:
  assumes "sv_impl (nt_service n) = ServerService b ss l" and "AddNewSession x n = Ok (Some r, n1)"
  shows "ns_ref x = Some r" and "nt_service n1 = (nt_service n)\<lparr>sv_impl := ServerService b (add_session r ss) l\<rparr>"
    and "nt_pending n1 = nt_pending n" "nt_held n1 = nt_held n" "nt_keep n1 = nt_keep n"
    and "\<And>q. q \<noteq> r \<Longrightarrow> nt_session n1 q = nt_session n q"
    and "typed (nt_session n1 r)" "recv_start (nt_session n1 r)" "\<not> se_connected (nt_session n1 r)"
  using assms
  by (auto simp: AddNewSession_def ServerService_AddNewSession_def call_sessionFactory_def Session_new_def
      register_session_def RegisterHandle_def IOCPCore_RegisterHandle_def typed_def recv_start_def RecvBuffer_new_def
      split: if_splits option.splits prod.splits)

text \<open>One accept event gets a new session; its call is in flight afterwards or not.\<close>

lemma accept_inv_update:
  assumes i: "accept_inv K n" and k: "k < length (accept_events n)" "k \<notin> K"
    and sv: "nt_service n' = (nt_service n)\<lparr>sv_impl := ServerService b ss (Some l)\<rparr>" "sorted ss" "distinct ss"
    and l: "ls_acceptEvents l = (accept_events n)[k := ev]" "ev_eventType ev = EV_Accept" "ev_iocpObject ev = Some Listener_obj"
    and r: "ae_session ev = Some r" "waiting r n'" "Some r \<notin> ae_session ` set (accept_events n)"
    and w: "\<And>q. q \<noteq> r \<Longrightarrow> waiting q n \<Longrightarrow> waiting q n'"
    and pend: "nt_pending n' = nt_pending n @ (if ok then [AcceptEvent_of k] else [])"
  shows "accept_inv (if ok then insert k K else K) n'"
proof -
  let ?K = "if ok then insert k K else K"
  have ev: "accept_events n' = (accept_events n)[k := ev]" by (simp add: accept_events_def sv l)
  have old: "j < length (accept_events n)" "\<exists>q. ae_session (accept_events n ! j) = Some q \<and> waiting q n" if "j \<in> K" for j
    using i that by (auto simp: accept_inv_def)
  have inK: "\<exists>q. ae_session (accept_events n' ! j) = Some q \<and> waiting q n' \<and> q \<noteq> r" if j: "j \<in> K" for j
  proof -
    obtain q where q: "ae_session (accept_events n ! j) = Some q" "waiting q n" using old(2) [OF j] by blast
    then have "q \<noteq> r" using r(3) old(1) [OF j] by (metis image_eqI nth_mem)
    moreover have "j \<noteq> k" using j k(2) by auto
    ultimately show ?thesis using q w [of q] ev by simp
  qed
  have at_k: "ae_session (accept_events n' ! k) = Some r" using ev k(1) r(1) by simp
  have "accept_events n' ! j = accept_events n ! j" if "j \<in> K" for j
    using that k(2) ev by (cases "j = k") auto
  moreover have "inj_on (\<lambda>j. ae_session (accept_events n ! j)) K" using i by (simp add: accept_inv_def)
  ultimately have "inj_on (\<lambda>j. ae_session (accept_events n' ! j)) K"
    by (simp add: inj_on_def)
  then have "inj_on (\<lambda>j. ae_session (accept_events n' ! j)) ?K"
    using at_k inK k(2) by (auto simp: inj_on_insert) (metis option.inject)
  moreover have "\<forall>j \<in> ?K. \<exists>q. ae_session (accept_events n' ! j) = Some q \<and> waiting q n'"
    using inK at_k r(2) by auto
  moreover have "\<forall>e \<in> set (accept_events n'). ev_eventType e = EV_Accept \<and> ev_iocpObject e = Some Listener_obj"
    using i l(2,3) set_update_subset_insert [of "accept_events n" k ev] unfolding ev by (auto simp: accept_inv_def)
  moreover have "?K \<subseteq> {..<length (accept_events n')}"
    using old(1) k(1) ev by auto
  moreover have "count_list (nt_pending n') (AcceptEvent_of j) = (if j \<in> ?K then 1 else 0)" for j
    using i k(2) by (auto simp: pend accept_inv_def)
  moreover have "ConnectEvent_of j \<notin> set (nt_pending n')" for j
    using i by (auto simp: pend accept_inv_def split: if_splits)
  ultimately show ?thesis
    using i sv unfolding accept_inv_def by auto
qed

lemma register_attempt_inv:
  assumes a: "accept_inv K n" and i: "session_inv n" and k: "k < length (accept_events n)" "k \<notin> K"
    and fresh: "fresh_attempts (x # xs) n" and add: "AddNewSession (ai_session x) n = Ok (Some r, n1)"
    and l: "get_listener (sv_impl (nt_service n1)) = Some l"
    and n': "n' = post (AcceptEvent_of k) c ok
       ((set_impl (put_listener (set_accept_event k (Some r) l) (sv_impl (nt_service n1))) n1)\<lparr>nt_err := e\<rparr>)"
  shows "accept_inv (if ok then insert k K else K) n'" and "session_inv n'"
    and "length (accept_events n') = length (accept_events n)" and "fresh_attempts xs n'" and "nt_keep n' = nt_keep n"
proof -
  obtain b ss l0 where impl: "sv_impl (nt_service n) = ServerService b ss (Some l0)" and ss: "sorted ss" "distinct ss"
    using a by (auto simp: accept_inv_def)
  note new = AddNewSession_server [OF impl add]
  have l0: "l = l0" using l by (simp add: new(2))
  have evs: "accept_events n = ls_acceptEvents l" by (simp add: accept_events_def impl l0)
  have r: "unused r n" "r \<notin> set (new_refs xs)" "distinct (new_refs xs)" "\<forall>q \<in> set (new_refs xs). unused q n"
    using fresh new(1) by (simp_all add: fresh_attempts_def new_refs_def)
  have dead: "r \<notin> set ss" "r \<notin> set (nt_held n)" "Some r \<notin> ae_session ` set (accept_events n)"
    using r(1) by (auto simp: unused_def session_alive_def impl evs l0 image_iff)
  have sv: "nt_service n' = (nt_service n)\<lparr>sv_impl := ServerService b (insort r ss) (Some (set_accept_event k (Some r) l))\<rparr>"
    using dead(1) by (simp add: n' post_def trace_def new(2) l0)
  have pend: "nt_pending n' = nt_pending n @ (if ok then [AcceptEvent_of k] else [])"
    and held: "nt_held n' = nt_held n" "nt_keep n' = nt_keep n" and sess: "nt_session n' = nt_session n1"
    by (simp_all add: n' post_def trace_def new(3-5))
  have events: "ls_acceptEvents (set_accept_event k (Some r) l) =
      (accept_events n)[k := clear_accept_event (Some r) (accept_events n ! k)]"
    by (simp add: set_accept_event_def evs)
  have "accept_events n ! k \<in> set (accept_events n)" using k(1) by simp
  then have old: "ev_eventType (accept_events n ! k) = EV_Accept" "ev_iocpObject (accept_events n ! k) = Some Listener_obj"
    using a by (auto simp: accept_inv_def)
  have pend': "Some q \<in> session_of ` set (nt_pending n') \<longleftrightarrow> Some q \<in> session_of ` set (nt_pending n)" for q
    by (auto simp: pend)
  have "waiting r n'"
    using r(1) dead(2) new(9) unfolding waiting_def held sess pend' unused_def by blast
  moreover have "waiting q n'" if "q \<noteq> r" "waiting q n" for q
    using that new(6) unfolding waiting_def held sess pend' by simp
  ultimately show "accept_inv (if ok then insert k K else K) n'"
    using accept_inv_update [OF a k sv _ _ events, of r ok] ss dead(3) pend old
    by (simp add: sorted_insort distinct_insort clear_accept_event_def AcceptEvent_SetSessionRef_def dead(1))
  have alive: "session_alive q n \<or> q = r" if "session_alive q n'" for q
    using that set_update_subset_insert [of "accept_events n" k "clear_accept_event (Some r) (accept_events n ! k)"]
    by (auto simp: session_alive_def sv held impl set_insort_key events evs [symmetric] l0 [symmetric]
        clear_accept_event_def AcceptEvent_SetSessionRef_def image_iff)
  then show "session_inv n'"
    using new(6-9) by (intro session_inv_new [OF i r(1) _ _ _ _ _ held(2,1) pend(1)]) (auto simp: sess)
  show "length (accept_events n') = length (accept_events n)" "nt_keep n' = nt_keep n"
    by (simp_all add: accept_events_def sv impl set_accept_event_def l0 held)
  show "fresh_attempts xs n'"
    using r(2-4) alive unfolding fresh_attempts_def unused_def pend' by blast
qed

lemma RegisterAccept_inv:
  assumes "Listener_RegisterAccept k xs n = Some (Ok (ys, n'))" and "accept_inv K n" "session_inv n"
    and "k < length (accept_events n)" "k \<notin> K" "fresh_attempts xs n"
  shows "accept_inv (insert k K) n' \<and> session_inv n' \<and> length (accept_events n') = length (accept_events n) \<and>
    fresh_attempts ys n' \<and> nt_keep n' = nt_keep n"
  using assms
proof (induction xs arbitrary: n)
  case (Cons x xs)
  obtain s n1 where add: "AddNewSession (ai_session x) n = Ok (s, n1)"
    using Cons.prems(1) by (auto split: outcome.splits)
  obtain l where l: "get_listener (sv_impl (nt_service n1)) = Some l"
    using Cons.prems(1) by (auto simp: add split: option.splits)
  obtain r where s: "s = Some r"
    using Cons.prems(1) by (auto simp: add l Let_def split: option.splits)
  obtain pos where pos: "RecvBuffer_WritePos (se_recvBuffer (nt_session n1 r)) = Ok pos"
    using Cons.prems(1) by (auto simp: add l s Let_def split: outcome.splits)
  obtain code e where code: "WSACheckErrorExceptPending (io_res (ai_accept x) \<noteq> 0) (io_error (ai_accept x))
      WSA_ACCEPTEX_FAILED (nt_err n1) = (code, e)" by fastforce
  let ?c = "AcceptEx (ls_listenSocket l) (se_socket (nt_session n1 r))" and ?ok = "code = error_code NONE"
  let ?m = "post (AcceptEvent_of k) ?c ?ok
      ((set_impl (put_listener (set_accept_event k (Some r) l) (sv_impl (nt_service n1))) n1)\<lparr>nt_err := e\<rparr>)"
  have n2: "Listener_RegisterAccept k (x # xs) n = (if ?ok then Some (Ok (xs, ?m)) else Listener_RegisterAccept k xs ?m)"
    by (simp add: add l s pos code Let_def del: error_code.simps)
  note inv = register_attempt_inv [where c = ?c and ok = ?ok and e = e, OF Cons.prems(2-6) add [unfolded s] l refl]
  show ?case
  proof (cases ?ok)
    case True
    then have "ys = xs \<and> n' = ?m" using Cons.prems(1) unfolding n2 by simp
    then show ?thesis using inv True by simp
  next
    case False
    then have "Listener_RegisterAccept k xs ?m = Some (Ok (ys, n'))" using Cons.prems(1) unfolding n2 by simp
    from Cons.IH [OF this] inv False Cons.prems(4,5) show ?thesis by simp
  qed
qed simp

lemma set_connected_inv:
  assumes c: "Session_set_connected r INVALID_SOCKET io n = Ok n'" and a: "accept_inv K n" and i: "session_inv n"
    and r: "waiting r n" "session_alive r n" "\<And>k. k \<in> K \<Longrightarrow> ae_session (accept_events n ! k) \<noteq> Some r"
  shows "accept_inv K n'" and "session_inv n'" and "accept_events n' = accept_events n"
    and "unused q n \<Longrightarrow> unused q n'"
proof -
  obtain m where m: "joined r n m" "touch 1 r m n'" using set_connected_joined [OF c] by blast
  have "accept_inv K m"
    using m(1) r(3) joined_waiting [OF m(1) touch_refl]
    by (intro accept_inv_mono [OF a]) (auto simp: joined_def)
  then show "accept_inv K n'" by (rule touch_accept_inv [OF m(2)])
  show "session_inv n'" by (rule set_connected_session_inv [OF c i r(1,2)])
  show "accept_events n' = accept_events n"
    using touch_accept_events [OF m(2)] accept_events_service [of m n] m(1) by (simp add: joined_def)
  show "unused q n \<Longrightarrow> unused q n'" by (rule joined_unused [OF m r(2)])
qed

lemma err_inv [simp]:
  "accept_inv K (n\<lparr>nt_err := e\<rparr>) \<longleftrightarrow> accept_inv K n" "session_inv (n\<lparr>nt_err := e\<rparr>) \<longleftrightarrow> session_inv n"
  "accept_events (n\<lparr>nt_err := e\<rparr>) = accept_events n" "fresh_attempts xs (n\<lparr>nt_err := e\<rparr>) \<longleftrightarrow> fresh_attempts xs n"
  "waiting r (n\<lparr>nt_err := e\<rparr>) \<longleftrightarrow> waiting r n" "session_alive r (n\<lparr>nt_err := e\<rparr>) \<longleftrightarrow> session_alive r n"
proof -
  have k: "net_kept n (n\<lparr>nt_err := e\<rparr>)" "net_kept (n\<lparr>nt_err := e\<rparr>) n" by (simp_all add: net_kept_def)
  show "accept_inv K (n\<lparr>nt_err := e\<rparr>) \<longleftrightarrow> accept_inv K n" using kept_accept_inv k by blast
  show "session_inv (n\<lparr>nt_err := e\<rparr>) \<longleftrightarrow> session_inv n" using kept_session_inv k by blast
qed (simp_all add: accept_events_def fresh_attempts_def unused_def waiting_def session_alive_def)

lemma ProcessAccept_inv:
  assumes p: "Listener_ProcessAccept k upd peer io xs n = Some (Ok (ys, n'))" and a: "accept_inv K n" and i: "session_inv n"
    and k: "k < length (accept_events n)" "k \<notin> K" and fresh: "fresh_attempts xs n"
    and r: "ae_session (accept_events n ! k) = Some r" "waiting r n"
      "\<And>j. j \<in> K \<Longrightarrow> ae_session (accept_events n ! j) \<noteq> Some r"
  shows "accept_inv (insert k K) n' \<and> session_inv n' \<and> length (accept_events n') = length (accept_events n)"
proof -
  obtain b ss l where impl: "sv_impl (nt_service n) = ServerService b ss (Some l)"
    using a by (auto simp: accept_inv_def)
  then have evs: "accept_events n = ls_acceptEvents l" by (simp add: accept_events_def)
  have alive: "session_alive r n"
    using r(1) k(1) by (auto simp: session_alive_def impl evs image_iff) (metis nth_mem)
  consider e where "Listener_RegisterAccept k xs (n\<lparr>nt_err := e\<rparr>) = Some (Ok (ys, n'))"
    | e n1 where "Session_set_connected r INVALID_SOCKET io (n\<lparr>nt_err := e\<rparr>) = Ok n1"
      "Listener_RegisterAccept k xs n1 = Some (Ok (ys, n'))"
    using p r(1) k(1) unfolding evs
    by (auto simp: Listener_ProcessAccept_def impl AcceptEvent_GetSessionRef_def
        simp del: Listener_RegisterAccept.simps split: outcome.splits prod.splits if_splits)
  then show ?thesis
  proof cases
    case 1
    from RegisterAccept_inv [OF this, of K] a i k fresh show ?thesis by simp
  next
    case 2
    note c = set_connected_inv [OF 2(1), of K]
    have "fresh_attempts xs n1"
      using fresh c(4) a i r alive by (auto simp: fresh_attempts_def) (simp_all add: unused_def)
    with RegisterAccept_inv [OF 2(2), of K] c(1-3) a i k r alive show ?thesis by simp
  qed
qed

section \<open>Preservation by the dispatch of completions\<close>

lemma accept_completion_inv:
  assumes e: "AcceptEvent_of k \<in> set (nt_pending n)" and s: "server_inv m n" and fresh: "fresh_attempts xs n"
    and d: "Listener_Dispatch EV_Accept k upd peer io xs
              (n\<lparr>nt_pending := remove1 (AcceptEvent_of k) (nt_pending n)\<rparr>) = Some (Ok n')"
  shows "server_inv m n'"
proof -
  let ?n0 = "n\<lparr>nt_pending := remove1 (AcceptEvent_of k) (nt_pending n)\<rparr>" and ?K = "{..<m}"
  have a: "accept_inv ?K n" and i: "session_inv n" and m: "length (accept_events n) = m" using s by (simp_all add: server_inv_def)
  have "count_list (nt_pending n) (AcceptEvent_of k) \<noteq> 0" using e by (simp add: count_list_0_iff)
  then have k: "k < length (accept_events n)" using a by (auto simp: accept_inv_def split: if_splits)
  moreover have "\<forall>j \<in> ?K. \<exists>r. ae_session (accept_events n ! j) = Some r \<and> waiting r n"
    using a by (simp add: accept_inv_def)
  ultimately obtain r where r: "ae_session (accept_events n ! k) = Some r" "waiting r n" using m by blast
  have ev: "accept_events ?n0 = accept_events n" by (simp add: accept_events_def)
  have "j = k" if "j \<in> ?K" "ae_session (accept_events n ! j) = Some r" for j
  proof -
    have "inj_on (\<lambda>k. ae_session (accept_events n ! k)) ?K" using a by (simp add: accept_inv_def)
    then show ?thesis using that r(1) k m unfolding inj_on_def by simp
  qed
  then have other: "\<And>j. j \<in> ?K - {k} \<Longrightarrow> ae_session (accept_events ?n0 ! j) \<noteq> Some r" unfolding ev by blast
  have a0: "accept_inv (?K - {k}) ?n0" using dequeue_accept_inv [OF a, of "AcceptEvent_of k"] by simp
  have sub: "set (remove1 (AcceptEvent_of k) (nt_pending n)) \<subseteq> set (nt_pending n)" by (rule set_remove1_subset)
  have w: "waiting r ?n0" using r(2) sub by (auto simp: waiting_def)
  have f: "fresh_attempts xs ?n0" using fresh sub by (auto simp: fresh_attempts_def unused_def session_alive_def)
  obtain ys where "Listener_ProcessAccept k upd peer io xs ?n0 = Some (Ok (ys, n'))"
    using d by (auto simp: Listener_Dispatch_def split: option.splits outcome.splits)
  from ProcessAccept_inv [OF this a0 dequeue_session_inv [OF i] _ _ f _ w other] k r(1)
  have "accept_inv (insert k (?K - {k})) n' \<and> session_inv n' \<and> length (accept_events n') = length (accept_events n)"
    unfolding ev by blast
  moreover have "insert k (?K - {k}) = ?K" using k m by auto
  ultimately show ?thesis using m by (simp add: server_inv_def)
qed

lemma process_completion_inv:
  assumes e: "cp_overlapped c \<in> set (nt_pending n)" and s: "server_inv m n" and fresh: "fresh_attempts (cp_accepts c) n"
    and p: "process_completion onRecv c n = Some (Ok n')"
  shows "server_inv m n'"
proof -
  let ?e = "cp_overlapped c"
  let ?n0 = "n\<lparr>nt_pending := remove1 ?e (nt_pending n)\<rparr>" and ?K = "{..<m}"
  have a: "accept_inv ?K n" and i: "session_inv n" and m: "length (accept_events n) = m" using s by (simp_all add: server_inv_def)
  show ?thesis
  proof (cases "session_of ?e")
    case (Some r)
    show ?thesis using serv.process_both [OF e Some _ i p, of ?K m] a m by (simp add: server_inv_def)
  next
    case None
    then obtain k where k: "?e = AcceptEvent_of k"
      using e a by (cases ?e) (auto simp: accept_inv_def)
    have "count_list (nt_pending n) (AcceptEvent_of k) \<noteq> 0" using e k by (simp add: count_list_0_iff)
    then have len: "k < length (accept_events n)" using a by (auto simp: accept_inv_def split: if_splits)
    obtain b ss li where li: "sv_impl (nt_service n) = ServerService b ss (Some li)" using a by (auto simp: accept_inv_def)
    have "accept_events n ! k \<in> set (accept_events n)" using len by simp
    then have "ev_eventType (accept_events n ! k) = EV_Accept" "ev_iocpObject (accept_events n ! k) = Some Listener_obj"
      using a by (auto simp: accept_inv_def)
    then have "process_completion onRecv c n = Listener_Dispatch EV_Accept k (cp_update c) (cp_peer c) (cp_io c) (cp_accepts c) ?n0"
      using len li
      by (simp add: process_completion_def IOCPObject_Dispatch_def k accept_events_def dropped_def iocp_event.defs
          split: option.split outcome.split)
    then show ?thesis
      using p k accept_completion_inv [OF e [unfolded k] s fresh] by simp
  qed
qed

lemma server_inv_step:
  assumes "server_inv m n" and "server_step onRecv n n'"
  shows "server_inv m n'"
  using assms(2)
proof cases
  case (step_completion c bs n1)
  note keep = stores_keeps [OF step_completion(3)]
  have "server_inv m n1"
    using serv.stores_both [OF step_completion(3), of "{..<m}" m] assms(1) by (simp add: server_inv_def)
  moreover have "fresh_attempts (cp_accepts c) n1"
    using step_completion(2) keep(1-3) by (simp add: fresh_attempts_def unused_def session_alive_def)
  moreover have "cp_overlapped c \<in> set (nt_pending n1)" using step_completion(1) keep(3) by simp
  ultimately show ?thesis by (rule process_completion_inv [OF _ _ _ step_completion(4), rotated 1])
next
  case (step_send r bufs io)
  then show ?thesis using serv.send_both [of "{..<m}" n m r] assms(1) by (simp add: server_inv_def)
next
  case (step_disconnect r io)
  then show ?thesis using serv.disconnect_both [of "{..<m}" n m r] assms(1) by (simp add: server_inv_def)
qed

interpretation server: invariant_system "server_inv m" "server_step onRecv" "server_inv m" for m onRecv
  by unfold_locales (auto intro: server_inv_step)

end
