(* ===== verification/Server_Runs.thy ===== *)
theory Server_Runs
  imports Server_System
begin

text \<open>
  The life of a \<^verbatim>\<open>ServerService\<close> (\<^verbatim>\<open>Service.cpp\<close>, \<^verbatim>\<open>Listener.cpp\<close>, \<^verbatim>\<open>IOCPCore.cpp\<close> under \<^verbatim>\<open>src/MyNetworkLib/\<close>): what
  \<^verbatim>\<open>Start\<close> sets up, what holds in every state the running server of \<open>Server_System\<close> can reach from there,
  and what is left in flight when it stops.
\<close>

section \<open>Starting\<close>

text \<open>An attempt at which the factory makes a session whose handle is registered, and one that is
  accepted or pending.\<close>

definition attempt_ok :: "accept_io \<Rightarrow> bool" where
  "attempt_ok x \<longleftrightarrow> ns_ref (ai_session x) \<noteq> None \<and> ns_registered (ai_session x)"

definition accepted :: "accept_io \<Rightarrow> bool" where
  "accepted x \<longleftrightarrow> io_res (ai_accept x) \<noteq> 0 \<or> io_error (ai_accept x) \<in> {0, WSA_IO_PENDING}"

definition listening :: "net \<Rightarrow> bool" where
  "listening n \<longleftrightarrow> sv_iocpCore (nt_service n) \<and> sv_sessionFactory (nt_service n) \<and>
     (\<exists>b ss l. sv_impl (nt_service n) = ServerService b ss (Some l))"

lemma RegisterAccept_attempt:
  assumes n: "listening n" and x: "attempt_ok x"
  shows "\<exists>n1. listening n1 \<and> sv_onGoing (nt_service n1) = sv_onGoing (nt_service n) \<and>
    Listener_RegisterAccept k (x # xs) n = (if accepted x then Some (Ok (xs, n1)) else Listener_RegisterAccept k xs n1)"
proof -
  obtain b ss l where sv: "sv_iocpCore (nt_service n)" "sv_sessionFactory (nt_service n)"
    "sv_impl (nt_service n) = ServerService b ss (Some l)"
    using n by (auto simp: listening_def)
  obtain q where q: "ns_ref (ai_session x) = Some q" "ns_registered (ai_session x)"
    using x by (auto simp: attempt_ok_def)
  have "\<exists>n1 s. AddNewSession (ai_session x) n = Ok (Some q, n1) \<and>
      nt_service n1 = (nt_service n)\<lparr>sv_impl := ServerService b (add_session q ss) (Some l)\<rparr> \<and>
      nt_session n1 = (nt_session n)(q := s) \<and> se_recvBuffer s = RecvBuffer_new RECV_BUFFER_SIZE"
    using sv q
    by (auto simp: AddNewSession_def ServerService_AddNewSession_def call_sessionFactory_def Session_new_def
        register_session_def RegisterHandle_result)
  then obtain n1 s where add: "AddNewSession (ai_session x) n = Ok (Some q, n1)"
    "nt_service n1 = (nt_service n)\<lparr>sv_impl := ServerService b (add_session q ss) (Some l)\<rparr>"
    "nt_session n1 = (nt_session n)(q := s)" "se_recvBuffer s = RecvBuffer_new RECV_BUFFER_SIZE"
    by blast
  obtain code e where code: "WSACheckErrorExceptPending (io_res (ai_accept x) \<noteq> 0) (io_error (ai_accept x))
      WSA_ACCEPTEX_FAILED (nt_err n1) = (code, e)" by fastforce
  then have ok: "code = error_code NONE \<longleftrightarrow> accepted x"
    by (auto simp: WSACheckErrorExceptPending_def accepted_def split: if_splits)
  let ?m = "post (AcceptEvent_of k) (AcceptEx (ls_listenSocket l) (se_socket s)) (accepted x)
      ((set_impl (put_listener (set_accept_event k (Some q) l) (sv_impl (nt_service n1))) n1)\<lparr>nt_err := e\<rparr>)"
  have "Listener_RegisterAccept k (x # xs) n =
      (if accepted x then Some (Ok (xs, ?m)) else Listener_RegisterAccept k xs ?m)"
    by (simp add: add code ok RecvBuffer_WritePos_def RecvBuffer_new_def Let_def del: error_code.simps)
  moreover have "listening ?m" "sv_onGoing (nt_service ?m) = sv_onGoing (nt_service n)"
    using sv by (auto simp: listening_def add(2) post_def trace_def)
  ultimately show ?thesis by blast
qed

lemma RegisterAccept_returns:
  assumes "listening n" "\<forall>x \<in> set xs. attempt_ok x" "\<exists>x \<in> set xs. accepted x"
  shows "\<exists>ys n'. Listener_RegisterAccept k xs n = Some (Ok (ys, n')) \<and> listening n' \<and>
    sv_onGoing (nt_service n') = sv_onGoing (nt_service n) \<and> set ys \<subseteq> set xs \<and>
    filter accepted ys = tl (filter accepted xs)"
  using assms
proof (induction xs arbitrary: n)
  case (Cons x xs)
  obtain n1 where n1: "listening n1" "sv_onGoing (nt_service n1) = sv_onGoing (nt_service n)"
    "Listener_RegisterAccept k (x # xs) n = (if accepted x then Some (Ok (xs, n1)) else Listener_RegisterAccept k xs n1)"
    using RegisterAccept_attempt [OF Cons.prems(1), of x k xs] Cons.prems(2) by auto
  show ?case
  proof (cases "accepted x")
    case True
    then show ?thesis using n1 by (auto simp del: Listener_RegisterAccept.simps)
  next
    case False
    with Cons.prems(2,3) Cons.IH [OF n1(1)] n1(2,3) show ?thesis
      by (auto simp del: Listener_RegisterAccept.simps)
  qed
qed simp

abbreviation (input) new_event :: accept_event where
  "new_event \<equiv> IOCPEvent_SetIOCPObjectSPtr (Some Listener_obj) (AcceptEvent_new zeroed)"

abbreviation (input) push_event :: "listener \<Rightarrow> net \<Rightarrow> net" where
  "push_event l n \<equiv> set_impl (put_listener (l\<lparr>ls_acceptEvents := ls_acceptEvents l @ [new_event]\<rparr>) (sv_impl (nt_service n))) n"

lemma StartListen_accepts_returns:
  assumes "listening n" "\<forall>x \<in> set xs. attempt_ok x" "m \<le> length (filter accepted xs)"
  shows "\<exists>ys n'. StartListen_accepts m xs n = Some (Ok (ys, n'))"
  using assms
proof (induction m arbitrary: xs n)
  case (Suc m)
  obtain b ss l where l: "sv_impl (nt_service n) = ServerService b ss (Some l)"
    using Suc.prems(1) by (auto simp: listening_def)
  have "listening (push_event l n)" using Suc.prems(1) by (auto simp: listening_def)
  moreover have "\<exists>x \<in> set xs. accepted x"
  proof -
    have "filter accepted xs \<noteq> []" using Suc.prems(3) by auto
    then show ?thesis by (auto simp: filter_empty_conv)
  qed
  ultimately obtain ys n1 where r: "Listener_RegisterAccept (length (ls_acceptEvents l)) xs (push_event l n) = Some (Ok (ys, n1))"
    "listening n1" "set ys \<subseteq> set xs" "filter accepted ys = tl (filter accepted xs)"
    using RegisterAccept_returns [OF _ Suc.prems(2)] by blast
  have "\<forall>x \<in> set ys. attempt_ok x" "m \<le> length (filter accepted ys)" using r(3,4) Suc.prems(2,3) by auto
  from Suc.IH [OF r(2) this] show ?case using l r(1) by (auto simp: Let_def)
qed simp

text \<open>An attempt without a registered session ends in a null dereference, whether the factory made none or its
  handle was not registered.\<close>

lemma RegisterAccept_bad:
  assumes "listening n" "\<not> attempt_ok x"
  shows "Listener_RegisterAccept k (x # xs) n = Some (Fault NullDereference)"
proof -
  obtain b ss l where sv: "sv_iocpCore (nt_service n)" "sv_sessionFactory (nt_service n)"
    "sv_impl (nt_service n) = ServerService b ss (Some l)"
    using assms(1) by (auto simp: listening_def)
  show ?thesis
  proof (cases "ns_ref (ai_session x)")
    case None
    then show ?thesis
      using sv by (simp add: AddNewSession_def ServerService_AddNewSession_def call_sessionFactory_def register_session_def)
  next
    case (Some q)
    then have "\<not> ns_registered (ai_session x)" using assms(2) by (simp add: attempt_ok_def)
    with Some sv show ?thesis
      by (auto simp: AddNewSession_def ServerService_AddNewSession_def call_sessionFactory_def Session_new_def
          register_session_def RegisterHandle_result split: outcome.splits)
  qed
qed

lemma RegisterAccept_prefix:
  assumes "listening n" "\<forall>y \<in> set ys. attempt_ok y" "\<not> attempt_ok x"
  shows "Listener_RegisterAccept k (ys @ x # zs) n = Some (Fault NullDereference) \<or>
    (\<exists>ys' n'. Listener_RegisterAccept k (ys @ x # zs) n = Some (Ok (ys' @ x # zs, n')) \<and> listening n' \<and>
       set ys' \<subseteq> set ys \<and> Suc (length (filter accepted ys')) = length (filter accepted ys))"
  using assms
proof (induction ys arbitrary: n)
  case Nil
  then show ?case using RegisterAccept_bad by (simp del: Listener_RegisterAccept.simps)
next
  case (Cons y ys)
  obtain n1 where n1: "listening n1"
    "Listener_RegisterAccept k ((y # ys) @ x # zs) n =
      (if accepted y then Some (Ok (ys @ x # zs, n1)) else Listener_RegisterAccept k (ys @ x # zs) n1)"
    using RegisterAccept_attempt [OF Cons.prems(1), of y k "ys @ x # zs"] Cons.prems(2) by auto
  show ?case
  proof (cases "accepted y")
    case True
    with n1 show ?thesis by (intro disjI2 exI [of _ ys] exI [of _ n1]) (simp del: Listener_RegisterAccept.simps, blast)
  next
    case False
    with n1 Cons.IH [OF n1(1)] Cons.prems(2,3) show ?thesis by (auto simp del: Listener_RegisterAccept.simps)
  qed
qed

lemma StartListen_accepts_bad:
  assumes "listening n" "\<forall>y \<in> set ys. attempt_ok y" "\<not> attempt_ok x" "length (filter accepted ys) < m"
  shows "StartListen_accepts m (ys @ x # zs) n = Some (Fault NullDereference)"
  using assms
proof (induction m arbitrary: ys n)
  case (Suc m)
  obtain b ss l where l: "sv_impl (nt_service n) = ServerService b ss (Some l)"
    using Suc.prems(1) by (auto simp: listening_def)
  let ?r = "Listener_RegisterAccept (length (ls_acceptEvents l)) (ys @ x # zs) (push_event l n)"
  have "listening (push_event l n)" using Suc.prems(1) by (auto simp: listening_def)
  from RegisterAccept_prefix [OF this Suc.prems(2,3), of "length (ls_acceptEvents l)" zs] show ?case
  proof (elim disjE exE conjE)
    assume "?r = Some (Fault NullDereference)"
    then show ?thesis using l by (simp add: Let_def del: Listener_RegisterAccept.simps)
  next
    fix ys' n'
    assume r: "?r = Some (Ok (ys' @ x # zs, n'))" "listening n'" "set ys' \<subseteq> set ys"
      "Suc (length (filter accepted ys')) = length (filter accepted ys)"
    have "StartListen_accepts m (ys' @ x # zs) n' = Some (Fault NullDereference)"
      using r Suc.prems(2-4) by (intro Suc.IH) auto
    then show ?thesis using l r(1) by (simp add: Let_def del: Listener_RegisterAccept.simps)
  qed
qed simp

text \<open>Each round of the loop adds an accept event whose call is in flight.\<close>

lemma push_event_inv:
  assumes a: "accept_inv K n" and i: "session_inv n" and l: "get_listener (sv_impl (nt_service n)) = Some l"
  shows "accept_inv K (push_event l n)" and "session_inv (push_event l n)"
    and "accept_events (push_event l n) = accept_events n @ [new_event]"
    and "fresh_attempts xs n \<Longrightarrow> fresh_attempts xs (push_event l n)"
proof -
  obtain b ss where impl: "sv_impl (nt_service n) = ServerService b ss (Some l)" and ss: "sorted ss" "distinct ss"
    using a l by (auto simp: accept_inv_def)
  have evs: "accept_events n = ls_acceptEvents l" by (simp add: accept_events_def l)
  show ev: "accept_events (push_event l n) = accept_events n @ [new_event]" by (simp add: accept_events_def impl)
  have K: "j < length (accept_events n)" if "j \<in> K" for j using a that by (auto simp: accept_inv_def)
  have w: "waiting q (push_event l n) = waiting q n" for q by (simp add: waiting_def)
  have at: "(accept_events n @ [new_event]) ! j = accept_events n ! j" if "j \<in> K" for j
    using K [OF that] by (simp add: nth_append)
  have parts: "\<forall>j \<in> K. \<exists>r. ae_session (accept_events n ! j) = Some r \<and> waiting r n"
    "inj_on (\<lambda>j. ae_session (accept_events n ! j)) K"
    "\<forall>ev \<in> set (accept_events n). ev_eventType ev = EV_Accept \<and> ev_iocpObject ev = Some Listener_obj"
    using a unfolding accept_inv_def by blast+
  have "\<forall>j \<in> K. \<exists>r. ae_session ((accept_events n @ [new_event]) ! j) = Some r \<and> waiting r (push_event l n)"
    using parts(1) at w by simp
  moreover have "inj_on (\<lambda>j. ae_session ((accept_events n @ [new_event]) ! j)) K"
    using parts(2) at by (simp add: inj_on_def)
  moreover have "K \<subseteq> {..<length (accept_events n @ [new_event])}" using K by fastforce
  moreover have "\<forall>ev \<in> set (accept_events n @ [new_event]). ev_eventType ev = EV_Accept \<and> ev_iocpObject ev = Some Listener_obj"
    using parts(3) by simp
  ultimately show "accept_inv K (push_event l n)"
    using a ss unfolding accept_inv_def ev by (elim conjE) (intro conjI, simp_all add: impl)
  have alive: "session_alive q (push_event l n) = session_alive q n" for q
    by (simp add: session_alive_def impl)
  moreover have "armed e (push_event l n) = armed e n" for e by (rule armed_frame) simp_all
  ultimately show "session_inv (push_event l n)" using i by (simp add: session_inv_def)
  show "fresh_attempts xs n \<Longrightarrow> fresh_attempts xs (push_event l n)"
    by (simp add: fresh_attempts_def unused_def alive)
qed

lemma StartListen_accepts_inv:
  assumes "StartListen_accepts m xs n = Some (Ok (ys, n'))" "server_inv j n" "fresh_attempts xs n"
  shows "server_inv (j + m) n' \<and> nt_keep n' = nt_keep n"
  using assms
proof (induction m arbitrary: xs n j)
  case (Suc m)
  obtain l where l: "get_listener (sv_impl (nt_service n)) = Some l"
    using Suc.prems(1) by (auto split: option.splits)
  have inv: "accept_inv {..<j} n" "session_inv n" and len: "length (accept_events n) = j" "length (ls_acceptEvents l) = j"
    using Suc.prems(2) l by (simp_all add: server_inv_def accept_events_def)
  note p = push_event_inv [OF inv l]
  obtain zs n1 where r: "Listener_RegisterAccept j xs (push_event l n) = Some (Ok (zs, n1))"
    "StartListen_accepts m zs n1 = Some (Ok (ys, n'))"
    using Suc.prems(1) l len(2) by (auto simp: Let_def split: option.splits outcome.splits)
  have "j < length (accept_events (push_event l n))" unfolding p(3) using len(1) by simp
  from RegisterAccept_inv [OF r(1) p(1,2) this _ p(4) [OF Suc.prems(3)]]
  have n1: "accept_inv (insert j {..<j}) n1" "session_inv n1" "fresh_attempts zs n1" "nt_keep n1 = nt_keep n"
    "length (accept_events n1) = length (accept_events (push_event l n))"
    by auto
  have "length (accept_events n1) = Suc j" using n1(5) unfolding p(3) using len(1) by simp
  then have "server_inv (Suc j) n1" using n1(1,2) by (simp add: server_inv_def lessThan_Suc)
  from Suc.IH [OF r(2) this n1(3)] n1(4) show ?case by simp
qed simp

text \<open>A server service as its constructor leaves it, ready to start, and the answers of the socket calls
  under which it listens.\<close>

definition server_created :: "net \<Rightarrow> bool" where
  "server_created n \<longleftrightarrow> (\<exists>b. sv_impl (nt_service n) = ServerService b [] None) \<and> sv_serviceType (nt_service n) = ST_Server \<and>
     start_failure n = NONE \<and> nt_pending n = [] \<and> nt_held n = []"

definition listen_ok :: "listen_io \<Rightarrow> bool" where
  "listen_ok io \<longleftrightarrow> li_registered io \<and> li_linger io \<noteq> SOCKET_ERROR \<and> li_reuse io \<noteq> SOCKET_ERROR \<and>
     li_bind io \<noteq> SOCKET_ERROR \<and> li_listen io \<noteq> SOCKET_ERROR"

lemma StartListen_socket_result:
  "sv_iocpCore (nt_service n) \<Longrightarrow> \<exists>e. StartListen_socket io n = Ok (listen_ok io, n\<lparr>nt_err := e\<rparr>)"
  by (auto simp: StartListen_socket_def RegisterHandle_result listen_ok_def socket_check_results split: if_splits)
     (rule exI [of _ "nt_err n"], simp)

lemma server_created_flags:
  assumes "server_created n"
  shows "sv_iocpCore (nt_service n)" "sv_sessionFactory (nt_service n)" "\<not> sv_onGoing (nt_service n)"
  using assms by (auto simp: server_created_def start_failure_def Let_def split: if_splits)

text \<open>The state in which the loop of \<^verbatim>\<open>StartListen\<close> begins.\<close>

lemma ServerService_Start_unfold:
  assumes "server_created n"
  shows "\<exists>m. listening m \<and> server_inv 0 m \<and> \<not> sv_onGoing (nt_service m) \<and> nt_keep m = nt_keep n \<and>
    (\<forall>xs. fresh_attempts xs n \<longrightarrow> fresh_attempts xs m) \<and>
    (\<forall>xs. ServerService_Start io xs n =
       (if listen_ok io
        then (case StartListen_accepts MAX_ACCEPT_COUNT xs m of
                None \<Rightarrow> None
              | Some (Fault f) \<Rightarrow> Some (Fault f)
              | Some (Ok (_, n2)) \<Rightarrow> Some (Ok (finish_start APP_SERVERSERVICE_LISTEN_FAILED True n2)))
        else Some (Ok (finish_start APP_SERVERSERVICE_LISTEN_FAILED False m))))"
proof -
  note flags = server_created_flags [OF assms]
  obtain b where c: "sv_impl (nt_service n) = ServerService b [] None" "sv_serviceType (nt_service n) = ST_Server"
    "start_failure n = NONE" "nt_pending n = []" "nt_held n = []"
    using assms by (auto simp: server_created_def)
  obtain l e where l: "Listener_new (li_socket io) n = Ok (l, n\<lparr>nt_err := e\<rparr>)" "ls_acceptEvents l = []"
    using c(2) by (simp add: Listener_new_def AssertCrash_if_def)
  let ?n1 = "set_impl (ServerService b [] (Some l)) (n\<lparr>nt_err := e\<rparr>)"
  obtain e2 where e2: "StartListen_socket io ?n1 = Ok (listen_ok io, ?n1\<lparr>nt_err := e2\<rparr>)"
    using StartListen_socket_result [of ?n1 io] flags(1) by auto
  let ?m = "?n1\<lparr>nt_err := e2\<rparr>"
  have "session_alive r ?m = False" "session_alive r n = False" for r by (simp_all add: session_alive_def c l(2))
  then have "server_inv 0 ?m" "\<forall>xs. fresh_attempts xs n \<longrightarrow> fresh_attempts xs ?m"
    using flags c
    by (simp_all add: server_inv_def accept_inv_def session_inv_def accept_events_def l(2) fresh_attempts_def unused_def)
  moreover have "listening ?m" using flags by (simp add: listening_def)
  moreover have "ServerService_Start io xs n =
      (if listen_ok io
        then (case StartListen_accepts MAX_ACCEPT_COUNT xs ?m of
                None \<Rightarrow> None
              | Some (Fault f) \<Rightarrow> Some (Fault f)
              | Some (Ok (_, n2)) \<Rightarrow> Some (Ok (finish_start APP_SERVERSERVICE_LISTEN_FAILED True n2)))
        else Some (Ok (finish_start APP_SERVERSERVICE_LISTEN_FAILED False ?m)))" for xs
  proof -
    have "Start_checks n = (True, n)" by (simp add: Start_checks_result c(3))
    moreover have "put_listener l (sv_impl (nt_service n)) = ServerService b [] (Some l)" by (simp add: c(1))
    ultimately show ?thesis
      using l(1) e2 c(1)
      by (simp add: ServerService_Start_def Listener_StartListen_def del: StartListen_accepts.simps
          split: option.split outcome.split prod.split)
  qed
  ultimately show ?thesis using flags(3) by (intro exI [of _ ?m]) simp
qed

lemma finish_start_inv: "server_inv m n \<Longrightarrow> server_inv m (snd (finish_start e True n))"
proof -
  have k: "accept_events (upd_service (sv_onGoing_update (\<lambda>_. True)) n) = accept_events n"
    "session_alive r (upd_service (sv_onGoing_update (\<lambda>_. True)) n) = session_alive r n"
    "armed d (upd_service (sv_onGoing_update (\<lambda>_. True)) n) = armed d n"
    "waiting r (upd_service (sv_onGoing_update (\<lambda>_. True)) n) = waiting r n" for r d
    by (simp_all add: accept_events_def session_alive_def waiting_def) (rule armed_frame, simp_all)
  show "server_inv m n \<Longrightarrow> server_inv m (snd (finish_start e True n))"
    by (simp add: finish_start_result server_inv_def accept_inv_def session_inv_def k)
qed

lemma ServerService_Start_inv:
  assumes "server_created n" "fresh_attempts xs n" "ServerService_Start io xs n = Some (Ok (True, n'))"
  shows "server_inv 100 n'" and "nt_keep n' = nt_keep n"
proof -
  obtain m where m: "server_inv 0 m" "fresh_attempts xs m" "nt_keep m = nt_keep n"
    "ServerService_Start io xs n =
       (if listen_ok io
        then (case StartListen_accepts MAX_ACCEPT_COUNT xs m of
                None \<Rightarrow> None
              | Some (Fault f) \<Rightarrow> Some (Fault f)
              | Some (Ok (_, n2)) \<Rightarrow> Some (Ok (finish_start APP_SERVERSERVICE_LISTEN_FAILED True n2)))
        else Some (Ok (finish_start APP_SERVERSERVICE_LISTEN_FAILED False m)))"
    using ServerService_Start_unfold [OF assms(1), of io] assms(2) by blast
  from assms(3) obtain ys n2 where n2: "StartListen_accepts MAX_ACCEPT_COUNT xs m = Some (Ok (ys, n2))"
    "n' = snd (finish_start APP_SERVERSERVICE_LISTEN_FAILED True n2)"
    unfolding m(4)
    by (auto simp: finish_start_result simp del: StartListen_accepts.simps split: if_splits option.splits outcome.splits)
  note inv = StartListen_accepts_inv [OF n2(1) m(1,2)]
  then show "server_inv 100 n'" using finish_start_inv by (simp add: n2(2))
  show "nt_keep n' = nt_keep n" using inv m(3) by (simp add: n2(2) finish_start_result)
qed

definition server_started :: "net \<Rightarrow> bool" where
  "server_started n \<longleftrightarrow> (\<exists>n0 io xs. server_created n0 \<and> fresh_attempts xs n0 \<and> ServerService_Start io xs n0 = Some (Ok (True, n)))"

interpretation run: invariant_system server_started "server_step onRecv" "server_inv 100" for onRecv
  by unfold_locales (auto simp: server_started_def intro: ServerService_Start_inv(1) server_inv_step)

section \<open>Stopping\<close>

text \<open>\<^verbatim>\<open>ReleaseAllSessions\<close> posts calls and touches sessions one after the other.\<close>

lemma ReleaseAllSessions_keeps:
  "nt_service (ServerService_ReleaseAllSessions ss io n) = nt_service n \<and>
   nt_held (ServerService_ReleaseAllSessions ss io n) = nt_held n \<and>
   (\<exists>es. nt_pending (ServerService_ReleaseAllSessions ss io n) = nt_pending n @ es)"
proof (induction ss arbitrary: n)
  case (Cons r ss)
  let ?n1 = "if se_connected (nt_session n r) then Session_disconnect r (io r) n else n"
  have "touch 0 r n ?n1" by (simp add: touch_disconnect)
  then obtain es where "nt_service ?n1 = nt_service n" "nt_held ?n1 = nt_held n" "nt_pending ?n1 = nt_pending n @ es"
    by (auto simp: touch_def)
  with Cons.IH [of ?n1] show ?case
    by (auto simp: ServerService_ReleaseAllSessions_def simp del: nt_service_disconnect)
qed (simp add: ServerService_ReleaseAllSessions_def)

lemma Service_Stop_server:
  assumes "sv_impl (nt_service n) = ServerService b ss (Some l)" "Service_Stop listenRes closeRes io n = Ok (ok, n')"
  shows "sv_impl (nt_service n') = ServerService b [] None" "nt_held n' = nt_held n"
    "set (nt_pending n) \<subseteq> set (nt_pending n')"
proof -
  let ?evs = "List.map_filter ae_session (ls_acceptEvents l)"
  let ?stop = "\<lambda>e. set_impl (ServerService b ss None) ((upd_service (sv_onGoing_update (\<lambda>_. False)) n)\<lparr>nt_err := e\<rparr>)"
  obtain e n4 where n4: "reap ?evs closeRes (?stop e) = Ok n4"
    and n6: "reap ss closeRes (set_impl (ServerService b [] None) (ServerService_ReleaseAllSessions ss io n4)) = Ok n'"
    using assms by (auto simp: Service_Stop_def ServerService_Stop_def Listener_destroy_def Let_def simp del: reap.simps)
  note k = reap_kept [OF n4] reap_kept [OF n6]
  show "sv_impl (nt_service n') = ServerService b [] None" using k(2) by (simp add: net_kept_def)
  show "nt_held n' = nt_held n" "set (nt_pending n) \<subseteq> set (nt_pending n')"
    using k ReleaseAllSessions_keeps [of ss io n4] by (auto simp: net_kept_def)
qed

lemma Service_Stop_returns:
  assumes "sv_impl (nt_service n) = ServerService b ss (Some l)"
  shows "\<exists>n'. Service_Stop listenRes closeRes io n = Ok (True, n')"
proof -
  let ?evs = "List.map_filter ae_session (ls_acceptEvents l)"
  let ?stop = "\<lambda>e. set_impl (ServerService b ss None) ((upd_service (sv_onGoing_update (\<lambda>_. False)) n)\<lparr>nt_err := e\<rparr>)"
  obtain e where e: "Listener_destroy listenRes l (upd_service (sv_onGoing_update (\<lambda>_. False)) n) =
      Ok (\<lparr>ls_listenSocket = INVALID_SOCKET, ls_acceptEvents = []\<rparr>, (upd_service (sv_onGoing_update (\<lambda>_. False)) n)\<lparr>nt_err := e\<rparr>)"
    by (simp add: Listener_destroy_def)
  obtain n4 where n4: "reap ?evs closeRes (?stop e) = Ok n4" using reap_returns by blast
  obtain n6 where "reap ss closeRes (set_impl (ServerService b [] None) (ServerService_ReleaseAllSessions ss io n4)) = Ok n6"
    using reap_returns by blast
  with e n4 assms show ?thesis by (simp add: Service_Stop_def ServerService_Stop_def Let_def)
qed

section \<open>Properties of a running server\<close>

text \<open>A server as created by the application, and a hundred attempts that all go well.\<close>

definition demo_server :: net where
  "demo_server = demo_net\<lparr>nt_service := ServerService_new True (AddrUtils_GetMyAddress 8080) True 100 100,
     nt_pending := [], nt_keep := True\<rparr>"

definition demo_attempts :: "accept_io list" where
  "demo_attempts = map (\<lambda>i. \<lparr>ai_session = \<lparr>ns_ref = Some i, ns_socket = of_nat (i + 10), ns_registered = True, ns_close = 0\<rparr>,
     ai_accept = \<lparr>io_res = 1, io_error = 0\<rparr>\<rparr>) [0..<100]"

abbreviation (input) demo_listen :: listen_io where
  "demo_listen \<equiv> \<lparr>li_socket = 4, li_registered = True, li_linger = 0, li_reuse = 0, li_bind = 0, li_listen = 0\<rparr>"

lemma demo_server_created: "server_created demo_server"
  by (simp add: server_created_def demo_server_def demo_net_def ServerService_new_def Service_new_def start_failure_def Let_def)

lemma demo_attempts_ok:
  "\<forall>x \<in> set demo_attempts. attempt_ok x" "length (filter accepted demo_attempts) = 100" "fresh_attempts demo_attempts demo_server"
proof -
  have "filter accepted demo_attempts = demo_attempts"
    by (rule filter_True) (auto simp: demo_attempts_def accepted_def)
  then show "length (filter accepted demo_attempts) = 100" by (simp add: demo_attempts_def)
  have "new_refs demo_attempts = [0..<100]"
    by (simp add: new_refs_def demo_attempts_def List.map_filter_def comp_def)
  then show "fresh_attempts demo_attempts demo_server"
    by (simp add: fresh_attempts_def unused_def session_alive_def demo_server_def demo_net_def ServerService_new_def Service_new_def)
qed (simp add: demo_attempts_def attempt_ok_def)

text \<open>C27. \<^verbatim>\<open>ServerService::Start\<close> on a service that meets its conditions. When a socket call before the accepts
  fails, it answers false with the last error \<^verbatim>\<open>APP_SERVERSERVICE_LISTEN_FAILED\<close> and the service is not
  running. Otherwise it goes through the attempts to accept. When every attempt gets a registered session and a
  hundred of them are accepted or pending, however many others fail at \<^verbatim>\<open>AcceptEx\<close> in between, it returns true
  and the service is running. When an attempt gets no session, or one whose handle could not be registered,
  before a hundred are accepted or pending, it dereferences a null pointer.\<close>

theorem ServerService_Start_result:
  assumes "server_created n"
  shows "(\<not> listen_ok io \<longrightarrow> (\<exists>n'. ServerService_Start io xs n = Some (Ok (False, n')) \<and> \<not> sv_onGoing (nt_service n') \<and>
      GetLastError (nt_err n') = error_code APP_SERVERSERVICE_LISTEN_FAILED)) \<and>
    (listen_ok io \<and> (\<forall>x \<in> set xs. attempt_ok x) \<and> 100 \<le> length (filter accepted xs) \<longrightarrow>
      (\<exists>n'. ServerService_Start io xs n = Some (Ok (True, n')) \<and> sv_onGoing (nt_service n'))) \<and>
    (\<forall>ys x zs. listen_ok io \<and> xs = ys @ x # zs \<and> (\<forall>y \<in> set ys. attempt_ok y) \<and> \<not> attempt_ok x \<and>
      length (filter accepted ys) < 100 \<longrightarrow> ServerService_Start io xs n = Some (Fault NullDereference))"
proof -
  obtain m where m: "listening m" "\<not> sv_onGoing (nt_service m)"
    "\<And>xs. ServerService_Start io xs n =
       (if listen_ok io
        then (case StartListen_accepts MAX_ACCEPT_COUNT xs m of
                None \<Rightarrow> None
              | Some (Fault f) \<Rightarrow> Some (Fault f)
              | Some (Ok (_, n2)) \<Rightarrow> Some (Ok (finish_start APP_SERVERSERVICE_LISTEN_FAILED True n2)))
        else Some (Ok (finish_start APP_SERVERSERVICE_LISTEN_FAILED False m)))"
    using ServerService_Start_unfold [OF assms, of io] by blast
  show ?thesis
    using StartListen_accepts_returns [OF m(1), of xs MAX_ACCEPT_COUNT] StartListen_accepts_bad [OF m(1)] m(2) unfolding m(3)
    by (auto simp: finish_start_result GetLastError_def SetLastError_def simp del: StartListen_accepts.simps)
qed

theorem ServerService_Start_result_witness:
  "(\<exists>n'. ServerService_Start demo_listen demo_attempts demo_server = Some (Ok (True, n')) \<and> sv_onGoing (nt_service n')) \<and>
   ServerService_Start demo_listen [demo_attempts ! 0, (demo_attempts ! 1)\<lparr>ai_session := (ai_session (demo_attempts ! 1))\<lparr>ns_registered := False\<rparr>\<rparr>]
     demo_server = Some (Fault NullDereference)"
proof -
  let ?x = "demo_attempts ! 0" and ?y = "(demo_attempts ! 1)\<lparr>ai_session := (ai_session (demo_attempts ! 1))\<lparr>ns_registered := False\<rparr>\<rparr>"
  have ok: "listen_ok demo_listen" by (simp add: listen_ok_def SOCKET_ERROR_def)
  note r = ServerService_Start_result [OF demo_server_created, of demo_listen]
  have "\<exists>n'. ServerService_Start demo_listen demo_attempts demo_server = Some (Ok (True, n')) \<and> sv_onGoing (nt_service n')"
    using r [of demo_attempts] ok demo_attempts_ok(1,2) by (elim conjE) simp
  moreover have "attempt_ok ?x" "\<not> attempt_ok ?y" using demo_attempts_ok(1) by (simp_all add: attempt_ok_def demo_attempts_def)
  then have "ServerService_Start demo_listen [?x, ?y] demo_server = Some (Fault NullDereference)"
    using r [of "[?x, ?y]", THEN conjunct2, THEN conjunct2, rule_format, of "[?x]" ?y "[]"] ok by simp
  ultimately show ?thesis by blast
qed

lemma demo_server_runs: "\<exists>n. reach server_started (server_step onRecv) n \<and> nt_keep n"
proof -
  let ?io = demo_listen
  have ok: "listen_ok ?io" by (simp add: listen_ok_def SOCKET_ERROR_def)
  obtain m where m: "listening m" "\<And>xs. ServerService_Start ?io xs demo_server =
       (if listen_ok ?io
        then (case StartListen_accepts MAX_ACCEPT_COUNT xs m of
                None \<Rightarrow> None
              | Some (Fault f) \<Rightarrow> Some (Fault f)
              | Some (Ok (_, n2)) \<Rightarrow> Some (Ok (finish_start APP_SERVERSERVICE_LISTEN_FAILED True n2)))
        else Some (Ok (finish_start APP_SERVERSERVICE_LISTEN_FAILED False m)))"
    using ServerService_Start_unfold [OF demo_server_created, of ?io] by blast
  obtain ys n2 where "StartListen_accepts MAX_ACCEPT_COUNT demo_attempts m = Some (Ok (ys, n2))"
    using StartListen_accepts_returns [OF m(1) demo_attempts_ok(1)] demo_attempts_ok(2) by (metis order_refl)
  then obtain n where n: "ServerService_Start ?io demo_attempts demo_server = Some (Ok (True, n))"
    unfolding m(2) using ok by (simp add: finish_start_result del: StartListen_accepts.simps)
  have "server_started n"
    using n demo_server_created demo_attempts_ok(3) unfolding server_started_def by blast
  moreover have "nt_keep n"
    using ServerService_Start_inv(2) [OF demo_server_created demo_attempts_ok(3) n] by (simp add: demo_server_def)
  ultimately show ?thesis by (auto intro: reach_init)
qed

text \<open>C6. In every state a running server can reach, whatever the system, the peers and the application do: of
  each session at most one \<^verbatim>\<open>WSARecv\<close> is in flight; all hundred accept events exist, each with exactly one
  \<^verbatim>\<open>AcceptEx\<close> in flight and a session of its own that is not connected and has nothing else in flight;
  and every existing session has its whole receive buffer free.\<close>

theorem server_in_flight:
  assumes "reach server_started (server_step onRecv) n"
  shows "(\<forall>r. count_list (nt_pending n) (RecvEvent_of r) \<le> 1) \<and>
    length (accept_events n) = 100 \<and> distinct (map ae_session (accept_events n)) \<and>
    (\<forall>k. count_list (nt_pending n) (AcceptEvent_of k) = (if k < 100 then 1 else 0)) \<and>
    (\<forall>k < 100. \<exists>r. ae_session (accept_events n ! k) = Some r \<and> \<not> se_connected (nt_session n r) \<and>
       (\<forall>e \<in> set (nt_pending n). session_of e \<noteq> Some r)) \<and>
    (\<forall>r. session_alive r n \<longrightarrow> RecvBuffer_WritePos (se_recvBuffer (nt_session n r)) = Ok 0 \<and>
       RecvBuffer_FreeSize (se_recvBuffer (nt_session n r)) = RECV_BUFFER_SIZE)"
proof -
  have inv: "server_inv 100 n" using assms by (rule run.reach_inv)
  then have len: "length (accept_events n) = 100" and a: "accept_inv {..<100} n" and s: "session_inv n"
    by (simp_all add: server_inv_def)
  have all: "\<forall>k \<in> {..<100}. \<exists>r. ae_session (accept_events n ! k) = Some r \<and> waiting r n"
    using a by (simp add: accept_inv_def)
  have w: "\<exists>r. ae_session (accept_events n ! k) = Some r \<and> \<not> se_connected (nt_session n r) \<and>
       (\<forall>e \<in> set (nt_pending n). session_of e \<noteq> Some r)" if k: "k < 100" for k
  proof -
    obtain r where "ae_session (accept_events n ! k) = Some r" "waiting r n" using bspec [OF all, of k] k by blast
    then show ?thesis by (intro exI [of _ r]) (auto simp: waiting_def image_iff)
  qed
  have "inj_on (\<lambda>k. ae_session (accept_events n ! k)) {..<100}" using a by (simp add: accept_inv_def)
  then have d: "distinct (map ae_session (accept_events n))"
    by (auto simp: distinct_conv_nth len inj_on_def)
  have "session_alive r n \<Longrightarrow> recv_start (nt_session n r)" for r using s by (simp add: session_inv_def)
  then show ?thesis
    using a s len w d by (auto simp: accept_inv_def session_inv_def recv_start_def RecvBuffer_WritePos_def
        RecvBuffer_FreeSize_def Let_def)
qed

theorem server_in_flight_witness:
  "\<exists>n. reach server_started (server_step PacketSession_OnRecv) n \<and>
     (\<forall>k < 100. count_list (nt_pending n) (AcceptEvent_of k) = 1)"
proof -
  obtain n where n: "reach server_started (server_step PacketSession_OnRecv) n"
    using demo_server_runs by blast
  with server_in_flight [OF n] show ?thesis by (intro exI [of _ n]) simp
qed

text \<open>C14. In a running server whose application keeps a pointer to every connected session, each event that is
  in flight can be dispatched in every reachable state: its memory is still there, it has its type,
  and its weak pointer still leads to the object that posted the call.\<close>

theorem server_events_valid:
  assumes "reach server_started (server_step onRecv) n" "nt_keep n" "e \<in> set (nt_pending n)"
  shows "\<exists>ev. get_event e n = Some ev \<and> ev_eventType ev = event_type e \<and>
    lock_object (ev_iocpObject ev) n = Some (poster e)"
proof -
  have inv: "server_inv 100 n" using assms(1) by (rule run.reach_inv)
  then have len: "length (accept_events n) = 100" and a: "accept_inv {..<100} n" and s: "session_inv n"
    by (simp_all add: server_inv_def)
  show ?thesis
  proof (cases "session_of e")
    case (Some r)
    then have "Some r \<in> session_of ` set (nt_pending n)" using assms(3) by (metis image_eqI)
    then have "session_alive r n" using s assms(2) by (simp add: session_inv_def session_alive_def)
    with session_event_found [OF s assms(3) Some] poster_session [OF Some] show ?thesis by simp
  next
    case None
    then obtain k where k: "e = AcceptEvent_of k"
      using assms(3) a by (cases e) (auto simp: accept_inv_def)
    have "count_list (nt_pending n) (AcceptEvent_of k) \<noteq> 0" using assms(3) k by (simp add: count_list_0_iff)
    then have "k < 100" using a by (auto simp: accept_inv_def split: if_splits)
    then have "accept_events n ! k \<in> set (accept_events n)" using len by simp
    then have ev: "ev_eventType (accept_events n ! k) = EV_Accept" "ev_iocpObject (accept_events n ! k) = Some Listener_obj"
      using a by (auto simp: accept_inv_def)
    obtain l where "get_listener (sv_impl (nt_service n)) = Some l" "accept_events n = ls_acceptEvents l"
      using a by (auto simp: accept_inv_def accept_events_def)
    with ev \<open>k < 100\<close> len show ?thesis by (simp add: k iocp_event.defs)
  qed
qed

theorem server_events_valid_witness:
  "\<exists>n ev. reach server_started (server_step PacketSession_OnRecv) n \<and> get_event (AcceptEvent_of 0) n = Some ev \<and>
     ev_eventType ev = EV_Accept \<and> lock_object (ev_iocpObject ev) n = Some Listener_obj"
proof -
  obtain n where n: "reach server_started (server_step PacketSession_OnRecv) n" "nt_keep n"
    using demo_server_runs by blast
  have "accept_inv {..<100} n" using run.reach_inv [OF n(1)] by (simp add: server_inv_def)
  then have "count_list (nt_pending n) (AcceptEvent_of 0) = 1" by (simp add: accept_inv_def)
  then have "AcceptEvent_of 0 \<in> set (nt_pending n)" by (metis count_list_0_iff zero_neq_one)
  with server_events_valid [OF n, of "AcceptEvent_of 0"] n(1) show ?thesis
    by auto
qed

section \<open>What outlives a session and a server\<close>

lemma post_simps [simp]:
  "nt_session (post e c ok n) = nt_session n" "nt_service (post e c ok n) = nt_service n"
  "nt_held (post e c ok n) = nt_held n" "nt_trace (post e c ok n) = nt_trace n @ [Posted c ok]"
  "nt_pending (post e c ok n) = nt_pending n @ (if ok then [e] else [])"
  by (simp_all add: post_def trace_def)

text \<open>After \<^verbatim>\<open>Disconnect\<close> its completion takes the session out of the server.\<close>

lemma disconnect_completion:
  assumes impl: "sv_impl (nt_service n) = ServerService b ss l" "distinct ss" "r \<in> set ss"
    and acc: "Some r \<notin> ae_session ` set (accept_events n)"
    and se: "se_connected (nt_session n r)" "se_service (nt_session n r)" "typed (nt_session n r)" and io: "io_res io \<noteq> 0"
  shows "\<exists>n1 n2. Session_Disconnect r io n = (True, n1) \<and> DisconnectEvent_of r \<in> set (nt_pending n1) \<and>
    process_completion onRecv (c\<lparr>cp_overlapped := DisconnectEvent_of r\<rparr>) n1 = Some (Ok n2) \<and>
    nt_pending n2 = remove1 (DisconnectEvent_of r) (nt_pending n1) \<and> nt_held n2 = nt_held n \<and>
    (session_alive r n2 \<longleftrightarrow> r \<in> set (nt_held n)) \<and> \<not> se_connected (nt_session n2 r) \<and>
    se_recvEvent (nt_session n2 r) = se_recvEvent (nt_session n r) \<and>
    se_recvBuffer (nt_session n2 r) = se_recvBuffer (nt_session n r) \<and>
    set (nt_pending n1) = insert (DisconnectEvent_of r) (set (nt_pending n)) \<and> nt_trace n2 = nt_trace n1 @ [OnDisconnected r]"
proof -
  let ?s = "se_disconnectEvent_update (arm (Session_obj r)) ((nt_session n r)\<lparr>se_connected := False\<rparr>)"
  let ?n1 = "post (DisconnectEvent_of r) (DisconnectEx (se_socket (nt_session n r))) True (n\<lparr>nt_session := (nt_session n)(r := ?s)\<rparr>)"
  have n1: "Session_Disconnect r io n = (True, ?n1)"
    using se(1) io by (simp add: Session_Disconnect_def Session_register_disconnect_def WSACheckErrorExceptPending2_def Let_def)
  let ?n0 = "?n1\<lparr>nt_pending := remove1 (DisconnectEvent_of r) (nt_pending ?n1)\<rparr>"
  let ?m = "trace (OnDisconnected r) (upd_session r (\<lambda>s. s\<lparr>se_service := False, se_sendQueue := [], se_connected := False,
      se_socket := INVALID_SOCKET\<rparr>) (?n0\<lparr>nt_service := (nt_service n)\<lparr>sv_impl := ServerService b (remove1 r ss) l\<rparr>\<rparr>))"
  have sv: "nt_service ?n0 = nt_service n" "nt_held ?n0 = nt_held n" "nt_session ?n0 r = ?s" by (simp_all add: post_def trace_def)
  have alive: "session_alive r ?n0" using impl by (simp add: session_alive_def sv)
  have clear: "Session_process_disconnect r ?n0 = Ok ?m"
    using se(2) by (simp add: Session_process_disconnect_def Session_clear_result sv impl ServerService_ReleaseSession_def)
  have "r \<notin> set (remove1 r ss)" using impl(2) by simp
  then have dead: "session_alive r ?m \<longleftrightarrow> r \<in> set (nt_held n)"
    using acc impl(1) by (auto simp: session_alive_def trace_def post_def accept_events_def split: option.splits)
  obtain n2 where n2: "reap [r] (\<lambda>_. cp_close c) ?m = Ok n2" using reap_returns by blast
  note k = reap_kept [OF n2]
  have "process_completion onRecv (c\<lparr>cp_overlapped := DisconnectEvent_of r\<rparr>) ?n1 = Some (Ok n2)"
    using alive clear n2 se(3)
    by (simp add: process_completion_def Let_def IOCPObject_Dispatch_def Session_Dispatch_def dropped_def sv typed_def
        del: reap.simps)
  moreover have "session_alive r n2 \<longleftrightarrow> r \<in> set (nt_held n)" "nt_held n2 = nt_held n"
    "nt_pending n2 = remove1 (DisconnectEvent_of r) (nt_pending ?n1)" "nt_trace n2 = nt_trace ?n1 @ [OnDisconnected r]"
    using k dead by (auto simp: net_kept_def session_alive_def) (simp_all add: trace_def post_def)
  moreover have "se_connected (nt_session n2 r) = se_connected (nt_session ?m r)"
    "se_recvEvent (nt_session n2 r) = se_recvEvent (nt_session ?m r)"
    "se_recvBuffer (nt_session n2 r) = se_recvBuffer (nt_session ?m r)"
    by (rule net_kept_session [OF k]; simp)+
  ultimately show ?thesis
    using n1 by (intro exI [of _ ?n1] exI [of _ n2]) (simp add: post_def trace_def)
qed

text \<open>C30. A connected session of a server whose receive is in flight is disconnected by \<^verbatim>\<open>Disconnect\<close>, and the
  disconnect completes, with the call of \<^verbatim>\<open>OnDisconnected\<close>. When the application keeps no pointer to the session,
  it was destroyed with its events at the end of the disconnect's handler, and the dispatch of the receive,
  whatever it brings, reads the event in freed memory. When the application keeps one, a receive that
  completes with zero bytes is handled and does nothing; one that completes with bytes, stored in the
  session's buffer, is handed to \<^verbatim>\<open>OnRecv\<close>, after \<^verbatim>\<open>OnDisconnected\<close>, and no further receive is posted.\<close>

theorem server_released_session:
  assumes "sv_impl (nt_service n) = ServerService b ss l" "distinct ss" "r \<in> set ss"
    and "Some r \<notin> ae_session ` set (accept_events n)"
    and "se_connected (nt_session n r)" "se_service (nt_session n r)" "typed (nt_session n r)" "io_res io \<noteq> 0"
    and "RecvEvent_of r \<in> set (nt_pending n)" "armed (RecvEvent_of r) n"
  shows "\<exists>n1 n2. Session_Disconnect r io n = (True, n1) \<and> DisconnectEvent_of r \<in> set (nt_pending n1) \<and>
    process_completion onRecv (c\<lparr>cp_overlapped := DisconnectEvent_of r\<rparr>) n1 = Some (Ok n2) \<and>
    RecvEvent_of r \<in> set (nt_pending n2) \<and> nt_trace n2 = nt_trace n1 @ [OnDisconnected r] \<and>
    se_recvBuffer (nt_session n2 r) = se_recvBuffer (nt_session n r) \<and>
    (\<forall>bs bytes n3. n3 = n2 \<or> system_stores (RecvEvent_of r) bs n2 = Ok n3 \<longrightarrow>
      process_completion onRecv (c\<lparr>cp_overlapped := RecvEvent_of r, cp_bytes := bytes\<rparr>) n3 =
        (let done = n3\<lparr>nt_pending := remove1 (RecvEvent_of r) (nt_pending n2)\<rparr>; buf = se_recvBuffer (nt_session n3 r)
         in if r \<notin> set (nt_held n) then Some (Fault UseAfterFree)
            else if bytes = 0 then Some (Ok done)
            else (case RecvBuffer_DataPos buf of
                    Fault f \<Rightarrow> Some (Fault f)
                  | Ok pos \<Rightarrow>
                      (case onRecv (drop pos (rb_buffer buf)) bytes of
                         None \<Rightarrow> None
                       | Some (Fault f) \<Rightarrow> Some (Fault f)
                       | Some (Ok (calls, processLen)) \<Rightarrow>
                           Some (Ok (done\<lparr>nt_trace := nt_trace n2 @ [OnRecv r calls]\<rparr>))))))"
proof -
  obtain n1 n2 where d: "Session_Disconnect r io n = (True, n1)" "DisconnectEvent_of r \<in> set (nt_pending n1)"
    "process_completion onRecv (c\<lparr>cp_overlapped := DisconnectEvent_of r\<rparr>) n1 = Some (Ok n2)"
    "nt_pending n2 = remove1 (DisconnectEvent_of r) (nt_pending n1)" "session_alive r n2 \<longleftrightarrow> r \<in> set (nt_held n)"
    "\<not> se_connected (nt_session n2 r)" "se_recvEvent (nt_session n2 r) = se_recvEvent (nt_session n r)"
    "set (nt_pending n1) = insert (DisconnectEvent_of r) (set (nt_pending n))" "nt_trace n2 = nt_trace n1 @ [OnDisconnected r]"
    "se_recvBuffer (nt_session n2 r) = se_recvBuffer (nt_session n r)"
    using disconnect_completion [OF assms(1-8)] by blast
  have "RecvEvent_of r \<in> set (nt_pending n2)" using d(4,8) assms(9) by simp
  moreover have "process_completion onRecv (c\<lparr>cp_overlapped := RecvEvent_of r, cp_bytes := bytes\<rparr>) n3 =
        (let done = n3\<lparr>nt_pending := remove1 (RecvEvent_of r) (nt_pending n2)\<rparr>; buf = se_recvBuffer (nt_session n3 r)
         in if r \<notin> set (nt_held n) then Some (Fault UseAfterFree)
            else if bytes = 0 then Some (Ok done)
            else (case RecvBuffer_DataPos buf of
                    Fault f \<Rightarrow> Some (Fault f)
                  | Ok pos \<Rightarrow>
                      (case onRecv (drop pos (rb_buffer buf)) bytes of
                         None \<Rightarrow> None
                       | Some (Fault f) \<Rightarrow> Some (Fault f)
                       | Some (Ok (calls, processLen)) \<Rightarrow>
                           Some (Ok (done\<lparr>nt_trace := nt_trace n2 @ [OnRecv r calls]\<rparr>)))))"
    if n3: "n3 = n2 \<or> system_stores (RecvEvent_of r) bs n2 = Ok n3" for bs bytes n3
  proof -
    have k: "nt_pending n3 = nt_pending n2" "nt_trace n3 = nt_trace n2" "nt_service n3 = nt_service n2" "nt_held n3 = nt_held n2"
      "se_connected (nt_session n3 r) = se_connected (nt_session n2 r)" "se_recvEvent (nt_session n3 r) = se_recvEvent (nt_session n2 r)"
      using n3 by (auto simp: system_stores_def)
    have "session_alive r (n3\<lparr>nt_pending := p\<rparr>) \<longleftrightarrow> r \<in> set (nt_held n)"
      "session_alive r (n3\<lparr>nt_pending := p, nt_trace := tr\<rparr>) \<longleftrightarrow> r \<in> set (nt_held n)" for p tr
      using d(5) k by (simp_all add: session_alive_def)
    then show ?thesis
      using assms(7,10) d(6,7) k
      by (simp add: process_completion_def Let_def IOCPObject_Dispatch_def Session_Dispatch_def typed_def
          Session_process_recv_def Session_disconnect_def Session_register_recv_def dropped_def trace_def
          split: outcome.split option.split prod.split)
  qed
  ultimately show ?thesis using d(1-3,9,10) by (intro exI [of _ n1] exI [of _ n2]) simp
qed

theorem server_released_session_witness:
  "\<exists>n1 n2 m1 m2. Session_Disconnect 0 \<lparr>io_res = 1, io_error = 0\<rparr>
       (set_impl (ServerService 100 [0] None) demo_net) = (True, n1) \<and>
     process_completion PacketSession_OnRecv (demo_completion\<lparr>cp_overlapped := DisconnectEvent_of 0\<rparr>) n1 = Some (Ok n2) \<and>
     process_completion PacketSession_OnRecv (demo_completion\<lparr>cp_overlapped := RecvEvent_of 0, cp_bytes := 0\<rparr>) n2 =
       Some (Fault UseAfterFree) \<and>
     Session_Disconnect 0 \<lparr>io_res = 1, io_error = 0\<rparr>
       ((set_impl (ServerService 100 [0] None) demo_net)\<lparr>nt_held := [0]\<rparr>) = (True, m1) \<and>
     process_completion (\<lambda>_ n. Some (Ok ([], n))) (demo_completion\<lparr>cp_overlapped := DisconnectEvent_of 0\<rparr>) m1 = Some (Ok m2) \<and>
     (\<exists>m3. process_completion (\<lambda>_ n. Some (Ok ([], n))) (demo_completion\<lparr>cp_overlapped := RecvEvent_of 0, cp_bytes := 5\<rparr>) m2 =
        Some (Ok m3) \<and> nt_trace m3 = nt_trace m1 @ [OnDisconnected 0, OnRecv 0 []])"
proof -
  let ?n = "set_impl (ServerService 100 [0] None) demo_net" and ?io = "\<lparr>io_res = 1, io_error = 0\<rparr>"
  let ?m = "?n\<lparr>nt_held := [0]\<rparr>" and ?on = "\<lambda>_ n. Some (Ok ([], n))"
  have f: "se_connected (nt_session ?n 0)" "se_service (nt_session ?n 0)" "typed (nt_session ?n 0)"
    "RecvEvent_of 0 \<in> set (nt_pending ?n)" "armed (RecvEvent_of 0) ?n" "nt_held ?n = []" "accept_events ?n = []"
    by (simp_all add: demo_net_def typed_def accept_events_def)
  have g: "armed (RecvEvent_of 0) ?m" "accept_events ?m = []" using f(5,7) by (simp_all add: accept_events_def)
  obtain n1 n2 where n: "Session_Disconnect 0 ?io ?n = (True, n1)"
    "process_completion PacketSession_OnRecv (demo_completion\<lparr>cp_overlapped := DisconnectEvent_of 0\<rparr>) n1 = Some (Ok n2)"
    "process_completion PacketSession_OnRecv (demo_completion\<lparr>cp_overlapped := RecvEvent_of 0, cp_bytes := 0\<rparr>) n2 = Some (Fault UseAfterFree)"
    using server_released_session [of ?n 100 "[0]" None 0 ?io PacketSession_OnRecv demo_completion] f by auto
  have pos: "RecvBuffer_DataPos (se_recvBuffer (nt_session ?m 0)) = Ok 0"
    by (simp add: demo_net_def RecvBuffer_DataPos_def Session_new_def RecvBuffer_new_def)
  obtain m1 m2 where m: "Session_Disconnect 0 ?io ?m = (True, m1)"
    "process_completion ?on (demo_completion\<lparr>cp_overlapped := DisconnectEvent_of 0\<rparr>) m1 = Some (Ok m2)"
    "nt_trace m2 = nt_trace m1 @ [OnDisconnected 0]"
    "process_completion ?on (demo_completion\<lparr>cp_overlapped := RecvEvent_of 0, cp_bytes := 5\<rparr>) m2 =
       Some (Ok (m2\<lparr>nt_pending := remove1 (RecvEvent_of 0) (nt_pending m2), nt_trace := nt_trace m2 @ [OnRecv 0 []]\<rparr>))"
    using server_released_session [of ?m 100 "[0]" None 0 ?io ?on demo_completion] f(1-4) g pos by (auto simp: Let_def)
  show ?thesis using n m by (intro exI [of _ n1] exI [of _ n2] exI [of _ m1] exI [of _ m2]) simp
qed

text \<open>C31. \<^verbatim>\<open>ServerService::Stop\<close> of a running server returns true with no listener and no sessions left, while the
  calls that were in flight still are. A thread that goes on dispatching completions reads freed memory with each
  of the hundred \<^verbatim>\<open>AcceptEx\<close>, whose events the listener's destructor has deleted, and with each call of a session
  to which the application keeps no pointer. The events of a session it keeps are still there.\<close>

theorem ServerService_Stop_dangling:
  assumes "reach server_started (server_step onRecv) n"
  shows "\<exists>n'. Service_Stop listenRes closeRes io n = Ok (True, n') \<and> \<not> sv_onGoing (nt_service n') \<and>
    (\<forall>k < 100. AcceptEvent_of k \<in> set (nt_pending n')) \<and> set (nt_pending n) \<subseteq> set (nt_pending n') \<and>
    (\<forall>e c. (case session_of e of None \<Rightarrow> True | Some r \<Rightarrow> r \<notin> set (nt_held n)) \<longrightarrow>
       process_completion onRecv (c\<lparr>cp_overlapped := e\<rparr>) n' = Some (Fault UseAfterFree)) \<and>
    (\<forall>e r. session_of e = Some r \<and> r \<in> set (nt_held n) \<longrightarrow> get_event e n' \<noteq> None)"
proof -
  have inv: "server_inv 100 n" using assms by (rule run.reach_inv)
  then have a: "accept_inv {..<100} n" by (simp add: server_inv_def)
  then obtain b ss l where impl: "sv_impl (nt_service n) = ServerService b ss (Some l)" by (auto simp: accept_inv_def)
  obtain n' where n': "Service_Stop listenRes closeRes io n = Ok (True, n')"
    using Service_Stop_returns [OF impl] by blast
  note stop = Service_Stop_server [OF impl n']
  have "AcceptEvent_of k \<in> set (nt_pending n')" if "k < 100" for k
  proof -
    have "count_list (nt_pending n) (AcceptEvent_of k) = 1" using a that by (simp add: accept_inv_def)
    then have "AcceptEvent_of k \<in> set (nt_pending n)" by (metis count_list_0_iff zero_neq_one)
    then show ?thesis using stop(3) by blast
  qed
  moreover have "get_event e (n'\<lparr>nt_pending := p\<rparr>) = None"
    if "case session_of e of None \<Rightarrow> True | Some r \<Rightarrow> r \<notin> set (nt_held n)" for e p
    using that stop(1,2) by (cases e) (simp_all add: session_alive_def)
  moreover have "get_event e n' \<noteq> None" if "session_of e = Some r" "r \<in> set (nt_held n)" for e r
    using that stop(1,2) by (cases e) (simp_all add: session_alive_def)
  ultimately show ?thesis
    using n' Service_Stop_stopped(2) [OF n'] stop(3) by (auto simp: process_completion_def Let_def)
qed

theorem ServerService_Stop_dangling_witness:
  "\<exists>n n'. Service_Stop 0 (\<lambda>_. 0) (\<lambda>_. \<lparr>io_res = 1, io_error = 0\<rparr>) n = Ok (True, n') \<and>
     AcceptEvent_of 7 \<in> set (nt_pending n') \<and>
     process_completion PacketSession_OnRecv (demo_completion\<lparr>cp_overlapped := AcceptEvent_of 7\<rparr>) n' = Some (Fault UseAfterFree)"
proof -
  obtain n where n: "reach server_started (server_step PacketSession_OnRecv) n"
    using demo_server_runs by blast
  obtain n' where n': "Service_Stop 0 (\<lambda>_. 0) (\<lambda>_. \<lparr>io_res = 1, io_error = 0\<rparr>) n = Ok (True, n')"
    "\<forall>k < 100. AcceptEvent_of k \<in> set (nt_pending n')"
    "\<forall>e c. (case session_of e of None \<Rightarrow> True | Some r \<Rightarrow> r \<notin> set (nt_held n)) \<longrightarrow>
       process_completion PacketSession_OnRecv (c\<lparr>cp_overlapped := e\<rparr>) n' = Some (Fault UseAfterFree)"
    using ServerService_Stop_dangling [OF n, of 0 "\<lambda>_. 0" "\<lambda>_. \<lparr>io_res = 1, io_error = 0\<rparr>"] by blast
  then show ?thesis
    using n'(3) [rule_format, of "AcceptEvent_of 7" demo_completion] by (intro exI [of _ n] exI [of _ n']) simp
qed

end
