(* ===== verification/Client_System.thy ===== *)
theory Client_System
  imports Session_System
begin

text \<open>
  A running \<^verbatim>\<open>ClientServiceEx\<close> as a system of steps: the completion of any posted call, dispatched by
  \<^verbatim>\<open>IOCPCore::ProcessQueuedCompletionStatus\<close> (\<^verbatim>\<open>src/MyNetworkLib/IOCPCore.cpp\<close>) to the handlers of \<^verbatim>\<open>Connector.cpp\<close>
  and \<^verbatim>\<open>Session.cpp\<close>, the failure of a posted call, which the same function logs and drops, and the calls of
  the application to \<^verbatim>\<open>Session::_send\<close> and \<^verbatim>\<open>Session::Disconnect\<close>, in any order.

  The invariant \<open>client_inv\<close> counts the connections: each connector that has connected has made one
  session slot, and a connector's call is in flight at most once and only before it has connected.
\<close>

section \<open>Steps\<close>

definition fresh_session :: "new_session \<Rightarrow> net \<Rightarrow> bool" where
  "fresh_session x n \<longleftrightarrow> (\<forall>r. ns_ref x = Some r \<longrightarrow> unused r n)"

inductive client_step :: "on_recv \<Rightarrow> net \<Rightarrow> net \<Rightarrow> bool" for onRecv :: on_recv where
  client_completion:
    "cp_overlapped c \<in> set (nt_pending n) \<Longrightarrow> fresh_session (cp_new c) n \<Longrightarrow>
     system_stores (cp_overlapped c) bs n = Ok n1 \<Longrightarrow>
     process_completion onRecv c n1 = Some (Ok n') \<Longrightarrow> client_step onRecv n n'"
| client_failed: "e \<in> set (nt_pending n) \<Longrightarrow> client_step onRecv n (n\<lparr>nt_pending := remove1 e (nt_pending n)\<rparr>)"
| client_send: "session_alive r n \<Longrightarrow> client_step onRecv n (Session_send r bufs io n)"
| client_disconnect: "session_alive r n \<Longrightarrow> client_step onRecv n (snd (Session_Disconnect r io n))"

inductive_cases client_stepE: "client_step onRecv n n'"

section \<open>The invariant\<close>

definition connectors :: "net \<Rightarrow> connector list" where
  "connectors n = (case sv_impl (nt_service n) of ClientServiceEx ss conns \<Rightarrow> conns | _ \<Rightarrow> [])"

definition session_slots :: "net \<Rightarrow> nat option list" where
  "session_slots n = (case sv_impl (nt_service n) of ClientServiceEx ss conns \<Rightarrow> ss | _ \<Rightarrow> [])"

definition connected_to :: "net \<Rightarrow> nat set" where
  "connected_to n = {k. k < length (connectors n) \<and> cn_connected (connectors n ! k)}"

definition connect_inv :: "net \<Rightarrow> bool" where
  "connect_inv n \<longleftrightarrow>
     sv_impl (nt_service n) = ClientServiceEx (session_slots n) (connectors n) \<and>
     sv_iocpCore (nt_service n) \<and> sv_sessionFactory (nt_service n) \<and> sv_serviceType (nt_service n) = ST_Client \<and>
     (\<forall>c \<in> set (connectors n). ev_eventType (cn_connectEvent c) = EV_Connect) \<and>
     (\<forall>k. count_list (nt_pending n) (ConnectEvent_of k) \<le> 1) \<and>
     (\<forall>k. ConnectEvent_of k \<in> set (nt_pending n) \<longrightarrow> k < length (connectors n) \<and> k \<notin> connected_to n \<and>
        ev_iocpObject (cn_connectEvent (connectors n ! k)) = Some (Connector_obj k)) \<and>
     (\<forall>k. AcceptEvent_of k \<notin> set (nt_pending n)) \<and>
     length (connectors n) \<le> unat (sv_MAX_SESSION_COUNT (nt_service n)) \<and>
     length (session_slots n) = card (connected_to n) \<and> (\<forall>r. count_list (session_slots n) (Some r) \<le> 1)"

definition client_inv :: "net \<Rightarrow> bool" where
  "client_inv n \<longleftrightarrow> connect_inv n \<and> session_inv n"

lemma service_fields:
  assumes "nt_service n' = nt_service n"
  shows "connectors n' = connectors n" "session_slots n' = session_slots n" "connected_to n' = connected_to n"
  using assms by (simp_all add: connectors_def session_slots_def connected_to_def)

lemma connect_inv_mono:
  assumes i: "connect_inv n" and sv: "nt_service n' = nt_service n"
    and p: "\<And>e. session_of e = None \<Longrightarrow> count_list (nt_pending n') e \<le> count_list (nt_pending n) e"
  shows "connect_inv n'"
proof -
  have c: "count_list (nt_pending n') (ConnectEvent_of k) \<le> 1" for k
    using i p [of "ConnectEvent_of k"] unfolding connect_inv_def by (metis le_trans session_of.simps(5))
  have m: "e \<in> set (nt_pending n)" if "session_of e = None" "e \<in> set (nt_pending n')" for e
    using p [OF that(1)] that(2) by (metis count_list_0_iff le_zero_eq)
  have "AcceptEvent_of k \<notin> set (nt_pending n')" for k
    using i m [of "AcceptEvent_of k"] by (auto simp: connect_inv_def)
  then show ?thesis
    using i m c unfolding connect_inv_def service_fields [OF sv] sv by auto
qed

lemma touch_connect_inv:
  assumes t: "touch c r n n'" and i: "connect_inv n"
  shows "connect_inv n'"
proof (rule touchE [OF t])
  fix es
  assume a: "nt_service n' = nt_service n" "nt_pending n' = nt_pending n @ es" "session_of ` set es \<subseteq> {Some r}"
  have "count_list es e = 0" if "session_of e = None" for e using a(3) that by (force simp: count_list_0_iff)
  then show ?thesis using a(1,2) by (intro connect_inv_mono [OF i]) simp_all
qed

lemma dequeue_connect_inv:
  "connect_inv n \<Longrightarrow> connect_inv (n\<lparr>nt_pending := remove1 e (nt_pending n)\<rparr>)"
  by (erule connect_inv_mono) simp_all

lemma ClientServiceEx_ReleaseSession_slots:
  "length (snd (ClientServiceEx_ReleaseSession r ss)) = length ss"
  "count_list (snd (ClientServiceEx_ReleaseSession r ss)) (Some q) \<le> count_list ss (Some q)"
  by (induction ss) (auto split: prod.splits)

lemma clear_connect_inv:
  assumes "Session_clear r n = Ok n'" and i: "connect_inv n"
  shows "connect_inv n'"
proof -
  have impl: "sv_impl (nt_service n) = ClientServiceEx (session_slots n) (connectors n)" using i by (simp add: connect_inv_def)
  let ?ss = "snd (ClientServiceEx_ReleaseSession r (session_slots n))"
  have n': "nt_service n' = (nt_service n)\<lparr>sv_impl := ClientServiceEx ?ss (connectors n)\<rparr>" "nt_pending n' = nt_pending n"
    using assms(1) by (auto simp: Session_clear_result impl split_beta split: if_splits)
  then have f: "connectors n' = connectors n" "session_slots n' = ?ss" "connected_to n' = connected_to n"
    by (simp_all add: connectors_def session_slots_def connected_to_def)
  have "count_list ?ss (Some q) \<le> 1" for q
    using i ClientServiceEx_ReleaseSession_slots(2) [of r "session_slots n" q] unfolding connect_inv_def by (meson le_trans)
  then show ?thesis
    using i unfolding connect_inv_def f by (simp add: n' ClientServiceEx_ReleaseSession_slots(1))
qed

interpretation cli: service_system connect_inv
proof
  fix n n' :: net and c r e bs x
  show "touch c r n n' \<Longrightarrow> connect_inv n \<Longrightarrow> connect_inv n'" by (rule touch_connect_inv)
  show "net_kept n n' \<Longrightarrow> connect_inv n \<Longrightarrow> connect_inv n'" by (erule connect_inv_mono) (simp_all add: net_kept_def)
  show "connect_inv n \<Longrightarrow> connect_inv (trace x n)" by (erule connect_inv_mono) (simp_all add: trace_def)
  show "system_stores e bs n = Ok n' \<Longrightarrow> connect_inv n \<Longrightarrow> connect_inv n'"
    by (erule connect_inv_mono) (simp_all add: stores_keeps)
  show "Session_clear r n = Ok n' \<Longrightarrow> connect_inv n \<Longrightarrow> connect_inv n'" by (rule clear_connect_inv)
  show "connect_inv n \<Longrightarrow> session_of e = Some r \<Longrightarrow> connect_inv (n\<lparr>nt_pending := remove1 e (nt_pending n)\<rparr>)"
    by (rule dequeue_connect_inv)
qed

section \<open>Preservation by connecting\<close>

lemma AddNewSession_client:
  assumes "sv_impl (nt_service n) = ClientServiceEx ss conns" and "AddNewSession x n = Ok (Some r, n1)"
  shows "ns_ref x = Some r" and "nt_service n1 = (nt_service n)\<lparr>sv_impl := ClientServiceEx (ss @ [Some r]) conns\<rparr>"
    and "nt_pending n1 = nt_pending n" "nt_held n1 = nt_held n" "nt_keep n1 = nt_keep n" "nt_trace n1 = nt_trace n"
    and "\<And>q. q \<noteq> r \<Longrightarrow> nt_session n1 q = nt_session n q"
    and "typed (nt_session n1 r)" "recv_start (nt_session n1 r)" "\<not> se_connected (nt_session n1 r)"
    and "se_socket (nt_session n1 r) = ns_socket x"
  using assms
  by (auto simp: AddNewSession_def ClientServiceEx_AddNewSession_def call_sessionFactory_def Session_new_def
      register_session_def RegisterHandle_def IOCPCore_RegisterHandle_def typed_def recv_start_def RecvBuffer_new_def
      split: if_splits option.splits prod.splits)

text \<open>The new session takes a slot, and the connector is connected.\<close>

definition connected_with :: "nat \<Rightarrow> connector \<Rightarrow> nat \<Rightarrow> net \<Rightarrow> net \<Rightarrow> bool" where
  "connected_with k c r n n3 \<longleftrightarrow>
     nt_service n3 = (nt_service n)\<lparr>sv_impl := ClientServiceEx (session_slots n @ [Some r]) ((connectors n)[k := c])\<rparr> \<and>
     cn_connected c \<and> ev_eventType (cn_connectEvent c) = ev_eventType (cn_connectEvent (connectors n ! k)) \<and>
     nt_pending n3 = nt_pending n \<and> nt_held n3 = nt_held n \<and> nt_keep n3 = nt_keep n \<and> nt_trace n3 = nt_trace n \<and>
     (\<forall>q. q \<noteq> r \<longrightarrow> nt_session n3 q = nt_session n q) \<and>
     typed (nt_session n3 r) \<and> recv_start (nt_session n3 r) \<and> \<not> se_connected (nt_session n3 r)"

lemma Connector_Dispatch_added:
  assumes "sv_impl (nt_service n) = ClientServiceEx (session_slots n) (connectors n)"
    and add: "AddNewSession x n = Ok (Some r, n1)"
  obtains c n3 where "connected_with k c r n n3" "se_socket (nt_session n3 r) = ns_socket x"
    "Connector_Dispatch k (connectors n ! k) EV_Connect x io n =
       Session_set_connected r (cn_connectSocket (connectors n ! k)) io n3"
proof -
  note new = AddNewSession_client [OF assms]
  let ?c1 = "(connectors n ! k)\<lparr>cn_session := Some r,
      cn_connectEvent := IOCPEvent_SetIOCPObjectSPtr (Some (Session_obj r)) (cn_connectEvent (connectors n ! k))\<rparr>"
  let ?c2 = "?c1\<lparr>cn_connectEvent := IOCPEvent_ReleaseIOCPObjectSPtr (cn_connectEvent ?c1), cn_connected := True\<rparr>"
  let ?n2 = "set_impl (put_connector k ?c1 (sv_impl (nt_service n1))) n1"
  let ?n3 = "set_impl (put_connector k ?c2 (sv_impl (nt_service ?n2))) ?n2"
  have "Connector_Dispatch k (connectors n ! k) EV_Connect x io n =
      Session_set_connected r (cn_connectSocket (connectors n ! k)) io ?n3"
    by (simp add: Connector_Dispatch_def add Connector_processConnect_def Let_def)
  moreover have "connected_with k ?c2 r n ?n3" "se_socket (nt_session ?n3 r) = ns_socket x"
    using new by (simp_all add: connected_with_def)
  ultimately show ?thesis using that by blast
qed

lemma Connector_Dispatch_connects:
  assumes impl: "sv_impl (nt_service n) = ClientServiceEx (session_slots n) (connectors n)"
    and d: "Connector_Dispatch k (connectors n ! k) EV_Connect x io n = Ok n'"
  obtains r c n3 where "ns_ref x = Some r" "connected_with k c r n n3"
    "Session_set_connected r (cn_connectSocket (connectors n ! k)) io n3 = Ok n'"
proof -
  obtain s n1 where add: "AddNewSession x n = Ok (s, n1)"
    using d by (auto simp: Connector_Dispatch_def)
  obtain r where s: "s = Some r"
    using d by (cases s) (auto simp: Connector_Dispatch_def add Connector_processConnect_def Let_def)
  obtain c n3 where "connected_with k c r n n3"
    "Connector_Dispatch k (connectors n ! k) EV_Connect x io n =
       Session_set_connected r (cn_connectSocket (connectors n ! k)) io n3"
    by (rule Connector_Dispatch_added [OF impl add [unfolded s]])
  then show ?thesis using that AddNewSession_client(1) [OF impl add [unfolded s]] d by metis
qed

lemma connected_with_inv:
  assumes w: "connected_with k c r n n3" and i: "client_inv n" and k: "k < length (connectors n)" "k \<notin> connected_to n"
    and p: "ConnectEvent_of k \<notin> set (nt_pending n)" and u: "unused r n"
  shows "client_inv n3" and "waiting r n3" and "session_alive r n3"
    and "connected_to n3 = insert k (connected_to n)" and "length (connectors n3) = length (connectors n)"
proof -
  have a: "connect_inv n" and s: "session_inv n" using i by (simp_all add: client_inv_def)
  have impl: "sv_impl (nt_service n) = ClientServiceEx (session_slots n) (connectors n)" using a by (simp add: connect_inv_def)
  have sv: "nt_service n3 = (nt_service n)\<lparr>sv_impl := ClientServiceEx (session_slots n @ [Some r]) ((connectors n)[k := c])\<rparr>"
    and c: "cn_connected c" "ev_eventType (cn_connectEvent c) = ev_eventType (cn_connectEvent (connectors n ! k))"
    and same: "nt_pending n3 = nt_pending n" "nt_held n3 = nt_held n" "nt_keep n3 = nt_keep n"
    and q: "\<And>q. q \<noteq> r \<Longrightarrow> nt_session n3 q = nt_session n q"
    and r: "typed (nt_session n3 r)" "recv_start (nt_session n3 r)" "\<not> se_connected (nt_session n3 r)"
    using w by (simp_all add: connected_with_def)
  have f: "connectors n3 = (connectors n)[k := c]" "session_slots n3 = session_slots n @ [Some r]"
    by (simp_all add: connectors_def [of n3] session_slots_def [of n3] sv)
  show len: "length (connectors n3) = length (connectors n)" by (simp add: f(1))
  show ct: "connected_to n3 = insert k (connected_to n)"
    using k c(1) by (auto simp: connected_to_def f(1) nth_list_update)
  have fin: "finite (connected_to n)" by (simp add: connected_to_def)
  have dead: "\<not> session_alive r n" "Some r \<notin> session_of ` set (nt_pending n)" using u by (simp_all add: unused_def)
  then have fresh: "count_list (session_slots n) (Some r) = 0" "r \<notin> set (nt_held n)"
    by (auto simp: session_alive_def impl count_list_0_iff)
  have "\<forall>c \<in> set (connectors n3). ev_eventType (cn_connectEvent c) = EV_Connect"
    using a k(1) c(2) set_update_subset_insert [of "connectors n" k c] unfolding f(1) by (auto simp: connect_inv_def)
  moreover have "ConnectEvent_of j \<in> set (nt_pending n3) \<Longrightarrow> j < length (connectors n3) \<and> j \<notin> connected_to n3 \<and>
      ev_iocpObject (cn_connectEvent (connectors n3 ! j)) = Some (Connector_obj j)" for j
    using a p unfolding ct same(1) by (cases "j = k") (auto simp: connect_inv_def f(1))
  moreover have "length (session_slots n3) = card (connected_to n3)"
    using a k(2) fin unfolding ct f(2) by (simp add: connect_inv_def)
  moreover have "count_list (session_slots n3) (Some q) \<le> 1" for q
    using a fresh(1) unfolding f(2) by (cases "q = r") (auto simp: connect_inv_def)
  ultimately have "connect_inv n3"
    using a unfolding connect_inv_def same(1) by (simp add: sv f)
  moreover have "session_inv n3"
    using session_inv_new [OF s u q _ r same(3,2), of "[]"] same(1)
    by (auto simp: session_alive_def sv impl same(2))
  ultimately show "client_inv n3" by (simp add: client_inv_def)
  show "waiting r n3" using dead(2) fresh(2) r(3) by (simp add: waiting_def same)
  show "session_alive r n3" by (simp add: session_alive_def sv)
qed

lemma connect_completion_inv:
  assumes i: "client_inv n" and e: "ConnectEvent_of k \<in> set (nt_pending n)" and fresh: "fresh_session x n"
    and d: "Connector_Dispatch k (connectors n ! k) EV_Connect x io (n\<lparr>nt_pending := remove1 (ConnectEvent_of k) (nt_pending n)\<rparr>) = Ok n'"
  shows "client_inv n'" and "connected_to n' = insert k (connected_to n)" and "length (connectors n') = length (connectors n)"
    and "\<And>e. session_of e = None \<Longrightarrow> count_list (nt_pending n') e \<le> count_list (nt_pending n) e"
proof -
  let ?n0 = "n\<lparr>nt_pending := remove1 (ConnectEvent_of k) (nt_pending n)\<rparr>"
  have a: "connect_inv n" and s: "session_inv n" using i by (simp_all add: client_inv_def)
  have i0: "client_inv ?n0" using dequeue_connect_inv [OF a] dequeue_session_inv [OF s] by (simp add: client_inv_def)
  have f: "connectors ?n0 = connectors n" "connected_to ?n0 = connected_to n" "session_slots ?n0 = session_slots n"
    by (rule service_fields; simp)+
  have k: "k < length (connectors n)" "k \<notin> connected_to n" using a e by (auto simp: connect_inv_def)
  have "count_list (nt_pending n) (ConnectEvent_of k) \<le> 1" using a by (simp add: connect_inv_def)
  then have p: "ConnectEvent_of k \<notin> set (nt_pending ?n0)" by (subst count_list_0_iff [symmetric]) simp
  have impl: "sv_impl (nt_service ?n0) = ClientServiceEx (session_slots ?n0) (connectors ?n0)"
    using i0 by (simp add: client_inv_def connect_inv_def)
  obtain r c n3 where r: "ns_ref x = Some r" "connected_with k c r ?n0 n3"
    "Session_set_connected r (cn_connectSocket (connectors ?n0 ! k)) io n3 = Ok n'"
    using Connector_Dispatch_connects [OF impl, of k x io n'] d unfolding f by metis
  have u: "unused r ?n0"
    using fresh r(1) set_remove1_subset [of "ConnectEvent_of k" "nt_pending n"]
    by (auto simp: fresh_session_def unused_def session_alive_def)
  note n3 = connected_with_inv [OF r(2) i0 _ _ p u]
  obtain m where m: "joined r n3 m" "touch 1 r m n'" using set_connected_joined [OF r(3)] by blast
  have c3: "client_inv n3" "waiting r n3" "session_alive r n3" using n3(1-3) k f by simp_all
  have "connect_inv m" using c3(1) m(1) by (intro connect_inv_mono [of n3 m]) (auto simp: client_inv_def joined_def)
  then show "client_inv n'"
    using touch_connect_inv [OF m(2)] set_connected_session_inv [OF r(3) _ c3(2,3)] c3(1) by (simp add: client_inv_def)
  have sv: "nt_service n' = nt_service n3" "nt_pending m = nt_pending n3" using m by (simp_all add: joined_def touch_def)
  show "connected_to n' = insert k (connected_to n)" using n3(4) k f service_fields(3) [OF sv(1)] by simp
  show "length (connectors n') = length (connectors n)" using n3(5) k f service_fields(1) [OF sv(1)] by simp
  obtain es where es: "nt_pending n' = nt_pending n3 @ es" "session_of ` set es \<subseteq> {Some r}"
    using m(2) by (rule touchE) (simp add: sv(2))
  show "count_list (nt_pending n') e \<le> count_list (nt_pending n) e" if "session_of e = None" for e
  proof -
    have "count_list es e = 0" using es(2) that by (force simp: count_list_0_iff)
    then show ?thesis using r(2) by (simp add: es(1) connected_with_def)
  qed
qed

section \<open>Preservation by every step\<close>

text \<open>The completion of a connect is dispatched to its connector.\<close>

lemma connect_completion_dispatch:
  assumes a: "connect_inv n" and e: "cp_overlapped c = ConnectEvent_of k" "ConnectEvent_of k \<in> set (nt_pending n)"
  shows "process_completion onRecv c n = Some (Connector_Dispatch k (connectors n ! k) EV_Connect (cp_new c) (cp_io c)
    (n\<lparr>nt_pending := remove1 (ConnectEvent_of k) (nt_pending n)\<rparr>))"
proof -
  have impl: "sv_impl (nt_service n) = ClientServiceEx (session_slots n) (connectors n)" using a by (simp add: connect_inv_def)
  have len: "k < length (connectors n)" "ev_iocpObject (cn_connectEvent (connectors n ! k)) = Some (Connector_obj k)"
    using a e(2) by (auto simp: connect_inv_def)
  have "connectors n ! k \<in> set (connectors n)" using len(1) by simp
  then have "ev_eventType (cn_connectEvent (connectors n ! k)) = EV_Connect" using a by (simp add: connect_inv_def)
  with len show ?thesis
    by (simp add: process_completion_def e(1) impl IOCPObject_Dispatch_def dropped_def split: outcome.split)
qed

lemma client_completion_inv:
  assumes e: "cp_overlapped c \<in> set (nt_pending n)" and i: "client_inv n" and fresh: "fresh_session (cp_new c) n"
    and p: "process_completion onRecv c n = Some (Ok n')"
  shows "client_inv n'"
proof -
  let ?e = "cp_overlapped c"
  have a: "connect_inv n" and s: "session_inv n" using i by (simp_all add: client_inv_def)
  show ?thesis
  proof (cases "session_of ?e")
    case (Some r)
    show ?thesis using cli.process_both [OF e Some a s p] by (simp add: client_inv_def)
  next
    case None
    then obtain k where k: "?e = ConnectEvent_of k" using e a by (cases ?e) (auto simp: connect_inv_def)
    from connect_completion_inv(1) [OF i e [unfolded k] fresh] connect_completion_dispatch [OF a k e [unfolded k]] p
    show ?thesis by simp
  qed
qed

lemma client_inv_step:
  assumes i: "client_inv n" and "client_step onRecv n n'"
  shows "client_inv n'"
  using assms(2)
proof cases
  case (client_completion c bs n1)
  note keep = stores_keeps [OF client_completion(3)]
  have "client_inv n1" using cli.stores_both [OF client_completion(3)] i by (simp add: client_inv_def)
  moreover have "fresh_session (cp_new c) n1"
    using client_completion(2) keep(1-3) by (simp add: fresh_session_def unused_def session_alive_def)
  moreover have "cp_overlapped c \<in> set (nt_pending n1)" using client_completion(1) keep(3) by simp
  ultimately show ?thesis by (rule client_completion_inv [OF _ _ _ client_completion(4), rotated 1])
next
  case (client_failed e)
  then show ?thesis using i dequeue_connect_inv dequeue_session_inv by (simp add: client_inv_def)
next
  case (client_send r bufs io)
  then show ?thesis using cli.send_both i by (simp add: client_inv_def)
next
  case (client_disconnect r io)
  then show ?thesis using cli.disconnect_both i by (simp add: client_inv_def)
qed

interpretation client: invariant_system client_inv "client_step onRecv" client_inv for onRecv
  by unfold_locales (auto intro: client_inv_step)

end
