(* ===== verification/Client_Runs.thy ===== *)
theory Client_Runs
  imports Client_System
begin

text \<open>
  The life of a \<^verbatim>\<open>ClientServiceEx\<close> (\<^verbatim>\<open>ClientServiceEx.cpp\<close>, \<^verbatim>\<open>Connector.cpp\<close>, \<^verbatim>\<open>IOCPCore.cpp\<close> under
  \<^verbatim>\<open>src/MyNetworkLib/\<close>): what \<^verbatim>\<open>Start\<close> sets up on every path, what holds in every state the running client
  of \<open>Client_System\<close> can reach from there, and what becomes of a connection whose call fails.
\<close>

section \<open>Starting\<close>

text \<open>A client service as its constructor leaves it, ready to start.\<close>

definition client_created :: "net \<Rightarrow> bool" where
  "client_created n \<longleftrightarrow> sv_impl (nt_service n) = ClientServiceEx [] [] \<and> sv_serviceType (nt_service n) = ST_Client \<and>
     start_failure n = NONE \<and> nt_pending n = [] \<and> nt_held n = []"

text \<open>The first \<open>j\<close> connectors have posted their call, and no session exists yet.\<close>

definition dialing :: "nat \<Rightarrow> net \<Rightarrow> bool" where
  "dialing j n \<longleftrightarrow> sv_impl (nt_service n) = ClientServiceEx [] (connectors n) \<and>
     sv_iocpCore (nt_service n) \<and> sv_sessionFactory (nt_service n) \<and> sv_serviceType (nt_service n) = ST_Client \<and>
     nt_held n = [] \<and> nt_pending n = map ConnectEvent_of [0..<j] \<and>
     j \<le> length (connectors n) \<and> length (connectors n) \<le> unat (sv_MAX_SESSION_COUNT (nt_service n)) \<and>
     (\<forall>c \<in> set (connectors n). \<not> cn_connected c \<and> ev_eventType (cn_connectEvent c) = EV_Connect) \<and>
     (\<forall>k < j. ev_iocpObject (cn_connectEvent (connectors n ! k)) = Some (Connector_obj k))"

lemma connectors_impl: "sv_impl (nt_service n) = ClientServiceEx ss conns \<Longrightarrow> connectors n = conns"
  by (simp add: connectors_def)

lemma distinct_count_list: "distinct xs \<Longrightarrow> count_list xs x \<le> 1"
  by (induction xs) (auto simp: count_list_0_iff)

lemma dialing_inv:
  assumes d: "dialing j n"
  shows "client_inv n"
proof -
  have p: "nt_pending n = map ConnectEvent_of [0..<j]" "sv_impl (nt_service n) = ClientServiceEx [] (connectors n)" "nt_held n = []"
    using d by (simp_all add: dialing_def)
  have none: "session_slots n = []" "connected_to n = {}"
    using d p(2) by (auto simp: dialing_def session_slots_def connected_to_def)
  have dead: "\<not> session_alive r n" for r by (simp add: session_alive_def p)
  have only: "e \<in> set (nt_pending n) \<Longrightarrow> \<exists>k. e = ConnectEvent_of k \<and> k < j" for e using p(1) by auto
  have "distinct (nt_pending n)" unfolding p(1) by (simp add: distinct_map inj_on_def)
  then have one: "count_list (nt_pending n) e \<le> 1" for e by (rule distinct_count_list)
  have "connect_inv n"
    using d one p(2) none only unfolding connect_inv_def dialing_def by (fastforce)
  moreover have "session_inv n"
    using dead one only by (fastforce simp: session_inv_def)
  ultimately show ?thesis by (simp add: client_inv_def)
qed

text \<open>One connection of the loop. It ends before the call, or with the call posted or refused.\<close>

lemma Connector_Connect_cases:
  assumes iocp: "sv_iocpCore (nt_service n)" and c: "\<not> cn_connected c"
  obtains (early) e where "Connector_Connect k c io n = Ok (False, n\<lparr>nt_err := e\<rparr>)" "\<not> connect_ok io"
    | (called) e c2 where "Connector_Connect k c io n = Ok (connect_ok io, set_impl (put_connector k c2 (sv_impl (nt_service n)))
          (post (ConnectEvent_of k) (ConnectEx (cn_connectSocket c)) (connect_ok io) (n\<lparr>nt_err := e\<rparr>)))"
        "\<not> cn_connected c2" "ev_eventType (cn_connectEvent c2) = ev_eventType (cn_connectEvent c)"
        "connect_ok io \<Longrightarrow> ev_iocpObject (cn_connectEvent c2) = Some (Connector_obj k)"
proof (cases "ci_registered io \<and> ci_reuse io \<noteq> SOCKET_ERROR \<and> ci_bind io \<noteq> SOCKET_ERROR")
  case True
  let ?r = "WSACheckErrorExceptPending (io_res (ci_connect io) \<noteq> 0) (io_error (ci_connect io)) WSA_CONNECTEX_FAILED (nt_err n)"
  let ?c1 = "c\<lparr>cn_connectEvent := arm (Connector_obj k) (cn_connectEvent c)\<rparr>"
  let ?c2 = "if connect_ok io then ?c1
    else ?c1\<lparr>cn_connectEvent := IOCPEvent_SetIOCPObjectSPtr None (cn_connectEvent ?c1)\<rparr>"
  have "fst ?r = error_code NONE \<longleftrightarrow> connect_ok io"
    using True by (auto simp: WSACheckErrorExceptPending_def connect_ok_def)
  then have "Connector_Connect k c io n = Ok (connect_ok io, set_impl (put_connector k ?c2 (sv_impl (nt_service n)))
      (post (ConnectEvent_of k) (ConnectEx (cn_connectSocket c)) (connect_ok io) (n\<lparr>nt_err := snd ?r\<rparr>)))"
    using True c
    by (simp add: Connector_Connect_def RegisterHandle_result [OF iocp] Let_def split_beta post_def trace_def del: error_code.simps)
  then show thesis by (rule called) (use c in auto)
next
  case False
  then have "\<not> connect_ok io" by (auto simp: connect_ok_def)
  moreover have "\<exists>e. Connector_Connect k c io n = Ok (False, n\<lparr>nt_err := e\<rparr>)"
    using False c by (auto simp: Connector_Connect_def RegisterHandle_result [OF iocp])
  ultimately show thesis using early by blast
qed

lemma Connector_Connect_dialing:
  assumes d: "dialing j n" and len: "length (connectors n) = j" and room: "j < unat (sv_MAX_SESSION_COUNT (nt_service n))"
    and c: "\<not> cn_connected c" "ev_eventType (cn_connectEvent c) = EV_Connect"
  shows "\<exists>n'. Connector_Connect j c io (set_impl (ClientServiceEx [] (connectors n @ [c])) n) = Ok (connect_ok io, n') \<and>
    dialing (if connect_ok io then Suc j else j) n' \<and> length (connectors n') = Suc j \<and>
    nt_service n' = (nt_service n)\<lparr>sv_impl := ClientServiceEx [] (connectors n')\<rparr> \<and> nt_keep n' = nt_keep n"
proof -
  let ?n = "set_impl (ClientServiceEx [] (connectors n @ [c])) n"
  have iocp: "sv_iocpCore (nt_service ?n)" using d by (simp add: dialing_def)
  show ?thesis
  proof (cases rule: Connector_Connect_cases [OF iocp c(1), of j io, case_names early called])
    case (early e)
    have f: "connectors (?n\<lparr>nt_err := e\<rparr>) = connectors n @ [c]" by (simp add: connectors_def)
    show ?thesis using early d len room c unfolding dialing_def by (auto simp: f nth_append)
  next
    case (called e c2)
    let ?m = "set_impl (ClientServiceEx [] (connectors n @ [c2]))
          (post (ConnectEvent_of j) (ConnectEx (cn_connectSocket c)) (connect_ok io) (?n\<lparr>nt_err := e\<rparr>))"
    have f: "connectors ?m = connectors n @ [c2]" "nt_service ?m = (nt_service n)\<lparr>sv_impl := ClientServiceEx [] (connectors n @ [c2])\<rparr>"
      "nt_held ?m = nt_held n" "nt_keep ?m = nt_keep n"
      "nt_pending ?m = nt_pending n @ (if connect_ok io then [ConnectEvent_of j] else [])"
      by (simp_all add: connectors_def post_def trace_def)
    have "dialing (if connect_ok io then Suc j else j) ?m"
      using called(2-4) d len room c(2) unfolding dialing_def f by (auto simp: nth_append less_Suc_eq)
    moreover have "(connectors n @ [c])[j := c2] = connectors n @ [c2]" using len by (simp add: list_update_append)
    then have "Connector_Connect j c io ?n = Ok (connect_ok io, ?m)"
      using called(1) by (simp add: post_def trace_def)
    moreover have "length (connectors ?m) = Suc j" using len by (simp add: f(1))
    ultimately show ?thesis using f(1,2,4) by (intro exI [of _ ?m]) (simp only: simp_thms)
  qed
qed

text \<open>How many connections are made before the first that fails.\<close>

abbreviation (input) dialed :: "(nat \<Rightarrow> connect_io) \<Rightarrow> nat \<Rightarrow> nat \<Rightarrow> nat" where
  "dialed io i m \<equiv> length (takeWhile (\<lambda>k. connect_ok (io k)) [i..<i + m])"

lemma dialed_all: "\<forall>k < m. connect_ok (io k) \<Longrightarrow> dialed io 0 m = m"
  by (subst takeWhile_eq_all_conv [THEN iffD2]) auto

lemma dialed_first:
  assumes "l < m" "\<not> connect_ok (io l)" "\<forall>k < l. connect_ok (io k)"
  shows "dialed io 0 m = l"
proof -
  have "[0..<0 + m] = [0..<l] @ l # [Suc l..<m]"
    using assms(1) upt_add_eq_append [of 0 l "m - l"] by (simp add: upt_conv_Cons)
  moreover have "takeWhile (\<lambda>k. connect_ok (io k)) ([0..<l] @ l # [Suc l..<m]) = [0..<l]"
    using assms(2,3) by (subst takeWhile_append2) auto
  ultimately show ?thesis by (simp only: length_upt diff_zero)
qed

lemma ClientServiceEx_connect_result:
  assumes "dialing i n" "length (connectors n) = i" "i + m \<le> unat (sv_MAX_SESSION_COUNT (nt_service n))"
  shows "\<exists>n'. ClientServiceEx_connect m io i n = Ok (\<forall>k \<in> {i..<i + m}. connect_ok (io k), n') \<and>
    dialing (i + dialed io i m) n' \<and> length (connectors n') = i + min m (Suc (dialed io i m)) \<and>
    nt_service n' = (nt_service n)\<lparr>sv_impl := ClientServiceEx [] (connectors n')\<rparr> \<and> nt_keep n' = nt_keep n \<and>
    ((\<forall>k \<in> {i..<i + m}. connect_ok (io k)) \<or> GetLastError (nt_err n') = error_code APP_CLIENTSERVICE_CONNECT_FAILED)"
  using assms
proof (induction m arbitrary: i n)
  case 0
  then have "nt_service n = (nt_service n)\<lparr>sv_impl := ClientServiceEx [] (connectors n)\<rparr>" by (simp add: dialing_def)
  with 0 show ?case by simp
next
  case (Suc m)
  have impl: "sv_impl (nt_service n) = ClientServiceEx [] (connectors n)" "sv_serviceType (nt_service n) = ST_Client"
    using Suc.prems(1) by (simp_all add: dialing_def)
  obtain c e where c: "Connector_new (ci_socket (io i)) n = Ok (c, n\<lparr>nt_err := e\<rparr>)" "\<not> cn_connected c"
    "ev_eventType (cn_connectEvent c) = EV_Connect"
    using impl(2) by (simp add: Connector_new_def AssertCrash_if_def)
  let ?n1 = "n\<lparr>nt_err := e\<rparr>"
  have n1: "dialing i ?n1" "connectors ?n1 = connectors n"
    using Suc.prems(1) by (simp_all add: dialing_def connectors_def)
  obtain n2 where n2: "Connector_Connect i c (io i) (set_impl (ClientServiceEx [] (connectors n @ [c])) ?n1) = Ok (connect_ok (io i), n2)"
    "dialing (if connect_ok (io i) then Suc i else i) n2" "length (connectors n2) = Suc i"
    "nt_service n2 = (nt_service n)\<lparr>sv_impl := ClientServiceEx [] (connectors n2)\<rparr>" "nt_keep n2 = nt_keep n"
    using Connector_Connect_dialing [OF n1(1) _ _ c(2,3), of "io i"] Suc.prems n1(2) by auto
  have step: "ClientServiceEx_connect (Suc m) io i n =
      (if connect_ok (io i) then ClientServiceEx_connect m io (Suc i) n2
       else Ok (False, n2\<lparr>nt_err := SetLastError APP_CLIENTSERVICE_CONNECT_FAILED (nt_err n2)\<rparr>))"
    using c(1) n2(1) impl(1) Suc.prems(2) by (simp add: CheckError_def Let_def del: error_code.simps)
  have upt: "[i..<i + Suc m] = i # [Suc i..<Suc i + m]" by (simp add: upt_rec)
  show ?case
  proof (cases "connect_ok (io i)")
    case True
    have "Suc i + m \<le> unat (sv_MAX_SESSION_COUNT (nt_service n2))" using Suc.prems(3) n2(4) by simp
    from Suc.IH [OF _ n2(3) this] n2(2) True obtain n' where n': "ClientServiceEx_connect m io (Suc i) n2 =
        Ok (\<forall>k \<in> {Suc i..<Suc i + m}. connect_ok (io k), n')" "dialing (Suc i + dialed io (Suc i) m) n'"
      "length (connectors n') = Suc i + min m (Suc (dialed io (Suc i) m))"
      "nt_service n' = (nt_service n2)\<lparr>sv_impl := ClientServiceEx [] (connectors n')\<rparr>" "nt_keep n' = nt_keep n2"
      "(\<forall>k \<in> {Suc i..<Suc i + m}. connect_ok (io k)) \<or> GetLastError (nt_err n') = error_code APP_CLIENTSERVICE_CONNECT_FAILED"
      by auto
    have "(\<forall>k \<in> {i..<i + Suc m}. connect_ok (io k)) \<longleftrightarrow> (\<forall>k \<in> {Suc i..<Suc i + m}. connect_ok (io k))"
      using True by (auto simp: le_less Suc_le_eq)
    with n' True n2(4,5) show ?thesis unfolding step upt by (intro exI [of _ n']) simp
  next
    case False
    let ?n' = "n2\<lparr>nt_err := SetLastError APP_CLIENTSERVICE_CONNECT_FAILED (nt_err n2)\<rparr>"
    have "dialing i ?n'" "connectors ?n' = connectors n2" using n2(2) False by (simp_all add: dialing_def connectors_def)
    with n2(3-5) False show ?thesis
      unfolding step upt by (intro exI [of _ ?n']) (auto simp: GetLastError_def SetLastError_def)
  qed
qed

lemma client_created_dialing:
  assumes "client_created n"
  shows "dialing 0 n" and "connectors n = []" and "\<not> sv_onGoing (nt_service n)"
  using assms by (auto simp: client_created_def dialing_def connectors_def start_failure_def Let_def split: if_splits)

lemma dialing_onGoing: "dialing j (upd_service (sv_onGoing_update (\<lambda>_. b)) n) = dialing j n"
  by (simp add: dialing_def connectors_def)

text \<open>The connections \<^verbatim>\<open>Start\<close> makes.\<close>

abbreviation (input) max_count :: "net \<Rightarrow> nat" where
  "max_count n \<equiv> unat (sv_MAX_SESSION_COUNT (nt_service n))"

lemma Start_dials:
  assumes "client_created n"
  shows "\<exists>n'. ClientServiceEx_Start io n = Ok (\<forall>k < max_count n. connect_ok (io k), n') \<and>
    sv_onGoing (nt_service n') = (\<forall>k < max_count n. connect_ok (io k)) \<and>
    max_count n' = max_count n \<and> nt_keep n' = nt_keep n \<and>
    dialing (dialed io 0 (max_count n)) n' \<and>
    length (connectors n') = min (max_count n) (Suc (dialed io 0 (max_count n))) \<and>
    ((\<forall>k < max_count n. connect_ok (io k)) \<or> GetLastError (nt_err n') = error_code APP_CLIENTSERVICE_CONNECT_FAILED)"
proof -
  note c = client_created_dialing [OF assms]
  let ?ok = "\<forall>k < max_count n. connect_ok (io k)"
  have "(\<forall>k \<in> {0..<0 + max_count n}. connect_ok (io k)) = ?ok" by auto
  with ClientServiceEx_connect_result [OF c(1), of "max_count n" io] c(2)
  obtain m where m: "ClientServiceEx_connect (max_count n) io 0 n = Ok (?ok, m)"
    "dialing (dialed io 0 (max_count n)) m" "length (connectors m) = min (max_count n) (Suc (dialed io 0 (max_count n)))"
    "nt_service m = (nt_service n)\<lparr>sv_impl := ClientServiceEx [] (connectors m)\<rparr>" "nt_keep m = nt_keep n"
    "?ok \<or> GetLastError (nt_err m) = error_code APP_CLIENTSERVICE_CONNECT_FAILED"
    by auto
  let ?n' = "if ?ok then upd_service (sv_onGoing_update (\<lambda>_. True)) m else m"
  have "Start_checks n = (True, n)" using assms by (simp add: Start_checks_result client_created_def)
  then have "ClientServiceEx_Start io n = Ok (?ok, ?n')"
    using m(1) by (auto simp: ClientServiceEx_Start_def)
  moreover have "connectors ?n' = connectors m" by (simp add: connectors_def)
  moreover have "sv_MAX_SESSION_COUNT (nt_service m) = sv_MAX_SESSION_COUNT (nt_service n)" "\<not> sv_onGoing (nt_service m)"
    using m(4) c(3) by simp_all
  ultimately show ?thesis
    using m(2,3,5,6) by (intro exI [of _ ?n']) (auto simp: dialing_onGoing)
qed

definition client_started :: "net \<Rightarrow> bool" where
  "client_started n \<longleftrightarrow> (\<exists>n0 io suc. client_created n0 \<and> ClientServiceEx_Start io n0 = Ok (suc, n))"

interpretation crun: invariant_system client_started "client_step onRecv" client_inv for onRecv
proof unfold_locales
  fix n
  assume "client_started n"
  then obtain n0 io suc where s: "client_created n0" "ClientServiceEx_Start io n0 = Ok (suc, n)"
    by (auto simp: client_started_def)
  from Start_dials [OF s(1), of io] s(2) show "client_inv n" by (auto intro: dialing_inv)
qed (rule client_inv_step)

section \<open>A connection whose call is lost\<close>

definition lost_connect :: "nat \<Rightarrow> net \<Rightarrow> bool" where
  "lost_connect k n \<longleftrightarrow> connect_inv n \<and> k < length (connectors n) \<and> k \<notin> connected_to n \<and> ConnectEvent_of k \<notin> set (nt_pending n)"

lemma lost_connect_mono:
  assumes "lost_connect k n" "connect_inv n'" "connectors n' = connectors n"
    and "count_list (nt_pending n') (ConnectEvent_of k) \<le> count_list (nt_pending n) (ConnectEvent_of k)"
  shows "lost_connect k n'"
  using assms by (metis lost_connect_def connected_to_def count_list_0_iff le_zero_eq)

lemma touch_lost:
  assumes t: "touch c r n n'" and l: "lost_connect k n"
  shows "lost_connect k n'"
proof (rule touchE [OF t])
  fix es
  assume a: "nt_service n' = nt_service n" "nt_pending n' = nt_pending n @ es" "session_of ` set es \<subseteq> {Some r}"
  have "count_list es (ConnectEvent_of k) = 0" using a(3) by (force simp: count_list_0_iff)
  then show ?thesis
    using a(2) l cli.inv_touch [OF t] by (intro lost_connect_mono [OF l _ service_fields(1) [OF a(1)]]) (simp_all add: lost_connect_def)
qed

lemma clear_lost:
  assumes "Session_clear r n = Ok n'" and l: "lost_connect k n"
  shows "lost_connect k n'"
proof -
  have i: "connect_inv n" using l by (simp add: lost_connect_def)
  then have impl: "sv_impl (nt_service n) = ClientServiceEx (session_slots n) (connectors n)" by (simp add: connect_inv_def)
  have n': "sv_impl (nt_service n') = ClientServiceEx (snd (ClientServiceEx_ReleaseSession r (session_slots n))) (connectors n)"
    "nt_pending n' = nt_pending n"
    using assms(1) by (auto simp: Session_clear_result impl split_beta split: if_splits)
  have "connectors n' = connectors n" by (rule connectors_impl [OF n'(1)])
  with n'(2) show ?thesis
    using cli.inv_clear [OF assms(1) i] by (intro lost_connect_mono [OF l]) simp_all
qed

interpretation lost: service_system "lost_connect k" for k
proof
  fix n n' :: net and c r e bs x
  show "touch c r n n' \<Longrightarrow> lost_connect k n \<Longrightarrow> lost_connect k n'" by (rule touch_lost)
  show "lost_connect k n'" if "net_kept n n'" and l: "lost_connect k n"
    using that cli.inv_kept [OF that(1)] by (intro lost_connect_mono [OF l _ service_fields(1)])
      (simp_all add: net_kept_def lost_connect_def)
  show "lost_connect k (trace x n)" if l: "lost_connect k n"
    using that cli.inv_trace by (intro lost_connect_mono [OF l _ service_fields(1)]) (simp_all add: trace_def lost_connect_def)
  show "lost_connect k n'" if s: "system_stores e bs n = Ok n'" and l: "lost_connect k n"
    using l cli.inv_stores [OF s] stores_keeps [OF s]
    by (intro lost_connect_mono [OF l _ service_fields(1)]) (simp_all add: lost_connect_def)
  show "Session_clear r n = Ok n' \<Longrightarrow> lost_connect k n \<Longrightarrow> lost_connect k n'" by (rule clear_lost)
  show "lost_connect k (n\<lparr>nt_pending := remove1 e (nt_pending n)\<rparr>)" if l: "lost_connect k n" and "session_of e = Some r"
    using l dequeue_connect_inv by (intro lost_connect_mono [OF l _ service_fields(1)]) (simp_all add: lost_connect_def)
qed

lemma lost_completion:
  assumes e: "cp_overlapped c \<in> set (nt_pending n)" and i: "client_inv n" and l: "lost_connect k n"
    and fresh: "fresh_session (cp_new c) n" and p: "process_completion onRecv c n = Some (Ok n')"
  shows "lost_connect k n'"
proof -
  let ?e = "cp_overlapped c"
  have a: "connect_inv n" and s: "session_inv n" using i by (simp_all add: client_inv_def)
  show ?thesis
  proof (cases "session_of ?e")
    case (Some r)
    show ?thesis using lost.process_both [OF e Some l s p] ..
  next
    case None
    then obtain j where j: "?e = ConnectEvent_of j" using e a by (cases ?e) (auto simp: connect_inv_def)
    have "j \<noteq> k" using l e j by (auto simp: lost_connect_def)
    have d: "Connector_Dispatch j (connectors n ! j) EV_Connect (cp_new c) (cp_io c)
        (n\<lparr>nt_pending := remove1 (ConnectEvent_of j) (nt_pending n)\<rparr>) = Ok n'"
      using connect_completion_dispatch [OF a j e [unfolded j]] p by simp
    note n' = connect_completion_inv [OF i e [unfolded j] fresh d]
    have "count_list (nt_pending n') (ConnectEvent_of k) = 0"
      using n'(4) [of "ConnectEvent_of k"] l by (simp add: lost_connect_def count_list_0_iff)
    with n'(1-3) \<open>j \<noteq> k\<close> l show ?thesis by (simp add: lost_connect_def client_inv_def count_list_0_iff)
  qed
qed

lemma lost_step:
  assumes i: "client_inv n" and l: "lost_connect k n" and "client_step onRecv n n'"
  shows "lost_connect k n'"
  using assms(3)
proof cases
  case (client_completion c bs n1)
  note keep = stores_keeps [OF client_completion(3)]
  have "client_inv n1" "lost_connect k n1"
    using cli.stores_both [OF client_completion(3)] lost.inv_stores [OF client_completion(3) l] i by (simp_all add: client_inv_def)
  moreover have "fresh_session (cp_new c) n1"
    using client_completion(2) keep(1-3) by (simp add: fresh_session_def unused_def session_alive_def)
  ultimately show ?thesis
    using lost_completion [OF _ _ _ _ client_completion(4)] client_completion(1) keep(3) by simp
next
  case (client_failed e)
  then show ?thesis
    using l dequeue_connect_inv by (intro lost_connect_mono [OF l _ service_fields(1)]) (simp_all add: lost_connect_def)
next
  case (client_send r bufs io)
  then show ?thesis using lost.send_both l i by (simp add: client_inv_def)
next
  case (client_disconnect r io)
  then show ?thesis using lost.disconnect_both l i by (simp add: client_inv_def)
qed

interpretation lrun: invariant_system "\<lambda>n. client_inv n \<and> lost_connect k n" "client_step onRecv" "\<lambda>n. client_inv n \<and> lost_connect k n"
  for k onRecv
  by unfold_locales (auto intro: lost_step client_inv_step)

section \<open>Properties of a running client\<close>

text \<open>A client of two connections as the application creates it, and calls that all go well.\<close>

definition demo_client :: net where
  "demo_client = demo_net\<lparr>nt_service := ClientServiceEx_new True (AddrUtils_GetMyAddress 8080) True 2,
     nt_pending := [], nt_keep := True\<rparr>"

abbreviation (input) demo_connect :: "nat \<Rightarrow> connect_io" where
  "demo_connect \<equiv> \<lambda>i. \<lparr>ci_socket = of_nat (i + 20), ci_registered = True, ci_reuse = 0, ci_bind = 0,
     ci_connect = \<lparr>io_res = 0, io_error = WSA_IO_PENDING\<rparr>\<rparr>"

lemma demo_client_created: "client_created demo_client"
  by (simp add: client_created_def demo_client_def demo_net_def ClientServiceEx_new_def Service_new_def start_failure_def Let_def)

lemma demo_client_count: "max_count demo_client = 2"
  by (simp add: demo_client_def ClientServiceEx_new_def Service_new_def)

lemma demo_connect_ok: "connect_ok (demo_connect i)"
  by (simp add: connect_ok_def SOCKET_ERROR_def)

lemma demo_client_runs:
  "\<exists>n. client_started n \<and> dialing 2 n \<and> length (connectors n) = 2 \<and> nt_keep n \<and> sv_onGoing (nt_service n)"
proof -
  have all: "\<forall>k < 2. connect_ok (demo_connect k)" using demo_connect_ok by blast
  then have "(\<forall>k < 2. connect_ok (demo_connect k)) = True" by simp
  with Start_dials [OF demo_client_created, of demo_connect]
  obtain n where n: "ClientServiceEx_Start demo_connect demo_client = Ok (True, n)" "sv_onGoing (nt_service n)"
    "dialing 2 n" "length (connectors n) = 2" "nt_keep n = nt_keep demo_client"
    unfolding demo_client_count dialed_all [OF all] by (auto simp only: simp_thms)
  moreover have "nt_keep demo_client" by (simp add: demo_client_def)
  ultimately show ?thesis using demo_client_created unfolding client_started_def by blast
qed

text \<open>\<^verbatim>\<open>ClientServiceEx::Start\<close> on a service that meets its conditions always returns. It answers true exactly
  when all \<^verbatim>\<open>MAX_SESSION_COUNT\<close> connections could be posted, and only then is the service running; every
  connector then has exactly one call in flight. At the first connection that fails it stops and
  answers false with \<^verbatim>\<open>APP_CLIENTSERVICE_CONNECT_FAILED\<close>, while the calls of the connections before it
  stay in flight and their connectors, with the one that failed, stay in the service.\<close>

theorem ClientServiceEx_Start_result:
  assumes "client_created n"
  shows "\<exists>n'. ClientServiceEx_Start io n = Ok (\<forall>k < max_count n. connect_ok (io k), n') \<and>
    (sv_onGoing (nt_service n') \<longleftrightarrow> (\<forall>k < max_count n. connect_ok (io k))) \<and>
    (if \<forall>k < max_count n. connect_ok (io k)
     then length (connectors n') = max_count n \<and> nt_pending n' = map ConnectEvent_of [0..<max_count n]
     else GetLastError (nt_err n') = error_code APP_CLIENTSERVICE_CONNECT_FAILED \<and>
       nt_pending n' = map ConnectEvent_of [0..<LEAST k. \<not> connect_ok (io k)] \<and>
       length (connectors n') = Suc (LEAST k. \<not> connect_ok (io k)))"
proof -
  define ok where "ok \<longleftrightarrow> (\<forall>k < max_count n. connect_ok (io k))"
  define d where "d = dialed io 0 (max_count n)"
  define l where "l = (LEAST k. \<not> connect_ok (io k))"
  obtain n' where n': "ClientServiceEx_Start io n = Ok (ok, n')" "sv_onGoing (nt_service n') = ok"
    "dialing d n'" "length (connectors n') = min (max_count n) (Suc d)"
    "ok \<or> GetLastError (nt_err n') = error_code APP_CLIENTSERVICE_CONNECT_FAILED"
    using Start_dials [OF assms, of io] unfolding ok_def d_def by blast
  have p: "nt_pending n' = map ConnectEvent_of [0..<d]" using n'(3) by (simp add: dialing_def)
  have all: "d = max_count n" if ok using that dialed_all unfolding ok_def d_def by blast
  have first: "d = l \<and> l < max_count n" if no: "\<not> ok"
  proof -
    obtain k where k: "k < max_count n" "\<not> connect_ok (io k)" using no unfolding ok_def by blast
    have "\<not> connect_ok (io l)" "l \<le> k" using k(2) unfolding l_def by (rule LeastI, rule Least_le)
    moreover have "\<forall>k < l. connect_ok (io k)" using not_less_Least unfolding l_def by blast
    ultimately show ?thesis using k(1) dialed_first [of l "max_count n" io] unfolding d_def by simp
  qed
  show ?thesis
    unfolding ok_def [symmetric] l_def [symmetric]
    using n'(1,2,4,5) p all first by (intro exI [of _ n']) (cases ok; simp)
qed

theorem ClientServiceEx_Start_result_witness:
  "\<exists>n'. ClientServiceEx_Start (\<lambda>i. (demo_connect i)\<lparr>ci_registered := i = 0\<rparr>) demo_client = Ok (False, n') \<and>
     \<not> sv_onGoing (nt_service n') \<and> nt_pending n' = [ConnectEvent_of 0] \<and> length (connectors n') = 2"
proof -
  define io where "io = (\<lambda>i. (demo_connect i)\<lparr>ci_registered := i = 0\<rparr>)"
  have ok: "connect_ok (io k) \<longleftrightarrow> k = 0" for k by (simp add: io_def connect_ok_def SOCKET_ERROR_def)
  have "(LEAST k. k \<noteq> 0) = (1::nat)" by (rule Least_equality) auto
  moreover have "\<not> (\<forall>k < 2. k = (0::nat))" by (auto intro!: exI [of _ 1])
  ultimately show ?thesis
    using ClientServiceEx_Start_result [OF demo_client_created, of io]
    unfolding ok demo_client_count by (auto simp only: io_def) simp_all
qed

text \<open>C7. In every state a running client can reach, whether its calls complete or fail and whatever the
  application does: a connector's call is in flight at most once and only while the connector has not
  connected, every connector that has connected has made exactly one slot in the list of sessions, no
  session is in two slots, there are at most \<^verbatim>\<open>MAX_SESSION_COUNT\<close> slots, and of each session at most one
  \<^verbatim>\<open>WSARecv\<close> is in flight.\<close>

theorem client_connections:
  assumes "reach client_started (client_step onRecv) n"
  shows "(\<forall>k. count_list (nt_pending n) (ConnectEvent_of k) \<le> (if k < length (connectors n) \<and> k \<notin> connected_to n then 1 else 0)) \<and>
    length (session_slots n) = card (connected_to n) \<and> (\<forall>r. count_list (session_slots n) (Some r) \<le> 1) \<and>
    length (session_slots n) \<le> max_count n \<and> (\<forall>r. count_list (nt_pending n) (RecvEvent_of r) \<le> 1)"
proof -
  have "client_inv n" using assms by (rule crun.reach_inv)
  then have a: "connect_inv n" and s: "session_inv n" by (simp_all add: client_inv_def)
  have "count_list (nt_pending n) (ConnectEvent_of k) \<le> (if k < length (connectors n) \<and> k \<notin> connected_to n then 1 else 0)" for k
    using a by (auto simp: connect_inv_def count_list_0_iff)
  moreover have "card (connected_to n) \<le> card {..<length (connectors n)}"
    by (intro card_mono) (auto simp: connected_to_def)
  moreover have "length (connectors n) \<le> max_count n" "length (session_slots n) = card (connected_to n)"
    "\<forall>r. count_list (session_slots n) (Some r) \<le> 1" using a by (simp_all add: connect_inv_def)
  ultimately show ?thesis using s by (simp add: session_inv_def)
qed

theorem client_connections_witness:
  "\<exists>n. reach client_started (client_step PacketSession_OnRecv) n \<and> length (connectors n) = 2 \<and> session_slots n = [] \<and>
     count_list (nt_pending n) (ConnectEvent_of 0) \<le> 1 \<and> count_list (nt_pending n) (ConnectEvent_of 2) = 0"
proof -
  obtain n where n: "client_started n" "dialing 2 n" "length (connectors n) = 2" using demo_client_runs by blast
  have r: "reach client_started (client_step PacketSession_OnRecv) n" using n(1) by (rule reach_init)
  have "connected_to n = {}" using n(2) by (auto simp: dialing_def connected_to_def)
  with client_connections [OF r] n(3) r show ?thesis
    by (intro exI [of _ n]) (auto dest: spec [of _ "2::nat"] spec [of _ "0::nat"])
qed

text \<open>In a running client whose application keeps a pointer to every connected session, each event that is in
  flight can be dispatched in every reachable state: its memory is still there, it has its type, and its
  weak pointer still leads to the object that posted the call.\<close>

theorem client_events_valid:
  assumes "reach client_started (client_step onRecv) n" "nt_keep n" "e \<in> set (nt_pending n)"
  shows "\<exists>ev. get_event e n = Some ev \<and> ev_eventType ev = event_type e \<and>
    lock_object (ev_iocpObject ev) n = Some (poster e)"
proof -
  have "client_inv n" using assms(1) by (rule crun.reach_inv)
  then have a: "connect_inv n" and s: "session_inv n" by (simp_all add: client_inv_def)
  show ?thesis
  proof (cases "session_of e")
    case (Some r)
    then have "Some r \<in> session_of ` set (nt_pending n)" using assms(3) by (metis image_eqI)
    then have "session_alive r n" using s assms(2) by (simp add: session_inv_def session_alive_def)
    with session_event_found [OF s assms(3) Some] poster_session [OF Some] show ?thesis by simp
  next
    case None
    then obtain k where k: "e = ConnectEvent_of k" using assms(3) a by (cases e) (auto simp: connect_inv_def)
    have impl: "sv_impl (nt_service n) = ClientServiceEx (session_slots n) (connectors n)" using a by (simp add: connect_inv_def)
    have c: "k < length (connectors n)" "ev_iocpObject (cn_connectEvent (connectors n ! k)) = Some (Connector_obj k)"
      using a assms(3) k by (auto simp: connect_inv_def)
    have "connectors n ! k \<in> set (connectors n)" using c(1) by simp
    then have "ev_eventType (cn_connectEvent (connectors n ! k)) = EV_Connect" using a by (simp add: connect_inv_def)
    with c show ?thesis by (simp add: k impl)
  qed
qed

theorem client_events_valid_witness:
  "\<exists>n ev. reach client_started (client_step PacketSession_OnRecv) n \<and> get_event (ConnectEvent_of 1) n = Some ev \<and>
     ev_eventType ev = EV_Connect \<and> lock_object (ev_iocpObject ev) n = Some (Connector_obj 1)"
proof -
  obtain n where n: "client_started n" "dialing 2 n" "nt_keep n" using demo_client_runs by blast
  have r: "reach client_started (client_step PacketSession_OnRecv) n" using n(1) by (rule reach_init)
  have "ConnectEvent_of 1 \<in> set (nt_pending n)" using n(2) by (simp add: dialing_def)
  with client_events_valid [OF r n(3), of "ConnectEvent_of 1"] r show ?thesis by auto
qed

text \<open>The new session of a connection, from the call of the factory on.\<close>

lemma AddNewSession_registers:
  assumes "sv_impl (nt_service n) = ClientServiceEx ss conns" "sv_iocpCore (nt_service n)" "sv_sessionFactory (nt_service n)"
  shows "ns_ref x = None \<Longrightarrow> AddNewSession x n = Fault NullDereference"
    and "ns_ref x = Some r \<Longrightarrow> \<exists>n1. AddNewSession x n = Ok (if ns_registered x then Some r else None, n1)"
proof -
  obtain m where m: "Session_new r (ns_socket x) n = Ok m" "nt_service m = nt_service n"
    by (simp add: Session_new_def)
  let ?m = "set_impl (ClientServiceEx (ss @ [Some r]) conns) m"
  have "AddNewSession x n = Ok (if ns_registered x then Some r else None, if ns_registered x then ?m
      else ?m\<lparr>nt_err := SetLastError APP_REGISTER_HANDLE_FAILED_IOCP_CORE (nt_err ?m)\<rparr>)" if "ns_ref x = Some r"
    using assms that m
    by (simp add: AddNewSession_def ClientServiceEx_AddNewSession_def call_sessionFactory_def register_session_def
        RegisterHandle_result)
  then show "ns_ref x = Some r \<Longrightarrow> \<exists>n1. AddNewSession x n = Ok (if ns_registered x then Some r else None, n1)" by blast
qed (use assms in \<open>simp add: AddNewSession_def ClientServiceEx_AddNewSession_def call_sessionFactory_def register_session_def\<close>)

lemma set_connected_receives:
  assumes r: "recv_start (nt_session n r)" and c: "sv_serviceType (nt_service n) = ST_Client"
    and sk: "sk = (if sock = INVALID_SOCKET then se_socket (nt_session n r) else sock)"
  shows "\<exists>n'. Session_set_connected r sock io n = Ok n' \<and> nt_service n' = nt_service n \<and> se_connected (nt_session n' r) \<and>
    nt_trace n' = nt_trace n @ [OnConnected r, Posted (WSARecv sk 0 RECV_BUFFER_SIZE) (posted_ok io)] \<and>
    nt_pending n' = nt_pending n @ (if posted_ok io then [RecvEvent_of r] else [])"
proof -
  let ?m = "Session_OnConnected r (upd_session r (\<lambda>s. s\<lparr>se_service := True, se_socket := sk, se_connected := True\<rparr>) n)"
  have "recv_ready r ?m" using r by (simp add: recv_ready_def recv_start_def Session_OnConnected_def Let_def)
  then have "Session_set_connected r sock io n = Ok (recv_armed r io ?m)"
    using c sk by (auto simp: Session_set_connected_def Session_set_socket_def CheckError_def Session_register_recv_ready comp_def)
  then show ?thesis
    by (simp add: recv_armed_def post_def trace_def Session_OnConnected_def)
qed

text \<open>C28. The completion of a connect in a reachable state of a client. When the factory of the application makes
  no session, or the new session cannot be registered with the completion port, the handler
  dereferences a null pointer. Otherwise it always returns: the connector has connected, the new session
  has a slot, is connected on the connector's socket, \<^verbatim>\<open>OnConnected\<close> is called on it and then its first
  receive is posted.\<close>

theorem client_connect_completion:
  assumes "reach client_started (client_step onRecv) n" "cp_overlapped c = ConnectEvent_of k"
    and "ConnectEvent_of k \<in> set (nt_pending n)" "fresh_session (cp_new c) n"
    and "sk = (if cn_connectSocket (connectors n ! k) = INVALID_SOCKET then ns_socket (cp_new c) else cn_connectSocket (connectors n ! k))"
  shows "case ns_ref (cp_new c) of
      None \<Rightarrow> process_completion onRecv c n = Some (Fault NullDereference)
    | Some r \<Rightarrow>
        if \<not> ns_registered (cp_new c) then process_completion onRecv c n = Some (Fault NullDereference)
        else \<exists>n'. process_completion onRecv c n = Some (Ok n') \<and> connected_to n' = insert k (connected_to n) \<and>
          session_slots n' = session_slots n @ [Some r] \<and> se_connected (nt_session n' r) \<and>
          nt_trace n' = nt_trace n @ [OnConnected r,
            Posted (WSARecv sk 0 RECV_BUFFER_SIZE) (posted_ok (cp_io c))] \<and>
          nt_pending n' = remove1 (ConnectEvent_of k) (nt_pending n) @
            (if posted_ok (cp_io c) then [RecvEvent_of r] else [])"
proof -
  let ?x = "cp_new c" and ?n0 = "n\<lparr>nt_pending := remove1 (ConnectEvent_of k) (nt_pending n)\<rparr>"
  have i: "client_inv n" using assms(1) by (rule crun.reach_inv)
  then have a: "connect_inv n" by (simp add: client_inv_def)
  note d = connect_completion_dispatch [OF a assms(2,3), of onRecv]
  have sv: "sv_impl (nt_service ?n0) = ClientServiceEx (session_slots n) (connectors n)" "sv_iocpCore (nt_service ?n0)"
    "sv_sessionFactory (nt_service ?n0)" "sv_serviceType (nt_service ?n0) = ST_Client"
    using a by (simp_all add: connect_inv_def)
  have f: "connectors ?n0 = connectors n" "session_slots ?n0 = session_slots n" "connected_to ?n0 = connected_to n"
    by (rule service_fields; simp)+
  note add = AddNewSession_registers [OF sv(1-3)]
  show ?thesis
  proof (cases "ns_ref ?x")
    case None
    then show ?thesis using d add(1) by (simp add: Connector_Dispatch_def)
  next
    case (Some r)
    then obtain n1 where n1: "AddNewSession ?x ?n0 = Ok (if ns_registered ?x then Some r else None, n1)" using add(2) by blast
    show ?thesis
    proof (cases "ns_registered ?x")
      case False
      then show ?thesis using d n1 Some by (simp add: Connector_Dispatch_def Connector_processConnect_def Let_def)
    next
      case True
      obtain cn n3 where w: "connected_with k cn r ?n0 n3" "se_socket (nt_session n3 r) = ns_socket ?x" and
        dn: "Connector_Dispatch k (connectors n ! k) EV_Connect ?x (cp_io c) ?n0 =
          Session_set_connected r (cn_connectSocket (connectors n ! k)) (cp_io c) n3"
        using Connector_Dispatch_added [of ?n0 ?x r n1 k "cp_io c"] sv(1) n1 True f by auto
      have "recv_start (nt_session n3 r)" "sv_serviceType (nt_service n3) = ST_Client"
        using w(1) sv(4) by (simp_all add: connected_with_def)
      from set_connected_receives [OF this assms(5) [folded w(2)], of "cp_io c"]
      obtain n' where n': "Session_set_connected r (cn_connectSocket (connectors n ! k)) (cp_io c) n3 = Ok n'"
        "nt_service n' = nt_service n3" "se_connected (nt_session n' r)"
        "nt_trace n' = nt_trace n3 @ [OnConnected r, Posted (WSARecv sk 0 RECV_BUFFER_SIZE) (posted_ok (cp_io c))]"
        "nt_pending n' = nt_pending n3 @ (if posted_ok (cp_io c) then [RecvEvent_of r] else [])"
        by blast
      have "connected_to n' = insert k (connected_to n)"
        using connect_completion_inv(2) [OF i assms(3,4)] dn n'(1) by simp
      moreover have "session_slots n' = session_slots n @ [Some r]"
        using w n'(2) f(2) by (simp add: session_slots_def [of n'] connected_with_def)
      ultimately show ?thesis using Some True d dn n' w by (simp add: connected_with_def)
    qed
  qed
qed

theorem client_connect_completion_witness:
  "\<exists>n n'. reach client_started (client_step PacketSession_OnRecv) n \<and>
     process_completion PacketSession_OnRecv (demo_completion\<lparr>cp_overlapped := ConnectEvent_of 0,
       cp_new := \<lparr>ns_ref = Some 7, ns_socket = 9, ns_registered = True, ns_close = 0\<rparr>\<rparr>) n = Some (Ok n') \<and>
     connected_to n' = {0} \<and> session_slots n' = [Some 7] \<and> nt_pending n' = [ConnectEvent_of 1, RecvEvent_of 7]"
proof -
  let ?c = "demo_completion\<lparr>cp_overlapped := ConnectEvent_of 0,
       cp_new := \<lparr>ns_ref = Some 7, ns_socket = 9, ns_registered = True, ns_close = 0\<rparr>\<rparr>"
  obtain n where n: "client_started n" "dialing 2 n" using demo_client_runs by blast
  have r: "reach client_started (client_step PacketSession_OnRecv) n" using n(1) by (rule reach_init)
  have p: "nt_pending n = [ConnectEvent_of 0, ConnectEvent_of 1]" using n(2) by (simp add: dialing_def numeral_2_eq_2)
  have none: "connected_to n = {}" "session_slots n = []" "\<not> session_alive 7 n"
    using n(2) by (auto simp: dialing_def connected_to_def session_slots_def session_alive_def)
  then have "fresh_session (cp_new ?c) n" by (simp add: fresh_session_def unused_def p)
  from client_connect_completion [OF r, of ?c 0, OF _ _ this refl] p none r show ?thesis
    by (auto simp: SOCKET_ERROR_def)
qed

text \<open>C39. A connect that fails is dequeued by the completion port, logged and dropped: its connector is then
  neither connected nor waiting, and in no later state of the client will it be. The service keeps fewer
  sessions than \<^verbatim>\<open>MAX_SESSION_COUNT\<close> for ever, while \<^verbatim>\<open>GetCurrentSessionCount\<close> goes on answering that number.\<close>

theorem client_lost_connect:
  assumes "reach client_started (client_step onRecv) n" "ConnectEvent_of k \<in> set (nt_pending n)"
    and "reach (\<lambda>m. m = n\<lparr>nt_pending := remove1 (ConnectEvent_of k) (nt_pending n)\<rparr>) (client_step onRecv) n'"
  shows "k < length (connectors n') \<and> k \<notin> connected_to n' \<and> ConnectEvent_of k \<notin> set (nt_pending n') \<and>
    length (session_slots n') < ClientServiceEx_GetCurrentSessionCount n'"
proof -
  let ?n0 = "n\<lparr>nt_pending := remove1 (ConnectEvent_of k) (nt_pending n)\<rparr>"
  have i: "client_inv n" using assms(1) by (rule crun.reach_inv)
  then have a: "connect_inv n" by (simp add: client_inv_def)
  have "client_step onRecv n ?n0" using assms(2) by (rule client_failed)
  then have "client_inv ?n0" by (rule client_inv_step [OF i])
  moreover have "count_list (nt_pending n) (ConnectEvent_of k) \<le> 1" using a by (simp add: connect_inv_def)
  then have "ConnectEvent_of k \<notin> set (nt_pending ?n0)" by (subst count_list_0_iff [symmetric]) simp
  moreover have "k < length (connectors n)" "k \<notin> connected_to n" using a assms(2) by (auto simp: connect_inv_def)
  moreover have "connectors ?n0 = connectors n" "connected_to ?n0 = connected_to n" by (rule service_fields; simp)+
  ultimately have start: "client_inv ?n0" "lost_connect k ?n0" by (simp_all add: lost_connect_def client_inv_def)
  from assms(3) have "reach (\<lambda>n. client_inv n \<and> lost_connect k n) (client_step onRecv) n'"
    by (rule reach_starts) (use start in simp)
  then have n': "client_inv n'" "lost_connect k n'" using lrun.reach_inv by blast+
  then have "card (connected_to n') \<le> card ({..<length (connectors n')} - {k})"
    by (intro card_mono) (auto simp: connected_to_def lost_connect_def)
  with n' show ?thesis
    by (auto simp: lost_connect_def connect_inv_def ClientServiceEx_GetCurrentSessionCount_def)
qed

theorem client_lost_connect_witness:
  "\<exists>n. reach client_started (client_step PacketSession_OnRecv) n \<and> nt_pending n = [ConnectEvent_of 1] \<and>
     length (session_slots n) < ClientServiceEx_GetCurrentSessionCount n"
proof -
  obtain n where n: "client_started n" "dialing 2 n" using demo_client_runs by blast
  let ?n0 = "n\<lparr>nt_pending := remove1 (ConnectEvent_of 0) (nt_pending n)\<rparr>"
  have r: "reach client_started (client_step PacketSession_OnRecv) n" using n(1) by (rule reach_init)
  have p: "nt_pending n = [ConnectEvent_of 0, ConnectEvent_of 1]" using n(2) by (simp add: dialing_def numeral_2_eq_2)
  then have "client_step PacketSession_OnRecv n ?n0" by (intro client_failed) simp
  with r have "reach client_started (client_step PacketSession_OnRecv) ?n0" by (rule reach_step)
  moreover have "reach (\<lambda>m. m = ?n0) (client_step PacketSession_OnRecv) ?n0" by (rule reach_init) simp
  from client_lost_connect [OF r _ this] p have "length (session_slots ?n0) < ClientServiceEx_GetCurrentSessionCount ?n0" by simp
  ultimately show ?thesis using p by (intro exI [of _ ?n0]) simp
qed

end
