(* ===== verification/Program_Start.thy ===== *)
theory Program_Start
  imports Test_Programs Server_Runs Client_Runs
begin

text \<open>
  How the two test programs start: the first half of \<^verbatim>\<open>main\<close> in \<^verbatim>\<open>src/TestServer/TestServer.cpp\<close> and
  \<^verbatim>\<open>src/TestClient/TestClient.cpp\<close>, from the address to the result of \<^verbatim>\<open>Start\<close>. The session managers' factories
  always make a session, and the session classes keep a pointer to every connected session. What is proved
  of running services in \<open>Server_Runs\<close> and \<open>Client_Runs\<close> then holds of the programs.
\<close>

section \<open>Definitions\<close>

abbreviation (input) PORT :: uint16 where "PORT \<equiv> 8900"

definition program_net :: "net \<Rightarrow> bool" where
  "program_net n \<longleftrightarrow> nt_pending n = [] \<and> nt_held n = [] \<and> nt_keep n"

text \<open>\<open>Inl\<close> is the exit code of \<^verbatim>\<open>main\<close>; \<open>pton\<close> is \<^verbatim>\<open>InetPton\<close>.\<close>

definition TestServer_start ::
    "(string \<Rightarrow> uint32 option) \<Rightarrow> listen_io \<Rightarrow> accept_io list \<Rightarrow> net \<Rightarrow> (int32 + net) outcome option" where
  "TestServer_start pton io xs n =
     (let addr = AddrUtils_GetTcpAddress pton ''127.0.0.1'' PORT;
          server = ServerService_new True addr True 100 100
      in case ServerService_Start io xs (n\<lparr>nt_service := server\<rparr>) of
           None \<Rightarrow> None
         | Some (Fault f) \<Rightarrow> Some (Fault f)
         | Some (Ok (suc, n1)) \<Rightarrow> Some (Ok (if suc = False then Inl (- 1) else Inr n1)))"

definition TestClient_start ::
    "(string \<Rightarrow> uint32 option) \<Rightarrow> (nat \<Rightarrow> connect_io) \<Rightarrow> net \<Rightarrow> (int32 + net) outcome" where
  "TestClient_start pton io n =
     (let addr = AddrUtils_GetTcpAddress pton ''127.0.0.1'' PORT;
          client = ClientServiceEx_new True addr True 10
      in and_then (ClientServiceEx_Start io (n\<lparr>nt_service := client\<rparr>)) (\<lambda>(suc, n1).
           Ok (if suc = False then Inl (- 1) else Inr n1)))"

section \<open>Properties\<close>

lemma TestServer_created:
  "program_net n \<Longrightarrow>
     server_created (n\<lparr>nt_service := ServerService_new True (AddrUtils_GetTcpAddress pton ip PORT) True 100 100\<rparr>)"
  by (simp add: program_net_def server_created_def ServerService_new_def Service_new_def start_failure_def Let_def)

lemma TestClient_created:
  "program_net n \<Longrightarrow>
     client_created (n\<lparr>nt_service := ClientServiceEx_new True (AddrUtils_GetTcpAddress pton ip PORT) True 10\<rparr>)"
  by (simp add: program_net_def client_created_def ClientServiceEx_new_def Service_new_def start_failure_def Let_def)

text \<open>The test server runs exactly when its socket calls succeed, given a hundred attempts that do; otherwise it
  ends with exit code -1. When it runs, it is a started server whose events in flight can all be
  dispatched.\<close>

theorem TestServer_start_result:
  assumes n: "program_net n" and ok: "\<forall>x \<in> set xs. attempt_ok x" "100 \<le> length (filter accepted xs)"
    and fresh: "fresh_attempts xs (n\<lparr>nt_service := ServerService_new True (AddrUtils_GetTcpAddress pton ''127.0.0.1'' PORT) True 100 100\<rparr>)"
  shows "if listen_ok io
    then \<exists>n'. TestServer_start pton io xs n = Some (Ok (Inr n')) \<and> server_started n' \<and> sv_onGoing (nt_service n') \<and> nt_keep n'
    else TestServer_start pton io xs n = Some (Ok (Inl (- 1)))"
proof -
  let ?n = "n\<lparr>nt_service := ServerService_new True (AddrUtils_GetTcpAddress pton ''127.0.0.1'' PORT) True 100 100\<rparr>"
  note c = TestServer_created [OF n, of pton "''127.0.0.1''"]
  obtain m where m: "listening m" "\<And>xs. ServerService_Start io xs ?n =
       (if listen_ok io
        then (case StartListen_accepts MAX_ACCEPT_COUNT xs m of
                None \<Rightarrow> None
              | Some (Fault f) \<Rightarrow> Some (Fault f)
              | Some (Ok (_, n2)) \<Rightarrow> Some (Ok (finish_start APP_SERVERSERVICE_LISTEN_FAILED True n2)))
        else Some (Ok (finish_start APP_SERVERSERVICE_LISTEN_FAILED False m)))"
    using ServerService_Start_unfold [OF c, of io] by blast
  show ?thesis
  proof (cases "listen_ok io")
    case True
    obtain ys n2 where "StartListen_accepts MAX_ACCEPT_COUNT xs m = Some (Ok (ys, n2))"
      using StartListen_accepts_returns [OF m(1) ok] by blast
    then obtain n' where n': "ServerService_Start io xs ?n = Some (Ok (True, n'))" "sv_onGoing (nt_service n')"
      using True m(2) by (simp add: finish_start_result del: StartListen_accepts.simps)
    have "server_started n'" using c fresh n'(1) unfolding server_started_def by blast
    moreover have "nt_keep n'" using ServerService_Start_inv(2) [OF c fresh n'(1)] n by (simp add: program_net_def)
    ultimately show ?thesis using True n' by (simp add: TestServer_start_def Let_def)
  next
    case False
    then show ?thesis using m(2) by (simp add: TestServer_start_def Let_def finish_start_result)
  qed
qed

text \<open>The test client runs exactly when all of its ten connections could be posted.\<close>

theorem TestClient_start_result:
  assumes n: "program_net n"
  shows "if \<forall>k < 10. connect_ok (io k)
    then \<exists>n'. TestClient_start pton io n = Ok (Inr n') \<and> client_started n' \<and> sv_onGoing (nt_service n') \<and> nt_keep n' \<and>
      length (connectors n') = 10
    else TestClient_start pton io n = Ok (Inl (- 1))"
proof -
  let ?n = "n\<lparr>nt_service := ClientServiceEx_new True (AddrUtils_GetTcpAddress pton ''127.0.0.1'' PORT) True 10\<rparr>"
  note c = TestClient_created [OF n, of pton "''127.0.0.1''"]
  have max: "max_count ?n = 10" by (simp add: ClientServiceEx_new_def Service_new_def)
  define ok where "ok \<longleftrightarrow> (\<forall>k < 10. connect_ok (io k))"
  obtain n' where n': "ClientServiceEx_Start io ?n = Ok (ok, n')" "sv_onGoing (nt_service n') = ok" "nt_keep n' = nt_keep ?n"
    "length (connectors n') = min 10 (Suc (dialed io 0 10))"
    using Start_dials [OF c, of io] unfolding max ok_def by blast
  have "client_started n'" using c n'(1) unfolding client_started_def by blast
  moreover have "length (connectors n') = 10" if ok
    using n'(4) dialed_all [of 10 io] that unfolding ok_def by (metis min.absorb1 Suc_n_not_le_n nat_le_linear)
  moreover have "nt_keep n'" using n'(3) n by (simp add: program_net_def)
  ultimately show ?thesis
    using n'(1,2) unfolding ok_def [symmetric] by (cases ok) (simp_all add: TestClient_start_def Let_def)
qed

text \<open>So the test client never keeps more sessions than connectors, whatever happens after its start, and no session
  has two receives in flight.\<close>

corollary TestClient_sessions:
  assumes "program_net n" "TestClient_start pton io n = Ok (Inr n1)"
    and "reach (\<lambda>m. m = n1) (client_step onRecv) n2"
  shows "length (session_slots n2) \<le> length (connectors n2) \<and> (\<forall>r. count_list (nt_pending n2) (RecvEvent_of r) \<le> 1)"
proof -
  have "client_started n1"
    using TestClient_start_result [OF assms(1), of io pton] assms(2) by (auto split: if_splits)
  from assms(3) this have "reach client_started (client_step onRecv) n2"
    by (rule reach_starts)
  then have "client_inv n2" by (rule crun.reach_inv)
  then have "connect_inv n2" "session_inv n2" by (simp_all add: client_inv_def)
  moreover have "card (connected_to n2) \<le> card {..<length (connectors n2)}"
    by (intro card_mono) (auto simp: connected_to_def)
  ultimately show ?thesis by (simp add: connect_inv_def session_inv_def)
qed

end
