(* ===== verification/Spec2Isabelle.thy ===== *)
theory Spec2Isabelle
  imports Guarded_Objects Pooled_Objects Lib_Test Task_Threads Session_Agree Flush_Threads Packet_Link Program_Start
begin

text \<open>
  NetCore, the network library under \<^verbatim>\<open>src/MyNetworkLib/\<close>: a C++ wrapper of Windows sockets with
  completion ports, pooled memory, packet sessions, job serializers and threads; the programs under
  \<^verbatim>\<open>src/TestServer/\<close>, \<^verbatim>\<open>src/TestClient/\<close> and \<^verbatim>\<open>src/LibTest/\<close> that use it, and the packet types under
  \<^verbatim>\<open>src/includes/fbs/\<close> that the first two exchange. This development models their own code and
  proves what makes its parts correct. Paths below are relative to \<^verbatim>\<open>src/MyNetworkLib/\<close>.

  \<^bold>\<open>How the program is put together.\<close> An application calls \<^verbatim>\<open>InitNetCore\<close>, starts threads through a
  \<^verbatim>\<open>TaskManager\<close>, and starts a \<^verbatim>\<open>ServerService\<close> (a \<^verbatim>\<open>Listener\<close> with a hundred accept events) or a client
  service (\<^verbatim>\<open>Connector\<close>s). Threads loop in \<^verbatim>\<open>IOCPCore::ProcessQueuedCompletionStatusEx\<close>, which dispatches
  completions, also those of failed calls, to sessions, listeners and connectors, or in
  \<^verbatim>\<open>ProcessQueuedCompletionStatus\<close>, which drops failed calls. A \<^verbatim>\<open>Session\<close> owns a \<^verbatim>\<open>RecvBuffer\<close>; a \<^verbatim>\<open>PacketSession\<close>
  cuts received bytes into packets and serializes packets to send into the \<^verbatim>\<open>SendBuffer\<close> of the
  thread, queues them, and hands them to \<^verbatim>\<open>Session::_send\<close> in \<^verbatim>\<open>Flush\<close>. Handlers push jobs to
  \<^verbatim>\<open>JobSerializer\<close>s, which run them one after the other, and to the \<^verbatim>\<open>GlobalJobWorker\<close>. All objects come
  from the size-class pools of \<^verbatim>\<open>Memory\<close>, and shared state is guarded by \<^verbatim>\<open>RWLock\<close>.

  \<^bold>\<open>Theories.\<close>
  \<^item> \<open>Prelude\<close>: machine types of \<^verbatim>\<open>CoreTypes.h\<close>, outcomes (a returned value or the fault that stops the
    operation), transition systems, the locales \<open>invariant_system\<close> and \<open>simulation\<close>.
  \<^item> \<open>Error_Handler\<close> (\<^verbatim>\<open>ErrorHandler.h\<close>): error codes and names, the last-error cell, the checkers.
  \<^item> \<open>RW_Lock\<close> (\<^verbatim>\<open>RWLock.h\<close>, \<^verbatim>\<open>RWLock.cpp\<close>): the lock word and the four operations, once as loops against an
    environment and once as a step relation of any number of threads with one atomic access per step.
    Mutual exclusion, a refinement to an abstract reentrant read-write lock, termination by time-out,
    and what goes wrong with thread ids whose low 16 bits are zero and with 65536 read guards. The runs of
    threads are those with ids 1 to 65535 and with fewer guards than the 16-bit counters hold.
  \<^item> \<open>Lock_Containers\<close> (\<^verbatim>\<open>LockQueue.h\<close>, \<^verbatim>\<open>LockStack.h\<close>, \<^verbatim>\<open>LockPriorityQueue.h\<close>): each operation under its
    lock; locales for containers, queues, stacks and priority queues, interpreted by the three.
  \<^item> \<open>Guarded_Objects\<close> (\<^verbatim>\<open>Lock.h\<close>, \<^verbatim>\<open>LockQueue.h\<close>, \<^verbatim>\<open>LockPriorityQueue.h\<close>): threads that run the statements of an operation one
    access at a time under a scope guard, among the steps of the lock. The locale \<open>guarded_object\<close> makes them a
    simulation of an object whose operations take effect at once; two containers interpret it, with all their
    operations that compile, also those that take the lock again inside.
  \<^item> \<open>Recv_Buffer\<close> (\<^verbatim>\<open>RecvBuffer.h\<close>, \<^verbatim>\<open>RecvBuffer.cpp\<close>): 32-bit positions over a vector; the locale
    \<open>stream_store\<close> of byte streams and its interpretation.
  \<^item> \<open>Send_Buffer\<close> (\<^verbatim>\<open>SendBuffer.h\<close>, \<^verbatim>\<open>SendBufferManager.h\<close> and their sources): a store of buffers with the
    pool and the thread-local references; reserved regions are disjoint.
  \<^item> \<open>Packets\<close> (\<^verbatim>\<open>PacketWrapper.h\<close>, \<^verbatim>\<open>PacketSession.h\<close>, \<^verbatim>\<open>PacketSession.cpp\<close>): headers as bytes, \<^verbatim>\<open>Serialize\<close>, \<^verbatim>\<open>Send\<close>,
    \<^verbatim>\<open>SendRaw\<close>, \<^verbatim>\<open>Flush\<close>, \<^verbatim>\<open>OnRecv\<close>; sending and receiving are inverse on whole packets.
  \<^item> \<open>FlatBuffers_Interface\<close>: the library that the generated packet types call, as a record of functions, and
    what is assumed of it (\<open>builder_contract\<close>, \<open>reader_contract\<close>, \<open>buffer_contract\<close>); a plain format of our own meets
    the three contracts, so they can hold.
  \<^item> \<open>Packet_Types\<close> (\<^verbatim>\<open>src/includes/fbs/Packet_generated.h\<close>, \<^verbatim>\<open>Test_generated.h\<close>, \<^verbatim>\<open>Test2_generated.h\<close>): the tables, builders,
    accessors, verifiers and buffer functions of the three packet types over that interface; what is
    built is read back, missing and default fields and unions included.
  \<^item> \<open>Memory_Pool\<close> (\<^verbatim>\<open>Memory.h\<close>, \<^verbatim>\<open>MemoryPool.h\<close>, \<^verbatim>\<open>MemoryAllocator.h\<close>, \<^verbatim>\<open>ObjectPool.h\<close> and their sources): the
    pool table the constructor builds, blocks with headers, \<^verbatim>\<open>Allocate\<close> and \<^verbatim>\<open>Release\<close>; the locale
    \<open>allocator\<close>, interpreted by \<^verbatim>\<open>Memory\<close> and \<^verbatim>\<open>ObjectPool\<close>.
  \<^item> \<open>Memory_Lifetime\<close> (\<^verbatim>\<open>Memory.cpp\<close>): every block is in use, in a pool or freed; the destructor frees the
    rest. The locale \<open>allocator\<close> is interpreted once more, with this invariant.
  \<^item> \<open>Pooled_Objects\<close> (\<^verbatim>\<open>Memory.h\<close>, \<^verbatim>\<open>MemoryAllocator.h\<close>, \<^verbatim>\<open>ObjectPool.h\<close>, \<^verbatim>\<open>FBAllocator.h\<close>): \<^verbatim>\<open>xxnew\<close>, \<^verbatim>\<open>xxdelete\<close>,
    \<^verbatim>\<open>make_shared\<close> and copies of shared pointers in the locale \<open>object_allocator\<close>, which extends
    \<open>allocator\<close>: objects live exactly as long as their pointers.
  \<^item> \<open>Jobs\<close> (\<^verbatim>\<open>JobSerializer.h\<close>, \<^verbatim>\<open>JobWorker.h\<close>, \<^verbatim>\<open>ReservableJob.h\<close> and their sources): \<^verbatim>\<open>Push\<close> and \<^verbatim>\<open>ExecuteJobs\<close> as
    step relations of any number of threads over the 32-bit count, with null jobs, calls of \<^verbatim>\<open>ExecuteJobs\<close> by the
    application and \<^verbatim>\<open>ClearJobs\<close>; one executor at a time, first in first out and no lost job, each under the
    conditions its theorem states, and what happens without them; reserved jobs in the order of their ticks;
    \<^verbatim>\<open>DoJobs\<close> returns.
  \<^item> \<open>Reserved_Jobs\<close> (\<^verbatim>\<open>JobSerializer.h\<close>, \<^verbatim>\<open>JobWorker.h\<close>, \<^verbatim>\<open>JobWorker.cpp\<close>, \<^verbatim>\<open>ReservableJob.h\<close>): reserving, cancelling,
    checking and clearing added to the threads of \<open>Jobs\<close>. The whole simulates the serializer alone, so what holds there holds here; reserved
    jobs run in order, once and not before their tick, and never after they were cancelled in time.
  \<^item> \<open>Lib_Test\<close> (\<^verbatim>\<open>src/LibTest/LibTest.cpp\<close>): the room of the test program, the order of its first reservations,
    and that the call it cancels in every round never runs.
  \<^item> \<open>Sockets\<close> (\<^verbatim>\<open>SocketUtils.h\<close>, \<^verbatim>\<open>SocketUtils.cpp\<close>, \<^verbatim>\<open>AddrUtils.h\<close>): what the helpers make of the results of
    the socket calls, addresses and byte order.
  \<^item> \<open>Session_Send\<close> (\<^verbatim>\<open>Session.cpp\<close>): \<^verbatim>\<open>_send\<close> and \<^verbatim>\<open>_register_send\<close> as a step relation of any number of
    threads; order and completeness of what is sent, and the states in which sending stops.
  \<^item> \<open>Flush_Threads\<close> (\<^verbatim>\<open>PacketSession.cpp\<close>): \<^verbatim>\<open>Send\<close> and \<^verbatim>\<open>Flush\<close> of any number of threads on top of that; order with one thread
    that flushes, overtaking with two.
  \<^item> \<open>Completion_Events\<close> (\<^verbatim>\<open>IOCPEvent.h\<close>, \<^verbatim>\<open>IOCPObject.h\<close>): the events as extensions of \<^verbatim>\<open>OVERLAPPED\<close>, with the
    weak pointer to the object that handles them.
  \<^item> \<open>Sessions\<close> (\<^verbatim>\<open>Session.h\<close>, \<^verbatim>\<open>Session.cpp\<close>): all methods of a session, run one at a time, on
    a state with one service and its sessions and a trace of posted calls and callbacks. The locale
    \<open>packet_handler\<close> is what a session needs of its \<^verbatim>\<open>OnRecv\<close>, \<open>session_registry\<close> what it needs of its
    service; both are interpreted.
  \<^item> \<open>Session_Agree\<close> (\<^verbatim>\<open>Session.cpp\<close>): the step relation of \<open>Session_Send\<close> and the function of \<open>Sessions\<close> are
    two models of the same code and have the same outcomes.
  \<^item> \<open>Packet_Link\<close>: a sender and a receiver joined by a stream of bytes; what the receiver sees is what was sent.
  \<^item> \<open>Services\<close> (\<^verbatim>\<open>IOCPCore.cpp\<close>, \<^verbatim>\<open>Service.cpp\<close>, \<^verbatim>\<open>ClientServiceEx.cpp\<close>, \<^verbatim>\<open>Listener.cpp\<close>, \<^verbatim>\<open>Connector.cpp\<close>):
    completion dispatch, the three services, accepting and connecting.
  \<^item> \<open>Session_System\<close>: what the sessions of a running service keep, whatever the service is. The locale
    \<open>service_system\<close> says what a service's own invariant must allow them; the server and the client interpret it.
  \<^item> \<open>Server_System\<close>: a running server as a step relation (a completion of any call in flight, a send,
    a \<^verbatim>\<open>Disconnect\<close> by the application) and its invariant: what is in flight, and with which events.
  \<^item> \<open>Server_Runs\<close>: \<^verbatim>\<open>ServerService::Start\<close> establishes the invariant; what holds in every state of a
    server from there, what happens to a session that is released with a receive in flight, and what
    \<^verbatim>\<open>Stop\<close> leaves behind.
  \<^item> \<open>Client_System\<close>: a running client with several connections as a step relation, in which calls also fail,
    and its invariant: which connects are in flight, and how many sessions there are.
  \<^item> \<open>Client_Runs\<close>: \<^verbatim>\<open>ClientServiceEx::Start\<close> on every outcome of its connects; what holds in every state of a
    client from there, what the completion of a connect does, and that a failed connect is lost.
  \<^item> \<open>Tasks\<close> (\<^verbatim>\<open>TaskManager.cpp\<close>, \<^verbatim>\<open>TaskManagerEx.cpp\<close>, \<^verbatim>\<open>CoreTLS.cpp\<close>): threads with their ids and thread-local
    variables.
  \<^item> \<open>Task_Threads\<close> (\<^verbatim>\<open>TaskManager.cpp\<close>): \<^verbatim>\<open>AddTask\<close> among threads, whose tasks may end before their entry is
    inserted.
  \<^item> \<open>Core_Global\<close> (\<^verbatim>\<open>CoreGlobal.cpp\<close>, \<^verbatim>\<open>CoreLogger.h\<close>, \<^verbatim>\<open>Utils.h\<close>): the global objects from \<^verbatim>\<open>InitNetCore\<close> to the
    end of the process, the logger as the calls it makes to glog, string conversion.
  \<^item> \<open>Test_Programs\<close> (\<^verbatim>\<open>src/TestServer/\<close>, \<^verbatim>\<open>src/TestClient/\<close>): packet manager, session manager and callbacks, and
    the rounds of the threads and input loops, on top of the library; the messages one program builds
    are those the other logs.
  \<^item> \<open>Program_Start\<close> (\<^verbatim>\<open>TestServer.cpp\<close>, \<^verbatim>\<open>TestClient.cpp\<close>): the first half of both \<^verbatim>\<open>main\<close> functions, which brings a program
    into the states of \<open>Server_Runs\<close> and \<open>Client_Runs\<close>.
  \<^item> \<open>Spec2Isabelle\<close>: delivery of packets from one session to another.

  \<^bold>\<open>Conventions.\<close> Integers keep their width and wrap. A pointer is a number into a store, a null
  pointer is \<open>None\<close>. An operation that can crash, throw or run into undefined behaviour returns an
  \<open>outcome\<close>. What a system call, the clock or the application's code answers is an argument of the
  definition that asks; hypotheses on it are those stated in the theorems. Loops that may not end
  are partial functions with value \<open>None\<close> for not returning (\<open>WriteLock_loop\<close>, \<open>OnRecv_loop\<close>, \<open>DoJobs_loop\<close>,
  \<open>LockQueue_Clear_into\<close>), and that they return is proved, or that they do not. \<open>Listener_RegisterAccept\<close>
  recurses over the list of its attempts and is \<open>None\<close> when all of them fail. Numbers of elements and of history
  are natural numbers.

  \<^bold>\<open>Configuration.\<close> \<^verbatim>\<open>USE_BIG_MEMORY_BLOCK\<close> and \<^verbatim>\<open>USE_GLOBAL_JOB_SERIALIZER\<close> are defined, as in the sources.

  \<^bold>\<open>Lifetimes.\<close> A session lives as long as the service, an accept event, a handler or the application has a
  shared pointer to it; the application's pointers are \<open>nt_held\<close>, and \<open>nt_keep\<close> says whether it keeps one of
  each session it is told of. Events are members of sessions and listeners: to dispatch a completion
  whose event has been destroyed is the fault \<open>UseAfterFree\<close>. Send buffers and pooled objects have their
  references in their own theories.

  \<^bold>\<open>Not modelled.\<close> What glog and the console show, beyond the calls and lines themselves; container
  aliases, forward declarations and include lists; the code of the FlatBuffers library, which is not in the
  repository and is an argument with contracts; the members of the lock containers that do not compile
  when instantiated, and the templates of \<^verbatim>\<open>ErrorHandler.h\<close> that nothing calls; the contents of pooled memory;
  the weak memory model, atomic accesses being sequentially consistent; data races, each access to a shared
  object being one step.

  \<^bold>\<open>Planned.\<close> Interleaving of the receive and disconnect handlers of one session with its senders; several
  serializers in one worker; a stream that cuts packets, for a receiver that would keep the parts.
\<close>

section \<open>From one session to the other\<close>

text \<open>C4. A thread sends packets through a packet session with nothing queued, none of the sends faults and
  \<^verbatim>\<open>Flush\<close> hands out the queue. On a connected session that is not sending, \<^verbatim>\<open>_send\<close> then posts one
  \<^verbatim>\<open>WSASend\<close> with exactly these buffers. When a receive of a connected session at the other end
  completes with the bytes of these buffers, its handler runs without a fault, calls \<^verbatim>\<open>OnRecvPacket\<close> once
  for each packet sent, in order and with its id and the place in the receive buffer where its data
  are, and posts the next receive.\<close>

theorem end_to_end_delivery:
  assumes "sw_inv w" "ps_reserved p = []" "\<forall>q \<in> set qs. length (snd q) < 2 ^ 16"
    and "send_packets t qs p w s = Ok (p1, w1)" "PacketSession_Flush now1 now2 p1 = (bufs, p2)" "bufs \<noteq> []"
    and "se_connected (nt_session a r)" "\<not> se_sending (nt_session a r)"
    and "se_sendQueue (nt_session a r) = []" "sn_segments (se_sendEvent (nt_session a r)) = []"
    and "recv_ready r' b" "qs \<noteq> []" "length (wire qs) \<le> 65536"
  shows "nt_trace (Session_send r bufs io a) =
      nt_trace a @ [Posted (WSASend (se_socket (nt_session a r)) bufs) (posted_ok io)] \<and>
    (\<exists>b' calls. recv_completion PacketSession_OnRecv r' (concat (map (wsabuf_bytes w1) bufs)) io' b = Some (Ok b') \<and>
      nt_trace b' = nt_trace b @ [OnRecv r' calls, recv_posted r' io' b] \<and> length calls = length qs \<and>
      map2 (\<lambda>(pos, i) q. (i, take (length (snd q)) (drop pos (rb_buffer (se_recvBuffer (nt_session b' r'))))))
        calls qs = qs)"
proof
  show "nt_trace (Session_send r bufs io a) =
      nt_trace a @ [Posted (WSASend (se_socket (nt_session a r)) bufs) (posted_ok io)]"
    using assms(6-10) by (intro Session_send_idle) (simp_all add: send_idle_def)
  have ok: "\<forall>q \<in> set qs. packet_ok q"
    and bytes: "concat (map (wsabuf_bytes w1) (ps_reserved p1)) = wire qs"
    using send_packets_ok [OF assms(1) _ assms(3,4)] assms(2) by simp_all
  have bufs: "bufs = ps_reserved p1"
    using assms(5,6) by (auto simp: PacketSession_Flush_def Let_def split: if_splits)
  have "wire qs \<noteq> []"
    using assms(12) by (cases qs) (auto simp: packet_bytes_def header_bytes_def uint16_bytes_def)
  moreover have "PacketSession_OnRecv (wire qs @ rest) (of_nat (length (wire qs))) =
      Some (Ok (calls_of 0 qs, of_nat (length (wire qs))))" for rest
    using assms(13) by (intro PacketSession_OnRecv_wire ok) simp
  ultimately obtain b' where b': "recv_completion PacketSession_OnRecv r' (wire qs) io' b = Some (Ok b')"
    "rb_buffer (se_recvBuffer (nt_session b' r')) =
      wire qs @ drop (length (wire qs)) (rb_buffer (se_recvBuffer (nt_session b r')))"
    "nt_trace b' = nt_trace b @ [OnRecv r' (calls_of 0 qs), recv_posted r' io' b]"
    using recv_completion_alone [OF assms(11), of "wire qs" PacketSession_OnRecv "calls_of 0 qs" io'] assms(13)
    by blast
  with bufs bytes calls_deliver [of "rb_buffer (se_recvBuffer (nt_session b' r'))" "[]" qs
      "drop (length (wire qs)) (rb_buffer (se_recvBuffer (nt_session b r')))" 0]
  show "\<exists>b' calls. recv_completion PacketSession_OnRecv r' (concat (map (wsabuf_bytes w1) bufs)) io' b = Some (Ok b') \<and>
      nt_trace b' = nt_trace b @ [OnRecv r' calls, recv_posted r' io' b] \<and> length calls = length qs \<and>
      map2 (\<lambda>(pos, i) q. (i, take (length (snd q)) (drop pos (rb_buffer (se_recvBuffer (nt_session b' r'))))))
        calls qs = qs"
    by auto
qed

theorem end_to_end_delivery_witness:
  "\<exists>bufs w1 b' calls. nt_trace (Session_send 0 bufs \<lparr>io_res = 0, io_error = 0\<rparr> demo_net) =
       [Posted (WSASend 5 bufs) True] \<and>
     recv_completion PacketSession_OnRecv 0 (concat (map (wsabuf_bytes w1) bufs)) \<lparr>io_res = 0, io_error = 0\<rparr> demo_net =
       Some (Ok b') \<and>
     nt_trace b' = [OnRecv 0 calls, Posted (WSARecv 5 0 65536) True] \<and> length calls = 1"
proof -
  obtain p1 w1 where s: "send_packets 0 [(7, [1, 2])] (PacketSession_new 0) demo_world \<lparr>app_last_error = 0\<rparr> = Ok (p1, w1)"
    and tick: "ps_lastSendTick p1 = 0"
    using demo_send [of "\<lparr>app_last_error = 0\<rparr>"] by blast
  from s have "ps_reserved p1 \<noteq> []" by (auto simp: PacketSession_Send_def)
  then obtain bufs p2 where f: "PacketSession_Flush 5000 5000 p1 = (bufs, p2)" and b: "bufs \<noteq> []"
    using tick by (simp add: PacketSession_Flush_def)
  show ?thesis
    using end_to_end_delivery [OF demo_world_ok(1) _ _ s f b _ _ _ _ demo_net_ready,
        of demo_net 0 "\<lparr>io_res = 0, io_error = 0\<rparr>" "\<lparr>io_res = 0, io_error = 0\<rparr>"]
    by (simp add: demo_net_def PacketSession_new_def recv_posted_def SOCKET_ERROR_def) blast
qed

end
